(* ===== verification/Prelude.thy ===== *)
theory Prelude
  imports Main "HOL-Library.Word" "HOL-Library.Monad_Syntax"
begin

text \<open>
  Shared vocabulary of the development: the machine types of the C code, the reading of
  memory blocks as byte lists, and the generic facts on lists, options and words that the
  component theories share.

  Conventions used throughout:
  \<^item> A result of type \<open>'a option\<close> is \<open>None\<close> exactly when the C code would perform an
    access with undefined behaviour (an index outside an array, a copy outside a buffer,
    a dereference of a freed or null object, or a signed overflow).
  \<^item> \<open>ASSERT\<close> and \<open>PANIC\<close> only print a message in this program
    (\<open>debug_panic\<close> in \<^verbatim>\<open>src/a3/fs/debug.c\<close> returns), so they never change the control
    flow and do not appear in the definitions.
  \<^item> \<open>malloc\<close> and \<open>calloc\<close> are taken to succeed.
\<close>

unbundle bit_operations_syntax

type_synonym byte = "8 word"
type_synonym u32 = "32 word"
type_synonym u64 = "64 word"

named_theorems codec_simps \<open>facts about byte encodings\<close>
named_theorems view_simps \<open>how an operation changes the contents seen through an abstraction\<close>
named_theorems inv_intros \<open>preservation of component invariants\<close>

section \<open>Loops over a range of indices\<close>

text \<open>
  \<open>ofold f xs s\<close> runs the loop body \<open>f\<close> for the elements of \<open>xs\<close> in order and stops with
  \<open>None\<close> at the first undefined access; with \<open>xs = [a..<b]\<close> it is the loop
  \<^verbatim>\<open>for (i = a; i < b; i++)\<close>.
\<close>

primrec ofold :: "('a \<Rightarrow> 's \<Rightarrow> 's option) \<Rightarrow> 'a list \<Rightarrow> 's \<Rightarrow> 's option" where
  "ofold f [] s = Some s"
| "ofold f (x # xs) s = Option.bind (f x s) (ofold f xs)"

lemma ofold_append [simp]:
  "ofold f (xs @ ys) s = Option.bind (ofold f xs s) (ofold f ys)"
  by (induction xs arbitrary: s) (auto split: bind_split)

lemma ofold_upt_Suc:
  "a \<le> b \<Longrightarrow> ofold f [a..<Suc b] s = Option.bind (ofold f [a..<b] s) (f b)"
  by (cases "ofold f [a..<b] s") (auto split: bind_split)

text \<open>An invariant indexed by the loop counter is carried from the first index to the last.\<close>

lemma ofold_upt_invariant:
  assumes "a \<le> b" and "P a s"
    and "\<And>i s. a \<le> i \<Longrightarrow> i < b \<Longrightarrow> P i s \<Longrightarrow> \<exists>s'. f i s = Some s' \<and> P (Suc i) s'"
  shows "\<exists>s'. ofold f [a..<b] s = Some s' \<and> P b s'"
  using assms
proof (induction "b - a" arbitrary: b)
  case 0
  then show ?case by simp
next
  case (Suc n)
  then obtain c where c: "b = Suc c" "a \<le> c" by (cases b) auto
  with Suc have "\<exists>s'. ofold f [a..<c] s = Some s' \<and> P c s'"
    by (intro Suc.hyps) auto
  then obtain s' where "ofold f [a..<c] s = Some s'" "P c s'" by blast
  moreover from Suc.prems c this obtain s'' where "f c s' = Some s''" "P (Suc c) s''"
    by (meson lessI)
  ultimately show ?case using c by (auto simp: ofold_upt_Suc simp del: upt_Suc)
qed

lemma find_upt_Some_iff:
  "List.find P [0..<n] = Some i \<longleftrightarrow> i < n \<and> P i \<and> (\<forall>j < i. \<not> P j)"
  by (auto simp: find_Some_iff simp del: upt_rec_numeral)

lemma find_upt_None_iff: "List.find P [0..<n] = None \<longleftrightarrow> (\<forall>i < n. \<not> P i)"
  by (auto simp: find_None_iff simp del: upt_rec_numeral)

section \<open>Copies inside a buffer\<close>

text \<open>\<open>overwrite ofs d xs\<close> is \<open>xs\<close> after \<open>memcpy(xs + ofs, d, length d)\<close>.\<close>

definition overwrite :: "nat \<Rightarrow> 'a list \<Rightarrow> 'a list \<Rightarrow> 'a list" where
  "overwrite ofs d xs = take ofs xs @ d @ drop (ofs + length d) xs"

lemma length_overwrite [simp]:
  "ofs + length d \<le> length xs \<Longrightarrow> length (overwrite ofs d xs) = length xs"
  by (simp add: overwrite_def)

lemma nth_overwrite:
  "ofs + length d \<le> length xs \<Longrightarrow> i < length xs \<Longrightarrow>
   overwrite ofs d xs ! i = (if ofs \<le> i \<and> i < ofs + length d then d ! (i - ofs) else xs ! i)"
  by (auto simp: overwrite_def nth_append)

lemma overwrite_Nil [simp]: "overwrite ofs [] xs = xs"
  by (simp add: overwrite_def)

lemma overwrite_all [simp]: "length d = length xs \<Longrightarrow> overwrite 0 d xs = d"
  by (simp add: overwrite_def)

lemma take_overwrite_read:
  "ofs + length d \<le> length xs \<Longrightarrow> take (length d) (drop ofs (overwrite ofs d xs)) = d"
  by (simp add: overwrite_def)

lemma overwrite_overwrite_adjacent:
  assumes "ofs + length d + length e \<le> length xs"
  shows "overwrite (ofs + length d) e (overwrite ofs d xs) = overwrite ofs (d @ e) xs"
  using assms
  by (intro nth_equalityI) (auto simp: nth_overwrite nth_append)

text \<open>C's remainder truncates towards zero.\<close>

definition c_rem :: "int \<Rightarrow> int \<Rightarrow> int" where
  "c_rem a b = a - b * (sgn a * sgn b * (\<bar>a\<bar> div \<bar>b\<bar>))"

definition c_div :: "int \<Rightarrow> int \<Rightarrow> int" where
  "c_div a b = sgn a * sgn b * (\<bar>a\<bar> div \<bar>b\<bar>)"

lemma c_rem_nonneg: "0 \<le> a \<Longrightarrow> 0 < b \<Longrightarrow> c_rem a b = a mod b"
  by (cases "a = 0") (auto simp: c_rem_def minus_mult_div_eq_mod)

lemma c_div_nonneg: "0 \<le> a \<Longrightarrow> 0 < b \<Longrightarrow> c_div a b = a div b"
  by (cases "a = 0") (auto simp: c_div_def)

text \<open>\<open>DIV_ROUND_UP\<close> of \<^verbatim>\<open>src/a3/fs/round.h\<close>.\<close>

definition DIV_ROUND_UP :: "nat \<Rightarrow> nat \<Rightarrow> nat" where
  "DIV_ROUND_UP x step = (x + step - 1) div step"

lemma DIV_ROUND_UP_0 [simp]: "0 < s \<Longrightarrow> DIV_ROUND_UP 0 s = 0"
  by (simp add: DIV_ROUND_UP_def)

lemma DIV_ROUND_UP_1 [simp]: "DIV_ROUND_UP n 1 = n" "DIV_ROUND_UP n (Suc 0) = n"
  by (simp_all add: DIV_ROUND_UP_def)

lemma DIV_ROUND_UP_bound: "0 < s \<Longrightarrow> n \<le> s * DIV_ROUND_UP n s"
proof -
  assume "0 < s"
  then have "n + s - 1 < s * Suc ((n + s - 1) div s)"
    by (simp add: dividend_less_times_div)
  with \<open>0 < s\<close> show ?thesis unfolding DIV_ROUND_UP_def by simp
qed

lemma less_DIV_ROUND_UP_iff: "0 < s \<Longrightarrow> k < DIV_ROUND_UP n s \<longleftrightarrow> k * s < n"
proof -
  assume s: "0 < s"
  have "k < (n + s - 1) div s \<longleftrightarrow> Suc k \<le> (n + s - 1) div s" by auto
  also have "\<dots> \<longleftrightarrow> Suc k * s \<le> n + s - 1" using s by (simp add: less_eq_div_iff_mult_less_eq)
  also have "\<dots> \<longleftrightarrow> k * s < n" using s by auto
  finally show ?thesis by (simp add: DIV_ROUND_UP_def)
qed

end
