(* ===== verification/Codec.thy ===== *)
theory Codec
  imports Prelude
begin

text \<open>
  The memory layout of integers and integer arrays on the target (little endian): what
  \<open>memcpy\<close> between a structure and a sector buffer does to the structure's fields. The
  encodings are shared by the bitmap file, the on-disk inode, the indirect blocks and the
  directory entries.
\<close>

section \<open>One integer\<close>

definition le_bytes :: "nat \<Rightarrow> 'a::len word \<Rightarrow> byte list" where
  "le_bytes n w = map (\<lambda>k. ucast (drop_bit (8 * k) w)) [0..<n]"

primrec le_word :: "byte list \<Rightarrow> 'a::len word" where
  "le_word [] = 0"
| "le_word (b # bs) = ucast b OR push_bit 8 (le_word bs)"

lemma length_le_bytes [simp]: "length (le_bytes n w) = n"
  by (simp add: le_bytes_def)

lemma bit_le_word:
  "bit (le_word bs :: 'a::len word) i \<longleftrightarrow>
     i < LENGTH('a) \<and> i div 8 < length bs \<and> bit (bs ! (i div 8)) (i mod 8)"
proof (induction bs arbitrary: i)
  case Nil
  then show ?case by simp
next
  case (Cons b bs)
  show ?case
  proof (cases "i < 8")
    case True
    then show ?thesis
      by (auto simp: bit_or_iff bit_push_bit_iff bit_ucast_iff)
  next
    case False
    then obtain j where j: "i = j + 8" by (metis add.commute le_Suc_ex not_less)
    have "\<not> bit b (j + 8)" by (auto dest: bit_imp_le_length)
    moreover have "(j + 8) div 8 = Suc (j div 8)" by simp
    ultimately show ?thesis
      using Cons.IH [of j] by (auto simp: j bit_or_iff bit_push_bit_iff bit_ucast_iff)
  qed
qed

lemma le_word_le_bytes [codec_simps]:
  assumes "LENGTH('a) = 8 * n"
  shows "le_word (le_bytes n w) = (w :: 'a::len word)"
proof (rule bit_word_eqI)
  fix i assume i: "i < LENGTH('a)"
  with assms have "i div 8 < n" by auto
  moreover have "8 * (i div 8) + i mod 8 = i" by simp
  ultimately show "bit (le_word (le_bytes n w) :: 'a word) i = bit w i"
    using i by (simp add: bit_le_word le_bytes_def bit_ucast_iff bit_drop_bit_eq)
qed

lemma le_bytes_le_word [codec_simps]:
  assumes "length bs = n" and "8 * n \<le> LENGTH('a)"
  shows "le_bytes n (le_word bs :: 'a::len word) = bs"
proof (rule nth_equalityI)
  show "length (le_bytes n (le_word bs :: 'a word)) = length bs" by (simp add: assms)
next
  fix k assume "k < length (le_bytes n (le_word bs :: 'a word))"
  then have k: "k < n" by simp
  show "le_bytes n (le_word bs :: 'a word) ! k = bs ! k"
  proof (rule bit_word_eqI)
    fix j :: nat assume j: "j < LENGTH(8)"
    then have "8 * k + j < LENGTH('a)" "(8 * k + j) div 8 = k" "(8 * k + j) mod 8 = j"
      using assms(2) k by auto
    with j k show "bit (le_bytes n (le_word bs :: 'a word) ! k) j = bit (bs ! k) j"
      by (simp add: le_bytes_def bit_ucast_iff bit_drop_bit_eq bit_le_word assms(1))
  qed
qed

section \<open>Arrays of integers\<close>

definition words_to_bytes :: "nat \<Rightarrow> 'a::len word list \<Rightarrow> byte list" where
  "words_to_bytes w ws = concat (map (le_bytes w) ws)"

primrec bytes_to_words :: "nat \<Rightarrow> nat \<Rightarrow> byte list \<Rightarrow> 'a::len word list" where
  "bytes_to_words w 0 bs = []"
| "bytes_to_words w (Suc n) bs = le_word (take w bs) # bytes_to_words w n (drop w bs)"

lemma length_words_to_bytes [simp]: "length (words_to_bytes w ws) = w * length ws"
  by (induction ws) (auto simp: words_to_bytes_def)

lemma length_bytes_to_words [simp]: "length (bytes_to_words w n bs) = n"
  by (induction n arbitrary: bs) auto

lemma words_to_bytes_simps [simp]:
  "words_to_bytes w [] = []"
  "words_to_bytes w (x # xs) = le_bytes w x @ words_to_bytes w xs"
  by (simp_all add: words_to_bytes_def)

lemma bytes_to_words_to_bytes [codec_simps]:
  assumes "LENGTH('a) = 8 * w"
  shows "length ws = n \<Longrightarrow> bytes_to_words w n (words_to_bytes w ws @ rest) = (ws :: 'a::len word list)"
  using assms by (induction ws arbitrary: n) (auto simp: le_word_le_bytes)

lemma bytes_to_words_to_bytes' [codec_simps]:
  assumes "LENGTH('a) = 8 * w"
  shows "length ws = n \<Longrightarrow> bytes_to_words w n (words_to_bytes w ws) = (ws :: 'a::len word list)"
  using bytes_to_words_to_bytes [OF assms, of ws n "[]"] by simp

lemma words_to_bytes_to_words [codec_simps]:
  assumes "8 * w \<le> LENGTH('a)"
  shows "w * n \<le> length bs \<Longrightarrow>
    words_to_bytes w (bytes_to_words w n bs :: 'a::len word list) = take (w * n) bs"
proof (induction n arbitrary: bs)
  case 0
  then show ?case by simp
next
  case (Suc n)
  then have "words_to_bytes w (bytes_to_words w n (drop w bs) :: 'a word list)
      = take (w * n) (drop w bs)"
    by (intro Suc.IH) auto
  with Suc.prems assms show ?case
    by (simp add: le_bytes_le_word take_add [symmetric] add.commute)
qed

lemma nth_bytes_to_words:
  "i < n \<Longrightarrow> bytes_to_words w n bs ! i = le_word (take w (drop (w * i) bs))"
proof (induction n arbitrary: bs i)
  case 0
  then show ?case by simp
next
  case (Suc n)
  then show ?case by (cases i) (auto simp: add.commute)
qed

section \<open>Strings\<close>

definition bytes_of_string :: "string \<Rightarrow> byte list" where
  "bytes_of_string s = map of_char s"

definition string_of_bytes :: "byte list \<Rightarrow> string" where
  "string_of_bytes bs = map (\<lambda>b. char_of (unat b)) bs"

text \<open>The C string that starts at the head of the bytes; there must be a terminating zero.\<close>

definition cstr :: "byte list \<Rightarrow> string option" where
  "cstr bs = (if 0 \<in> set bs then Some (string_of_bytes (takeWhile (\<lambda>b. b \<noteq> 0) bs)) else None)"

text \<open>\<open>strncpy (dest, s, n)\<close> pads with zeros; without room for a zero it leaves none.\<close>

definition strncpy :: "string \<Rightarrow> nat \<Rightarrow> byte list" where
  "strncpy s n = take n (bytes_of_string s @ replicate n 0)"

text \<open>The tokens \<open>strtok_r\<close> yields one after the other.\<close>

function strtok :: "char \<Rightarrow> string \<Rightarrow> string list" where
  "strtok d [] = []"
| "strtok d (c # cs) =
     (if c = d then strtok d cs
      else (c # takeWhile (\<lambda>x. x \<noteq> d) cs) # strtok d (dropWhile (\<lambda>x. x \<noteq> d) cs))"
  by pat_completeness auto
termination
  by (relation "measure (\<lambda>(d, s). length s)") (auto simp: le_imp_less_Suc length_dropWhile_le)

lemma of_char_8 [simp]: "char_of (unat (of_char c :: byte)) = c"
proof -
  have "(of_char c :: byte) = of_nat (of_char c)" by (simp add: of_nat_of_char)
  moreover have "of_char c < (256 :: nat)" using nat_of_char_less_256 by simp
  ultimately have "unat (of_char c :: byte) = of_char c" by (simp only:) (simp add: unat_of_nat)
  then show ?thesis by simp
qed

lemma string_of_bytes_of_string [codec_simps]: "string_of_bytes (bytes_of_string s) = s"
  by (induction s) (simp_all add: string_of_bytes_def bytes_of_string_def)

lemma length_bytes_of_string [simp]: "length (bytes_of_string s) = length s"
  by (simp add: bytes_of_string_def)

lemma length_strncpy [simp]: "length (strncpy s n) = n"
  by (simp add: strncpy_def)

text \<open>Decimal notation.\<close>

fun decimal :: "nat \<Rightarrow> string" where
  "decimal n = (if n < 10 then [char_of (48 + n)] else decimal (n div 10) @ [char_of (48 + n mod 10)])"

declare decimal.simps [simp del]

end
