(* ===== verification/Block_Device.thy ===== *)
theory Block_Device
  imports Codec
begin

text \<open>
  The block devices of \<^verbatim>\<open>src/a3/fs/block.c\<close> and their drivers: the IDE driver of
  \<^verbatim>\<open>src/a3/fs/ide.c\<close>, which reads and writes a file of the host (its contents are the byte
  list called \<open>img\<close> below), and the partition driver of \<^verbatim>\<open>src/a3/fs/partition.c\<close>, which
  forwards to the block device the partition lies on.
\<close>

section \<open>The IDE driver\<close>

abbreviation BLOCK_SECTOR_SIZE :: nat where
  "BLOCK_SECTOR_SIZE \<equiv> 512"

text \<open>
  The byte offset is computed as \<open>sec_no * BLOCK_SECTOR_SIZE\<close> in \<open>uint32_t\<close>, before it is
  widened to the \<open>off_t\<close> of \<open>lseek\<close>.
\<close>

definition ide_offset :: "u32 \<Rightarrow> nat" where
  "ide_offset sec_no = unat (sec_no * 512)"

text \<open>
  \<open>read\<close> past the end of the host file transfers fewer bytes and leaves the rest of the
  buffer as it was; \<open>write\<close> past the end extends the file, filling the gap with zeros.
\<close>

definition ide_read :: "u32 \<Rightarrow> byte list \<Rightarrow> byte list \<Rightarrow> byte list" where
  "ide_read sec_no buffer img =
     overwrite 0 (take BLOCK_SECTOR_SIZE (drop (ide_offset sec_no) img)) buffer"

definition ide_write :: "u32 \<Rightarrow> byte list \<Rightarrow> byte list \<Rightarrow> byte list" where
  "ide_write sec_no buffer img =
     (let off = ide_offset sec_no; data = take BLOCK_SECTOR_SIZE buffer
      in overwrite off data (img @ replicate (off - length img) 0))"

section \<open>Block devices\<close>

text \<open>
  A block holds its driver by value: \<open>block_operations\<close> and \<open>aux\<close> of the structure become one
  of the two drivers, and a partition holds the block it lies on.
\<close>

datatype block =
    Block (block_name: string) (block_fname: string) (block_size: u32) (block_ops: block_driver)
      (read_cnt: u64) (write_cnt: u64)
and block_driver =
    Ide_driver
  | Partition_driver (p_block: block) (p_start: u32)

text \<open>
  \<open>check_sector\<close> says whether the request is within the device; when it is not, the code
  prints a message and carries on, so the driver is called all the same.
\<close>

definition check_sector :: "block \<Rightarrow> u32 \<Rightarrow> bool" where
  "check_sector b sector \<longleftrightarrow> sector < block_size b"

primrec block_read :: "block \<Rightarrow> u32 \<Rightarrow> byte list \<Rightarrow> byte list \<Rightarrow> block \<times> byte list"
  and driver_read :: "block_driver \<Rightarrow> u32 \<Rightarrow> byte list \<Rightarrow> byte list \<Rightarrow> block_driver \<times> byte list"
where
  "block_read (Block n fn sz ops rc wc) sector buffer img =
     (let (ops', buffer') = driver_read ops sector buffer img
      in (Block n fn sz ops' (rc + 1) wc, buffer'))"
| "driver_read Ide_driver sector buffer img = (Ide_driver, ide_read sector buffer img)"
| "driver_read (Partition_driver p start) sector buffer img =
     (let (p', buffer') = block_read p (start + sector + 1) buffer img
      in (Partition_driver p' start, buffer'))"

primrec block_write :: "block \<Rightarrow> u32 \<Rightarrow> byte list \<Rightarrow> byte list \<Rightarrow> block \<times> byte list"
  and driver_write :: "block_driver \<Rightarrow> u32 \<Rightarrow> byte list \<Rightarrow> byte list \<Rightarrow> block_driver \<times> byte list"
where
  "block_write (Block n fn sz ops rc wc) sector buffer img =
     (let (ops', img') = driver_write ops sector buffer img
      in (Block n fn sz ops' rc (wc + 1), img'))"
| "driver_write Ide_driver sector buffer img = (Ide_driver, ide_write sector buffer img)"
| "driver_write (Partition_driver p start) sector buffer img =
     (let (p', img') = block_write p (start + sector + 1) buffer img
      in (Partition_driver p' start, img'))"

definition block_register :: "string \<Rightarrow> string \<Rightarrow> u32 \<Rightarrow> block_driver \<Rightarrow> block" where
  "block_register name fname sz ops = Block (take 16 name) (take 100 fname) sz ops 0 0"

section \<open>Physical sectors\<close>

text \<open>The sector of the host file a request ends up at.\<close>

primrec phys :: "block \<Rightarrow> u32 \<Rightarrow> u32" and driver_phys :: "block_driver \<Rightarrow> u32 \<Rightarrow> u32" where
  "phys (Block n fn sz ops rc wc) s = driver_phys ops s"
| "driver_phys Ide_driver s = s"
| "driver_phys (Partition_driver p start) s = phys p (start + s + 1)"

definition in_image :: "byte list \<Rightarrow> u32 \<Rightarrow> bool" where
  "in_image img s \<longleftrightarrow> unat s < 2 ^ 23 \<and> BLOCK_SECTOR_SIZE * (unat s + 1) \<le> length img"

definition dev_valid :: "block \<Rightarrow> byte list \<Rightarrow> u32 \<Rightarrow> bool" where
  "dev_valid b img s \<longleftrightarrow> in_image img (phys b s)"

definition dev_sector :: "block \<Rightarrow> byte list \<Rightarrow> u32 \<Rightarrow> byte list" where
  "dev_sector b img s = take BLOCK_SECTOR_SIZE (drop (BLOCK_SECTOR_SIZE * unat (phys b s)) img)"

lemma ide_offset_in_image: "in_image img s \<Longrightarrow> ide_offset s = BLOCK_SECTOR_SIZE * unat s"
proof -
  assume "in_image img s"
  then have "unat s * unat (512 :: u32) < 2 ^ 32" by (simp add: in_image_def)
  then show ?thesis
    unfolding ide_offset_def by (subst unat_mult_lem [THEN iffD1]) (simp_all add: mult.commute)
qed

lemma phys_inj: "phys b s = phys b t \<Longrightarrow> s = t" and "driver_phys d s = driver_phys d t \<Longrightarrow> s = t"
proof (induction b and d arbitrary: s t and s t)
  case (Partition_driver p start)
  then have "start + s + 1 = start + t + 1" by (metis driver_phys.simps(2))
  then show ?case by simp
qed auto

lemma block_read_snd:
  "snd (block_read b s buf img) = ide_read (phys b s) buf img"
  "snd (driver_read d s buf img) = ide_read (driver_phys d s) buf img"
  by (induction b and d arbitrary: s and s) (auto simp: Let_def split_beta)

lemma block_read_phys:
  "phys (fst (block_read b s buf img)) t = phys b t"
  "driver_phys (fst (driver_read d s buf img)) t = driver_phys d t"
  by (induction b and d arbitrary: s t and s t) (auto simp: Let_def split_beta)

lemma block_write_snd:
  "snd (block_write b s buf img) = ide_write (phys b s) buf img"
  "snd (driver_write d s buf img) = ide_write (driver_phys d s) buf img"
  by (induction b and d arbitrary: s and s) (auto simp: Let_def split_beta)

lemma block_write_phys:
  "phys (fst (block_write b s buf img)) t = phys b t"
  "driver_phys (fst (driver_write d s buf img)) t = driver_phys d t"
  by (induction b and d arbitrary: s t and s t) (auto simp: Let_def split_beta)

lemma length_dev_sector [simp]: "dev_valid b img s \<Longrightarrow> length (dev_sector b img s) = BLOCK_SECTOR_SIZE"
  by (auto simp: dev_valid_def in_image_def dev_sector_def)

lemma block_read_eq [view_simps]:
  assumes "dev_valid b img s" and "length buf = BLOCK_SECTOR_SIZE"
  shows "snd (block_read b s buf img) = dev_sector b img s"
proof -
  from assms(1) have "in_image img (phys b s)" by (simp add: dev_valid_def)
  moreover from length_dev_sector [OF assms(1)] assms(2)
  have "length (dev_sector b img s) = length buf" by simp
  ultimately show ?thesis
    using overwrite_all by (simp add: block_read_snd ide_read_def ide_offset_in_image dev_sector_def)
qed

lemma ide_write_in_image:
  "in_image img s \<Longrightarrow> length buf = BLOCK_SECTOR_SIZE \<Longrightarrow>
   ide_write s buf img = overwrite (BLOCK_SECTOR_SIZE * unat s) buf img"
  by (auto simp: ide_write_def Let_def ide_offset_in_image in_image_def)

lemma length_block_write:
  assumes "dev_valid b img s" and "length buf = BLOCK_SECTOR_SIZE"
  shows "length (snd (block_write b s buf img)) = length img"
  using assms by (auto simp: block_write_snd dev_valid_def ide_write_in_image in_image_def)

lemma block_write_dev_sector [view_simps]:
  assumes s: "dev_valid b img s" and t: "dev_valid b img t" and buf: "length buf = BLOCK_SECTOR_SIZE"
  shows "dev_sector b (snd (block_write b s buf img)) t = (if t = s then buf else dev_sector b img t)"
proof -
  define p q where "p = unat (phys b s)" and "q = unat (phys b t)"
  have img: "512 * (p + 1) \<le> length img" "512 * (q + 1) \<le> length img"
    using s t by (simp_all add: dev_valid_def in_image_def p_def q_def)
  have w: "snd (block_write b s buf img) = overwrite (512 * p) buf img"
    using s buf by (simp add: block_write_snd dev_valid_def ide_write_in_image p_def)
  show ?thesis
  proof (cases "t = s")
    case True
    with img buf take_overwrite_read [of "512 * p" buf img] show ?thesis
      by (simp add: w dev_sector_def p_def)
  next
    case False
    then have "q \<noteq> p" using phys_inj(1) [of b t s] word_unat_eq_iff [of "phys b t" "phys b s"]
      by (auto simp: p_def q_def)
    then have "512 * q + 512 \<le> 512 * p \<or> 512 * p + 512 \<le> 512 * q" by linarith
    then have "take 512 (drop (512 * q) (overwrite (512 * p) buf img)) = take 512 (drop (512 * q) img)"
      using img buf by (intro nth_equalityI) (auto simp: nth_overwrite)
    with False show ?thesis by (simp add: w dev_sector_def q_def [symmetric])
  qed
qed

lemma dev_valid_block_write [simp]:
  "dev_valid b img s \<Longrightarrow> length buf = BLOCK_SECTOR_SIZE \<Longrightarrow>
   dev_valid b (snd (block_write b s buf img)) t = dev_valid b img t"
  by (simp add: dev_valid_def in_image_def length_block_write [unfolded dev_valid_def in_image_def])

lemma dev_valid_cong: "(\<And>t. phys b' t = phys b t) \<Longrightarrow> dev_valid b' = dev_valid b"
  by (intro ext) (simp add: dev_valid_def)

lemma dev_sector_cong: "(\<And>t. phys b' t = phys b t) \<Longrightarrow> dev_sector b' = dev_sector b"
  by (intro ext) (simp add: dev_sector_def)

section \<open>Properties\<close>

text \<open>
  C30: A block device stores what is written: after \<open>block_write\<close> to a sector of the host file, a
  read of any such sector returns the written data at that sector and the old contents elsewhere,
  through any stack of partitions.
\<close>

theorem block_write_then_read:
  assumes "dev_valid b img s" and "dev_valid b img t" and "length buf = BLOCK_SECTOR_SIZE"
    and "block_write b s buf img = (b', img')" and "length old = BLOCK_SECTOR_SIZE"
  shows "snd (block_read b' t old img') = (if t = s then buf else snd (block_read b t old img))"
proof -
  have ph: "phys b' u = phys b u" for u using block_write_phys(1) [of b s buf img u] assms(4) by simp
  have img': "img' = snd (block_write b s buf img)" using assms(4) by simp
  have "dev_valid b' img' t"
    unfolding dev_valid_cong [of b' b, OF ph] img' using assms(1-3) by simp
  from block_read_eq [OF this assms(5)] block_read_eq [OF assms(2,5)] block_write_dev_sector [OF assms(1-3)]
  show ?thesis unfolding dev_sector_cong [of b' b, OF ph] img' by simp
qed

definition two_partitions :: block where
  "two_partitions = block_register ''hda1'' ''disk'' 2 (Partition_driver (block_register ''hda'' ''disk'' 4 Ide_driver) 1)"

lemma two_partitions_valid: "dev_valid two_partitions (replicate 2048 0) 0" "dev_valid two_partitions (replicate 2048 0) 1"
  by (simp_all add: two_partitions_def block_register_def dev_valid_def in_image_def)

theorem block_write_then_read_witness:
  "\<exists>b' img'. block_write two_partitions 1 (replicate 512 7) (replicate 2048 0) = (b', img') \<and>
     snd (block_read b' 1 (replicate 512 0) img') = replicate 512 7"
proof -
  obtain b' img' where w: "block_write two_partitions 1 (replicate 512 7) (replicate 2048 0) = (b', img')"
    by fastforce
  from block_write_then_read [OF two_partitions_valid(2,2) _ w, of "replicate 512 0"] w show ?thesis by simp
qed

text \<open>
  C31: The byte offset of the IDE driver is computed in 32 bits, so from 4 GiB on sectors alias:
  sector \<open>s + 2 ^ 23\<close> is sector \<open>s\<close>, although \<open>block.h\<close> calls the sector number good for devices
  up to 2 TB.
\<close>

theorem ide_offset_wraps:
  "ide_read (s + 2 ^ 23) buf img = ide_read s buf img \<and>
   ide_write (s + 2 ^ 23) buf img = ide_write s buf img"
proof -
  have "(s + 2 ^ 23) * 512 = s * 512" by (simp add: distrib_right)
  then have "ide_offset (s + 2 ^ 23) = ide_offset s" unfolding ide_offset_def by (simp only:)
  then show ?thesis by (simp add: ide_read_def ide_write_def)
qed

end
