(* ===== verification/Sector_Store.thy ===== *)
theory Sector_Store
  imports Prelude
begin

text \<open>
  The interface the inode layer relies on: a store of fixed-size sectors with a read and a
  write operation. \<open>view\<close> is what a sector contains, \<open>valid\<close> says which sectors exist,
  \<open>good\<close> which data may be written. The buffer cache provides it.
\<close>

datatype ('k, 'd) store_op = Read_op 'k | Write_op 'k 'd

text \<open>Running a sequence of requests and collecting what the reads return.\<close>

primrec run_store ::
    "('k \<Rightarrow> 's \<Rightarrow> 'd \<times> 's) \<Rightarrow> ('k \<Rightarrow> 'd \<Rightarrow> 's \<Rightarrow> 's) \<Rightarrow> ('k, 'd) store_op list \<Rightarrow> 's \<Rightarrow> 'd list \<times> 's" where
  "run_store rd wr [] s = ([], s)"
| "run_store rd wr (x # xs) s =
     (case x of
        Read_op k \<Rightarrow> let (d, s) = rd k s; (ds, s) = run_store rd wr xs s in (d # ds, s)
      | Write_op k d \<Rightarrow> run_store rd wr xs (wr k d s))"

text \<open>The reference: a plain function from sectors to contents.\<close>

primrec run_plain :: "('k, 'd) store_op list \<Rightarrow> ('k \<Rightarrow> 'd) \<Rightarrow> 'd list \<times> ('k \<Rightarrow> 'd)" where
  "run_plain [] m = ([], m)"
| "run_plain (x # xs) m =
     (case x of
        Read_op k \<Rightarrow> let (ds, m') = run_plain xs m in (m k # ds, m')
      | Write_op k d \<Rightarrow> run_plain xs (m(k := d)))"

definition op_legal :: "('k \<Rightarrow> bool) \<Rightarrow> ('d \<Rightarrow> bool) \<Rightarrow> ('k, 'd) store_op \<Rightarrow> bool" where
  "op_legal valid good x = (case x of Read_op k \<Rightarrow> valid k | Write_op k d \<Rightarrow> valid k \<and> good d)"

lemma run_plain_cong:
  "\<forall>x \<in> set xs. op_legal valid good x \<Longrightarrow> (\<And>k. valid k \<Longrightarrow> m k = m' k) \<Longrightarrow>
   fst (run_plain xs m) = fst (run_plain xs m') \<and>
   (\<forall>k. valid k \<longrightarrow> snd (run_plain xs m) k = snd (run_plain xs m') k)"
proof (induction xs arbitrary: m m')
  case Nil
  then show ?case by simp
next
  case (Cons x xs)
  show ?case
  proof (cases x)
    case (Read_op k)
    then have "m k = m' k" using Cons.prems by (simp add: op_legal_def)
    moreover have "fst (run_plain xs m) = fst (run_plain xs m') \<and>
       (\<forall>j. valid j \<longrightarrow> snd (run_plain xs m) j = snd (run_plain xs m') j)"
      using Cons.prems by (intro Cons.IH) simp_all
    ultimately show ?thesis using Read_op by (simp add: split_beta)
  next
    case (Write_op k d)
    have "fst (run_plain xs (m(k := d))) = fst (run_plain xs (m'(k := d))) \<and>
       (\<forall>j. valid j \<longrightarrow> snd (run_plain xs (m(k := d))) j = snd (run_plain xs (m'(k := d))) j)"
      using Cons.prems by (intro Cons.IH) auto
    with Write_op show ?thesis by simp
  qed
qed

locale sector_store =
  fixes rd :: "'k \<Rightarrow> 's \<Rightarrow> 'd \<times> 's"
    and wr :: "'k \<Rightarrow> 'd \<Rightarrow> 's \<Rightarrow> 's"
    and view :: "'s \<Rightarrow> 'k \<Rightarrow> 'd"
    and ok :: "'s \<Rightarrow> bool"
    and valid :: "'s \<Rightarrow> 'k \<Rightarrow> bool"
    and good :: "'d \<Rightarrow> bool"
  assumes rd_spec: "ok s \<Longrightarrow> valid s k \<Longrightarrow> \<exists>s'. rd k s = (view s k, s') \<and> ok s' \<and> valid s' = valid s \<and>
      (\<forall>j. valid s j \<longrightarrow> view s' j = view s j)"
    and wr_spec: "ok s \<Longrightarrow> valid s k \<Longrightarrow> good d \<Longrightarrow> ok (wr k d s) \<and> valid (wr k d s) = valid s \<and>
      (\<forall>j. valid s j \<longrightarrow> view (wr k d s) j = (if j = k then d else view s j))"
begin

lemma rd_wr_same:
  assumes "ok s" and "valid s k" and "good d"
  shows "fst (rd k (wr k d s)) = d"
  using wr_spec [OF assms] rd_spec [of "wr k d s" k] assms(2) by force

lemma rd_wr_other:
  assumes "ok s" and "valid s k" and "good d" and "valid s j" and "j \<noteq> k"
  shows "fst (rd j (wr k d s)) = view s j"
  using wr_spec [OF assms(1-3)] rd_spec [of "wr k d s" j] assms(4,5) by force

lemma rd_rd:
  assumes "ok s" and "valid s k" and "valid s j" and "rd j s = (d, s')"
  shows "fst (rd k s') = view s k"
  using rd_spec [OF assms(1,3)] rd_spec [of s' k] assms(2,4) by force

text \<open>Any sequence of requests is answered as the plain store answers it.\<close>

lemma run_store_plain:
  assumes "ok s" and "\<forall>x \<in> set xs. op_legal (valid s) good x" and "run_store rd wr xs s = (ds, s')"
  shows "ok s' \<and> valid s' = valid s \<and> ds = fst (run_plain xs (view s)) \<and>
    (\<forall>k. valid s k \<longrightarrow> view s' k = snd (run_plain xs (view s)) k)"
  using assms
proof (induction xs arbitrary: s ds)
  case Nil
  then show ?case by simp
next
  case (Cons x xs)
  show ?case
  proof (cases x)
    case (Read_op k)
    with Cons.prems(2) have "valid s k" by (simp add: op_legal_def)
    from rd_spec [OF Cons.prems(1) this] obtain t where
      t: "rd k s = (view s k, t)" "ok t" "valid t = valid s" "\<forall>j. valid s j \<longrightarrow> view t j = view s j"
      by blast
    obtain es where es: "run_store rd wr xs t = (es, s')" "ds = view s k # es"
      using Cons.prems(3) Read_op t(1) by (auto simp: split_beta prod_eq_iff)
    have legal: "\<forall>x \<in> set xs. op_legal (valid t) good x" using Cons.prems(2) t(3) by simp
    note IH = Cons.IH [OF t(2) legal es(1)]
    have "fst (run_plain xs (view t)) = fst (run_plain xs (view s)) \<and>
      (\<forall>j. valid s j \<longrightarrow> snd (run_plain xs (view t)) j = snd (run_plain xs (view s)) j)"
      using Cons.prems(2) t(4) by (intro run_plain_cong) auto
    with IH es t(3) Read_op show ?thesis by (auto simp: split_beta)
  next
    case (Write_op k d)
    with Cons.prems(2) have "valid s k" "good d" by (simp_all add: op_legal_def)
    from wr_spec [OF Cons.prems(1) this] have
      t: "ok (wr k d s)" "valid (wr k d s) = valid s"
        "\<And>j. valid s j \<Longrightarrow> view (wr k d s) j = ((view s)(k := d)) j" by auto
    have "run_store rd wr xs (wr k d s) = (ds, s')" using Cons.prems(3) Write_op by simp
    moreover have "\<forall>x \<in> set xs. op_legal (valid (wr k d s)) good x" using Cons.prems(2) t(2) by simp
    ultimately have IH: "ok s' \<and> valid s' = valid (wr k d s) \<and> ds = fst (run_plain xs (view (wr k d s))) \<and>
      (\<forall>j. valid (wr k d s) j \<longrightarrow> view s' j = snd (run_plain xs (view (wr k d s))) j)"
      by (intro Cons.IH [OF t(1)])
    have "fst (run_plain xs (view (wr k d s))) = fst (run_plain xs ((view s)(k := d))) \<and>
      (\<forall>j. valid s j \<longrightarrow> snd (run_plain xs (view (wr k d s))) j = snd (run_plain xs ((view s)(k := d))) j)"
      using Cons.prems(2) t(3) by (intro run_plain_cong) auto
    with IH t(2) Write_op show ?thesis by auto
  qed
qed

end

end
