(* ===== verification/Buffer_Cache.thy ===== *)
theory Buffer_Cache
  imports Block_Device Sector_Store
begin

text \<open>
  The write-back buffer cache of \<^verbatim>\<open>src/a3/fs/cache.c\<close>: 64 entries, replaced by the clock
  (second chance) algorithm, in front of the file system's block device.
\<close>

section \<open>State and operations\<close>

definition BUFFER_CACHE_SIZE :: nat where
  "BUFFER_CACHE_SIZE = 64"

record cache_entry =
  occupied :: bool
  disk_sector :: u32
  buffer :: "byte list"
  dirty :: bool
  access :: bool

text \<open>
  \<open>clock\<close> is the static variable of \<open>buffer_cache_evict\<close>; \<open>fs_device\<close> and \<open>image\<close> are the
  block device below and the host file behind it.
\<close>

record bcache =
  cache :: "cache_entry list"
  clock :: nat
  fs_device :: block
  image :: "byte list"

definition buffer_cache_init :: "bcache \<Rightarrow> bcache" where
  "buffer_cache_init s = s\<lparr>cache := map (\<lambda>e. e\<lparr>occupied := False, dirty := False\<rparr>) (cache s)\<rparr>"

definition buffer_cache_flush :: "nat \<Rightarrow> bcache \<Rightarrow> bcache" where
  "buffer_cache_flush i s =
     (let e = cache s ! i
      in if dirty e
         then let (dev, img) = block_write (fs_device s) (disk_sector e) (buffer e) (image s)
              in s\<lparr>fs_device := dev, image := img, cache := (cache s)[i := e\<lparr>dirty := False\<rparr>]\<rparr>
         else s)"

definition buffer_cache_close :: "bcache \<Rightarrow> bcache" where
  "buffer_cache_close s =
     fold (\<lambda>i s. if \<not> occupied (cache s ! i) then s else buffer_cache_flush i s)
       [0..<BUFFER_CACHE_SIZE] s"

definition buffer_cache_lookup :: "u32 \<Rightarrow> bcache \<Rightarrow> nat option" where
  "buffer_cache_lookup sector s =
     List.find (\<lambda>i. occupied (cache s ! i) \<and> disk_sector (cache s ! i) = sector) [0..<BUFFER_CACHE_SIZE]"

lemma clear_access_decreases:
  "h < length c \<Longrightarrow> access (c ! h) \<Longrightarrow>
   length (filter access (c[h := (c ! h)\<lparr>access := False\<rparr>])) < length (filter access c)"
proof (induction c arbitrary: h)
  case Nil
  then show ?case by simp
next
  case (Cons e c)
  then show ?case by (cases h) auto
qed

text \<open>
  The loop of \<open>buffer_cache_evict\<close>. The clock hand always points into the array, which is
  also what makes the loop end: every round clears a reference bit.
\<close>

function clock_sweep :: "cache_entry list \<Rightarrow> nat \<Rightarrow> cache_entry list \<times> nat" where
  "clock_sweep c h =
     (if h < length c \<and> occupied (c ! h) \<and> access (c ! h)
      then clock_sweep (c[h := (c ! h)\<lparr>access := False\<rparr>]) ((h + 1) mod BUFFER_CACHE_SIZE)
      else (c, h))"
  by pat_completeness auto

termination
  by (relation "measure (\<lambda>(c, h). length (filter access c))") (auto simp: clear_access_decreases)

declare clock_sweep.simps [simp del]

definition buffer_cache_evict :: "bcache \<Rightarrow> nat \<times> bcache" where
  "buffer_cache_evict s =
     (let (c, h) = clock_sweep (cache s) (clock s);
          s = s\<lparr>cache := c, clock := h\<rparr>
      in if \<not> occupied (c ! h) then (h, s)
         else let s = (if dirty (c ! h) then buffer_cache_flush h s else s)
              in (h, s\<lparr>cache := (cache s)[h := (cache s ! h)\<lparr>occupied := False\<rparr>]\<rparr>))"

text \<open>
  The part that \<open>buffer_cache_read\<close> and \<open>buffer_cache_write\<close> share: find the slot of the
  sector, or free a slot and fill it from the device.
\<close>

definition cache_slot :: "u32 \<Rightarrow> bcache \<Rightarrow> nat \<times> bcache" where
  "cache_slot sector s =
     (case buffer_cache_lookup sector s of
        Some i \<Rightarrow> (i, s)
      | None \<Rightarrow>
          let (i, s) = buffer_cache_evict s;
              e = cache s ! i;
              (dev, buf) = block_read (fs_device s) sector (buffer e) (image s)
          in (i, s\<lparr>fs_device := dev,
                   cache := (cache s)[i := e\<lparr>occupied := True, disk_sector := sector,
                                             dirty := False, buffer := buf\<rparr>]\<rparr>))"

definition buffer_cache_read :: "u32 \<Rightarrow> bcache \<Rightarrow> byte list \<times> bcache" where
  "buffer_cache_read sector s =
     (let (i, s) = cache_slot sector s; e = cache s ! i
      in (buffer e, s\<lparr>cache := (cache s)[i := e\<lparr>access := True\<rparr>]\<rparr>))"

definition buffer_cache_write :: "u32 \<Rightarrow> byte list \<Rightarrow> bcache \<Rightarrow> bcache" where
  "buffer_cache_write sector source s =
     (let (i, s) = cache_slot sector s; e = cache s ! i
      in s\<lparr>cache := (cache s)[i := e\<lparr>access := True, dirty := True,
                                     buffer := take BLOCK_SECTOR_SIZE source\<rparr>]\<rparr>)"

section \<open>The contents seen through the cache, and the invariant\<close>

definition sector_valid :: "bcache \<Rightarrow> u32 \<Rightarrow> bool" where
  "sector_valid s = dev_valid (fs_device s) (image s)"

definition on_disk :: "bcache \<Rightarrow> u32 \<Rightarrow> byte list" where
  "on_disk s = dev_sector (fs_device s) (image s)"

definition cache_view :: "bcache \<Rightarrow> u32 \<Rightarrow> byte list" where
  "cache_view s k = (case buffer_cache_lookup k s of Some i \<Rightarrow> buffer (cache s ! i) | None \<Rightarrow> on_disk s k)"

definition entry_ok :: "bcache \<Rightarrow> cache_entry \<Rightarrow> bool" where
  "entry_ok s e \<longleftrightarrow> length (buffer e) = BLOCK_SECTOR_SIZE \<and>
     (occupied e \<longrightarrow> sector_valid s (disk_sector e) \<and>
        (\<not> dirty e \<longrightarrow> buffer e = on_disk s (disk_sector e)))"

definition cache_ok :: "bcache \<Rightarrow> bool" where
  "cache_ok s \<longleftrightarrow> length (cache s) = BUFFER_CACHE_SIZE \<and> clock s < BUFFER_CACHE_SIZE \<and>
     (\<forall>e \<in> set (cache s). entry_ok s e) \<and>
     (\<forall>i < BUFFER_CACHE_SIZE. \<forall>j < BUFFER_CACHE_SIZE.
        occupied (cache s ! i) \<and> occupied (cache s ! j) \<and>
        disk_sector (cache s ! i) = disk_sector (cache s ! j) \<longrightarrow> i = j)"

lemma cache_okD:
  assumes "cache_ok s"
  shows "length (cache s) = BUFFER_CACHE_SIZE" and "clock s < BUFFER_CACHE_SIZE"
    and "i < BUFFER_CACHE_SIZE \<Longrightarrow> entry_ok s (cache s ! i)"
    and "i < BUFFER_CACHE_SIZE \<Longrightarrow> j < BUFFER_CACHE_SIZE \<Longrightarrow> occupied (cache s ! i) \<Longrightarrow>
         occupied (cache s ! j) \<Longrightarrow> disk_sector (cache s ! i) = disk_sector (cache s ! j) \<Longrightarrow> i = j"
  using assms by (auto simp: cache_ok_def)

lemma lookup_Some_iff:
  assumes "cache_ok s"
  shows "buffer_cache_lookup k s = Some i \<longleftrightarrow>
    i < BUFFER_CACHE_SIZE \<and> occupied (cache s ! i) \<and> disk_sector (cache s ! i) = k"
proof
  assume "buffer_cache_lookup k s = Some i"
  then show "i < BUFFER_CACHE_SIZE \<and> occupied (cache s ! i) \<and> disk_sector (cache s ! i) = k"
    by (auto simp: buffer_cache_lookup_def find_upt_Some_iff)
next
  assume i: "i < BUFFER_CACHE_SIZE \<and> occupied (cache s ! i) \<and> disk_sector (cache s ! i) = k"
  with cache_okD(4) [OF assms, of _ i] show "buffer_cache_lookup k s = Some i"
    by (auto simp: buffer_cache_lookup_def find_upt_Some_iff) (metis less_irrefl_nat less_trans)
qed

lemma lookup_None_iff:
  "buffer_cache_lookup k s = None \<longleftrightarrow>
    (\<forall>i < BUFFER_CACHE_SIZE. occupied (cache s ! i) \<longrightarrow> disk_sector (cache s ! i) \<noteq> k)"
  by (auto simp: buffer_cache_lookup_def find_upt_None_iff)

lemma cache_view_hit:
  "cache_ok s \<Longrightarrow> i < BUFFER_CACHE_SIZE \<Longrightarrow> occupied (cache s ! i) \<Longrightarrow> disk_sector (cache s ! i) = k \<Longrightarrow>
   cache_view s k = buffer (cache s ! i)"
  using lookup_Some_iff [of s k i] by (simp add: cache_view_def)

lemma cache_view_miss:
  "(\<And>i. i < BUFFER_CACHE_SIZE \<Longrightarrow> occupied (cache s ! i) \<Longrightarrow> disk_sector (cache s ! i) \<noteq> k) \<Longrightarrow>
   cache_view s k = on_disk s k"
  using lookup_None_iff [of k s] by (simp add: cache_view_def)

section \<open>Steps that keep the contents\<close>

text \<open>
  \<open>keeps s s'\<close>: from \<open>s\<close> to \<open>s'\<close> the invariant is kept, and so is what any valid sector
  contains. Flushing, sweeping, evicting and filling a slot are all of this kind.
\<close>

definition keeps :: "bcache \<Rightarrow> bcache \<Rightarrow> bool" where
  "keeps s s' \<longleftrightarrow> cache_ok s' \<and> sector_valid s' = sector_valid s \<and>
     (\<forall>k. sector_valid s k \<longrightarrow> cache_view s' k = cache_view s k)"

lemma keeps_refl: "cache_ok s \<Longrightarrow> keeps s s"
  by (simp add: keeps_def)

lemma keeps_trans: "keeps s t \<Longrightarrow> keeps t u \<Longrightarrow> keeps s u"
  by (simp add: keeps_def)

lemma keepsD:
  assumes "keeps s s'"
  shows "cache_ok s'" and "sector_valid s' = sector_valid s"
    and "sector_valid s k \<Longrightarrow> cache_view s' k = cache_view s k"
  using assms by (auto simp: keeps_def)

text \<open>The contents of the cached entries determine the view, up to the sectors not cached.\<close>

lemma cache_view_cong:
  assumes "cache_ok s" and "cache_ok s'"
    and entries: "\<And>i. i < BUFFER_CACHE_SIZE \<Longrightarrow> occupied (cache s' ! i) = occupied (cache s ! i) \<and>
        (occupied (cache s ! i) \<longrightarrow> disk_sector (cache s' ! i) = disk_sector (cache s ! i) \<and>
           buffer (cache s' ! i) = buffer (cache s ! i))"
    and disk: "(\<And>i. i < BUFFER_CACHE_SIZE \<Longrightarrow> occupied (cache s ! i) \<Longrightarrow> disk_sector (cache s ! i) \<noteq> k) \<Longrightarrow>
        on_disk s' k = on_disk s k"
  shows "cache_view s' k = cache_view s k"
proof (cases "\<exists>i < BUFFER_CACHE_SIZE. occupied (cache s ! i) \<and> disk_sector (cache s ! i) = k")
  case True
  then obtain i where i: "i < BUFFER_CACHE_SIZE" "occupied (cache s ! i)" "disk_sector (cache s ! i) = k"
    by blast
  with entries [OF i(1)] show ?thesis
    using cache_view_hit [OF assms(1) i] cache_view_hit [OF assms(2) i(1), of k] by simp
next
  case False
  then have "cache_view s k = on_disk s k" by (intro cache_view_miss) auto
  moreover from False entries have "cache_view s' k = on_disk s' k" by (intro cache_view_miss) auto
  ultimately show ?thesis using disk False by auto
qed

text \<open>Rewriting one slot without touching the device.\<close>

lemma sector_valid_cache_upd [simp]:
  "sector_valid (s\<lparr>cache := c\<rparr>) = sector_valid s" "sector_valid (s\<lparr>clock := h\<rparr>) = sector_valid s"
  "on_disk (s\<lparr>cache := c\<rparr>) = on_disk s" "on_disk (s\<lparr>clock := h\<rparr>) = on_disk s"
  by (simp_all add: sector_valid_def on_disk_def)

lemma entry_ok_cache_upd [simp]:
  "entry_ok (s\<lparr>cache := c\<rparr>) = entry_ok s" "entry_ok (s\<lparr>clock := h\<rparr>) = entry_ok s"
  by (intro ext, simp add: entry_ok_def)+

lemma device_write:
  assumes w: "block_write (fs_device s) k buf (image s) = (dev, img)"
    and k: "sector_valid s k" and buf: "length buf = BLOCK_SECTOR_SIZE"
  shows "sector_valid (s\<lparr>fs_device := dev, image := img, cache := c\<rparr>) = sector_valid s"
    and "sector_valid s j \<Longrightarrow> on_disk (s\<lparr>fs_device := dev, image := img, cache := c\<rparr>) j =
           (if j = k then buf else on_disk s j)"
proof -
  have ph: "phys dev t = phys (fs_device s) t" for t
    using block_write_phys(1) [of "fs_device s"] w by (metis fst_conv)
  show "sector_valid (s\<lparr>fs_device := dev, image := img, cache := c\<rparr>) = sector_valid s"
    using k buf w dev_valid_block_write [of "fs_device s" "image s" k buf]
    by (intro ext) (simp add: sector_valid_def dev_valid_cong [OF ph])
  show "on_disk (s\<lparr>fs_device := dev, image := img, cache := c\<rparr>) j = (if j = k then buf else on_disk s j)"
    if "sector_valid s j"
    using that k buf w block_write_dev_sector [of "fs_device s" "image s" k j buf]
    by (simp add: sector_valid_def on_disk_def dev_sector_cong [OF ph])
qed

text \<open>Writing a cached sector back to the device and marking it clean.\<close>

lemma keeps_write_back:
  assumes ok: "cache_ok s" and i: "i < BUFFER_CACHE_SIZE" and occ: "occupied (cache s ! i)"
    and e: "e = cache s ! i"
    and w: "block_write (fs_device s) (disk_sector e) (buffer e) (image s) = (dev, img)"
    and s': "s' = s\<lparr>fs_device := dev, image := img, cache := (cache s)[i := e\<lparr>dirty := False\<rparr>]\<rparr>"
  shows "keeps s s'"
proof -
  note len = cache_okD(1) [OF ok]
  have v: "sector_valid s (disk_sector e)" "length (buffer e) = BLOCK_SECTOR_SIZE"
    using cache_okD(3) [OF ok i] occ by (auto simp: entry_ok_def e)
  note dw = device_write [OF w v, where c = "(cache s)[i := e\<lparr>dirty := False\<rparr>]", folded s']
  have cs: "cache s' = (cache s)[i := e\<lparr>dirty := False\<rparr>]" "clock s' = clock s"
    by (simp_all add: s')
  have same: "occupied (cache s' ! j) = occupied (cache s ! j) \<and>
      disk_sector (cache s' ! j) = disk_sector (cache s ! j) \<and> buffer (cache s' ! j) = buffer (cache s ! j)"
    if "j < BUFFER_CACHE_SIZE" for j
    using i len that by (simp add: cs nth_list_update e)
  have entry: "entry_ok s' (cache s' ! j)" if j: "j < BUFFER_CACHE_SIZE" for j
  proof (cases "j = i")
    case True
    then show ?thesis using v dw i len by (simp add: entry_ok_def cs)
  next
    case False
    moreover have "occupied (cache s ! j) \<Longrightarrow> disk_sector (cache s ! j) \<noteq> disk_sector e"
      using cache_okD(4) [OF ok j i] occ False by (auto simp: e)
    ultimately show ?thesis
      using cache_okD(3) [OF ok j] dw by (auto simp: entry_ok_def cs)
  qed
  have "length (cache s') = BUFFER_CACHE_SIZE" by (simp add: cs len)
  with entry have "\<forall>e \<in> set (cache s'). entry_ok s' e" by (metis in_set_conv_nth)
  with ok same have ok': "cache_ok s'"
    unfolding cache_ok_def by (simp add: cs(2) \<open>length (cache s') = _\<close>)
  have "cache_view s' k = cache_view s k" if "sector_valid s k" for k
  proof (rule cache_view_cong [OF ok ok'])
    show "occupied (cache s' ! j) = occupied (cache s ! j) \<and>
      (occupied (cache s ! j) \<longrightarrow> disk_sector (cache s' ! j) = disk_sector (cache s ! j) \<and>
         buffer (cache s' ! j) = buffer (cache s ! j))" if "j < BUFFER_CACHE_SIZE" for j
      using same [OF that] by simp
  next
    assume "\<And>j. j < BUFFER_CACHE_SIZE \<Longrightarrow> occupied (cache s ! j) \<Longrightarrow> disk_sector (cache s ! j) \<noteq> k"
    then have "disk_sector e \<noteq> k" using i occ by (simp add: e)
    with dw(2) [OF that] show "on_disk s' k = on_disk s k" by auto
  qed
  with ok' dw show ?thesis by (simp add: keeps_def)
qed

lemma keeps_flush:
  assumes ok: "cache_ok s" and i: "i < BUFFER_CACHE_SIZE" and occ: "occupied (cache s ! i)"
  shows "keeps s (buffer_cache_flush i s)"
    and "cache (buffer_cache_flush i s) = (cache s)[i := (cache s ! i)\<lparr>dirty := False\<rparr>]"
    and "clock (buffer_cache_flush i s) = clock s"
proof -
  obtain dev img where w: "block_write (fs_device s) (disk_sector (cache s ! i))
      (buffer (cache s ! i)) (image s) = (dev, img)" by fastforce
  have clean: "(cache s)[i := (cache s ! i)\<lparr>dirty := False\<rparr>] = cache s" if "\<not> dirty (cache s ! i)"
  proof -
    from that have "(cache s ! i)\<lparr>dirty := False\<rparr> = cache s ! i" by (cases "cache s ! i") simp
    then show ?thesis by simp
  qed
  show "keeps s (buffer_cache_flush i s)"
    using w keeps_write_back [OF ok i occ refl w refl] keeps_refl [OF ok]
    by (simp add: buffer_cache_flush_def Let_def)
  show "cache (buffer_cache_flush i s) = (cache s)[i := (cache s ! i)\<lparr>dirty := False\<rparr>]"
    and "clock (buffer_cache_flush i s) = clock s"
    using w clean by (simp_all add: buffer_cache_flush_def Let_def)
qed

section \<open>The clock\<close>

text \<open>
  What one sweep does: it only clears reference bits, and it stops at an entry that is free or
  was not referenced.
\<close>

lemma clock_sweep_spec:
  "h < BUFFER_CACHE_SIZE \<Longrightarrow> length c = BUFFER_CACHE_SIZE \<Longrightarrow> clock_sweep c h = (c', h') \<Longrightarrow>
   h' < BUFFER_CACHE_SIZE \<and> length c' = BUFFER_CACHE_SIZE \<and> \<not> (occupied (c' ! h') \<and> access (c' ! h')) \<and>
   (\<forall>i < BUFFER_CACHE_SIZE. c' ! i = c ! i \<or> c' ! i = (c ! i)\<lparr>access := False\<rparr>)"
proof (induction c h rule: clock_sweep.induct)
  case (1 c h)
  show ?case
  proof (cases "occupied (c ! h) \<and> access (c ! h)")
    case False
    with 1 show ?thesis by (subst (asm) (2) clock_sweep.simps) auto
  next
    case True
    let ?c = "c[h := (c ! h)\<lparr>access := False\<rparr>]"
    have "clock_sweep ?c ((h + 1) mod BUFFER_CACHE_SIZE) = (c', h')"
      using "1.prems" True by (subst (asm) clock_sweep.simps) simp
    moreover have "(h + 1) mod BUFFER_CACHE_SIZE < BUFFER_CACHE_SIZE"
      by (simp add: BUFFER_CACHE_SIZE_def)
    ultimately have "h' < BUFFER_CACHE_SIZE \<and> length c' = BUFFER_CACHE_SIZE \<and>
        \<not> (occupied (c' ! h') \<and> access (c' ! h')) \<and>
        (\<forall>i < BUFFER_CACHE_SIZE. c' ! i = ?c ! i \<or> c' ! i = (?c ! i)\<lparr>access := False\<rparr>)"
      using "1.IH" "1.prems" True by simp
    moreover have "(?c ! i)\<lparr>access := False\<rparr> = (c ! i)\<lparr>access := False\<rparr>" if "i < BUFFER_CACHE_SIZE" for i
      using that "1.prems" by (simp add: nth_list_update)
    moreover have "?c ! i = c ! i \<or> ?c ! i = (c ! i)\<lparr>access := False\<rparr>" if "i < BUFFER_CACHE_SIZE" for i
      using that "1.prems" by (simp add: nth_list_update)
    ultimately show ?thesis by metis
  qed
qed

lemma keeps_sweep:
  assumes ok: "cache_ok s" and sw: "clock_sweep (cache s) (clock s) = (c, h)"
  shows "keeps s (s\<lparr>cache := c, clock := h\<rparr>)" and "h < BUFFER_CACHE_SIZE"
proof -
  let ?s = "s\<lparr>cache := c, clock := h\<rparr>"
  from clock_sweep_spec [OF cache_okD(2) [OF ok] cache_okD(1) [OF ok] sw]
  have h: "h < BUFFER_CACHE_SIZE" "length c = BUFFER_CACHE_SIZE"
    and same: "\<And>i. i < BUFFER_CACHE_SIZE \<Longrightarrow> occupied (c ! i) = occupied (cache s ! i) \<and>
      disk_sector (c ! i) = disk_sector (cache s ! i) \<and> buffer (c ! i) = buffer (cache s ! i) \<and>
      dirty (c ! i) = dirty (cache s ! i)"
    by force+
  have "entry_ok s e" if e: "e \<in> set c" for e
  proof -
    from e h(2) obtain i where i: "i < BUFFER_CACHE_SIZE" "e = c ! i" by (auto simp: in_set_conv_nth)
    with cache_okD(3) [OF ok i(1)] same [OF i(1)] show ?thesis by (simp add: entry_ok_def)
  qed
  then have ok': "cache_ok ?s"
    using ok h same unfolding cache_ok_def by simp
  moreover have "cache_view ?s k = cache_view s k" for k
    using same by (intro cache_view_cong [OF ok ok']) auto
  ultimately show "keeps s ?s" by (simp add: keeps_def)
  show "h < BUFFER_CACHE_SIZE" by (rule h)
qed

text \<open>
  Second chance: the hand advances over referenced entries only, and goes round the whole
  array only when every entry was referenced.
\<close>

lemma clock_sweep_second_chance:
  "h < BUFFER_CACHE_SIZE \<Longrightarrow> length c = BUFFER_CACHE_SIZE \<Longrightarrow> clock_sweep c h = (c', h') \<Longrightarrow>
   \<exists>n \<le> BUFFER_CACHE_SIZE. h' = (h + n) mod BUFFER_CACHE_SIZE \<and>
     (\<forall>m < n. occupied (c ! ((h + m) mod BUFFER_CACHE_SIZE)) \<and> access (c ! ((h + m) mod BUFFER_CACHE_SIZE))) \<and>
     (n < BUFFER_CACHE_SIZE \<longrightarrow> \<not> (occupied (c ! h') \<and> access (c ! h')))"
proof (induction c h rule: clock_sweep.induct)
  case (1 c h)
  show ?case
  proof (cases "occupied (c ! h) \<and> access (c ! h)")
    case False
    with 1 have "(c', h') = (c, h)" by (subst (asm) (2) clock_sweep.simps) auto
    with False "1.prems" show ?thesis by (intro exI [of _ 0]) auto
  next
    case True
    let ?c = "c[h := (c ! h)\<lparr>access := False\<rparr>]"
    let ?N = BUFFER_CACHE_SIZE
    have "clock_sweep ?c ((h + 1) mod ?N) = (c', h')"
      using "1.prems" True by (subst (asm) clock_sweep.simps) simp
    moreover have "(h + 1) mod ?N < ?N" by (simp add: BUFFER_CACHE_SIZE_def)
    ultimately obtain n where n: "n \<le> ?N" "h' = (h + 1 + n) mod ?N"
      and passed: "\<And>m. m < n \<Longrightarrow> occupied (?c ! ((h + 1 + m) mod ?N)) \<and> access (?c ! ((h + 1 + m) mod ?N))"
      and stop: "n < ?N \<Longrightarrow> \<not> (occupied (?c ! h') \<and> access (?c ! h'))"
      using "1.IH" "1.prems" True by (auto simp: mod_simps)
    have "n \<noteq> ?N"
    proof
      assume "n = ?N"
      with passed [of "?N - 1"] have "access (?c ! ((h + ?N) mod ?N))" by (simp add: BUFFER_CACHE_SIZE_def)
      with "1.prems" show False by simp
    qed
    with n have "n < ?N" by simp
    have other: "?c ! k = c ! k" if "k \<noteq> h" for k using that by simp
    have ne: "(h + 1 + m) mod ?N \<noteq> h" if "m + 1 < ?N" for m
    proof
      assume "(h + 1 + m) mod ?N = h"
      then have "?N dvd 1 + m" using "1.prems"(1)
        by (metis add.assoc add_diff_cancel_left' mod_eq_dvd_iff_nat le_add1 mod_less)
      with that show False by (auto dest: dvd_imp_le)
    qed
    show ?thesis
    proof (intro exI [of _ "Suc n"] conjI allI impI)
      show "Suc n \<le> ?N" using \<open>n < ?N\<close> by simp
      show "h' = (h + Suc n) mod ?N" using n by simp
    next
      fix m assume "m < Suc n"
      then show "occupied (c ! ((h + m) mod ?N))" and "access (c ! ((h + m) mod ?N))"
        using True "1.prems" passed [of "m - 1"] ne [of "m - 1"] \<open>n < ?N\<close> by (cases m; auto)+
    next
      assume "Suc n < ?N"
      then show "\<not> (occupied (c ! h') \<and> access (c ! h'))"
        using stop \<open>n < ?N\<close> ne [of n] n other by auto
    qed
  qed
qed

section \<open>Eviction and filling\<close>

lemma cache_ok_upd:
  assumes ok: "cache_ok s" and i: "i < BUFFER_CACHE_SIZE" and e: "entry_ok s e"
    and uniq: "\<And>j. occupied e \<Longrightarrow> j < BUFFER_CACHE_SIZE \<Longrightarrow> j \<noteq> i \<Longrightarrow> occupied (cache s ! j) \<Longrightarrow>
      disk_sector (cache s ! j) \<noteq> disk_sector e"
  shows "cache_ok (s\<lparr>cache := (cache s)[i := e]\<rparr>)"
proof -
  have "\<forall>x \<in> set ((cache s)[i := e]). entry_ok s x"
    using ok e set_update_subset_insert [of "cache s" i e] by (auto simp: cache_ok_def)
  moreover have "j = k" if "j < BUFFER_CACHE_SIZE" "k < BUFFER_CACHE_SIZE"
      "occupied ((cache s)[i := e] ! j)" "occupied ((cache s)[i := e] ! k)"
      "disk_sector ((cache s)[i := e] ! j) = disk_sector ((cache s)[i := e] ! k)" for j k
    using that uniq [of j] uniq [of k] cache_okD(4) [OF ok that(1,2)] cache_okD(1) [OF ok]
    by (cases "j = i"; cases "k = i") auto
  ultimately show ?thesis using ok unfolding cache_ok_def by simp
qed

lemma keeps_free_clean_slot:
  assumes ok: "cache_ok s" and i: "i < BUFFER_CACHE_SIZE"
    and clean: "occupied (cache s ! i) \<Longrightarrow> \<not> dirty (cache s ! i)"
  shows "keeps s (s\<lparr>cache := (cache s)[i := (cache s ! i)\<lparr>occupied := False\<rparr>]\<rparr>)"
proof -
  let ?s = "s\<lparr>cache := (cache s)[i := (cache s ! i)\<lparr>occupied := False\<rparr>]\<rparr>"
  have ok': "cache_ok ?s"
    using cache_okD(3) [OF ok i] by (intro cache_ok_upd [OF ok i]) (simp_all add: entry_ok_def)
  note len = cache_okD(1) [OF ok]
  have slot: "j \<noteq> i \<Longrightarrow> cache ?s ! j = cache s ! j" and free: "\<not> occupied (cache ?s ! i)" for j
    using i len by simp_all
  have "cache_view ?s k = cache_view s k" for k
  proof (cases "\<exists>j < BUFFER_CACHE_SIZE. j \<noteq> i \<and> occupied (cache s ! j) \<and> disk_sector (cache s ! j) = k")
    case True
    then obtain j where j: "j < BUFFER_CACHE_SIZE" "j \<noteq> i" "occupied (cache s ! j)" "disk_sector (cache s ! j) = k"
      by blast
    then show ?thesis
      using cache_view_hit [OF ok j(1,3,4)] cache_view_hit [OF ok' j(1), of k] slot [OF j(2)] by simp
  next
    case False
    with slot free have miss: "cache_view ?s k = on_disk ?s k" by (intro cache_view_miss) metis
    show ?thesis
    proof (cases "occupied (cache s ! i) \<and> disk_sector (cache s ! i) = k")
      case True
      then have "cache_view s k = on_disk s k"
        using clean cache_okD(3) [OF ok i] cache_view_hit [OF ok i, of k] by (auto simp: entry_ok_def)
      with miss show ?thesis by simp
    next
      case no: False
      with False have "cache_view s k = on_disk s k" by (intro cache_view_miss) blast
      with miss show ?thesis by simp
    qed
  qed
  with ok' show ?thesis by (simp add: keeps_def)
qed

lemma keeps_evict:
  assumes ok: "cache_ok s" and ev: "buffer_cache_evict s = (i, s')"
  shows "keeps s s'" and "i < BUFFER_CACHE_SIZE" and "\<not> occupied (cache s' ! i)"
    and "j < BUFFER_CACHE_SIZE \<Longrightarrow> occupied (cache s' ! j) \<Longrightarrow>
         occupied (cache s ! j) \<and> disk_sector (cache s' ! j) = disk_sector (cache s ! j)"
proof -
  obtain c h where sw: "clock_sweep (cache s) (clock s) = (c, h)" by fastforce
  define t where "t = s\<lparr>cache := c, clock := h\<rparr>"
  have t: "keeps s t" "h < BUFFER_CACHE_SIZE" "cache t = c"
    using keeps_sweep [OF ok sw] by (auto simp: t_def)
  have same: "occupied (c ! j) = occupied (cache s ! j) \<and> disk_sector (c ! j) = disk_sector (cache s ! j)"
    if "j < BUFFER_CACHE_SIZE" for j
    using clock_sweep_spec [OF cache_okD(2) [OF ok] cache_okD(1) [OF ok] sw] that by force
  have lent: "length (cache t) = BUFFER_CACHE_SIZE" using keepsD(1) [OF t(1)] cache_okD(1) by blast
  define u where "u = (if dirty (c ! h) then buffer_cache_flush h t else t)"
  have "i = h" using ev sw by (auto simp: buffer_cache_evict_def Let_def split: if_splits)
  with t show "i < BUFFER_CACHE_SIZE" by simp
  have "keeps s s' \<and> \<not> occupied (cache s' ! i) \<and> (\<forall>j < BUFFER_CACHE_SIZE. occupied (cache s' ! j) \<longrightarrow>
      occupied (cache s ! j) \<and> disk_sector (cache s' ! j) = disk_sector (cache s ! j))"
  proof (cases "occupied (c ! h)")
    case False
    with ev sw have "s' = t" by (auto simp: buffer_cache_evict_def t_def Let_def)
    with t same False \<open>i = h\<close> show ?thesis by auto
  next
    case True
    with ev sw have s': "s' = u\<lparr>cache := (cache u)[h := (cache u ! h)\<lparr>occupied := False\<rparr>]\<rparr>"
      by (auto simp: buffer_cache_evict_def u_def t_def Let_def)
    have fl: "keeps t u \<and> cache u = c[h := (c ! h)\<lparr>dirty := False\<rparr>] \<or> (u = t \<and> \<not> dirty (c ! h))"
      using keeps_flush [OF keepsD(1) [OF t(1)] t(2)] True t(3) by (auto simp: u_def)
    then have u: "keeps t u" "\<not> dirty (cache u ! h)"
      using keeps_refl [OF keepsD(1) [OF t(1)]] t lent by auto
    have ucs: "occupied (cache u ! j) = occupied (c ! j) \<and> disk_sector (cache u ! j) = disk_sector (c ! j)" for j
      using fl t lent by (cases "j = h") auto
    have lenu: "length (cache u) = BUFFER_CACHE_SIZE" using keepsD(1) [OF u(1)] cache_okD(1) by blast
    have "keeps u s'"
      unfolding s' by (rule keeps_free_clean_slot [OF keepsD(1) [OF u(1)] t(2) u(2)])
    moreover have "\<not> occupied (cache s' ! h)" using t(2) lenu by (simp add: s')
    moreover have "occupied (cache s' ! j) \<longrightarrow> occupied (cache s ! j) \<and> disk_sector (cache s' ! j) = disk_sector (cache s ! j)"
      if "j < BUFFER_CACHE_SIZE" for j
      using that same [OF that] ucs [of j] lenu t(2) by (simp add: s' nth_list_update)
    ultimately show ?thesis using t(1) u(1) \<open>i = h\<close> by (blast intro: keeps_trans)
  qed
  then show "keeps s s'" and "\<not> occupied (cache s' ! i)"
    and "j < BUFFER_CACHE_SIZE \<Longrightarrow> occupied (cache s' ! j) \<Longrightarrow>
         occupied (cache s ! j) \<and> disk_sector (cache s' ! j) = disk_sector (cache s ! j)"
    by auto
qed

lemma keeps_fill:
  assumes ok: "cache_ok s" and i: "i < BUFFER_CACHE_SIZE" and free: "\<not> occupied (cache s ! i)"
    and miss: "\<And>j. j < BUFFER_CACHE_SIZE \<Longrightarrow> occupied (cache s ! j) \<Longrightarrow> disk_sector (cache s ! j) \<noteq> k"
    and k: "sector_valid s k"
    and rd: "block_read (fs_device s) k (buffer (cache s ! i)) (image s) = (dev, buf)"
    and s': "s' = s\<lparr>fs_device := dev, cache := (cache s)[i := (cache s ! i)\<lparr>occupied := True,
               disk_sector := k, dirty := False, buffer := buf\<rparr>]\<rparr>"
  shows "keeps s s'" and "cache s' ! i = (cache s ! i)\<lparr>occupied := True, disk_sector := k,
           dirty := False, buffer := cache_view s k\<rparr>"
proof -
  let ?e = "(cache s ! i)\<lparr>occupied := True, disk_sector := k, dirty := False, buffer := buf\<rparr>"
  let ?t = "s\<lparr>fs_device := dev\<rparr>"
  note len = cache_okD(1) [OF ok]
  have ph: "phys dev t = phys (fs_device s) t" for t
    using block_read_phys(1) [of "fs_device s"] rd by (metis fst_conv)
  have dev: "sector_valid ?t = sector_valid s" "on_disk ?t = on_disk s"
    by (simp_all add: sector_valid_def on_disk_def dev_valid_cong [OF ph] dev_sector_cong [OF ph])
  then have okt: "cache_ok ?t" using ok by (simp add: cache_ok_def entry_ok_def)
  have view: "cache_view s k = on_disk s k" using miss by (rule cache_view_miss)
  have buf: "buf = on_disk s k" "length buf = BLOCK_SECTOR_SIZE"
    using block_read_eq [of "fs_device s" "image s" k "buffer (cache s ! i)"] rd k cache_okD(3) [OF ok i]
    by (auto simp: sector_valid_def on_disk_def entry_ok_def)
  have "cache_ok (?t\<lparr>cache := (cache ?t)[i := ?e]\<rparr>)"
    using buf k miss dev by (intro cache_ok_upd [OF okt i]) (auto simp: entry_ok_def)
  then have ok': "cache_ok s'" by (simp add: s')
  have slot: "j \<noteq> i \<Longrightarrow> cache s' ! j = cache s ! j" and "cache s' ! i = ?e" for j
    using i len by (simp_all add: s')
  then show "cache s' ! i = (cache s ! i)\<lparr>occupied := True, disk_sector := k, dirty := False,
      buffer := cache_view s k\<rparr>" by (simp add: view buf)
  have dev': "sector_valid s' = sector_valid s" "on_disk s' = on_disk s" using dev by (simp_all add: s')
  have "cache_view s' l = cache_view s l" for l
  proof (cases "\<exists>j < BUFFER_CACHE_SIZE. j \<noteq> i \<and> occupied (cache s ! j) \<and> disk_sector (cache s ! j) = l")
    case True
    then obtain j where j: "j < BUFFER_CACHE_SIZE" "j \<noteq> i" "occupied (cache s ! j)" "disk_sector (cache s ! j) = l"
      by blast
    then show ?thesis
      using cache_view_hit [OF ok j(1,3,4)] cache_view_hit [OF ok' j(1), of l] slot by simp
  next
    case False
    then have "cache_view s l = on_disk s l" using free by (intro cache_view_miss) blast
    moreover have "cache_view s' l = on_disk s' l"
    proof (cases "l = k")
      case True
      then show ?thesis using cache_view_hit [OF ok' i, of k] \<open>cache s' ! i = ?e\<close> buf dev' by simp
    next
      case ne: False
      show ?thesis
      proof (rule cache_view_miss)
        fix j assume "j < BUFFER_CACHE_SIZE" "occupied (cache s' ! j)"
        then show "disk_sector (cache s' ! j) \<noteq> l"
          using False ne slot [of j] \<open>cache s' ! i = ?e\<close> by (cases "j = i") auto
      qed
    qed
    ultimately show ?thesis using dev' by simp
  qed
  with ok' dev' show "keeps s s'" by (simp add: keeps_def)
qed

lemma cache_slot_spec:
  assumes ok: "cache_ok s" and k: "sector_valid s k"
  obtains i s' where "cache_slot k s = (i, s')" "keeps s s'" "i < BUFFER_CACHE_SIZE"
    "occupied (cache s' ! i)" "disk_sector (cache s' ! i) = k" "buffer (cache s' ! i) = cache_view s k"
proof (cases "buffer_cache_lookup k s")
  case (Some i)
  with lookup_Some_iff [OF ok, of k i] show thesis
    by (intro that [of i s]) (auto simp: cache_slot_def keeps_refl [OF ok] cache_view_def)
next
  case None
  obtain i t where ev: "buffer_cache_evict s = (i, t)" by fastforce
  note evict = keeps_evict [OF ok ev]
  obtain dev buf where rd: "block_read (fs_device t) k (buffer (cache t ! i)) (image t) = (dev, buf)"
    by fastforce
  define u where "u = t\<lparr>fs_device := dev, cache := (cache t)[i := (cache t ! i)\<lparr>occupied := True,
               disk_sector := k, dirty := False, buffer := buf\<rparr>]\<rparr>"
  have miss: "disk_sector (cache t ! j) \<noteq> k" if "j < BUFFER_CACHE_SIZE" "occupied (cache t ! j)" for j
    using that None evict(4) by (auto simp: lookup_None_iff)
  have kt: "sector_valid t k" using k keepsD(2) [OF evict(1)] by simp
  note fill = keeps_fill [OF keepsD(1) [OF evict(1)] evict(2,3) miss kt rd u_def]
  have "cache_slot k s = (i, u)"
    using None ev rd by (simp add: cache_slot_def Let_def u_def)
  with fill evict k show thesis
    by (intro that [of i u]) (auto intro: keeps_trans simp: keepsD(3) [OF evict(1)])
qed

section \<open>Reading and writing\<close>

lemma keeps_touch:
  assumes ok: "cache_ok s" and i: "i < BUFFER_CACHE_SIZE"
  shows "keeps s (s\<lparr>cache := (cache s)[i := (cache s ! i)\<lparr>access := True\<rparr>]\<rparr>)"
proof -
  have ok': "cache_ok (s\<lparr>cache := (cache s)[i := (cache s ! i)\<lparr>access := True\<rparr>]\<rparr>)"
    using cache_okD(3) [OF ok i] cache_okD(4) [OF ok _ i]
    by (intro cache_ok_upd [OF ok i]) (auto simp: entry_ok_def)
  show ?thesis
    unfolding keeps_def using ok' i cache_okD(1) [OF ok]
    by (auto intro!: cache_view_cong [OF ok ok'] simp: nth_list_update split: if_splits)
qed

lemma buffer_cache_read_spec:
  assumes ok: "cache_ok s" and k: "sector_valid s k"
  shows "\<exists>s'. buffer_cache_read k s = (cache_view s k, s') \<and> keeps s s'"
proof -
  obtain i t where slot: "cache_slot k s = (i, t)" "keeps s t" "i < BUFFER_CACHE_SIZE"
    "buffer (cache t ! i) = cache_view s k"
    by (rule cache_slot_spec [OF ok k])
  with keeps_touch [OF keepsD(1) [OF slot(2)] slot(3)] show ?thesis
    by (auto simp: buffer_cache_read_def Let_def intro: keeps_trans)
qed

lemma buffer_cache_write_spec:
  assumes ok: "cache_ok s" and k: "sector_valid s k" and d: "length d = BLOCK_SECTOR_SIZE"
  shows "cache_ok (buffer_cache_write k d s)"
    and "sector_valid (buffer_cache_write k d s) = sector_valid s"
    and "sector_valid s j \<Longrightarrow> cache_view (buffer_cache_write k d s) j = (if j = k then d else cache_view s j)"
proof -
  obtain i t where slot: "cache_slot k s = (i, t)" "keeps s t" "i < BUFFER_CACHE_SIZE"
    "occupied (cache t ! i)" "disk_sector (cache t ! i) = k"
    by (rule cache_slot_spec [OF ok k])
  let ?e = "(cache t ! i)\<lparr>access := True, dirty := True, buffer := d\<rparr>"
  let ?u = "t\<lparr>cache := (cache t)[i := ?e]\<rparr>"
  note okt = keepsD(1) [OF slot(2)]
  note len = cache_okD(1) [OF okt]
  have u: "buffer_cache_write k d s = ?u" using slot(1) d by (simp add: buffer_cache_write_def Let_def)
  have ok': "cache_ok ?u"
    using cache_okD(3) [OF okt slot(3)] cache_okD(4) [OF okt _ slot(3)] slot(4) d
    by (intro cache_ok_upd [OF okt slot(3)]) (auto simp: entry_ok_def)
  then show "cache_ok (buffer_cache_write k d s)" by (simp add: u)
  show "sector_valid (buffer_cache_write k d s) = sector_valid s"
    using keepsD(2) [OF slot(2)] by (simp add: u)
  have new: "cache ?u ! i = ?e" "l \<noteq> i \<Longrightarrow> cache ?u ! l = cache t ! l" for l using slot(3) len by simp_all
  have "cache_view ?u j = (if j = k then d else cache_view t j)"
  proof (cases "j = k")
    case True
    then show ?thesis using cache_view_hit [OF ok' slot(3), of k] new(1) slot(4,5) by simp
  next
    case ne: False
    have "occupied (cache ?u ! x) = occupied (cache t ! x) \<and>
        disk_sector (cache ?u ! x) = disk_sector (cache t ! x)" for x
      using new by (cases "x = i") simp_all
    then have "buffer_cache_lookup j ?u = buffer_cache_lookup j t"
      by (simp only: buffer_cache_lookup_def)
    moreover have "buffer_cache_lookup j t \<noteq> Some i" using lookup_Some_iff [OF okt, of j i] slot(5) ne by simp
    ultimately show ?thesis using ne new(2) by (auto simp: cache_view_def split: option.split)
  qed
  then show "cache_view (buffer_cache_write k d s) j = (if j = k then d else cache_view s j)"
    if "sector_valid s j"
    using keepsD(3) [OF slot(2) that] by (simp add: u)
qed

section \<open>Start and shutdown\<close>

text \<open>The static arrays start zeroed, with full-size buffers.\<close>

lemma buffer_cache_init_ok:
  assumes "length (cache s) = BUFFER_CACHE_SIZE" and "clock s < BUFFER_CACHE_SIZE"
    and "\<forall>e \<in> set (cache s). length (buffer e) = BLOCK_SECTOR_SIZE"
  shows "cache_ok (buffer_cache_init s)" and "cache_view (buffer_cache_init s) k = on_disk s k"
proof -
  have free: "i < BUFFER_CACHE_SIZE \<Longrightarrow> \<not> occupied (cache (buffer_cache_init s) ! i)" for i
    using assms(1) by (simp add: buffer_cache_init_def)
  then show "cache_ok (buffer_cache_init s)"
    using assms by (auto simp: cache_ok_def buffer_cache_init_def entry_ok_def)
  have "cache_view (buffer_cache_init s) k = on_disk (buffer_cache_init s) k"
    using free by (intro cache_view_miss) auto
  then show "cache_view (buffer_cache_init s) k = on_disk s k"
    by (simp add: buffer_cache_init_def on_disk_def)
qed

lemma close_prefix:
  assumes ok: "cache_ok s"
  shows "n \<le> BUFFER_CACHE_SIZE \<Longrightarrow>
    let t = fold (\<lambda>i s. if \<not> occupied (cache s ! i) then s else buffer_cache_flush i s) [0..<n] s
    in keeps s t \<and> (\<forall>j < n. occupied (cache t ! j) \<longrightarrow> \<not> dirty (cache t ! j))"
proof (induction n)
  case 0
  then show ?case by (simp add: keeps_refl [OF ok])
next
  case (Suc n)
  define t where "t = fold (\<lambda>i s. if \<not> occupied (cache s ! i) then s else buffer_cache_flush i s) [0..<n] s"
  have t: "keeps s t" "\<And>j. j < n \<Longrightarrow> occupied (cache t ! j) \<Longrightarrow> \<not> dirty (cache t ! j)"
    using Suc unfolding t_def by (auto simp: Let_def)
  have n: "n < BUFFER_CACHE_SIZE" "n < length (cache t)"
    using Suc.prems cache_okD(1) [OF keepsD(1) [OF t(1)]] by auto
  have step: "fold (\<lambda>i s. if \<not> occupied (cache s ! i) then s else buffer_cache_flush i s) [0..<Suc n] s =
      (if \<not> occupied (cache t ! n) then t else buffer_cache_flush n t)"
    by (simp add: t_def)
  show ?case
    unfolding step Let_def
    using t n keeps_flush [OF keepsD(1) [OF t(1)] n(1)]
    by (auto simp: less_Suc_eq nth_list_update intro: keeps_trans)
qed

lemma buffer_cache_close_spec:
  assumes ok: "cache_ok s"
  shows "keeps s (buffer_cache_close s)"
    and "sector_valid s k \<Longrightarrow> on_disk (buffer_cache_close s) k = cache_view s k"
proof -
  let ?t = "buffer_cache_close s"
  from close_prefix [OF ok le_refl]
  have t: "keeps s ?t" and clean: "\<And>j. j < BUFFER_CACHE_SIZE \<Longrightarrow> occupied (cache ?t ! j) \<Longrightarrow> \<not> dirty (cache ?t ! j)"
    unfolding buffer_cache_close_def Let_def by auto
  show "keeps s ?t" by (rule t)
  assume k: "sector_valid s k"
  have "cache_view ?t k = on_disk ?t k"
  proof (cases "buffer_cache_lookup k ?t")
    case None
    then show ?thesis by (simp add: cache_view_def)
  next
    case (Some i)
    then have i: "i < BUFFER_CACHE_SIZE" "occupied (cache ?t ! i)" "disk_sector (cache ?t ! i) = k"
      using lookup_Some_iff [OF keepsD(1) [OF t]] by auto
    with clean [OF i(1,2)] cache_okD(3) [OF keepsD(1) [OF t] i(1)] Some show ?thesis
      by (auto simp: cache_view_def entry_ok_def)
  qed
  with keepsD(3) [OF t k] show "on_disk ?t k = cache_view s k" by simp
qed

section \<open>The cache is a sector store\<close>

interpretation bc: sector_store buffer_cache_read buffer_cache_write cache_view cache_ok sector_valid
  "\<lambda>d. length d = BLOCK_SECTOR_SIZE"
proof unfold_locales
  fix s k
  assume "cache_ok s" and "sector_valid s k"
  from buffer_cache_read_spec [OF this]
  show "\<exists>s'. buffer_cache_read k s = (cache_view s k, s') \<and> cache_ok s' \<and> sector_valid s' = sector_valid s \<and>
      (\<forall>j. sector_valid s j \<longrightarrow> cache_view s' j = cache_view s j)"
    by (auto simp: keeps_def)
next
  fix s k and d :: "byte list"
  assume "cache_ok s" and "sector_valid s k" and "length d = BLOCK_SECTOR_SIZE"
  then show "cache_ok (buffer_cache_write k d s) \<and> sector_valid (buffer_cache_write k d s) = sector_valid s \<and>
      (\<forall>j. sector_valid s j \<longrightarrow> cache_view (buffer_cache_write k d s) j = (if j = k then d else cache_view s j))"
    by (simp add: buffer_cache_write_spec)
qed

section \<open>Properties\<close>

text \<open>
  C24: The cache is transparent: any sequence of reads and writes of valid sectors is answered as a
  plain array of sectors answers it, whatever is evicted and written back in between, and the
  sequence keeps the cache's invariant.
\<close>

theorem buffer_cache_transparent:
  assumes "cache_ok s"
    and "\<forall>x \<in> set ops. op_legal (sector_valid s) (\<lambda>d. length d = BLOCK_SECTOR_SIZE) x"
    and "run_store buffer_cache_read buffer_cache_write ops s = (answers, s')"
  shows "answers = fst (run_plain ops (cache_view s)) \<and> cache_ok s' \<and>
    (\<forall>k. sector_valid s k \<longrightarrow> cache_view s' k = snd (run_plain ops (cache_view s)) k)"
  using bc.run_store_plain [OF assms] by simp

text \<open>A cache on a disk of four sectors, for the witnesses.\<close>

definition small_disk :: "byte \<Rightarrow> bcache" where
  "small_disk b = buffer_cache_init
     \<lparr>cache = replicate BUFFER_CACHE_SIZE \<lparr>occupied = False, disk_sector = 0, buffer = replicate 512 0,
        dirty = False, access = False\<rparr>, clock = 0,
      fs_device = block_register ''hda'' ''disk'' 4 Ide_driver, image = replicate 2048 b\<rparr>"

lemma small_disk_ok: "cache_ok (small_disk b)"
  unfolding small_disk_def by (rule buffer_cache_init_ok) (simp_all add: BUFFER_CACHE_SIZE_def)

lemma small_disk_valid: "unat k < 4 \<Longrightarrow> sector_valid (small_disk b) k"
  by (simp add: small_disk_def buffer_cache_init_def sector_valid_def block_register_def dev_valid_def in_image_def)

lemma small_disk_view: "unat k < 4 \<Longrightarrow> cache_view (small_disk b) k = replicate 512 b"
  unfolding small_disk_def
  by (subst buffer_cache_init_ok)
    (simp_all add: BUFFER_CACHE_SIZE_def on_disk_def dev_sector_def block_register_def min_def)

theorem buffer_cache_transparent_witness:
  "\<exists>s'. run_store buffer_cache_read buffer_cache_write
      [Read_op 1, Write_op 1 (replicate 512 9), Read_op 2, Read_op 1] (small_disk 3) =
    ([replicate 512 3, replicate 512 3, replicate 512 9], s') \<and> cache_ok s'"
proof -
  let ?ops = "[Read_op 1, Write_op 1 (replicate 512 9), Read_op 2, Read_op 1] :: (u32, byte list) store_op list"
  obtain a s' where r: "run_store buffer_cache_read buffer_cache_write ?ops (small_disk 3) = (a, s')"
    by fastforce
  have "\<forall>x \<in> set ?ops. op_legal (sector_valid (small_disk 3)) (\<lambda>d. length d = BLOCK_SECTOR_SIZE) x"
    by (simp add: op_legal_def small_disk_valid)
  from buffer_cache_transparent [OF small_disk_ok this r] r show ?thesis
    by (simp add: small_disk_view)
qed

text \<open>
  C25: Shutting the cache down loses nothing: after \<open>buffer_cache_close\<close> the device itself holds,
  for every valid sector, what the cache showed.
\<close>

theorem buffer_cache_close_flushes:
  assumes "cache_ok s" and "sector_valid s k"
  shows "on_disk (buffer_cache_close s) k = cache_view s k"
  using buffer_cache_close_spec(2) [OF assms] .

theorem buffer_cache_close_flushes_witness:
  "on_disk (buffer_cache_close (buffer_cache_write 2 (replicate 512 9) (small_disk 3))) 2 = replicate 512 9"
proof -
  let ?s = "buffer_cache_write 2 (replicate 512 9) (small_disk 3)"
  have v: "sector_valid (small_disk 3) 2" by (rule small_disk_valid) simp
  have "length (replicate 512 (9 :: byte)) = BLOCK_SECTOR_SIZE" by simp
  note w = buffer_cache_write_spec [OF small_disk_ok v this]
  have "sector_valid ?s 2" using v w(2) by simp
  from buffer_cache_close_flushes [OF w(1) this] show ?thesis using w(3) [OF v] by simp
qed

text \<open>
  C29: Eviction is second chance: the victim is the first entry from the clock hand on that is free
  or not referenced, every entry passed over was occupied and referenced, and after a full round
  the entry at the hand itself is taken.
\<close>

theorem eviction_second_chance:
  assumes "cache_ok s" and "buffer_cache_evict s = (i, s')"
  shows "\<exists>n \<le> BUFFER_CACHE_SIZE. i = (clock s + n) mod BUFFER_CACHE_SIZE \<and>
     (\<forall>m < n. occupied (cache s ! ((clock s + m) mod BUFFER_CACHE_SIZE)) \<and>
              access (cache s ! ((clock s + m) mod BUFFER_CACHE_SIZE))) \<and>
     (n < BUFFER_CACHE_SIZE \<longrightarrow> \<not> (occupied (cache s ! i) \<and> access (cache s ! i))) \<and>
     \<not> occupied (cache s' ! i)"
proof -
  obtain c h where sw: "clock_sweep (cache s) (clock s) = (c, h)" by fastforce
  then have "i = h" using assms(2) by (auto simp: buffer_cache_evict_def Let_def split: if_splits)
  with clock_sweep_second_chance [OF cache_okD(2,1) [OF assms(1)] sw] keeps_evict(3) [OF assms]
  show ?thesis by blast
qed

theorem eviction_second_chance_witness:
  "\<exists>i s'. buffer_cache_evict (small_disk 0) = (i, s') \<and> i = 0 \<and> \<not> occupied (cache s' ! i)"
proof -
  obtain i s' where e: "buffer_cache_evict (small_disk 0) = (i, s')" by fastforce
  have free: "\<not> occupied (cache (small_disk 0) ! 0)" "clock (small_disk 0) = 0"
    by (simp_all add: small_disk_def buffer_cache_init_def BUFFER_CACHE_SIZE_def)
  from eviction_second_chance [OF small_disk_ok e] obtain n where n: "n \<le> BUFFER_CACHE_SIZE"
    "i = n mod BUFFER_CACHE_SIZE" "\<forall>m < n. occupied (cache (small_disk 0) ! (m mod BUFFER_CACHE_SIZE))"
    "\<not> occupied (cache s' ! i)"
    unfolding free(2) add_0 by blast
  then have "n = 0" using free(1) by (cases n) auto
  with n e show ?thesis by auto
qed

end
