(* ===== verification/Inode_Layout.thy ===== *)
theory Inode_Layout
  imports Buffer_Cache
begin

text \<open>
  The data of \<^verbatim>\<open>src/a3/fs/inode.c\<close> and \<^verbatim>\<open>inode.h\<close>: the on-disk inode and its layout in a
  sector, indirect blocks, and the map from the index of a data block to the sector that
  holds it.
\<close>

section \<open>Offsets and sizes\<close>

text \<open>\<open>offset_t\<close> is a 32-bit signed integer; leaving its range is undefined behaviour.\<close>

definition off32 :: "int \<Rightarrow> int option" where
  "off32 x = (if - (2 ^ 31) \<le> x \<and> x < 2 ^ 31 then Some x else None)"

lemma off32_Some [simp]: "- (2 ^ 31) \<le> x \<Longrightarrow> x < 2 ^ 31 \<Longrightarrow> off32 x = Some x"
  by (simp add: off32_def)

abbreviation DIRECT_BLOCKS_COUNT :: nat where
  "DIRECT_BLOCKS_COUNT \<equiv> 123"

abbreviation INDIRECT_BLOCKS_PER_SECTOR :: nat where
  "INDIRECT_BLOCKS_PER_SECTOR \<equiv> 128"

definition INODE_MAGIC :: u32 where
  "INODE_MAGIC = 0x494e4f44"

definition bytes_to_sectors :: "int \<Rightarrow> nat option" where
  "bytes_to_sectors size' = map_option (\<lambda>x. nat (c_div (x - 1) 512)) (off32 (size' + 512))"

section \<open>The on-disk inode\<close>

record inode_disk =
  direct_blocks :: "u32 list"
  indirect_block :: u32
  doubly_indirect_block :: u32
  is_dir :: bool
  dlength :: int
  magic :: u32

definition inode_disk_ok :: "inode_disk \<Rightarrow> bool" where
  "inode_disk_ok d \<longleftrightarrow> length (direct_blocks d) = DIRECT_BLOCKS_COUNT \<and>
     - (2 ^ 31) \<le> dlength d \<and> dlength d < 2 ^ 31"

text \<open>What \<open>calloc\<close> yields.\<close>

definition inode_disk_zero :: inode_disk where
  "inode_disk_zero = \<lparr>direct_blocks = replicate DIRECT_BLOCKS_COUNT 0, indirect_block = 0,
     doubly_indirect_block = 0, is_dir = False, dlength = 0, magic = 0\<rparr>"

text \<open>
  The structure as the 512 bytes of its sector. The three bytes between \<open>is_dir\<close> and \<open>length\<close>
  are padding; they are zero in every inode the program creates.
\<close>

definition encode_inode :: "inode_disk \<Rightarrow> byte list" where
  "encode_inode d =
     words_to_bytes 4 (direct_blocks d) @ le_bytes 4 (indirect_block d) @
     le_bytes 4 (doubly_indirect_block d) @ [of_bool (is_dir d), 0, 0, 0] @
     le_bytes 4 (word_of_int (dlength d) :: u32) @ le_bytes 4 (magic d)"

definition decode_inode :: "byte list \<Rightarrow> inode_disk" where
  "decode_inode bs = \<lparr>
     direct_blocks = bytes_to_words 4 DIRECT_BLOCKS_COUNT bs,
     indirect_block = le_word (take 4 (drop 492 bs)),
     doubly_indirect_block = le_word (take 4 (drop 496 bs)),
     is_dir = (drop 500 bs ! 0 \<noteq> 0),
     dlength = sint (le_word (take 4 (drop 504 bs)) :: u32),
     magic = le_word (take 4 (drop 508 bs))\<rparr>"

lemma length_encode_inode [simp]:
  "inode_disk_ok d \<Longrightarrow> length (encode_inode d) = BLOCK_SECTOR_SIZE"
  by (simp add: encode_inode_def inode_disk_ok_def)

lemma decode_encode_inode [codec_simps]:
  assumes "inode_disk_ok d"
  shows "decode_inode (encode_inode d) = d"
proof -
  have len: "length (direct_blocks d) = 123" using assms by (simp add: inode_disk_ok_def)
  have "signed_take_bit 31 (dlength d) = dlength d"
    using assms by (intro signed_take_bit_int_eq_self) (simp_all add: inode_disk_ok_def)
  then have "sint (word_of_int (dlength d) :: u32) = dlength d"
    by (simp add: sint_sbintrunc')
  with len show ?thesis
    by (cases d) (simp add: decode_inode_def encode_inode_def codec_simps)
qed

lemma inode_disk_ok_decode: "inode_disk_ok (decode_inode bs)"
  using sint_greater_eq [of "le_word (take 4 (drop 504 bs)) :: u32"]
    sint_less [of "le_word (take 4 (drop 504 bs)) :: u32"]
  by (simp add: inode_disk_ok_def decode_inode_def)

section \<open>Indirect blocks\<close>

definition indirect_of :: "byte list \<Rightarrow> u32 list" where
  "indirect_of bs = bytes_to_words 4 INDIRECT_BLOCKS_PER_SECTOR bs"

definition encode_indirect :: "u32 list \<Rightarrow> byte list" where
  "encode_indirect ws = words_to_bytes 4 ws"

lemma length_indirect_of [simp]: "length (indirect_of bs) = INDIRECT_BLOCKS_PER_SECTOR"
  by (simp add: indirect_of_def)

lemma indirect_of_encode [codec_simps]:
  "length ws = INDIRECT_BLOCKS_PER_SECTOR \<Longrightarrow> indirect_of (encode_indirect ws) = ws"
  by (simp add: indirect_of_def encode_indirect_def codec_simps)

lemma length_encode_indirect [simp]:
  "length ws = INDIRECT_BLOCKS_PER_SECTOR \<Longrightarrow> length (encode_indirect ws) = BLOCK_SECTOR_SIZE"
  by (simp add: encode_indirect_def)

section \<open>From block index to sector\<close>

definition index_to_sector :: "inode_disk \<Rightarrow> int \<Rightarrow> bcache \<Rightarrow> (u32 \<times> bcache) option" where
  "index_to_sector idisk index s =
     (if index < 123 then
        (if 0 \<le> index then Some (direct_blocks idisk ! nat index, s) else None)
      else if index < 123 + 128 then
        let (blk, s) = buffer_cache_read (indirect_block idisk) s
        in Some (indirect_of blk ! nat (index - 123), s)
      else if index < 123 + 128 + 128 * 128 then
        let index_first = (index - (123 + 128)) div 128;
            index_second = (index - (123 + 128)) mod 128;
            (blk, s) = buffer_cache_read (doubly_indirect_block idisk) s;
            (blk, s) = buffer_cache_read (indirect_of blk ! nat index_first) s
        in Some (indirect_of blk ! nat index_second, s)
      else Some (- 1, s))"

definition byte_to_sector :: "inode_disk \<Rightarrow> int \<Rightarrow> bcache \<Rightarrow> (u32 \<times> bcache) option" where
  "byte_to_sector d pos s =
     (if 0 \<le> pos \<and> pos < dlength d then index_to_sector d (c_div pos 512) s else Some (- 1, s))"

section \<open>The sectors of a file\<close>

text \<open>
  The abstraction: over the contents \<open>v\<close> of the sectors, \<open>data_sector v d i\<close> is the sector of
  the \<open>i\<close>-th block, \<open>meta_sectors\<close> are the sectors of the indirect blocks that the first \<open>n\<close>
  blocks need.
\<close>

definition MAX_BLOCKS :: nat where
  "MAX_BLOCKS = 123 + 128 + 128 * 128"

definition data_sector :: "(u32 \<Rightarrow> byte list) \<Rightarrow> inode_disk \<Rightarrow> nat \<Rightarrow> u32" where
  "data_sector v d i =
     (if i < 123 then direct_blocks d ! i
      else if i < 251 then indirect_of (v (indirect_block d)) ! (i - 123)
      else indirect_of (v (indirect_of (v (doubly_indirect_block d)) ! ((i - 251) div 128))) ! ((i - 251) mod 128))"

definition meta_sectors :: "(u32 \<Rightarrow> byte list) \<Rightarrow> inode_disk \<Rightarrow> nat \<Rightarrow> u32 set" where
  "meta_sectors v d n =
     (if 123 < n then {indirect_block d} else {}) \<union>
     (if 251 < n then insert (doubly_indirect_block d)
        {indirect_of (v (doubly_indirect_block d)) ! j | j. j * 128 + 251 < n} else {})"

lemma data_sector_cong:
  assumes "\<And>k. k \<in> meta_sectors v d n \<Longrightarrow> v' k = v k" and "i < n"
  shows "data_sector v' d i = data_sector v d i"
proof -
  consider "i < 123" | "123 \<le> i" "i < 251" | "251 \<le> i" by linarith
  then show ?thesis
  proof cases
    case 2
    then have "v' (indirect_block d) = v (indirect_block d)"
      using assms by (simp add: meta_sectors_def)
    with 2 show ?thesis by (simp add: data_sector_def)
  next
    case 3
    let ?j = "(i - 251) div 128"
    have "?j * 128 \<le> i - 251" by simp
    then have "?j * 128 + 251 < n" using 3 assms(2) by linarith
    moreover have "251 < n" using 3 assms(2) by simp
    ultimately have "v' (doubly_indirect_block d) = v (doubly_indirect_block d)"
      "v' (indirect_of (v (doubly_indirect_block d)) ! ?j) = v (indirect_of (v (doubly_indirect_block d)) ! ?j)"
      using assms(1) by (auto simp: meta_sectors_def)
    with 3 show ?thesis by (simp add: data_sector_def)
  qed (simp add: data_sector_def)
qed

text \<open>The code's lookup computes the abstraction and only reads.\<close>

lemma index_to_sector_eq:
  assumes ok: "cache_ok s" and n: "i < n" "n \<le> MAX_BLOCKS"
    and meta: "\<And>k. k \<in> meta_sectors (cache_view s) d n \<Longrightarrow> sector_valid s k"
  shows "\<exists>s'. index_to_sector d (int i) s = Some (data_sector (cache_view s) d i, s') \<and> keeps s s'"
proof -
  consider "i < 123" | "123 \<le> i" "i < 251" | "251 \<le> i" by linarith
  then show ?thesis
  proof cases
    case 1
    then show ?thesis by (simp add: index_to_sector_def data_sector_def keeps_refl [OF ok])
  next
    case 2
    then have "sector_valid s (indirect_block d)" using meta n by (simp add: meta_sectors_def)
    from buffer_cache_read_spec [OF ok this] 2 show ?thesis
      by (auto simp: index_to_sector_def data_sector_def nat_diff_distrib)
  next
    case 3
    let ?j = "(i - 251) div 128"
    let ?k = "indirect_of (cache_view s (doubly_indirect_block d)) ! ?j"
    have "?j * 128 \<le> i - 251" by simp
    then have "?j * 128 + 251 < n" "251 < n" using 3 n by linarith+
    then have v: "sector_valid s (doubly_indirect_block d)" "sector_valid s ?k"
      using meta by (auto simp: meta_sectors_def)
    from buffer_cache_read_spec [OF ok v(1)] obtain t where t:
      "buffer_cache_read (doubly_indirect_block d) s = (cache_view s (doubly_indirect_block d), t)" "keeps s t"
      by blast
    have "sector_valid t ?k" using v(2) keepsD(2) [OF t(2)] by simp
    from buffer_cache_read_spec [OF keepsD(1) [OF t(2)] this] obtain u where u:
      "buffer_cache_read ?k t = (cache_view s ?k, u)" "keeps t u"
      using keepsD(3) [OF t(2) v(2)] by auto
    have idx: "nat ((int i - 251) div 128) = ?j" "nat ((int i - 251) mod 128) = (i - 251) mod 128"
      using 3 by (simp_all add: nat_div_distrib nat_mod_distrib nat_diff_distrib)
    have "\<not> int i < 123" "\<not> int i < 123 + 128" "int i < 123 + 128 + 128 * 128"
      using 3 n by (simp_all add: MAX_BLOCKS_def)
    then have "index_to_sector d (int i) s = Some (data_sector (cache_view s) d i, u)"
      using 3 idx t(1) u(1) by (simp add: index_to_sector_def data_sector_def Let_def)
    with keeps_trans [OF t(2) u(2)] show ?thesis by blast
  qed
qed

end
