(* ===== verification/Inode_Content.thy ===== *)
theory Inode_Content
  imports Inode_Layout
begin

text \<open>
  The contents of a file, and the copying loops of \<open>inode_read_at\<close> and \<open>inode_write_at\<close>
  (\<^verbatim>\<open>src/a3/fs/inode.c\<close>), which move data between a caller's buffer and the sectors of a file
  chunk by chunk, through a bounce buffer where a chunk is not a whole sector.
\<close>

section \<open>The loops\<close>

text \<open>
  The result is the bytes copied to the caller's buffer; their number is \<open>bytes_read\<close>. The copy
  from the bounce buffer starts at \<open>sector_ofs\<close>, which is negative for a negative offset.
\<close>

function inode_read_loop :: "inode_disk \<Rightarrow> int \<Rightarrow> int \<Rightarrow> bcache \<Rightarrow> (byte list \<times> bcache) option" where
  "inode_read_loop d size' offset c =
     (if 0 < size' then
        do { (sector_idx, c) \<leftarrow> byte_to_sector d offset c;
             let sector_ofs = c_rem offset 512;
             inode_left \<leftarrow> off32 (dlength d - offset);
             let chunk_size = min size' (min inode_left (512 - sector_ofs));
             if chunk_size \<le> 0 then Some ([], c)
             else if sector_ofs < 0 then None
             else do { let (blk, c) = buffer_cache_read sector_idx c;
                       let chunk = (if sector_ofs = 0 \<and> chunk_size = 512 then take 512 blk
                                    else take (nat chunk_size) (drop (nat sector_ofs) blk));
                       (rest, c) \<leftarrow> inode_read_loop d (size' - chunk_size) (offset + chunk_size) c;
                       Some (chunk @ rest, c) } }
      else Some ([], c))"
  by pat_completeness auto
termination
  by (relation "measure (\<lambda>(d, size', offset, c). nat size')") auto

declare inode_read_loop.simps [simp del]

text \<open>\<open>buf\<close> is what is left of the caller's buffer; reading past its end is an undefined access.\<close>

function inode_write_loop ::
    "inode_disk \<Rightarrow> byte list \<Rightarrow> int \<Rightarrow> int \<Rightarrow> bcache \<Rightarrow> (int \<times> bcache) option" where
  "inode_write_loop d buf size' offset c =
     (if 0 < size' then
        do { (sector_idx, c) \<leftarrow> byte_to_sector d offset c;
             let sector_ofs = c_rem offset 512;
             inode_left \<leftarrow> off32 (dlength d - offset);
             let sector_left = 512 - sector_ofs;
             let chunk_size = min size' (min inode_left sector_left);
             if chunk_size \<le> 0 then Some (0, c)
             else if sector_ofs < 0 \<or> int (length buf) < chunk_size then None
             else do { let c = (if sector_ofs = 0 \<and> chunk_size = 512
                                then buffer_cache_write sector_idx (take 512 buf) c
                                else let (bounce, c) = (if 0 < sector_ofs \<or> chunk_size < sector_left
                                                        then buffer_cache_read sector_idx c
                                                        else (replicate 512 0, c))
                                     in buffer_cache_write sector_idx
                                          (overwrite (nat sector_ofs) (take (nat chunk_size) buf) bounce) c);
                       (n, c) \<leftarrow> inode_write_loop d (drop (nat chunk_size) buf) (size' - chunk_size)
                                  (offset + chunk_size) c;
                       Some (chunk_size + n, c) } }
      else Some (0, c))"
  by pat_completeness auto
termination
  by (relation "measure (\<lambda>(d, buf, size', offset, c). nat size')") auto

declare inode_write_loop.simps [simp del]

section \<open>Contents\<close>

definition byte_at :: "(u32 \<Rightarrow> byte list) \<Rightarrow> inode_disk \<Rightarrow> nat \<Rightarrow> byte" where
  "byte_at v d p = v (data_sector v d (p div 512)) ! (p mod 512)"

definition content :: "(u32 \<Rightarrow> byte list) \<Rightarrow> inode_disk \<Rightarrow> byte list" where
  "content v d = map (byte_at v d) [0 ..< nat (dlength d)]"

definition blocks_of :: "inode_disk \<Rightarrow> nat" where
  "blocks_of d = (nat (dlength d) + 511) div 512"

text \<open>
  The layout of the first \<open>n\<close> blocks is sound: all sectors involved exist, no sector holds two
  data blocks, and no data block is an indirect block or the number that stands for an error.
\<close>

definition layout_ok :: "bcache \<Rightarrow> inode_disk \<Rightarrow> nat \<Rightarrow> bool" where
  "layout_ok c d n \<longleftrightarrow> inode_disk_ok d \<and> n \<le> MAX_BLOCKS \<and>
     (\<forall>k \<in> meta_sectors (cache_view c) d n. sector_valid c k) \<and>
     (\<forall>i < n. sector_valid c (data_sector (cache_view c) d i)) \<and>
     inj_on (data_sector (cache_view c) d) {..<n} \<and>
     data_sector (cache_view c) d ` {..<n} \<inter> meta_sectors (cache_view c) d n = {} \<and>
     - 1 \<notin> data_sector (cache_view c) d ` {..<n}"

definition file_ok :: "bcache \<Rightarrow> inode_disk \<Rightarrow> bool" where
  "file_ok c d \<longleftrightarrow> 0 \<le> dlength d \<and> layout_ok c d (blocks_of d)"

lemma length_content [simp]: "length (content v d) = nat (dlength d)"
  by (simp add: content_def)

lemma nth_content: "p < nat (dlength d) \<Longrightarrow> content v d ! p = byte_at v d p"
  by (simp add: content_def)

lemma block_of_offset: "p < nat (dlength d) \<Longrightarrow> p div 512 < blocks_of d"
  unfolding blocks_of_def by (simp add: div_less_iff_less_mult)

lemma length_cache_view:
  assumes ok: "cache_ok c" and k: "sector_valid c k"
  shows "length (cache_view c k) = BLOCK_SECTOR_SIZE"
proof (cases "buffer_cache_lookup k c")
  case None
  then show ?thesis using k by (simp add: cache_view_def on_disk_def sector_valid_def)
next
  case (Some i)
  with lookup_Some_iff [OF ok, of k i] cache_okD(3) [OF ok, of i] show ?thesis
    by (simp add: cache_view_def entry_ok_def)
qed

lemma meta_sectors_cong:
  assumes "\<And>k. k \<in> meta_sectors v d n \<Longrightarrow> v' k = v k"
  shows "meta_sectors v' d n = meta_sectors v d n"
  using assms by (auto simp: meta_sectors_def)

text \<open>A layout survives every change of sectors outside its indirect blocks.\<close>

lemma layout_ok_cong:
  assumes L: "layout_ok c d n" and v: "sector_valid c' = sector_valid c"
    and same: "\<And>k. k \<in> meta_sectors (cache_view c) d n \<Longrightarrow> cache_view c' k = cache_view c k"
  shows "layout_ok c' d n" and "i < n \<Longrightarrow> data_sector (cache_view c') d i = data_sector (cache_view c) d i"
    and "meta_sectors (cache_view c') d n = meta_sectors (cache_view c) d n"
proof -
  show m: "meta_sectors (cache_view c') d n = meta_sectors (cache_view c) d n"
    using same by (rule meta_sectors_cong)
  show s: "i < n \<Longrightarrow> data_sector (cache_view c') d i = data_sector (cache_view c) d i" for i
    using same by (rule data_sector_cong)
  have im: "data_sector (cache_view c') d ` {..<n} = data_sector (cache_view c) d ` {..<n}"
    using s by (intro image_cong) auto
  have "inj_on (data_sector (cache_view c') d) {..<n} = inj_on (data_sector (cache_view c) d) {..<n}"
    using s by (intro inj_on_cong) auto
  with L s show "layout_ok c' d n" by (simp add: layout_ok_def m v im)
qed

lemma layout_ok_keeps:
  assumes "layout_ok c d n" and "keeps c c'"
  shows "layout_ok c' d n" and "i < n \<Longrightarrow> data_sector (cache_view c') d i = data_sector (cache_view c) d i"
    and "meta_sectors (cache_view c') d n = meta_sectors (cache_view c) d n"
proof -
  have "k \<in> meta_sectors (cache_view c) d n \<Longrightarrow> cache_view c' k = cache_view c k" for k
    using assms keepsD(3) [OF assms(2), of k] by (simp add: layout_ok_def)
  note C = layout_ok_cong [OF assms(1) keepsD(2) [OF assms(2)] this]
  show "layout_ok c' d n" using C(1) by simp
  show "meta_sectors (cache_view c') d n = meta_sectors (cache_view c) d n" using C(3) by simp
  show "i < n \<Longrightarrow> data_sector (cache_view c') d i = data_sector (cache_view c) d i" using C(2) by simp
qed

lemma content_keeps:
  assumes F: "file_ok c d" and K: "keeps c c'"
  shows "content (cache_view c') d = content (cache_view c) d"
proof (rule nth_equalityI)
  fix p assume "p < length (content (cache_view c') d)"
  then have p: "p < nat (dlength d)" by simp
  note b = block_of_offset [OF p]
  have L: "layout_ok c d (blocks_of d)" using F by (simp add: file_ok_def)
  then have "sector_valid c (data_sector (cache_view c) d (p div 512))"
    using b by (simp add: layout_ok_def)
  then show "content (cache_view c') d ! p = content (cache_view c) d ! p"
    using layout_ok_keeps(2) [OF L K b] keepsD(3) [OF K] p by (simp add: nth_content byte_at_def)
qed simp

lemma file_ok_keeps: "file_ok c d \<Longrightarrow> keeps c c' \<Longrightarrow> file_ok c' d"
  using layout_ok_keeps(1) by (auto simp: file_ok_def)

lemma file_okD:
  assumes "file_ok c d"
  shows "0 \<le> dlength d" and "dlength d < 2 ^ 31" and "layout_ok c d (blocks_of d)"
    and "p < nat (dlength d) \<Longrightarrow> sector_valid c (data_sector (cache_view c) d (p div 512))"
  using assms block_of_offset [of p d] by (auto simp: file_ok_def layout_ok_def inode_disk_ok_def)

lemma byte_to_sector_eq:
  assumes ok: "cache_ok c" and F: "file_ok c d" and p: "p < nat (dlength d)"
  shows "\<exists>c'. byte_to_sector d (int p) c = Some (data_sector (cache_view c) d (p div 512), c') \<and> keeps c c'"
proof -
  have "int p < dlength d" using p by simp
  then have "byte_to_sector d (int p) c = index_to_sector d (int (p div 512)) c"
    by (simp add: byte_to_sector_def c_div_nonneg zdiv_int)
  moreover have "\<exists>c'. index_to_sector d (int (p div 512)) c = Some (data_sector (cache_view c) d (p div 512), c') \<and> keeps c c'"
    using file_okD(3) [OF F] block_of_offset [OF p]
    by (intro index_to_sector_eq [OF ok, where n = "blocks_of d"]) (auto simp: layout_ok_def)
  ultimately show ?thesis by simp
qed

lemma byte_to_sector_beyond: "dlength d \<le> pos \<or> pos < 0 \<Longrightarrow> byte_to_sector d pos c = Some (- 1, c)"
  by (auto simp: byte_to_sector_def)

section \<open>Reading\<close>

text \<open>The size of the next chunk at offset \<open>p\<close>.\<close>

definition chunk :: "inode_disk \<Rightarrow> nat \<Rightarrow> nat \<Rightarrow> nat" where
  "chunk d p n = min n (min (nat (dlength d) - p) (512 - p mod 512))"

lemma chunk_bounds:
  assumes "p < nat (dlength d)" and "0 < n"
  shows "0 < chunk d p n" and "chunk d p n \<le> n" and "p + chunk d p n \<le> nat (dlength d)"
    and "p mod 512 + chunk d p n \<le> 512"
proof -
  have "p mod 512 < 512" by simp
  then show "0 < chunk d p n" and "p mod 512 + chunk d p n \<le> 512" using assms by (auto simp: chunk_def)
  show "chunk d p n \<le> n" "p + chunk d p n \<le> nat (dlength d)" using assms by (auto simp: chunk_def)
qed

lemma chunk_int:
  assumes "file_ok c d" and "p < nat (dlength d)" and "0 < n"
  shows "off32 (dlength d - int p) = Some (dlength d - int p)"
    and "min (int n) (min (dlength d - int p) (512 - int (p mod 512))) = int (chunk d p n)"
    and "c_rem (int p) 512 = int (p mod 512)"
proof -
  show "off32 (dlength d - int p) = Some (dlength d - int p)"
    using file_okD(1,2) [OF assms(1)] assms(2) by (intro off32_Some) simp_all
  show r: "c_rem (int p) 512 = int (p mod 512)" by (simp add: c_rem_nonneg zmod_int)
  have "p mod 512 < 512" by simp
  then have "512 - int (p mod 512) = int (512 - p mod 512)" by (simp add: of_nat_diff)
  moreover have "dlength d - int p = int (nat (dlength d) - p)" using assms(2) by simp
  ultimately show "min (int n) (min (dlength d - int p) (512 - int (p mod 512))) = int (chunk d p n)"
    unfolding chunk_def of_nat_min by (simp only:)
qed

lemma same_block: "p mod 512 + k < 512 \<Longrightarrow> (p + k) div 512 = p div 512 \<and> (p + k) mod 512 = p mod (512 :: nat) + k"
proof -
  assume k: "p mod 512 + k < 512"
  have e: "p + k = 512 * (p div 512) + (p mod 512 + k)" by simp
  have "(p + k) div 512 = p div 512" by (subst e, subst div_mult_self4) (use k in simp_all)
  moreover have "(p + k) mod 512 = p mod 512 + k" by (subst e) (use k in \<open>simp only: mod_mult_self4 mod_less\<close>)
  ultimately show ?thesis ..
qed

lemma content_chunk:
  assumes ok: "cache_ok c" and F: "file_ok c d" and p: "p < nat (dlength d)"
    and k: "p mod 512 + k \<le> 512" "p + k \<le> nat (dlength d)"
  shows "take k (drop (p mod 512) (cache_view c (data_sector (cache_view c) d (p div 512)))) =
    take k (drop p (content (cache_view c) d))"
proof (rule nth_equalityI)
  have len: "length (cache_view c (data_sector (cache_view c) d (p div 512))) = 512"
    using length_cache_view [OF ok file_okD(4) [OF F p]] .
  show "length (take k (drop (p mod 512) (cache_view c (data_sector (cache_view c) d (p div 512))))) =
    length (take k (drop p (content (cache_view c) d)))"
    using k by (simp add: len)
  fix i assume "i < length (take k (drop (p mod 512) (cache_view c (data_sector (cache_view c) d (p div 512)))))"
  then have i: "i < k" by simp
  then have "p mod 512 + i < 512" using k(1) by linarith
  with i k same_block [OF this]
  show "take k (drop (p mod 512) (cache_view c (data_sector (cache_view c) d (p div 512)))) ! i =
    take k (drop p (content (cache_view c) d)) ! i"
    by (simp add: nth_content byte_at_def len)
qed

lemma inode_read_loop_beyond:
  "nat (dlength d) \<le> p \<Longrightarrow> 0 \<le> dlength d \<Longrightarrow> p < 2 ^ 31 \<Longrightarrow> dlength d < 2 ^ 31 \<Longrightarrow>
   inode_read_loop d n (int p) c = Some ([], c)"
  by (subst inode_read_loop.simps)
    (simp add: byte_to_sector_beyond Let_def off32_def min_le_iff_disj c_rem_nonneg nat_le_iff)

lemma inode_read_loop_step:
  assumes F: "file_ok c0 d" and p: "p < nat (dlength d)" and n: "0 < n"
    and sec: "byte_to_sector d (int p) c = Some (sec, c1)" and rd: "buffer_cache_read sec c1 = (blk, c2)"
    and len: "length blk = 512"
    and rest: "inode_read_loop d (int (n - chunk d p n)) (int (p + chunk d p n)) c2 = Some (rest, c3)"
  shows "inode_read_loop d (int n) (int p) c = Some (take (chunk d p n) (drop (p mod 512) blk) @ rest, c3)"
proof -
  define k where "k = chunk d p n"
  note b = chunk_bounds [OF p n, folded k_def]
  have e: "int n - int k = int (n - k)" "int p + int k = int (p + k)" using b(2) by auto
  have data: "(if int (p mod 512) = 0 \<and> int k = 512 then take 512 blk
      else take (nat (int k)) (drop (nat (int (p mod 512))) blk)) = take k (drop (p mod 512) blk)"
    using len by simp
  have "\<not> int k \<le> 0" "\<not> int (p mod 512) < 0" "0 < int n" using b(1) n by simp_all
  then show ?thesis
    unfolding inode_read_loop.simps [of d "int n"] chunk_int [OF F p n, folded k_def] sec
      Option.bind.simps case_prod_conv Let_def
    using rest by (simp only: if_True if_False rd case_prod_conv data e k_def [symmetric] Option.bind.simps)
qed

lemma inode_read_loop_spec:
  "cache_ok c \<Longrightarrow> file_ok c d \<Longrightarrow> p < 2 ^ 31 \<Longrightarrow>
   \<exists>c'. inode_read_loop d (int n) (int p) c = Some (take n (drop p (content (cache_view c) d)), c') \<and> keeps c c'"
proof (induction n arbitrary: p c rule: less_induct)
  case (less n)
  note ok = less.prems(1) and F = less.prems(2)
  consider "n = 0" | "nat (dlength d) \<le> p" | "0 < n" "p < nat (dlength d)" by linarith
  then show ?case
  proof cases
    case 1
    then show ?thesis by (subst inode_read_loop.simps) (simp add: keeps_refl [OF ok])
  next
    case 2
    then show ?thesis
      using inode_read_loop_beyond [of d p "int n" c] file_okD(1,2) [OF F] less.prems(3) keeps_refl [OF ok] by simp
  next
    case 3
    let ?k = "chunk d p n"
    note k = chunk_bounds [OF 3(2,1)]
    obtain c1 where c1: "byte_to_sector d (int p) c = Some (data_sector (cache_view c) d (p div 512), c1)" "keeps c c1"
      using byte_to_sector_eq [OF ok F 3(2)] by blast
    let ?sec = "data_sector (cache_view c) d (p div 512)"
    have v: "sector_valid c ?sec" using file_okD(4) [OF F 3(2)] .
    obtain c2 where c2: "buffer_cache_read ?sec c1 = (cache_view c ?sec, c2)" "keeps c1 c2"
      using buffer_cache_read_spec [OF keepsD(1) [OF c1(2)], of ?sec] v keepsD(2,3) [OF c1(2)] by auto
    have K: "keeps c c2" using keeps_trans [OF c1(2) c2(2)] .
    note len = length_cache_view [OF ok v]
    have "int (p + ?k) \<le> dlength d" using k(3) file_okD(1) [OF F] by linarith
    then have "int (p + ?k) < int (2 ^ 31)" using file_okD(2) [OF F] by simp
    then have "n - ?k < n" "p + ?k < 2 ^ 31" using k(1) 3(1) by (linarith, simp only: of_nat_less_iff)
    from less.IH [OF this(1) keepsD(1) [OF K] file_ok_keeps [OF F K] this(2)]
    obtain c3 where c3: "inode_read_loop d (int (n - ?k)) (int (p + ?k)) c2 =
        Some (take (n - ?k) (drop (p + ?k) (content (cache_view c) d)), c3)" "keeps c2 c3"
      by (auto simp: content_keeps [OF F K])
    have "inode_read_loop d (int n) (int p) c =
        Some (take ?k (drop p (content (cache_view c) d)) @ take (n - ?k) (drop (p + ?k) (content (cache_view c) d)), c3)"
      unfolding content_chunk [OF ok F 3(2) k(4,3), symmetric]
      by (rule inode_read_loop_step [OF F 3(2,1) c1(1) c2(1) len c3(1)])
    moreover have "take ?k (drop p xs) @ take (n - ?k) (drop (p + ?k) xs) = take n (drop p xs)" for xs :: "byte list"
      using k(2) by (metis drop_drop add.commute le_add_diff_inverse take_add)
    ultimately show ?thesis using keeps_trans [OF K c3(2)] by auto
  qed
qed

section \<open>Frames\<close>

text \<open>\<open>within S c c'\<close>: from \<open>c\<close> to \<open>c'\<close> only sectors in \<open>S\<close> may have changed.\<close>

definition within :: "u32 set \<Rightarrow> bcache \<Rightarrow> bcache \<Rightarrow> bool" where
  "within S c c' \<longleftrightarrow> cache_ok c' \<and> sector_valid c' = sector_valid c \<and>
     (\<forall>k. sector_valid c k \<longrightarrow> k \<notin> S \<longrightarrow> cache_view c' k = cache_view c k)"

lemma withinD:
  assumes "within S c c'"
  shows "cache_ok c'" and "sector_valid c' = sector_valid c"
    and "sector_valid c k \<Longrightarrow> k \<notin> S \<Longrightarrow> cache_view c' k = cache_view c k"
  using assms by (auto simp: within_def)

lemma keeps_within: "keeps c c' \<Longrightarrow> within S c c'"
  by (auto simp: keeps_def within_def)

lemma within_empty: "within {} c c' \<longleftrightarrow> keeps c c'"
  by (auto simp: keeps_def within_def)

lemma within_refl: "cache_ok c \<Longrightarrow> within S c c"
  by (simp add: within_def)

lemma within_trans: "within S a b \<Longrightarrow> within T b c \<Longrightarrow> S \<subseteq> U \<Longrightarrow> T \<subseteq> U \<Longrightarrow> within U a c"
  unfolding within_def by (metis subsetD)

lemma within_mono: "within S c c' \<Longrightarrow> S \<subseteq> T \<Longrightarrow> within T c c'"
  unfolding within_def by blast

lemma within_write:
  assumes "cache_ok c" and "sector_valid c k" and "length d = BLOCK_SECTOR_SIZE" and "k \<in> S"
  shows "within S c (buffer_cache_write k d c)"
  using buffer_cache_write_spec [OF assms(1-3)] assms(4) by (auto simp: within_def)

lemma layout_ok_within:
  assumes "layout_ok c d n" and "within S c c'" and "S \<inter> meta_sectors (cache_view c) d n = {}"
  shows "layout_ok c' d n" and "i < n \<Longrightarrow> data_sector (cache_view c') d i = data_sector (cache_view c) d i"
    and "meta_sectors (cache_view c') d n = meta_sectors (cache_view c) d n"
proof -
  have "k \<in> meta_sectors (cache_view c) d n \<Longrightarrow> cache_view c' k = cache_view c k" for k
    using assms(1,3) withinD(3) [OF assms(2), of k] by (auto simp: layout_ok_def)
  note C = layout_ok_cong [OF assms(1) withinD(2) [OF assms(2)] this]
  show "layout_ok c' d n" using C(1) by simp
  show "meta_sectors (cache_view c') d n = meta_sectors (cache_view c) d n" using C(3) by simp
  show "i < n \<Longrightarrow> data_sector (cache_view c') d i = data_sector (cache_view c) d i" using C(2) by simp
qed

text \<open>The sectors a file occupies, and the files a change does not touch.\<close>

definition sectors_of :: "bcache \<Rightarrow> inode_disk \<Rightarrow> u32 set" where
  "sectors_of c d = data_sector (cache_view c) d ` {..<blocks_of d} \<union> meta_sectors (cache_view c) d (blocks_of d)"

lemma file_within:
  assumes F: "file_ok c d" and W: "within S c c'" and disj: "S \<inter> sectors_of c d = {}"
  shows "file_ok c' d" and "content (cache_view c') d = content (cache_view c) d"
    and "sectors_of c' d = sectors_of c d"
proof -
  note L = file_okD(3) [OF F]
  have m: "S \<inter> meta_sectors (cache_view c) d (blocks_of d) = {}" using disj by (auto simp: sectors_of_def)
  note lw = layout_ok_within [OF L W m]
  show "file_ok c' d" using lw(1) F by (simp add: file_ok_def)
  show "sectors_of c' d = sectors_of c d" using lw by (auto simp: sectors_of_def)
  show "content (cache_view c') d = content (cache_view c) d"
  proof (rule nth_equalityI)
    fix p assume "p < length (content (cache_view c') d)"
    then have p: "p < nat (dlength d)" by simp
    note b = block_of_offset [OF p]
    have "data_sector (cache_view c) d (p div 512) \<notin> S" using b disj by (auto simp: sectors_of_def)
    then show "content (cache_view c') d ! p = content (cache_view c) d ! p"
      using lw(2) [OF b] withinD(3) [OF W file_okD(4) [OF F p]] p by (simp add: nth_content byte_at_def)
  qed simp
qed

section \<open>Writing\<close>

lemma same_block_iff:
  fixes p x k :: nat
  assumes "p mod 512 + k \<le> 512"
  shows "p \<le> x \<and> x < p + k \<longleftrightarrow> x div 512 = p div 512 \<and> p mod 512 \<le> x mod 512 \<and> x mod 512 < p mod 512 + k"
proof
  assume x: "p \<le> x \<and> x < p + k"
  then obtain j where j: "x = p + j" by (auto simp: le_iff_add)
  with x assms have "p mod 512 + j < 512" by linarith
  from same_block [OF this] j x show "x div 512 = p div 512 \<and> p mod 512 \<le> x mod 512 \<and> x mod 512 < p mod 512 + k"
    by simp
next
  assume x: "x div 512 = p div 512 \<and> p mod 512 \<le> x mod 512 \<and> x mod 512 < p mod 512 + k"
  have "x = 512 * (x div 512) + x mod 512" "p = 512 * (p div 512) + p mod 512" by simp_all
  with x show "p \<le> x \<and> x < p + k" by linarith
qed

lemma write_chunk:
  assumes ok: "cache_ok c" and F: "file_ok c d" and p: "p < nat (dlength d)"
    and k: "p mod 512 + length xs \<le> 512" "p + length xs \<le> nat (dlength d)"
  defines "sec \<equiv> data_sector (cache_view c) d (p div 512)"
  defines "c' \<equiv> buffer_cache_write sec (overwrite (p mod 512) xs (cache_view c sec)) c"
  shows "within {sec} c c'" and "file_ok c' d"
    and "content (cache_view c') d = overwrite p xs (content (cache_view c) d)"
    and "sectors_of c' d = sectors_of c d"
proof -
  have v: "sector_valid c sec" unfolding sec_def using file_okD(4) [OF F p] .
  note len = length_cache_view [OF ok v]
  have "length (overwrite (p mod 512) xs (cache_view c sec)) = BLOCK_SECTOR_SIZE" using len k by simp
  note w = buffer_cache_write_spec [OF ok v this, folded c'_def]
  show W: "within {sec} c c'" using w by (auto simp: within_def)
  note b = block_of_offset [OF p]
  note L = file_okD(3) [OF F]
  have m: "{sec} \<inter> meta_sectors (cache_view c) d (blocks_of d) = {}"
    using L b by (auto simp: layout_ok_def sec_def)
  note lw = layout_ok_within [OF L W m]
  show "file_ok c' d" using lw(1) F by (simp add: file_ok_def)
  show "sectors_of c' d = sectors_of c d" using lw by (auto simp: sectors_of_def)
  show "content (cache_view c') d = overwrite p xs (content (cache_view c) d)"
  proof (rule nth_equalityI)
    show "length (content (cache_view c') d) = length (overwrite p xs (content (cache_view c) d))"
      using k(2) by simp
    fix x assume "x < length (content (cache_view c') d)"
    then have x: "x < nat (dlength d)" by simp
    note bx = block_of_offset [OF x]
    have S: "x div 512 = p div 512 \<longleftrightarrow> data_sector (cache_view c) d (x div 512) = sec"
      using L b bx by (auto simp: layout_ok_def sec_def dest: inj_onD)
    have "p \<le> x \<and> x < p + length xs \<Longrightarrow> x - p = x mod 512 - p mod 512"
    proof -
      assume "p \<le> x \<and> x < p + length xs"
      then have "x div 512 = p div 512" using same_block_iff [OF k(1)] by blast
      moreover have "x = 512 * (x div 512) + x mod 512" "p = 512 * (p div 512) + p mod 512" by simp_all
      ultimately show "x - p = x mod 512 - p mod 512" by linarith
    qed
    then show "content (cache_view c') d ! x = overwrite p xs (content (cache_view c) d) ! x"
      using x k lw(2) [OF bx] w(3) [OF file_okD(4) [OF F x]] S same_block_iff [OF k(1), of x] len
      by (auto simp: nth_content byte_at_def nth_overwrite)
  qed
qed

lemma inode_write_loop_step:
  assumes ok: "cache_ok c1" and v: "sector_valid c1 sec"
    and F: "file_ok c0 d" and p: "p < nat (dlength d)" and n: "0 < n" and buf: "n \<le> length buf"
    and sec: "byte_to_sector d (int p) c = Some (sec, c1)"
  obtains c2 where "keeps c1 c2"
    and "inode_write_loop d buf (int n) (int p) c =
      map_option (\<lambda>(m, c). (int (chunk d p n) + m, c))
        (inode_write_loop d (drop (chunk d p n) buf) (int (n - chunk d p n)) (int (p + chunk d p n))
          (buffer_cache_write sec (overwrite (p mod 512) (take (chunk d p n) buf) (cache_view c1 sec)) c2))"
proof -
  define k where "k = chunk d p n"
  note b = chunk_bounds [OF p n, folded k_def]
  note len = length_cache_view [OF ok v]
  have e: "int n - int k = int (n - k)" "int p + int k = int (p + k)" using b(2) by auto
  obtain c2 where rd: "buffer_cache_read sec c1 = (cache_view c1 sec, c2)" "keeps c1 c2"
    using buffer_cache_read_spec [OF ok v] by blast
  have not: "\<not> int k \<le> 0" "\<not> (int (p mod 512) < 0 \<or> int (length buf) < int k)" "0 < int n"
    using b(1,2) n buf by simp_all
  note unf = inode_write_loop.simps [of d buf "int n"] chunk_int [OF F p n, folded k_def] sec
      Option.bind.simps case_prod_conv Let_def
  have bind: "(Option.bind x (\<lambda>(m, c). Some (int k + m, c))) = map_option (\<lambda>(m, c). (int k + m, c)) x" for x :: "(int \<times> bcache) option"
    by (cases x) auto
  show thesis
  proof (cases "int (p mod 512) = 0 \<and> int k = 512")
    case True
    then have w: "overwrite (p mod 512) (take k buf) (cache_view c1 sec) = take 512 buf"
      using len b(2) buf by simp
    from True have t: "(int (p mod 512) = 0 \<and> int k = 512) = True" by simp
    show thesis
      by (rule that [of c1, OF keeps_refl [OF ok]])
        (unfold unf w k_def [symmetric], simp only: not t if_True if_False nat_int e bind)
  next
    case False
    then have "0 < int (p mod 512) \<or> int k < 512 - int (p mod 512)" using b(4) by linarith
    then have t: "(0 < int (p mod 512) \<or> int k < 512 - int (p mod 512)) = True" by simp
    from False have f: "(int (p mod 512) = 0 \<and> int k = 512) = False" by simp
    show thesis
      by (rule that [of c2, OF rd(2)])
        (unfold unf k_def [symmetric], simp only: not t f if_True if_False nat_int e rd case_prod_conv bind)
  qed
qed

lemma inode_write_loop_spec:
  "cache_ok c \<Longrightarrow> file_ok c d \<Longrightarrow> p + n \<le> nat (dlength d) \<Longrightarrow> n \<le> length buf \<Longrightarrow>
   \<exists>c'. inode_write_loop d buf (int n) (int p) c = Some (int n, c') \<and>
     within (data_sector (cache_view c) d ` {..<blocks_of d}) c c' \<and> file_ok c' d \<and>
     sectors_of c' d = sectors_of c d \<and>
     content (cache_view c') d = overwrite p (take n buf) (content (cache_view c) d)"
proof (induction n arbitrary: p c buf rule: less_induct)
  case (less n)
  note ok = less.prems(1) and F = less.prems(2)
  let ?D = "\<lambda>c. data_sector (cache_view c) d ` {..<blocks_of d}"
  show ?case
  proof (cases "n = 0")
    case True
    then show ?thesis
      using F by (subst inode_write_loop.simps) (simp add: within_refl [OF ok])
  next
    case False
    let ?k = "chunk d p n" and ?sec = "data_sector (cache_view c) d (p div 512)"
    have n: "0 < n" and p: "p < nat (dlength d)" using False less.prems(3) by auto
    note k = chunk_bounds [OF p n]
    obtain c1 where c1: "byte_to_sector d (int p) c = Some (?sec, c1)" "keeps c c1"
      using byte_to_sector_eq [OF ok F p] by blast
    have v: "sector_valid c ?sec" by (rule file_okD(4) [OF F p])
    then have v1: "sector_valid c1 ?sec" "cache_view c1 ?sec = cache_view c ?sec"
      using keepsD(2,3) [OF c1(2)] by auto
    obtain c2 where c2: "keeps c1 c2" and loop: "inode_write_loop d buf (int n) (int p) c =
      map_option (\<lambda>(m, c). (int ?k + m, c))
        (inode_write_loop d (drop ?k buf) (int (n - ?k)) (int (p + ?k))
          (buffer_cache_write ?sec (overwrite (p mod 512) (take ?k buf) (cache_view c1 ?sec)) c2))"
      by (rule inode_write_loop_step [OF keepsD(1) [OF c1(2)] v1(1) F p n less.prems(4) c1(1)])
    have K: "keeps c c2" using keeps_trans [OF c1(2) c2] .
    note L = file_okD(3) [OF F]
    note F2 = file_ok_keeps [OF F K] and D2 = layout_ok_keeps(2) [OF L K]
    have sec2: "data_sector (cache_view c2) d (p div 512) = ?sec" using D2 [OF block_of_offset [OF p]] .
    have view2: "cache_view c2 ?sec = cache_view c ?sec" using keepsD(3) [OF K v] .
    let ?c3 = "buffer_cache_write ?sec (overwrite (p mod 512) (take ?k buf) (cache_view c ?sec)) c2"
    have lk: "length (take ?k buf) = ?k" using k(2) less.prems(4) by simp
    note w = write_chunk [OF keepsD(1) [OF K] F2 p, of "take ?k buf", unfolded lk sec2 view2, OF k(4,3)]
    have F3: "file_ok ?c3 d" by (rule w(2))
    have D: "?D c2 = ?D c" using D2 by (intro image_cong) auto
    have "{?sec} \<inter> meta_sectors (cache_view c2) d (blocks_of d) = {}"
      using file_okD(3) [OF F2] block_of_offset [OF p] sec2 by (auto simp: layout_ok_def)
    then have D3: "?D ?c3 = ?D c2"
      using layout_ok_within(2) [OF file_okD(3) [OF F2] w(1)] by (intro image_cong) auto
    have "n - ?k < n" "p + ?k + (n - ?k) \<le> nat (dlength d)" "n - ?k \<le> length (drop ?k buf)"
      using k(1,2) n less.prems(3,4) by auto
    from less.IH [OF this(1) withinD(1) [OF w(1)] F3 this(2,3)] obtain c4 where c4:
      "inode_write_loop d (drop ?k buf) (int (n - ?k)) (int (p + ?k)) ?c3 = Some (int (n - ?k), c4)"
      "within (?D ?c3) ?c3 c4" "file_ok c4 d" "sectors_of c4 d = sectors_of ?c3 d"
      "content (cache_view c4) d = overwrite (p + ?k) (take (n - ?k) (drop ?k buf)) (content (cache_view ?c3) d)"
      by blast
    have "content (cache_view c4) d = overwrite p (take n buf) (content (cache_view c) d)"
      using overwrite_overwrite_adjacent [of p "take ?k buf" "take (n - ?k) (drop ?k buf)" "content (cache_view c) d"]
        less.prems(3,4) k(2) lk
      by (simp add: c4(5) w(3) content_keeps [OF F K] take_add [symmetric])
    moreover have "within (?D c) c c4"
    proof (rule within_trans [OF _ c4(2)])
      show "within (?D c) c ?c3"
        using block_of_offset [OF p] by (intro within_trans [OF keeps_within [OF K] w(1)]) auto
    qed (simp_all add: D3 D)
    moreover have "sectors_of c4 d = sectors_of c d"
      using c4(4) w(4) layout_ok_keeps(3) [OF L K] D by (simp add: sectors_of_def)
    moreover have "inode_write_loop d buf (int n) (int p) c = Some (int n, c4)"
      unfolding loop v1(2) c4(1) using k(2) by simp
    ultimately show ?thesis using c4(3) by blast
  qed
qed

end
