(* ===== verification/Bitmap.thy ===== *)
theory Bitmap
  imports Codec
begin

text \<open>
  The bitmap of \<^verbatim>\<open>src/a3/fs/bitmap.c\<close>: an array of 64-bit elements that simulates an
  array of bits, and the abstraction \<open>bm_list\<close> of a bitmap to the list of its bits.
\<close>

section \<open>Data\<close>

record bitmap =
  bit_cnt :: nat
  bits :: "u64 list"

definition ELEM_BITS :: nat where
  "ELEM_BITS = 64"

definition elem_idx :: "nat \<Rightarrow> nat" where
  "elem_idx bit_idx = bit_idx div ELEM_BITS"

definition bit_mask :: "nat \<Rightarrow> u64" where
  "bit_mask bit_idx = push_bit (bit_idx mod ELEM_BITS) 1"

definition elem_cnt :: "nat \<Rightarrow> nat" where
  "elem_cnt n = DIV_ROUND_UP n ELEM_BITS"

definition byte_cnt :: "nat \<Rightarrow> nat" where
  "byte_cnt n = 8 * elem_cnt n"

definition last_mask :: "bitmap \<Rightarrow> u64" where
  "last_mask b =
     (let last_bits = bit_cnt b mod ELEM_BITS
      in if last_bits \<noteq> 0 then push_bit last_bits 1 - 1 else - 1)"

definition BITMAP_ERROR :: nat where
  "BITMAP_ERROR = 4294967295"

section \<open>Single bits\<close>

definition bitmap_size :: "bitmap \<Rightarrow> nat" where
  "bitmap_size b = bit_cnt b"

definition bitmap_mark :: "bitmap \<Rightarrow> nat \<Rightarrow> bitmap option" where
  "bitmap_mark b bit_idx =
     (let idx = elem_idx bit_idx
      in if idx < length (bits b)
         then Some (b\<lparr>bits := (bits b)[idx := (bits b ! idx) OR bit_mask bit_idx]\<rparr>)
         else None)"

definition bitmap_reset :: "bitmap \<Rightarrow> nat \<Rightarrow> bitmap option" where
  "bitmap_reset b bit_idx =
     (let idx = elem_idx bit_idx
      in if idx < length (bits b)
         then Some (b\<lparr>bits := (bits b)[idx := (bits b ! idx) AND NOT (bit_mask bit_idx)]\<rparr>)
         else None)"

definition bitmap_flip :: "bitmap \<Rightarrow> nat \<Rightarrow> bitmap option" where
  "bitmap_flip b bit_idx =
     (let idx = elem_idx bit_idx
      in if idx < length (bits b)
         then Some (b\<lparr>bits := (bits b)[idx := (bits b ! idx) XOR bit_mask bit_idx]\<rparr>)
         else None)"

definition bitmap_set :: "bitmap \<Rightarrow> nat \<Rightarrow> bool \<Rightarrow> bitmap option" where
  "bitmap_set b idx v = (if v then bitmap_mark b idx else bitmap_reset b idx)"

definition bitmap_test :: "bitmap \<Rightarrow> nat \<Rightarrow> bool option" where
  "bitmap_test b idx =
     (if elem_idx idx < length (bits b)
      then Some ((bits b ! elem_idx idx) AND bit_mask idx \<noteq> 0)
      else None)"

section \<open>Ranges of bits\<close>

definition bitmap_set_multiple :: "bitmap \<Rightarrow> nat \<Rightarrow> nat \<Rightarrow> bool \<Rightarrow> bitmap option" where
  "bitmap_set_multiple b start cnt v = ofold (\<lambda>i b. bitmap_set b (start + i) v) [0..<cnt] b"

definition bitmap_set_all :: "bitmap \<Rightarrow> bool \<Rightarrow> bitmap option" where
  "bitmap_set_all b v = bitmap_set_multiple b 0 (bitmap_size b) v"

definition bitmap_count :: "bitmap \<Rightarrow> nat \<Rightarrow> nat \<Rightarrow> bool \<Rightarrow> nat option" where
  "bitmap_count b start cnt v =
     ofold (\<lambda>i value_cnt. do { t \<leftarrow> bitmap_test b (start + i);
                               Some (if t = v then value_cnt + 1 else value_cnt) })
       [0..<cnt] 0"

text \<open>The loop of \<open>bitmap_contains\<close> returns early, at the first bit that has the value.\<close>

primrec contains_loop :: "bitmap \<Rightarrow> nat \<Rightarrow> bool \<Rightarrow> nat list \<Rightarrow> bool option" where
  "contains_loop b start v [] = Some False"
| "contains_loop b start v (i # is) =
     do { t \<leftarrow> bitmap_test b (start + i);
          if t = v then Some True else contains_loop b start v is }"

definition bitmap_contains :: "bitmap \<Rightarrow> nat \<Rightarrow> nat \<Rightarrow> bool \<Rightarrow> bool option" where
  "bitmap_contains b start cnt v = contains_loop b start v [0..<cnt]"

definition bitmap_any :: "bitmap \<Rightarrow> nat \<Rightarrow> nat \<Rightarrow> bool option" where
  "bitmap_any b start cnt = bitmap_contains b start cnt True"

definition bitmap_none :: "bitmap \<Rightarrow> nat \<Rightarrow> nat \<Rightarrow> bool option" where
  "bitmap_none b start cnt = map_option Not (bitmap_contains b start cnt True)"

definition bitmap_all :: "bitmap \<Rightarrow> nat \<Rightarrow> nat \<Rightarrow> bool option" where
  "bitmap_all b start cnt = map_option Not (bitmap_contains b start cnt False)"

section \<open>Scanning\<close>

function scan_loop :: "bitmap \<Rightarrow> nat \<Rightarrow> bool \<Rightarrow> nat \<Rightarrow> nat \<Rightarrow> nat option" where
  "scan_loop b cnt v i lim =
     (if i \<le> lim
      then do { c \<leftarrow> bitmap_contains b i cnt (\<not> v);
                if \<not> c then Some i else scan_loop b cnt v (Suc i) lim }
      else Some BITMAP_ERROR)"
  by pat_completeness auto
termination
  by (relation "measure (\<lambda>(b, cnt, v, i, lim). Suc lim - i)") auto

declare scan_loop.simps [simp del]

definition bitmap_scan :: "bitmap \<Rightarrow> nat \<Rightarrow> nat \<Rightarrow> bool \<Rightarrow> nat option" where
  "bitmap_scan b start cnt v =
     (if cnt \<le> bit_cnt b then scan_loop b cnt v start (bit_cnt b - cnt)
      else Some BITMAP_ERROR)"

definition bitmap_scan_and_flip ::
    "bitmap \<Rightarrow> nat \<Rightarrow> nat \<Rightarrow> bool \<Rightarrow> (nat \<times> bitmap) option" where
  "bitmap_scan_and_flip b start cnt v =
     do { idx \<leftarrow> bitmap_scan b start cnt v;
          if idx \<noteq> BITMAP_ERROR
          then do { b' \<leftarrow> bitmap_set_multiple b idx cnt (\<not> v); Some (idx, b') }
          else Some (idx, b) }"

section \<open>Creation, and the bytes of a bitmap\<close>

definition bitmap_create :: "nat \<Rightarrow> bitmap option" where
  "bitmap_create n = bitmap_set_all \<lparr>bit_cnt = n, bits = replicate (elem_cnt n) 0\<rparr> False"

definition bitmap_bytes :: "bitmap \<Rightarrow> byte list" where
  "bitmap_bytes b = words_to_bytes 8 (bits b)"

definition bitmap_create_from_buf :: "nat \<Rightarrow> byte list \<Rightarrow> bitmap option" where
  "bitmap_create_from_buf n buf =
     do { b \<leftarrow> bitmap_create n;
          if byte_cnt n \<le> length buf
          then Some (b\<lparr>bits := bytes_to_words 8 (elem_cnt n) buf\<rparr>)
          else None }"

definition bitmap_file_size :: "bitmap \<Rightarrow> nat" where
  "bitmap_file_size b = byte_cnt (bit_cnt b)"

text \<open>
  What \<open>bitmap_read\<close> does with the bytes it obtained from the file: they replace a prefix
  of the elements' memory, and the unused bits of the last element are cleared.
\<close>

definition bitmap_load :: "bitmap \<Rightarrow> byte list \<Rightarrow> bitmap" where
  "bitmap_load b data =
     (let n = elem_cnt (bit_cnt b);
          mem = overwrite 0 data (bitmap_bytes b);
          ws = bytes_to_words 8 (length (bits b)) mem
      in b\<lparr>bits := ws[n - 1 := (ws ! (n - 1)) AND last_mask b]\<rparr>)"

section \<open>The list of bits a bitmap stands for\<close>

definition bm_list :: "bitmap \<Rightarrow> bool list" where
  "bm_list b = map (\<lambda>i. bit (bits b ! elem_idx i) (i mod ELEM_BITS)) [0..<bit_cnt b]"

definition bitmap_ok :: "bitmap \<Rightarrow> bool" where
  "bitmap_ok b \<longleftrightarrow> length (bits b) = elem_cnt (bit_cnt b)"

lemma length_bm_list [simp]: "length (bm_list b) = bit_cnt b"
  by (simp add: bm_list_def)

lemma nth_bm_list: "i < bit_cnt b \<Longrightarrow> bm_list b ! i = bit (bits b ! elem_idx i) (i mod ELEM_BITS)"
  by (simp add: bm_list_def)

lemma elem_idx_less: "i < n \<Longrightarrow> elem_idx i < elem_cnt n"
proof -
  assume "i < n"
  moreover have "i div 64 * 64 \<le> i" by simp
  ultimately have "i div 64 * 64 < n" by linarith
  then show ?thesis by (simp add: elem_idx_def elem_cnt_def ELEM_BITS_def less_DIV_ROUND_UP_iff)
qed

lemma elem_idx_less_bits: "bitmap_ok b \<Longrightarrow> i < bit_cnt b \<Longrightarrow> elem_idx i < length (bits b)"
  by (simp add: bitmap_ok_def elem_idx_less)

lemma bit_bit_mask: "bit (bit_mask i) j \<longleftrightarrow> j = i mod ELEM_BITS"
proof -
  have "i mod 64 < (64::nat)" by simp
  then show ?thesis
    unfolding bit_mask_def ELEM_BITS_def bit_push_bit_iff bit_1_iff by auto
qed

lemma and_bit_mask_iff: "w AND bit_mask i \<noteq> 0 \<longleftrightarrow> bit w (i mod ELEM_BITS)"
proof
  assume "w AND bit_mask i \<noteq> 0"
  then obtain j where "bit (w AND bit_mask i) j" 
    by (auto simp: bit_eq_iff)
  then show "bit w (i mod ELEM_BITS)" by (auto simp: bit_and_iff bit_bit_mask)
next
  assume "bit w (i mod ELEM_BITS)"
  then have "bit (w AND bit_mask i) (i mod ELEM_BITS)" by (simp add: bit_and_iff bit_bit_mask)
  then show "w AND bit_mask i \<noteq> 0" by auto
qed

lemma elem_idx_mod_eq_iff:
  "elem_idx i = elem_idx j \<Longrightarrow> (i mod ELEM_BITS = j mod ELEM_BITS) = (i = j)"
  unfolding elem_idx_def by (metis div_mult_mod_eq)

text \<open>All three single-bit operations rewrite one element; this is the fact they share.\<close>

lemma bm_list_upd_elem:
  assumes ok: "bitmap_ok b" and i: "i < bit_cnt b"
    and w: "\<And>j. bit w j = (if j = i mod ELEM_BITS then v else bit (bits b ! elem_idx i) j)"
  shows "bm_list (b\<lparr>bits := (bits b)[elem_idx i := w]\<rparr>) = (bm_list b)[i := v]"
proof (rule nth_equalityI)
  show "length (bm_list (b\<lparr>bits := (bits b)[elem_idx i := w]\<rparr>)) = length ((bm_list b)[i := v])"
    by simp
next
  fix k assume "k < length (bm_list (b\<lparr>bits := (bits b)[elem_idx i := w]\<rparr>))"
  then have k: "k < bit_cnt b" by simp
  note lt = elem_idx_less_bits [OF ok i]
  have ne: "elem_idx k \<noteq> elem_idx i \<Longrightarrow> i \<noteq> k" by auto
  show "bm_list (b\<lparr>bits := (bits b)[elem_idx i := w]\<rparr>) ! k = (bm_list b)[i := v] ! k"
    using k lt ne elem_idx_mod_eq_iff [of k i]
    by (cases "elem_idx k = elem_idx i")
      (auto simp: nth_bm_list w nth_list_update)
qed

lemma bitmap_test_eq [view_simps]:
  "bitmap_ok b \<Longrightarrow> i < bit_cnt b \<Longrightarrow> bitmap_test b i = Some (bm_list b ! i)"
  using elem_idx_less_bits [of b i]
  by (simp add: bitmap_test_def and_bit_mask_iff nth_bm_list)

lemma bitmap_mark_refines:
  assumes "bitmap_ok b" and "i < bit_cnt b"
  shows "\<exists>b'. bitmap_mark b i = Some b' \<and> bitmap_ok b' \<and> bm_list b' = (bm_list b)[i := True]"
  using elem_idx_less_bits [OF assms]
    bm_list_upd_elem [OF assms, of "(bits b ! elem_idx i) OR bit_mask i" True] assms(1)
  by (auto simp: bitmap_mark_def Let_def bitmap_ok_def bit_or_iff bit_bit_mask)

lemma bitmap_reset_refines:
  assumes "bitmap_ok b" and "i < bit_cnt b"
  shows "\<exists>b'. bitmap_reset b i = Some b' \<and> bitmap_ok b' \<and> bm_list b' = (bm_list b)[i := False]"
proof -
  have "bit ((bits b ! elem_idx i) AND NOT (bit_mask i)) j
      = (if j = i mod ELEM_BITS then False else bit (bits b ! elem_idx i) j)" for j
    by (auto simp: bit_and_iff bit_not_iff bit_bit_mask dest: bit_imp_le_length)
  from bm_list_upd_elem [OF assms, OF this] show ?thesis
    using elem_idx_less_bits [OF assms] assms(1)
    by (simp add: bitmap_reset_def Let_def bitmap_ok_def)
qed

lemma bitmap_set_refines:
  assumes "bitmap_ok b" and "i < bit_cnt b"
  shows "\<exists>b'. bitmap_set b i v = Some b' \<and> bitmap_ok b' \<and> bm_list b' = (bm_list b)[i := v]"
  using bitmap_mark_refines [OF assms] bitmap_reset_refines [OF assms]
  by (simp add: bitmap_set_def)

lemma bitmap_flip_refines:
  assumes "bitmap_ok b" and "i < bit_cnt b"
  shows "\<exists>b'. bitmap_flip b i = Some b' \<and> bitmap_ok b' \<and> bm_list b' = (bm_list b)[i := \<not> bm_list b ! i]"
  using elem_idx_less_bits [OF assms]
    bm_list_upd_elem [OF assms, of "(bits b ! elem_idx i) XOR bit_mask i" "\<not> bm_list b ! i"] assms
  by (auto simp: bitmap_flip_def Let_def bitmap_ok_def bit_xor_iff bit_bit_mask nth_bm_list)

lemma bm_list_bit_cnt: "bm_list b' = (bm_list b)[i := v] \<Longrightarrow> bit_cnt b' = bit_cnt b"
  by (metis length_bm_list length_list_update)

section \<open>Ranges and scanning against the list of bits\<close>

definition run_at :: "'a list \<Rightarrow> nat \<Rightarrow> nat \<Rightarrow> 'a \<Rightarrow> bool" where
  "run_at xs i cnt v \<longleftrightarrow> i + cnt \<le> length xs \<and> (\<forall>k < cnt. xs ! (i + k) = v)"

lemma run_at_nth: "run_at xs r cnt v \<Longrightarrow> r \<le> i \<Longrightarrow> i < r + cnt \<Longrightarrow> xs ! i = v"
  unfolding run_at_def by (metis add_less_cancel_left le_add_diff_inverse)

lemma run_at_length: "run_at xs r cnt v \<Longrightarrow> r + cnt \<le> length xs"
  by (simp add: run_at_def)

lemma overwrite_run_undo:
  "run_at xs r cnt v \<Longrightarrow> overwrite r (replicate cnt v) (overwrite r (replicate cnt w) xs) = xs"
  using run_at_length [of xs r cnt v]
  by (intro nth_equalityI) (auto simp: nth_overwrite run_at_nth)

lemma overwrite_replicate_Suc:
  "start + Suc i \<le> length xs \<Longrightarrow>
   (overwrite start (replicate i v) xs)[start + i := v] = overwrite start (replicate (Suc i) v) xs"
  by (intro nth_equalityI) (auto simp: nth_overwrite nth_list_update simp del: replicate_Suc)

lemma bitmap_set_multiple_refines:
  assumes ok: "bitmap_ok b" and range: "start + cnt \<le> bit_cnt b"
  shows "\<exists>b'. bitmap_set_multiple b start cnt v = Some b' \<and> bitmap_ok b' \<and>
              bm_list b' = overwrite start (replicate cnt v) (bm_list b)"
  unfolding bitmap_set_multiple_def
proof (rule ofold_upt_invariant
    [where P = "\<lambda>i b'. bitmap_ok b' \<and> bm_list b' = overwrite start (replicate i v) (bm_list b)"])
  show "bitmap_ok b \<and> bm_list b = overwrite start (replicate 0 v) (bm_list b)"
    using ok by simp
next
  fix i b'
  assume i: "i < cnt"
    and inv: "bitmap_ok b' \<and> bm_list b' = overwrite start (replicate i v) (bm_list b)"
  then have "length (bm_list b') = length (bm_list b)" using range by simp
  then have "start + i < bit_cnt b'" using i range by simp
  from bitmap_set_refines [OF _ this, of v] inv
  show "\<exists>b''. bitmap_set b' (start + i) v = Some b'' \<and> bitmap_ok b'' \<and>
      bm_list b'' = overwrite start (replicate (Suc i) v) (bm_list b)"
    using overwrite_replicate_Suc [of start i "bm_list b" v] i range
    by (auto simp del: replicate_Suc)
qed simp

lemma bitmap_set_multiple_eq:
  assumes "bitmap_ok b" and "start + cnt \<le> bit_cnt b"
  obtains b' where "bitmap_set_multiple b start cnt v = Some b'" "bitmap_ok b'"
    "bit_cnt b' = bit_cnt b"
    "\<And>i. i < bit_cnt b \<Longrightarrow> bm_list b' ! i = (if start \<le> i \<and> i < start + cnt then v else bm_list b ! i)"
proof -
  from bitmap_set_multiple_refines [OF assms, of v] obtain b' where b':
    "bitmap_set_multiple b start cnt v = Some b'" "bitmap_ok b'"
    "bm_list b' = overwrite start (replicate cnt v) (bm_list b)" by blast
  have "length (bm_list b') = length (bm_list b)" using b'(3) assms(2) by simp
  then have "bit_cnt b' = bit_cnt b" by simp
  with b' assms(2) show thesis
    by (intro that [of b']) (auto simp: nth_overwrite)
qed

lemma contains_loop_eq:
  "bitmap_ok b \<Longrightarrow> \<forall>i \<in> set is. start + i < bit_cnt b \<Longrightarrow>
   contains_loop b start v is = Some (\<exists>i \<in> set is. bm_list b ! (start + i) = v)"
  by (induction "is") (auto simp: bitmap_test_eq)

lemma bitmap_contains_eq:
  "bitmap_ok b \<Longrightarrow> start + cnt \<le> bit_cnt b \<Longrightarrow>
   bitmap_contains b start cnt v = Some (\<exists>i < cnt. bm_list b ! (start + i) = v)"
  by (auto simp: bitmap_contains_def contains_loop_eq)

lemma bitmap_all_eq [view_simps]:
  "bitmap_ok b \<Longrightarrow> start + cnt \<le> bit_cnt b \<Longrightarrow>
   bitmap_all b start cnt = Some (run_at (bm_list b) start cnt True)"
  by (auto simp: bitmap_all_def bitmap_contains_eq run_at_def)

lemma bitmap_contains_not_eq:
  "bitmap_ok b \<Longrightarrow> start + cnt \<le> bit_cnt b \<Longrightarrow>
   bitmap_contains b start cnt (\<not> v) = Some (\<not> run_at (bm_list b) start cnt v)"
  by (auto simp: bitmap_contains_eq run_at_def)

lemma bitmap_count_eq:
  assumes "bitmap_ok b" and "start + cnt \<le> bit_cnt b"
  shows "bitmap_count b start cnt v = Some (card {i. i < cnt \<and> bm_list b ! (start + i) = v})"
proof -
  have "\<exists>n. bitmap_count b start cnt v = Some n \<and> n = card {i. i < cnt \<and> bm_list b ! (start + i) = v}"
    unfolding bitmap_count_def
  proof (rule ofold_upt_invariant
      [where P = "\<lambda>c n. n = card {i. i < c \<and> bm_list b ! (start + i) = v}"])
    fix i and n :: nat
    assume i: "i < cnt" and n: "n = card {k. k < i \<and> bm_list b ! (start + k) = v}"
    have "{k. k < Suc i \<and> bm_list b ! (start + k) = v} =
        (if bm_list b ! (start + i) = v then insert i {k. k < i \<and> bm_list b ! (start + k) = v}
         else {k. k < i \<and> bm_list b ! (start + k) = v})"
      by (auto simp: less_Suc_eq)
    then show "\<exists>n'. (do { t \<leftarrow> bitmap_test b (start + i);
                         Some (if t = v then n + 1 else n) }) = Some n' \<and>
        n' = card {k. k < Suc i \<and> bm_list b ! (start + k) = v}"
      using assms i n by (simp add: bitmap_test_eq)
  qed auto
  then show ?thesis by simp
qed

lemma scan_loop_eq:
  assumes ok: "bitmap_ok b" and lim: "lim + cnt \<le> bit_cnt b"
  shows "scan_loop b cnt v i lim =
    Some (if \<exists>k \<ge> i. k \<le> lim \<and> run_at (bm_list b) k cnt v
          then LEAST k. i \<le> k \<and> run_at (bm_list b) k cnt v else BITMAP_ERROR)"
proof (induction "Suc lim - i" arbitrary: i)
  case 0
  then show ?case by (subst scan_loop.simps) auto
next
  case (Suc n)
  then have i: "i \<le> lim" by simp
  have IH: "scan_loop b cnt v (Suc i) lim =
    Some (if \<exists>k \<ge> Suc i. k \<le> lim \<and> run_at (bm_list b) k cnt v
          then LEAST k. Suc i \<le> k \<and> run_at (bm_list b) k cnt v else BITMAP_ERROR)"
    using Suc.hyps(2) by (intro Suc.hyps(1)) simp
  show ?case
  proof (cases "run_at (bm_list b) i cnt v")
    case True
    moreover from True have "(LEAST k. i \<le> k \<and> run_at (bm_list b) k cnt v) = i"
      by (intro Least_equality) auto
    ultimately show ?thesis
      using i lim ok by (subst scan_loop.simps) (auto simp: bitmap_contains_not_eq)
  next
    case False
    then have "(i \<le> k \<and> run_at (bm_list b) k cnt v) = (Suc i \<le> k \<and> run_at (bm_list b) k cnt v)" for k
      by (metis Suc_leD le_antisym not_less_eq_eq)
    with False i lim ok IH show ?thesis
      by (subst scan_loop.simps) (simp add: bitmap_contains_not_eq, metis)
  qed
qed

lemma bitmap_scan_eq:
  assumes ok: "bitmap_ok b"
  shows "bitmap_scan b start cnt v =
    Some (if \<exists>k \<ge> start. run_at (bm_list b) k cnt v
          then LEAST k. start \<le> k \<and> run_at (bm_list b) k cnt v else BITMAP_ERROR)"
proof (cases "cnt \<le> bit_cnt b")
  case True
  then have "run_at (bm_list b) k cnt v \<Longrightarrow> k \<le> bit_cnt b - cnt" for k
    by (auto simp: run_at_def)
  then have "(\<exists>k \<ge> start. k \<le> bit_cnt b - cnt \<and> run_at (bm_list b) k cnt v)
      = (\<exists>k \<ge> start. run_at (bm_list b) k cnt v)" by blast
  with True ok show ?thesis by (simp add: bitmap_scan_def scan_loop_eq)
next
  case False
  then show ?thesis by (simp add: bitmap_scan_def run_at_def)
qed

section \<open>First-fit allocation of runs\<close>

text \<open>
  The interface the free map uses: take the first run of \<open>cnt\<close> free units, give a run back.
  \<open>used\<close> tells which units are taken; \<open>err\<close> is the answer when there is no run.
\<close>

locale run_allocator =
  fixes take_run :: "'m \<Rightarrow> nat \<Rightarrow> (nat \<times> 'm) option"
    and give_run :: "'m \<Rightarrow> nat \<Rightarrow> nat \<Rightarrow> 'm option"
    and used :: "'m \<Rightarrow> bool list"
    and ok :: "'m \<Rightarrow> bool"
    and err :: nat
  assumes take_run_spec: "ok m \<Longrightarrow> length (used m) \<le> err \<Longrightarrow> \<exists>r m'. take_run m cnt = Some (r, m') \<and> ok m' \<and>
      (if \<exists>k. run_at (used m) k cnt False
       then run_at (used m) r cnt False \<and> (\<forall>k < r. \<not> run_at (used m) k cnt False) \<and>
            used m' = overwrite r (replicate cnt True) (used m)
       else r = err \<and> m' = m)"
    and give_run_spec: "ok m \<Longrightarrow> r + cnt \<le> length (used m) \<Longrightarrow>
      \<exists>m'. give_run m r cnt = Some m' \<and> ok m' \<and> used m' = overwrite r (replicate cnt False) (used m)"
begin

lemma take_run_cases:
  assumes "ok m" and "length (used m) \<le> err" and "0 < cnt" and "take_run m cnt = Some (r, m')"
  obtains (taken) "r \<noteq> err" "run_at (used m) r cnt False" "\<forall>k < r. \<not> run_at (used m) k cnt False"
      "used m' = overwrite r (replicate cnt True) (used m)" "ok m'"
    | (full) "r = err" "m' = m" "\<And>k. \<not> run_at (used m) k cnt False"
proof (cases "\<exists>k. run_at (used m) k cnt False")
  case True
  with take_run_spec [OF assms(1,2), of cnt] assms(4) have *:
    "run_at (used m) r cnt False" "\<forall>k < r. \<not> run_at (used m) k cnt False"
    "used m' = overwrite r (replicate cnt True) (used m)" "ok m'"
    by auto
  moreover from *(1) assms(2,3) have "r \<noteq> err" by (auto simp: run_at_def)
  ultimately show thesis by (rule taken [rotated])
next
  case False
  with take_run_spec [OF assms(1,2), of cnt] assms(4) have "r = err" "m' = m"
    by (simp_all only: if_False) auto
  with False show thesis by (intro full) auto
qed

text \<open>Giving back what was taken restores the map.\<close>

lemma take_give:
  assumes "ok m" and "length (used m) \<le> err" and "0 < cnt"
    and "take_run m cnt = Some (r, m')" and "r \<noteq> err"
  shows "\<exists>m''. give_run m' r cnt = Some m'' \<and> ok m'' \<and> used m'' = used m"
  using assms(1-4)
proof (cases rule: take_run_cases)
  case taken
  then have "r + cnt \<le> length (used m')" by (simp add: run_at_def)
  from give_run_spec [OF taken(5) this] taken(2,4) show ?thesis
    by (auto simp: overwrite_run_undo)
next
  case full
  with assms(5) show ?thesis by simp
qed

text \<open>What was taken is not taken again while it is held.\<close>

lemma take_take_disjoint:
  assumes "ok m" and "length (used m) \<le> err" and "0 < cnt" and "0 < cnt'"
    and "take_run m cnt = Some (r, m')" and "r \<noteq> err"
    and "take_run m' cnt' = Some (r', m'')" and "r' \<noteq> err"
  shows "{r ..< r + cnt} \<inter> {r' ..< r' + cnt'} = {}"
  using assms(1,2,3,5)
proof (cases rule: take_run_cases)
  case taken
  have "length (used m') \<le> err" using taken(2,4) assms(2) by (simp add: run_at_def)
  with taken(5) have r': "run_at (used m') r' cnt' False"
    using assms(4,7,8) by (cases rule: take_run_cases [of m' cnt' r' m'']) auto
  show ?thesis
  proof (rule equals0I)
    fix i assume i: "i \<in> {r ..< r + cnt} \<inter> {r' ..< r' + cnt'}"
    then have "i < length (used m)" using taken(2) by (auto simp: run_at_def)
    with i taken(2,4) have "used m' ! i" by (auto simp: run_at_def nth_overwrite)
    moreover have "\<not> used m' ! i"
      using i run_at_nth [OF r', of i] by simp
    ultimately show False by simp
  qed
next
  case full
  with assms(6) show ?thesis by simp
qed

end

lemma bitmap_scan_and_flip_spec:
  assumes ok: "bitmap_ok b" and small: "bit_cnt b \<le> BITMAP_ERROR"
  shows "\<exists>r b'. bitmap_scan_and_flip b start cnt v = Some (r, b') \<and> bitmap_ok b' \<and>
    (if \<exists>k \<ge> start. run_at (bm_list b) k cnt v
     then start \<le> r \<and> run_at (bm_list b) r cnt v \<and>
          (\<forall>k. start \<le> k \<and> k < r \<longrightarrow> \<not> run_at (bm_list b) k cnt v) \<and>
          bm_list b' = overwrite r (replicate cnt (\<not> v)) (bm_list b)
     else r = BITMAP_ERROR \<and> b' = b)"
proof (cases "\<exists>k \<ge> start. run_at (bm_list b) k cnt v")
  case False
  have "bitmap_scan b start cnt v = Some BITMAP_ERROR"
    unfolding bitmap_scan_eq [OF ok] if_not_P [OF False] ..
  then have "bitmap_scan_and_flip b start cnt v = Some (BITMAP_ERROR, b)"
    by (simp add: bitmap_scan_and_flip_def)
  with ok show ?thesis unfolding if_not_P [OF False] by blast
next
  case True
  define r where "r = (LEAST k. start \<le> k \<and> run_at (bm_list b) k cnt v)"
  have r: "start \<le> r" "run_at (bm_list b) r cnt v"
    using LeastI_ex [of "\<lambda>k. start \<le> k \<and> run_at (bm_list b) k cnt v"] True by (auto simp: r_def)
  have least: "\<forall>k. start \<le> k \<and> k < r \<longrightarrow> \<not> run_at (bm_list b) k cnt v"
  proof (intro allI impI notI)
    fix k assume k: "start \<le> k \<and> k < r" and "run_at (bm_list b) k cnt v"
    then have "r \<le> k" unfolding r_def by (intro Least_le) simp
    with k show False by simp
  qed
  have scan: "bitmap_scan b start cnt v = Some r"
    unfolding bitmap_scan_eq [OF ok] if_P [OF True] r_def ..
  from r(2) have bound: "r + cnt \<le> bit_cnt b" by (simp add: run_at_def)
  obtain b' where b': "bitmap_scan_and_flip b start cnt v = Some (r, b')" "bitmap_ok b'"
    "bm_list b' = overwrite r (replicate cnt (\<not> v)) (bm_list b)"
  proof (cases "r = BITMAP_ERROR")
    case True
    with bound small have "cnt = 0" by linarith
    have "bitmap_scan_and_flip b start cnt v = Some (r, b)"
      using scan True unfolding bitmap_scan_and_flip_def by simp
    with ok \<open>cnt = 0\<close> show thesis by (intro that) simp_all
  next
    case False
    from bitmap_set_multiple_refines [OF ok bound, of "\<not> v"] obtain b' where
      "bitmap_set_multiple b r cnt (\<not> v) = Some b'" "bitmap_ok b'"
      "bm_list b' = overwrite r (replicate cnt (\<not> v)) (bm_list b)" by blast
    with scan False show thesis by (intro that) (simp_all add: bitmap_scan_and_flip_def)
  qed
  show ?thesis unfolding if_P [OF True] using b' r least by blast
qed

interpretation fm: run_allocator
  "\<lambda>b cnt. bitmap_scan_and_flip b 0 cnt False" "\<lambda>b r cnt. bitmap_set_multiple b r cnt False"
  bm_list bitmap_ok BITMAP_ERROR
proof unfold_locales
  fix m :: bitmap and cnt :: nat
  assume "bitmap_ok m" and "length (bm_list m) \<le> BITMAP_ERROR"
  then show "\<exists>r m'. bitmap_scan_and_flip m 0 cnt False = Some (r, m') \<and> bitmap_ok m' \<and>
      (if \<exists>k. run_at (bm_list m) k cnt False
       then run_at (bm_list m) r cnt False \<and> (\<forall>k < r. \<not> run_at (bm_list m) k cnt False) \<and>
            bm_list m' = overwrite r (replicate cnt True) (bm_list m)
       else r = BITMAP_ERROR \<and> m' = m)"
    using bitmap_scan_and_flip_spec [of m 0 cnt False]
    by (simp only: length_bm_list le0 simp_thms)
next
  fix m :: bitmap and r cnt :: nat
  assume "bitmap_ok m" and "r + cnt \<le> length (bm_list m)"
  then show "\<exists>m'. bitmap_set_multiple m r cnt False = Some m' \<and> bitmap_ok m' \<and>
      bm_list m' = overwrite r (replicate cnt False) (bm_list m)"
    using bitmap_set_multiple_refines [of m r cnt False] by simp
qed

section \<open>The last element\<close>

text \<open>Only the bits below \<open>bit_cnt\<close> count; \<open>last_mask\<close> selects those of the last element.\<close>

lemma bit_last_mask:
  "0 < bit_cnt b \<Longrightarrow>
   bit (last_mask b) j \<longleftrightarrow> j < 64 \<and> (elem_cnt (bit_cnt b) - 1) * ELEM_BITS + j < bit_cnt b"
proof -
  assume pos: "0 < bit_cnt b"
  let ?n = "bit_cnt b"
  have "64 * (?n div 64) + ?n mod 64 = ?n" by simp
  then have n: "?n = 64 * (?n div 64) + ?n mod 64" "?n mod 64 < 64" by simp_all
  show ?thesis
  proof (cases "?n mod 64 = 0")
    case True
    then have "?n + 64 - 1 = 63 + 64 * (?n div 64)" using n pos by linarith
    then have "elem_cnt ?n = ?n div 64"
      by (simp add: elem_cnt_def DIV_ROUND_UP_def ELEM_BITS_def)
    moreover have "j < 64 \<longleftrightarrow> j < 64 \<and> (?n div 64 - 1) * 64 + j < ?n"
      using True n pos by linarith
    moreover have "last_mask b = - 1" using True by (simp add: last_mask_def ELEM_BITS_def)
    ultimately show ?thesis by (simp add: ELEM_BITS_def)
  next
    case False
    have "?n + 64 - 1 = (?n mod 64 - 1) + 64 * Suc (?n div 64)"
      using n(1) False by (cases "?n mod 64") simp_all
    moreover have "(?n mod 64 - 1 + 64 * Suc (?n div 64)) div 64 = Suc (?n div 64)"
      using n(2) by (subst div_mult_self2) simp_all
    ultimately have "elem_cnt ?n = Suc (?n div 64)"
      by (simp only: elem_cnt_def DIV_ROUND_UP_def ELEM_BITS_def)
    moreover have "last_mask b = mask (?n mod 64)"
      using False by (simp add: last_mask_def ELEM_BITS_def mask_eq_exp_minus_1 push_bit_of_1)
    then have "bit (last_mask b) j \<longleftrightarrow> j < 64 \<and> j < ?n mod 64"
      by (simp only: bit_mask_iff) simp
    moreover have "j < 64 \<and> j < ?n mod 64 \<longleftrightarrow> j < 64 \<and> ?n div 64 * 64 + j < ?n"
      using n(1) by linarith
    ultimately show ?thesis unfolding ELEM_BITS_def by (simp only: diff_Suc_1)
  qed
qed

lemma bm_list_mask_last:
  assumes ok: "bitmap_ok b" and pos: "0 < bit_cnt b"
  defines "n \<equiv> elem_cnt (bit_cnt b)"
  shows "bm_list (b\<lparr>bits := (bits b)[n - 1 := (bits b ! (n - 1)) AND last_mask b]\<rparr>) = bm_list b"
proof (rule nth_equalityI)
  fix i assume "i < length (bm_list (b\<lparr>bits := (bits b)[n - 1 := (bits b ! (n - 1)) AND last_mask b]\<rparr>))"
  then have i: "i < bit_cnt b" by simp
  have "i div 64 * 64 + i mod 64 = i" "i mod 64 < 64" by simp_all
  then have "elem_idx i = n - 1 \<Longrightarrow> bit (last_mask b) (i mod ELEM_BITS)"
    using i unfolding bit_last_mask [OF pos] by (simp add: n_def elem_idx_def ELEM_BITS_def)
  then show "bm_list (b\<lparr>bits := (bits b)[n - 1 := (bits b ! (n - 1)) AND last_mask b]\<rparr>) ! i = bm_list b ! i"
    using i elem_idx_less_bits [OF ok i]
    by (cases "elem_idx i = n - 1") (auto simp: nth_bm_list bit_and_iff)
qed simp

lemma bitmap_load_refines:
  assumes "bitmap_ok b" and "bitmap_ok b'" and "bit_cnt b' = bit_cnt b" and "0 < bit_cnt b"
  shows "bm_list (bitmap_load b' (bitmap_bytes b)) = bm_list b"
proof -
  have "length (bits b') = length (bits b)" using assms(1-3) by (simp add: bitmap_ok_def)
  then have "bytes_to_words 8 (length (bits b')) (overwrite 0 (bitmap_bytes b) (bitmap_bytes b')) = bits b"
    by (simp add: bitmap_bytes_def codec_simps)
  moreover have "bm_list (b'\<lparr>bits := ws\<rparr>) = bm_list (b\<lparr>bits := ws\<rparr>)" for ws
    using assms(3) by (simp add: bm_list_def)
  moreover have "last_mask b' = last_mask b" using assms(3) by (simp add: last_mask_def)
  ultimately show ?thesis
    using bm_list_mask_last [OF assms(1,4)] assms(3) by (simp add: bitmap_load_def Let_def)
qed

section \<open>Properties\<close>

text \<open>
  Setting a bit changes that bit and no other: after \<open>bitmap_set b i v\<close> every test inside the
  bitmap answers \<open>v\<close> at \<open>i\<close> and what it answered before elsewhere.
\<close>

theorem bitmap_set_then_test:
  assumes "bitmap_ok b" and "i < bit_cnt b"
  shows "\<exists>b'. bitmap_set b i v = Some b' \<and> bitmap_ok b' \<and> bit_cnt b' = bit_cnt b \<and>
    (\<forall>j < bit_cnt b. bitmap_test b' j = (if j = i then Some v else bitmap_test b j))"
proof -
  from bitmap_set_refines [OF assms, of v] obtain b' where
    b': "bitmap_set b i v = Some b'" "bitmap_ok b'" "bm_list b' = (bm_list b)[i := v]" by blast
  with bm_list_bit_cnt [OF b'(3)] assms show ?thesis
    by (auto simp: bitmap_test_eq nth_list_update)
qed

theorem bitmap_set_then_test_witness:
  "\<exists>b'. bitmap_set \<lparr>bit_cnt = 70, bits = [5, 1]\<rparr> 65 True = Some b' \<and> bitmap_ok b' \<and> bit_cnt b' = 70 \<and>
    (\<forall>j < 70. bitmap_test b' j = (if j = 65 then Some True else bitmap_test \<lparr>bit_cnt = 70, bits = [5, 1]\<rparr> j))"
  using bitmap_set_then_test [of "\<lparr>bit_cnt = 70, bits = [5, 1]\<rparr>" 65 True]
  by (simp add: bitmap_ok_def elem_cnt_def ELEM_BITS_def DIV_ROUND_UP_def)

text \<open>
  Setting a run of bits and counting: \<open>bitmap_set_multiple\<close> sets exactly the bits of its run,
  and \<open>bitmap_count\<close> over the run then answers its length.
\<close>

theorem bitmap_set_multiple_then_count:
  assumes "bitmap_ok b" and "start + cnt \<le> bit_cnt b"
  shows "\<exists>b'. bitmap_set_multiple b start cnt v = Some b' \<and>
    bm_list b' = overwrite start (replicate cnt v) (bm_list b) \<and>
    bitmap_count b' start cnt v = Some cnt \<and> bitmap_contains b' start cnt (\<not> v) = Some False"
proof -
  from bitmap_set_multiple_refines [OF assms, of v] obtain b' where b':
    "bitmap_set_multiple b start cnt v = Some b'" "bitmap_ok b'"
    "bm_list b' = overwrite start (replicate cnt v) (bm_list b)" by blast
  then have "length (bm_list b') = length (bm_list b)" using assms(2) by simp
  then have range: "start + cnt \<le> bit_cnt b'" using assms(2) by simp
  have all: "i < cnt \<Longrightarrow> bm_list b' ! (start + i) = v" for i
    using assms(2) by (simp add: b'(3) nth_overwrite)
  then have "{i. i < cnt \<and> bm_list b' ! (start + i) = v} = {..<cnt}" by auto
  with b' range all show ?thesis by (auto simp: bitmap_count_eq bitmap_contains_eq)
qed

theorem bitmap_set_multiple_then_count_witness:
  "\<exists>b'. bitmap_set_multiple \<lparr>bit_cnt = 70, bits = [5, 1]\<rparr> 62 4 True = Some b' \<and>
    bm_list b' = overwrite 62 (replicate 4 True) (bm_list \<lparr>bit_cnt = 70, bits = [5, 1]\<rparr>) \<and>
    bitmap_count b' 62 4 True = Some 4 \<and> bitmap_contains b' 62 4 (\<not> True) = Some False"
  by (rule bitmap_set_multiple_then_count)
    (simp_all add: bitmap_ok_def elem_cnt_def ELEM_BITS_def DIV_ROUND_UP_def)

text \<open>
  C27: Scanning is first fit: \<open>bitmap_scan\<close> returns the least index from \<open>start\<close> on at which a run
  of \<open>cnt\<close> bits with the value lies inside the bitmap, and \<open>BITMAP_ERROR\<close> when there is none.
\<close>

theorem bitmap_scan_first_fit:
  assumes "bitmap_ok b"
  shows "bitmap_scan b start cnt v =
    Some (if \<exists>k \<ge> start. run_at (bm_list b) k cnt v
          then LEAST k. start \<le> k \<and> run_at (bm_list b) k cnt v else BITMAP_ERROR)"
  by (rule bitmap_scan_eq [OF assms])

theorem bitmap_scan_first_fit_witness:
  "bitmap_scan \<lparr>bit_cnt = 70, bits = [5, 1]\<rparr> 1 2 False =
    Some (if \<exists>k \<ge> 1. run_at (bm_list \<lparr>bit_cnt = 70, bits = [5, 1]\<rparr>) k 2 False
          then LEAST k. 1 \<le> k \<and> run_at (bm_list \<lparr>bit_cnt = 70, bits = [5, 1]\<rparr>) k 2 False else BITMAP_ERROR)"
  by (rule bitmap_scan_first_fit) (simp add: bitmap_ok_def elem_cnt_def ELEM_BITS_def DIV_ROUND_UP_def)

text \<open>
  C26: Allocation hands out free bits only, never twice: two successful calls of
  \<open>bitmap_scan_and_flip\<close> in a row return disjoint runs, the first of which was free before the
  calls.
\<close>

theorem bitmap_allocations_disjoint:
  assumes "bitmap_ok b" and "bit_cnt b \<le> BITMAP_ERROR" and "0 < m" and "0 < n"
    and "bitmap_scan_and_flip b 0 m False = Some (r, b')" and "r \<noteq> BITMAP_ERROR"
    and "bitmap_scan_and_flip b' 0 n False = Some (q, b'')" and "q \<noteq> BITMAP_ERROR"
  shows "run_at (bm_list b) r m False \<and> {r ..< r + m} \<inter> {q ..< q + n} = {}"
proof
  show "run_at (bm_list b) r m False"
    using fm.take_run_cases [OF assms(1) _ assms(3,5)] assms(2,6) by (metis length_bm_list)
  show "{r ..< r + m} \<inter> {q ..< q + n} = {}"
    using fm.take_take_disjoint [OF assms(1) _ assms(3-8)] assms(2) by simp
qed

lemma bitmap_70_ok: "bitmap_ok \<lparr>bit_cnt = 70, bits = [a, c]\<rparr>"
  by (simp add: bitmap_ok_def elem_cnt_def ELEM_BITS_def DIV_ROUND_UP_def)

lemma bitmap_6_ok: "bitmap_ok \<lparr>bit_cnt = 6, bits = [a]\<rparr>"
  by (simp add: bitmap_ok_def elem_cnt_def ELEM_BITS_def DIV_ROUND_UP_def)

lemmas bitmap_eval = bitmap_scan_and_flip_def bitmap_scan_def scan_loop.simps bitmap_contains_def
  bitmap_test_def bitmap_set_multiple_def bitmap_set_def bitmap_mark_def bitmap_reset_def elem_idx_def
  bit_mask_def ELEM_BITS_def BITMAP_ERROR_def upt_conv_Cons

lemma bitmap_6_take_1:
  "bitmap_scan_and_flip \<lparr>bit_cnt = 6, bits = [5]\<rparr> 0 1 False = Some (1, \<lparr>bit_cnt = 6, bits = [7]\<rparr>)"
  by (simp add: bitmap_eval)

lemma bitmap_6_take_2:
  "bitmap_scan_and_flip \<lparr>bit_cnt = 6, bits = [7]\<rparr> 0 2 False = Some (3, \<lparr>bit_cnt = 6, bits = [31]\<rparr>)"
proof -
  have [simp]: "[0..<2] = [0, Suc 0]" by (simp add: upt_conv_Cons)
  show ?thesis by (simp add: bitmap_eval)
qed

theorem bitmap_allocations_disjoint_witness:
  "run_at (bm_list \<lparr>bit_cnt = 6, bits = [5]\<rparr>) 1 1 False \<and> {1::nat ..< 1 + 1} \<inter> {3 ..< 3 + 2} = {}"
  by (rule bitmap_allocations_disjoint [OF bitmap_6_ok _ _ _ bitmap_6_take_1 _ bitmap_6_take_2])
    (simp_all add: BITMAP_ERROR_def)

text \<open>
  Releasing what an allocation returned restores the bitmap bit for bit.
\<close>

theorem bitmap_allocate_release:
  assumes "bitmap_ok b" and "bit_cnt b \<le> BITMAP_ERROR" and "0 < n"
    and "bitmap_scan_and_flip b 0 n False = Some (r, b')" and "r \<noteq> BITMAP_ERROR"
  shows "\<exists>b''. bitmap_set_multiple b' r n False = Some b'' \<and> bm_list b'' = bm_list b"
  using fm.take_give [OF assms(1) _ assms(3-5)] assms(2) by auto

theorem bitmap_allocate_release_witness:
  "\<exists>b''. bitmap_set_multiple \<lparr>bit_cnt = 6, bits = [31]\<rparr> 3 2 False = Some b'' \<and>
     bm_list b'' = bm_list \<lparr>bit_cnt = 6, bits = [7]\<rparr>"
  by (rule bitmap_allocate_release [OF bitmap_6_ok _ _ bitmap_6_take_2]) (simp_all add: BITMAP_ERROR_def)

text \<open>
  Loading into a bitmap the bytes of another one of the same size yields its bits, whatever
  the unused bits of the last element are.
\<close>

theorem bitmap_load_bytes:
  assumes "bitmap_ok b" and "bitmap_ok b'" and "bit_cnt b' = bit_cnt b" and "0 < bit_cnt b"
  shows "bm_list (bitmap_load b' (bitmap_bytes b)) = bm_list b"
  by (rule bitmap_load_refines [OF assms])

theorem bitmap_load_bytes_witness:
  "bm_list (bitmap_load \<lparr>bit_cnt = 70, bits = [9, 9]\<rparr> (bitmap_bytes \<lparr>bit_cnt = 70, bits = [31, - 1]\<rparr>)) =
   bm_list \<lparr>bit_cnt = 70, bits = [31, - 1]\<rparr>"
  by (rule bitmap_load_bytes) (simp_all add: bitmap_70_ok)

end
