(* ===== verification/Fs_State.thy ===== *)
theory Fs_State
  imports Inode_Content Bitmap
begin

text \<open>
  The state of the file system (\<^verbatim>\<open>src/a3/fs\<close>): the buffer cache with the device below it, the
  free map, and the objects the program allocates. An object lives in the heap of its type
  under a reference; a freed object is absent, so that using it afterwards is \<open>None\<close>.
\<close>

record inode =
  i_sector :: u32
  open_cnt :: int
  i_removed :: bool
  deny_write_cnt :: int
  i_data :: inode_disk

record ofile =
  file_inode :: nat
  file_pos :: int
  file_denies :: bool

record dir =
  dir_inode :: nat
  dir_pos :: int
  dir_open_cnt :: int

record fs =
  bc :: bcache
  free_map :: bitmap
  free_map_file :: "nat option"
  inodes :: "nat \<Rightarrow> inode option"
  open_inodes :: "nat list"
  files :: "nat \<Rightarrow> ofile option"
  file_table :: "(string \<times> nat) list"
  dirs :: "nat \<Rightarrow> dir option"
  cwd :: "nat option"
  next_ref :: nat

text \<open>The cache operations on the whole state.\<close>

definition cread :: "u32 \<Rightarrow> fs \<Rightarrow> byte list \<times> fs" where
  "cread k s = (let (b, c) = buffer_cache_read k (bc s) in (b, s\<lparr>bc := c\<rparr>))"

definition cwrite :: "u32 \<Rightarrow> byte list \<Rightarrow> fs \<Rightarrow> fs" where
  "cwrite k d s = s\<lparr>bc := buffer_cache_write k d (bc s)\<rparr>"

definition zeros :: "byte list" where
  "zeros = replicate 512 0"

lemma length_zeros [simp]: "length zeros = BLOCK_SECTOR_SIZE"
  by (simp add: zeros_def)

text \<open>
  What the free map offers the inode layer: \<open>free_map_allocate(1, \<dots>)\<close>, with the new sector or
  nothing when the disk is full, and \<open>free_map_release(sector, 1)\<close>.
\<close>

type_synonym allocator = "fs \<Rightarrow> (u32 option \<times> fs) option"
type_synonym releaser = "u32 \<Rightarrow> fs \<Rightarrow> fs option"

end
