(* ===== verification/Inode.thy ===== *)
theory Inode
  imports Fs_State
begin

text \<open>
  The operations of \<^verbatim>\<open>src/a3/fs/inode.c\<close>. Those that allocate or free sectors take the free map's
  operation as a parameter: the free map is itself stored in a file, and
  \<^verbatim>\<open>free-map.c\<close> calls back into this layer.
\<close>

section \<open>Growing a file\<close>

text \<open>
  Level 0 of \<open>inode_reserve_indirect\<close>, which is also the body of the loop over the direct
  blocks in \<open>inode_reserve\<close>.
\<close>

definition reserve_sector :: "allocator \<Rightarrow> u32 \<Rightarrow> fs \<Rightarrow> (bool \<times> u32 \<times> fs) option" where
  "reserve_sector A entry s =
     (if entry = 0 then
        do { (r, s) \<leftarrow> A s;
             case r of None \<Rightarrow> Some (False, entry, s)
             | Some k \<Rightarrow> Some (True, k, cwrite k zeros s) }
      else Some (True, entry, s))"

text \<open>
  The loop over the entries of a block: \<open>k\<close> rounds are left, \<open>i\<close> is the index, \<open>n\<close> the number of
  sectors that are still to be reserved.
\<close>

primrec reserve_loop ::
    "(u32 \<Rightarrow> nat \<Rightarrow> fs \<Rightarrow> (bool \<times> u32 \<times> fs) option) \<Rightarrow> nat \<Rightarrow> nat \<Rightarrow> nat \<Rightarrow> nat \<Rightarrow> u32 list \<Rightarrow> fs \<Rightarrow>
     (bool \<times> u32 list \<times> fs) option" where
  "reserve_loop f unit 0 i n ws s = Some (True, ws, s)"
| "reserve_loop f unit (Suc k) i n ws s =
     (if i < length ws then
        do { let subsize = min n unit;
             (ok, e, s) \<leftarrow> f (ws ! i) subsize s;
             if ok then reserve_loop f unit k (Suc i) (n - subsize) (ws[i := e]) s
             else Some (False, ws[i := e], s) }
      else None)"

text \<open>When the indirect block cannot be allocated, \<open>*p_entry\<close> stays 0 and sector 0 is used.\<close>

primrec inode_reserve_indirect ::
    "allocator \<Rightarrow> nat \<Rightarrow> u32 \<Rightarrow> nat \<Rightarrow> fs \<Rightarrow> (bool \<times> u32 \<times> fs) option" where
  "inode_reserve_indirect A 0 entry n s = reserve_sector A entry s"
| "inode_reserve_indirect A (Suc level) entry n s =
     do { (entry, s) \<leftarrow> (if entry = 0
            then do { (r, s) \<leftarrow> A s;
                      let entry = (case r of None \<Rightarrow> entry | Some k \<Rightarrow> k);
                      Some (entry, cwrite entry zeros s) }
            else Some (entry, s));
          let (blk, s) = cread entry s;
          let unit = (if level = 0 then 1 else INDIRECT_BLOCKS_PER_SECTOR);
          (ok, ws, s) \<leftarrow> reserve_loop (inode_reserve_indirect A level) unit (DIV_ROUND_UP n unit) 0 n
                           (indirect_of blk) s;
          Some (if ok then (True, entry, cwrite entry (encode_indirect ws) s) else (False, entry, s)) }"

text \<open>
  \<open>inode_reserve\<close> works through the parts of the inode in the order direct blocks, indirect block,
  doubly indirect block; the last two steps are definitions of their own. \<open>num\<close> is the number of
  sectors that remain to be reserved.
\<close>

definition reserve_doubly :: "allocator \<Rightarrow> inode_disk \<Rightarrow> nat \<Rightarrow> fs \<Rightarrow> (bool \<times> inode_disk \<times> fs) option" where
  "reserve_doubly A d num s =
     do { let l = min num (INDIRECT_BLOCKS_PER_SECTOR * INDIRECT_BLOCKS_PER_SECTOR);
          (ok, e, s) \<leftarrow> inode_reserve_indirect A 2 (doubly_indirect_block d) l s;
          let d = d\<lparr>doubly_indirect_block := e\<rparr>;
          Some (ok \<and> num - l = 0, d, s) }"

definition reserve_single :: "allocator \<Rightarrow> inode_disk \<Rightarrow> nat \<Rightarrow> fs \<Rightarrow> (bool \<times> inode_disk \<times> fs) option" where
  "reserve_single A d num s =
     do { let l = min num INDIRECT_BLOCKS_PER_SECTOR;
          (ok, e, s) \<leftarrow> inode_reserve_indirect A 1 (indirect_block d) l s;
          let d = d\<lparr>indirect_block := e\<rparr>;
          if \<not> ok then Some (False, d, s)
          else if num - l = 0 then Some (True, d, s)
          else reserve_doubly A d (num - l) s }"

definition inode_reserve :: "allocator \<Rightarrow> inode_disk \<Rightarrow> int \<Rightarrow> fs \<Rightarrow> (bool \<times> inode_disk \<times> fs) option" where
  "inode_reserve A d len s =
     (if len < 0 then Some (False, d, s)
      else do {
        num \<leftarrow> bytes_to_sectors len;
        let l = min num DIRECT_BLOCKS_COUNT;
        (ok, ws, s) \<leftarrow> reserve_loop (\<lambda>e _. reserve_sector A e) 1 l 0 l (direct_blocks d) s;
        let d = d\<lparr>direct_blocks := ws\<rparr>;
        if \<not> ok then Some (False, d, s)
        else if num - l = 0 then Some (True, d, s)
        else reserve_single A d (num - l) s })"

definition inode_allocate :: "allocator \<Rightarrow> inode_disk \<Rightarrow> fs \<Rightarrow> (bool \<times> inode_disk \<times> fs) option" where
  "inode_allocate A d s = inode_reserve A d (dlength d) s"

section \<open>Freeing the sectors of a file\<close>

primrec dealloc_loop ::
    "(u32 \<Rightarrow> nat \<Rightarrow> fs \<Rightarrow> fs option) \<Rightarrow> nat \<Rightarrow> nat \<Rightarrow> nat \<Rightarrow> nat \<Rightarrow> u32 list \<Rightarrow> fs \<Rightarrow> fs option" where
  "dealloc_loop f unit 0 i n ws s = Some s"
| "dealloc_loop f unit (Suc k) i n ws s =
     (if i < length ws then
        do { s \<leftarrow> f (ws ! i) (min n unit) s;
             dealloc_loop f unit k (Suc i) (n - min n unit) ws s }
      else None)"

primrec inode_deallocate_indirect :: "releaser \<Rightarrow> nat \<Rightarrow> u32 \<Rightarrow> nat \<Rightarrow> fs \<Rightarrow> fs option" where
  "inode_deallocate_indirect R 0 entry n s = R entry s"
| "inode_deallocate_indirect R (Suc level) entry n s =
     do { let (blk, s) = cread entry s;
          let unit = (if level = 0 then 1 else INDIRECT_BLOCKS_PER_SECTOR);
          s \<leftarrow> dealloc_loop (inode_deallocate_indirect R level) unit (DIV_ROUND_UP n unit) 0 n
                 (indirect_of blk) s;
          R entry s }"

definition inode_deallocate :: "releaser \<Rightarrow> inode_disk \<Rightarrow> fs \<Rightarrow> (bool \<times> fs) option" where
  "inode_deallocate R d s =
     (if dlength d < 0 then Some (False, s)
      else do {
        num \<leftarrow> bytes_to_sectors (dlength d);
        let l = min num DIRECT_BLOCKS_COUNT;
        s \<leftarrow> dealloc_loop (\<lambda>e _. R e) 1 l 0 l (direct_blocks d) s;
        let num = num - l;
        let l = min num INDIRECT_BLOCKS_PER_SECTOR;
        s \<leftarrow> (if 0 < l then inode_deallocate_indirect R 1 (indirect_block d) l s else Some s);
        let num = num - l;
        let l = min num (INDIRECT_BLOCKS_PER_SECTOR * INDIRECT_BLOCKS_PER_SECTOR);
        s \<leftarrow> (if 0 < l then inode_deallocate_indirect R 2 (doubly_indirect_block d) l s else Some s);
        Some (True, s) })"

section \<open>Creating, opening and closing\<close>

definition inode_create :: "allocator \<Rightarrow> u32 \<Rightarrow> int \<Rightarrow> bool \<Rightarrow> fs \<Rightarrow> (bool \<times> fs) option" where
  "inode_create A sector len isdir s =
     do { let d = inode_disk_zero\<lparr>dlength := len, magic := INODE_MAGIC, is_dir := isdir\<rparr>;
          (ok, d, s) \<leftarrow> inode_allocate A d s;
          Some (ok, if ok then cwrite sector (encode_inode d) s else s) }"

primrec find_open_inode :: "u32 \<Rightarrow> nat list \<Rightarrow> fs \<Rightarrow> nat option option" where
  "find_open_inode sector [] s = Some None"
| "find_open_inode sector (r # rs) s =
     do { n \<leftarrow> inodes s r;
          if i_sector n = sector then Some (Some r) else find_open_inode sector rs s }"

definition inode_reopen :: "nat \<Rightarrow> nat" where
  "inode_reopen i = i"

definition inode_open :: "u32 \<Rightarrow> fs \<Rightarrow> (nat \<times> fs) option" where
  "inode_open sector s =
     do { found \<leftarrow> find_open_inode sector (open_inodes s) s;
          case found of
            Some i \<Rightarrow> Some (inode_reopen i, s)
          | None \<Rightarrow>
              let i = next_ref s; (blk, s) = cread sector s
              in Some (i, s\<lparr>open_inodes := i # open_inodes s, next_ref := Suc i,
                   inodes := (inodes s)(i \<mapsto> \<lparr>i_sector = sector, open_cnt = 1, i_removed = False,
                     deny_write_cnt = 0, i_data = decode_inode blk\<rparr>)\<rparr>) }"

definition inode_get_inumber :: "nat \<Rightarrow> fs \<Rightarrow> u32 option" where
  "inode_get_inumber i s = map_option i_sector (inodes s i)"

definition inode_close :: "releaser \<Rightarrow> nat option \<Rightarrow> fs \<Rightarrow> fs option" where
  "inode_close R p s =
     (case p of
        None \<Rightarrow> Some s
      | Some i \<Rightarrow> do {
          n \<leftarrow> inodes s i;
          let n = n\<lparr>open_cnt := open_cnt n - 1\<rparr>;
          let s = s\<lparr>inodes := (inodes s)(i \<mapsto> n)\<rparr>;
          if open_cnt n = 0 then do {
            let s = s\<lparr>open_inodes := remove1 i (open_inodes s)\<rparr>;
            s \<leftarrow> (if i_removed n then do { s \<leftarrow> R (i_sector n) s;
                                          (_, s) \<leftarrow> inode_deallocate R (i_data n) s; Some s }
                 else Some s);
            Some (s\<lparr>inodes := (inodes s)(i := None)\<rparr>) }
          else Some s })"

definition inode_remove :: "nat \<Rightarrow> fs \<Rightarrow> fs option" where
  "inode_remove i s = do { n \<leftarrow> inodes s i; Some (s\<lparr>inodes := (inodes s)(i \<mapsto> n\<lparr>i_removed := True\<rparr>)\<rparr>) }"

definition inode_deny_write :: "nat \<Rightarrow> fs \<Rightarrow> fs option" where
  "inode_deny_write i s =
     do { n \<leftarrow> inodes s i;
          Some (s\<lparr>inodes := (inodes s)(i \<mapsto> n\<lparr>deny_write_cnt := deny_write_cnt n + 1\<rparr>)\<rparr>) }"

definition inode_allow_write :: "nat \<Rightarrow> fs \<Rightarrow> fs option" where
  "inode_allow_write i s =
     do { n \<leftarrow> inodes s i;
          Some (s\<lparr>inodes := (inodes s)(i \<mapsto> n\<lparr>deny_write_cnt := deny_write_cnt n - 1\<rparr>)\<rparr>) }"

definition inode_length :: "nat \<Rightarrow> fs \<Rightarrow> int option" where
  "inode_length i s = map_option (dlength \<circ> i_data) (inodes s i)"

definition inode_is_directory :: "nat \<Rightarrow> fs \<Rightarrow> bool option" where
  "inode_is_directory i s = map_option (is_dir \<circ> i_data) (inodes s i)"

definition inode_is_removed :: "nat \<Rightarrow> fs \<Rightarrow> bool option" where
  "inode_is_removed i s = map_option i_removed (inodes s i)"

section \<open>Reading and writing\<close>

definition inode_read_at :: "nat \<Rightarrow> int \<Rightarrow> int \<Rightarrow> fs \<Rightarrow> (byte list \<times> fs) option" where
  "inode_read_at i size' offset s =
     do { n \<leftarrow> inodes s i;
          (data, c) \<leftarrow> inode_read_loop (i_data n) size' offset (bc s);
          Some (data, s\<lparr>bc := c\<rparr>) }"

text \<open>
  The part of \<open>inode_write_at\<close> that extends the file; \<open>e\<close> is \<open>offset + size\<close>. The code grows the data of
  the inode in place, here they are passed to \<open>inode_reserve\<close> and stored afterwards. The difference can
  only be seen by an allocator that reads the data of the same inode meanwhile, that is when the file of
  the free map itself grows and is written by the allocation; the free map has its full size from the
  start, so that no write of it grows its file.
\<close>

definition inode_extend :: "allocator \<Rightarrow> nat \<Rightarrow> int \<Rightarrow> fs \<Rightarrow> (bool \<times> fs) option" where
  "inode_extend A i e s =
     do { n \<leftarrow> inodes s i;
          (ok, d, s) \<leftarrow> inode_reserve A (i_data n) e s;
          n \<leftarrow> inodes s i;
          if ok then
            let d = d\<lparr>dlength := e\<rparr>
            in Some (True, cwrite (i_sector n) (encode_inode d) (s\<lparr>inodes := (inodes s)(i \<mapsto> n\<lparr>i_data := d\<rparr>)\<rparr>))
          else Some (False, s\<lparr>inodes := (inodes s)(i \<mapsto> n\<lparr>i_data := d\<rparr>)\<rparr>) }"

definition inode_write_at :: "allocator \<Rightarrow> nat \<Rightarrow> byte list \<Rightarrow> int \<Rightarrow> int \<Rightarrow> fs \<Rightarrow> (int \<times> fs) option" where
  "inode_write_at A i buf size' offset s =
     do { n \<leftarrow> inodes s i;
          if deny_write_cnt n \<noteq> 0 then Some (0, s)
          else do {
            e \<leftarrow> off32 (offset + size');
            pos \<leftarrow> off32 (e - 1);
            (sec, c) \<leftarrow> byte_to_sector (i_data n) pos (bc s);
            (ok, s) \<leftarrow> (if sec = - 1 then inode_extend A i e (s\<lparr>bc := c\<rparr>) else Some (True, s\<lparr>bc := c\<rparr>));
            if \<not> ok then Some (0, s)
            else do { n \<leftarrow> inodes s i;
                      (k, c) \<leftarrow> inode_write_loop (i_data n) buf size' offset (bc s);
                      Some (k, s\<lparr>bc := c\<rparr>) }}}"

section \<open>The sectors of a file as an array\<close>

text \<open>
  \<open>get_inode_data_sectors\<close>: the direct blocks, the entries of the indirect block, and those of the
  blocks the doubly indirect block points to; \<open>None\<close> inside is the null pointer that the code
  returns for a negative length.
\<close>

primrec second_level :: "u32 list \<Rightarrow> nat \<Rightarrow> nat \<Rightarrow> nat \<Rightarrow> bcache \<Rightarrow> (u32 list \<times> bcache) option" where
  "second_level ws 0 i n c = Some ([], c)"
| "second_level ws (Suc k) i n c =
     (if i < length ws then
        do { let subsize = min n INDIRECT_BLOCKS_PER_SECTOR;
             let (blk, c) = buffer_cache_read (ws ! i) c;
             (rest, c) \<leftarrow> second_level ws k (Suc i) (n - subsize) c;
             Some (take subsize (indirect_of blk) @ rest, c) }
      else None)"

definition get_inode_data_sectors :: "inode_disk \<Rightarrow> bcache \<Rightarrow> (u32 list option \<times> bcache) option" where
  "get_inode_data_sectors d c =
     (if dlength d < 0 then Some (None, c)
      else do {
        num \<leftarrow> bytes_to_sectors (dlength d);
        let l = min num DIRECT_BLOCKS_COUNT;
        let part1 = take l (direct_blocks d);
        let num = num - l;
        let l = min num INDIRECT_BLOCKS_PER_SECTOR;
        let (part2, c) = (if 0 < l then let (blk, c) = buffer_cache_read (indirect_block d) c
                                        in (take l (indirect_of blk), c) else ([], c));
        let num = num - l;
        let l = min num (INDIRECT_BLOCKS_PER_SECTOR * INDIRECT_BLOCKS_PER_SECTOR);
        (part3, c) \<leftarrow> (if 0 < l then
            let (blk, c) = buffer_cache_read (doubly_indirect_block d) c
            in second_level (indirect_of blk) (DIV_ROUND_UP l INDIRECT_BLOCKS_PER_SECTOR) 0 l c
          else Some ([], c));
        Some (Some (part1 @ part2 @ part3), c) })"

section \<open>Facts on sizes\<close>

lemma bytes_to_sectors_eq:
  "0 \<le> x \<Longrightarrow> x + 512 < 2 ^ 31 \<Longrightarrow> bytes_to_sectors x = Some ((nat x + 511) div 512)"
proof -
  assume x: "0 \<le> x" "x + 512 < 2 ^ 31"
  have "nat (c_div (x + 512 - 1) 512) = (nat x + 511) div 512"
    using x(1) by (simp add: c_div_nonneg nat_div_distrib nat_add_distrib)
  with x show ?thesis by (simp add: bytes_to_sectors_def)
qed

lemma blocks_of_bound: "file_ok c d \<Longrightarrow> dlength d \<le> 8517120"
proof -
  assume F: "file_ok c d"
  then have "blocks_of d \<le> MAX_BLOCKS" by (simp add: file_ok_def layout_ok_def)
  moreover have "nat (dlength d) + 511 < 512 + 512 * ((nat (dlength d) + 511) div 512)"
    by (rule dividend_less_times_div) simp
  ultimately have "nat (dlength d) + 511 < 512 + 512 * MAX_BLOCKS" unfolding blocks_of_def by linarith
  then show ?thesis by (simp add: MAX_BLOCKS_def)
qed

lemma bytes_to_sectors_file: "file_ok c d \<Longrightarrow> bytes_to_sectors (dlength d) = Some (blocks_of d)"
  using blocks_of_bound [of c d] file_okD(1) [of c d] by (simp add: bytes_to_sectors_eq blocks_of_def)

section \<open>The array of data sectors is the abstraction\<close>

lemma second_level_eq:
  "cache_ok c \<Longrightarrow> k = DIV_ROUND_UP n 128 \<Longrightarrow> i + k \<le> length ws \<Longrightarrow>
   (\<And>j. j < k \<Longrightarrow> sector_valid c (ws ! (i + j))) \<Longrightarrow>
   \<exists>c'. second_level ws k i n c =
      Some (map (\<lambda>m. indirect_of (cache_view c (ws ! (i + m div 128))) ! (m mod 128)) [0..<n], c') \<and> keeps c c'"
proof (induction k arbitrary: i n c)
  case 0
  then have "\<not> 0 < DIV_ROUND_UP n 128" by simp
  then have "n = 0" unfolding less_DIV_ROUND_UP_iff [OF zero_less_numeral] by simp
  with 0 show ?case by (simp add: keeps_refl)
next
  case (Suc k)
  have k: "k = DIV_ROUND_UP (n - 128) 128" and n: "0 < n"
    using Suc.prems(2) unfolding DIV_ROUND_UP_def by auto
  have v: "sector_valid c (ws ! i)" using Suc.prems(4) [of 0] by simp
  obtain c1 where c1: "buffer_cache_read (ws ! i) c = (cache_view c (ws ! i), c1)" "keeps c c1"
    using buffer_cache_read_spec [OF Suc.prems(1) v] by blast
  have v1: "sector_valid c1 (ws ! (Suc i + j))" "cache_view c1 (ws ! (Suc i + j)) = cache_view c (ws ! (Suc i + j))" if "j < k" for j
    using that Suc.prems(4) [of "Suc j"] keepsD(2,3) [OF c1(2)] by auto
  have "Suc i + k \<le> length ws" using Suc.prems(3) by simp
  from Suc.IH [OF keepsD(1) [OF c1(2)] k this v1(1)] obtain c2 where c2: "second_level ws k (Suc i) (n - 128) c1 =
      Some (map (\<lambda>m. indirect_of (cache_view c1 (ws ! (Suc i + m div 128))) ! (m mod 128)) [0..<n - 128], c2)"
      "keeps c1 c2" by blast
  have "take (min n 128) (indirect_of (cache_view c (ws ! i))) @
      map (\<lambda>m. indirect_of (cache_view c1 (ws ! (Suc i + m div 128))) ! (m mod 128)) [0..<n - 128] =
      map (\<lambda>m. indirect_of (cache_view c (ws ! (i + m div 128))) ! (m mod 128)) [0..<n]"
  proof (rule nth_equalityI)
    fix m assume "m < length (take (min n 128) (indirect_of (cache_view c (ws ! i))) @
      map (\<lambda>m. indirect_of (cache_view c1 (ws ! (Suc i + m div 128))) ! (m mod 128)) [0..<n - 128])"
    then have m: "m < n" by auto
    show "(take (min n 128) (indirect_of (cache_view c (ws ! i))) @
      map (\<lambda>m. indirect_of (cache_view c1 (ws ! (Suc i + m div 128))) ! (m mod 128)) [0..<n - 128]) ! m =
      map (\<lambda>m. indirect_of (cache_view c (ws ! (i + m div 128))) ! (m mod 128)) [0..<n] ! m"
    proof (cases "m < 128")
      case True
      with m show ?thesis by (simp add: nth_append)
    next
      case False
      then obtain j where j: "m = j + 128" by (metis add.commute le_add_diff_inverse not_less)
      have "j div 128 * 128 \<le> j" by simp
      with m j have "j div 128 < k" unfolding k less_DIV_ROUND_UP_iff [OF zero_less_numeral] by linarith
      moreover have "j < n - 128" "(j + 128) div 128 = Suc (j div 128)" using m j by simp_all
      ultimately show ?thesis using v1(2) m j by (simp add: nth_append)
    qed
  qed auto
  with Suc.prems(3) c1(1) c2(1) n keeps_trans [OF c1(2) c2(2)] show ?case
    by (auto simp: min_def split: if_splits)
qed

lemma get_inode_data_sectors_eq:
  assumes ok: "cache_ok c" and F: "file_ok c d"
  shows "\<exists>c'. get_inode_data_sectors d c =
    Some (Some (map (data_sector (cache_view c) d) [0..<blocks_of d]), c') \<and> keeps c c'"
proof -
  let ?n = "blocks_of d"
  let ?l1 = "min ?n 123" let ?l2 = "min (?n - ?l1) 128" let ?l3 = "min (?n - ?l1 - ?l2) (128 * 128)"
  note L = file_okD(3) [OF F]
  have len: "length (direct_blocks d) = 123" and max: "?n \<le> MAX_BLOCKS"
    and meta: "\<And>k. k \<in> meta_sectors (cache_view c) d ?n \<Longrightarrow> sector_valid c k"
    using L by (auto simp: layout_ok_def inode_disk_ok_def)
  obtain c1 where c1: "(if 0 < ?l2 then let (blk, c) = buffer_cache_read (indirect_block d) c
      in (take ?l2 (indirect_of blk), c) else ([], c)) =
      (take ?l2 (indirect_of (cache_view c (indirect_block d))), c1)" "keeps c c1"
  proof (cases "0 < ?l2")
    case True
    then have "sector_valid c (indirect_block d)" by (intro meta) (auto simp: meta_sectors_def)
    from buffer_cache_read_spec [OF ok this] obtain c' where
      "buffer_cache_read (indirect_block d) c = (cache_view c (indirect_block d), c')" "keeps c c'" by blast
    with True show thesis by (intro that [of c']) simp_all
  next
    case False
    then show thesis by (intro that [OF _ keeps_refl [OF ok]]) auto
  qed
  let ?ws = "indirect_of (cache_view c (doubly_indirect_block d))"
  let ?f = "\<lambda>m. indirect_of (cache_view c (?ws ! (m div 128))) ! (m mod 128)"
  obtain c2 where c2: "(if 0 < ?l3 then
      let (blk, c) = buffer_cache_read (doubly_indirect_block d) c1
      in second_level (indirect_of blk) (DIV_ROUND_UP ?l3 128) 0 ?l3 c else Some ([], c1)) =
      Some (map ?f [0..<?l3], c2)" "keeps c1 c2"
  proof (cases "0 < ?l3")
    case True
    then have n: "251 < ?n" by auto
    then have v: "sector_valid c (doubly_indirect_block d)"
      and w: "j * 128 + 251 < ?n \<Longrightarrow> sector_valid c (?ws ! j)" for j
      using meta by (auto simp: meta_sectors_def)
    have v1: "sector_valid c1 (doubly_indirect_block d)" using v keepsD(2) [OF c1(2)] by simp
    obtain c3 where c3: "buffer_cache_read (doubly_indirect_block d) c1 = (cache_view c (doubly_indirect_block d), c3)" "keeps c1 c3"
      using buffer_cache_read_spec [OF keepsD(1) [OF c1(2)] v1] keepsD(3) [OF c1(2) v] by auto
    note K = keeps_trans [OF c1(2) c3(2)]
    have l3: "?l3 = ?n - 251" using n max by (simp add: MAX_BLOCKS_def)
    have valid: "j < DIV_ROUND_UP ?l3 128 \<Longrightarrow> sector_valid c3 (?ws ! (0 + j))" for j
      using w [of j] keepsD(2) [OF K] unfolding less_DIV_ROUND_UP_iff [OF zero_less_numeral] l3 by simp
    have "\<not> 128 < DIV_ROUND_UP ?l3 128" unfolding less_DIV_ROUND_UP_iff [OF zero_less_numeral] by simp
    then have "0 + DIV_ROUND_UP ?l3 128 \<le> length ?ws" by simp
    from second_level_eq [OF keepsD(1) [OF K] refl this valid] obtain c4 where c4:
      "second_level ?ws (DIV_ROUND_UP ?l3 128) 0 ?l3 c3 =
       Some (map (\<lambda>m. indirect_of (cache_view c3 (?ws ! (0 + m div 128))) ! (m mod 128)) [0..<?l3], c4)" "keeps c3 c4"
      by blast
    have "indirect_of (cache_view c3 (?ws ! (0 + m div 128))) ! (m mod 128) = ?f m" if "m < ?l3" for m
    proof -
      have "m div 128 * 128 \<le> m" by simp
      with that have "m div 128 * 128 + 251 < ?n" unfolding l3 by linarith
      from w [OF this] show ?thesis using keepsD(3) [OF K] by simp
    qed
    then have "map (\<lambda>m. indirect_of (cache_view c3 (?ws ! (0 + m div 128))) ! (m mod 128)) [0..<?l3] = map ?f [0..<?l3]"
      by simp
    with c4(1) have "second_level ?ws (DIV_ROUND_UP ?l3 128) 0 ?l3 c3 = Some (map ?f [0..<?l3], c4)" by (simp only:)
    with c3(1) True show thesis
      by (intro that [of c4] keeps_trans [OF c3(2) c4(2)]) (simp only: if_True Let_def case_prod_conv)
  next
    case False
    then show thesis by (intro that [OF _ keeps_refl [OF keepsD(1) [OF c1(2)]]]) auto
  qed
  have "map (data_sector (cache_view c) d) [0..<?n] = take ?l1 (direct_blocks d) @
    take ?l2 (indirect_of (cache_view c (indirect_block d))) @ map ?f [0..<?l3]"
  proof (rule nth_equalityI)
    show "length (map (data_sector (cache_view c) d) [0..<?n]) = length (take ?l1 (direct_blocks d) @
      take ?l2 (indirect_of (cache_view c (indirect_block d))) @ map ?f [0..<?l3])"
      using len max by (simp add: MAX_BLOCKS_def)
    fix i assume "i < length (map (data_sector (cache_view c) d) [0..<?n])"
    then have i: "i < ?n" by simp
    consider "i < 123" | "123 \<le> i" "i < 251" | "251 \<le> i" by linarith
    then show "map (data_sector (cache_view c) d) [0..<?n] ! i = (take ?l1 (direct_blocks d) @
      take ?l2 (indirect_of (cache_view c (indirect_block d))) @ map ?f [0..<?l3]) ! i"
      by cases (use i len max in \<open>auto simp: data_sector_def nth_append MAX_BLOCKS_def\<close>)
  qed
  moreover have "\<not> dlength d < 0" using file_okD(1) [OF F] by simp
  ultimately have "get_inode_data_sectors d c = Some (Some (map (data_sector (cache_view c) d) [0..<?n]), c2)"
    unfolding get_inode_data_sectors_def bytes_to_sectors_file [OF F] Option.bind.simps Let_def
      c1(1) [unfolded Let_def] case_prod_conv c2(1) [unfolded Let_def]
    by (simp only: if_False)
  with keeps_trans [OF c1(2) c2(2)] show ?thesis by blast
qed

section \<open>Reading and writing open inodes\<close>

lemma inode_read_at_eq:
  assumes "inodes s i = Some n" and "cache_ok (bc s)" and "file_ok (bc s) (i_data n)" and "p < 2 ^ 31"
  shows "\<exists>c. inode_read_at i (int k) (int p) s =
      Some (take k (drop p (content (cache_view (bc s)) (i_data n))), s\<lparr>bc := c\<rparr>) \<and> keeps (bc s) c"
  using inode_read_loop_spec [OF assms(2-4), of k] assms(1) by (auto simp: inode_read_at_def)

lemma inode_write_at_inside:
  assumes i: "inodes s i = Some n" and allowed: "deny_write_cnt n = 0"
    and ok: "cache_ok (bc s)" and F: "file_ok (bc s) (i_data n)"
    and range: "p + k \<le> nat (dlength (i_data n))" and pos: "0 < p + k" and buf: "k \<le> length buf"
  shows "\<exists>c. (\<forall>A. inode_write_at A i buf (int k) (int p) s = Some (int k, s\<lparr>bc := c\<rparr>)) \<and>
    within (sectors_of (bc s) (i_data n)) (bc s) c \<and> file_ok c (i_data n) \<and>
    sectors_of c (i_data n) = sectors_of (bc s) (i_data n) \<and>
    content (cache_view c) (i_data n) = overwrite p (take k buf) (content (cache_view (bc s)) (i_data n))"
proof -
  let ?d = "i_data n"
  have last: "p + k - 1 < nat (dlength ?d)" using range pos by linarith
  have e: "off32 (int p + int k) = Some (int p + int k)" "off32 (int p + int k - 1) = Some (int (p + k - 1))"
    using range pos file_okD(1,2) [OF F] by (auto simp: off32_def)
  obtain c1 where c1: "byte_to_sector ?d (int (p + k - 1)) (bc s) =
      Some (data_sector (cache_view (bc s)) ?d ((p + k - 1) div 512), c1)" "keeps (bc s) c1"
    using byte_to_sector_eq [OF ok F last] by blast
  have ne: "data_sector (cache_view (bc s)) ?d ((p + k - 1) div 512) \<noteq> - 1"
    using file_okD(3) [OF F] block_of_offset [OF last] unfolding layout_ok_def by (metis imageI lessThan_iff)
  note F1 = file_ok_keeps [OF F c1(2)]
  from inode_write_loop_spec [OF keepsD(1) [OF c1(2)] F1 range buf] obtain c2 where c2:
    "inode_write_loop ?d buf (int k) (int p) c1 = Some (int k, c2)"
    "within (data_sector (cache_view c1) ?d ` {..<blocks_of ?d}) c1 c2" "file_ok c2 ?d"
    "sectors_of c2 ?d = sectors_of c1 ?d"
    "content (cache_view c2) ?d = overwrite p (take k buf) (content (cache_view c1) ?d)" by blast
  note sec = file_within(3) [OF F keeps_within [OF c1(2), of "{}"]]
  have "\<forall>A. inode_write_at A i buf (int k) (int p) s = Some (int k, s\<lparr>bc := c2\<rparr>)"
    unfolding inode_write_at_def using i allowed ne c2(1) by (simp add: e(1,2) c1(1) del: One_nat_def)
  moreover have "within (sectors_of (bc s) ?d) (bc s) c2"
    by (rule within_trans [OF keeps_within [OF c1(2), of "{}"] c2(2)]) (use sec in \<open>auto simp: sectors_of_def\<close>)
  ultimately show ?thesis
    using c2 sec content_keeps [OF F c1(2)] by (intro exI [of _ c2]) simp
qed

end
