(* ===== verification/File.thy ===== *)
theory File
  imports Inode
begin

text \<open>
  Open files and the table of open files (\<^verbatim>\<open>src/a3/fs/file.c\<close>).
\<close>

section \<open>Opening and closing\<close>

definition file_open :: "nat option \<Rightarrow> fs \<Rightarrow> nat option \<times> fs" where
  "file_open p s =
     (case p of
        None \<Rightarrow> (None, s)
      | Some i \<Rightarrow> let f = next_ref s
                 in (Some f, s\<lparr>next_ref := Suc f,
                       files := (files s)(f \<mapsto> \<lparr>file_inode = i, file_pos = 0, file_denies = False\<rparr>)\<rparr>))"

definition file_reopen :: "nat \<Rightarrow> fs \<Rightarrow> (nat option \<times> fs) option" where
  "file_reopen f s = do { fl \<leftarrow> files s f; Some (file_open (Some (inode_reopen (file_inode fl))) s) }"

definition file_deny_write :: "nat \<Rightarrow> fs \<Rightarrow> fs option" where
  "file_deny_write f s =
     do { fl \<leftarrow> files s f;
          if \<not> file_denies fl
          then inode_deny_write (file_inode fl) (s\<lparr>files := (files s)(f \<mapsto> fl\<lparr>file_denies := True\<rparr>)\<rparr>)
          else Some s }"

definition file_allow_write :: "nat \<Rightarrow> fs \<Rightarrow> fs option" where
  "file_allow_write f s =
     do { fl \<leftarrow> files s f;
          if file_denies fl
          then inode_allow_write (file_inode fl) (s\<lparr>files := (files s)(f \<mapsto> fl\<lparr>file_denies := False\<rparr>)\<rparr>)
          else Some s }"

definition file_close :: "releaser \<Rightarrow> nat option \<Rightarrow> fs \<Rightarrow> fs option" where
  "file_close R p s =
     (case p of
        None \<Rightarrow> Some s
      | Some f \<Rightarrow> do { s \<leftarrow> file_allow_write f s;
                      fl \<leftarrow> files s f;
                      s \<leftarrow> inode_close R (Some (file_inode fl)) s;
                      Some (s\<lparr>files := (files s)(f := None)\<rparr>) })"

definition file_get_inode :: "nat \<Rightarrow> fs \<Rightarrow> nat option" where
  "file_get_inode f s = map_option file_inode (files s f)"

section \<open>Reading, writing and the position\<close>

definition file_set_pos :: "nat \<Rightarrow> int \<Rightarrow> fs \<Rightarrow> fs option" where
  "file_set_pos f p s =
     do { fl \<leftarrow> files s f; Some (s\<lparr>files := (files s)(f \<mapsto> fl\<lparr>file_pos := p\<rparr>)\<rparr>) }"

definition file_read :: "nat \<Rightarrow> int \<Rightarrow> fs \<Rightarrow> (byte list \<times> fs) option" where
  "file_read f size' s =
     do { fl \<leftarrow> files s f;
          (data, s) \<leftarrow> inode_read_at (file_inode fl) size' (file_pos fl) s;
          p \<leftarrow> off32 (file_pos fl + int (length data));
          s \<leftarrow> file_set_pos f p s;
          Some (data, s) }"

definition file_read_at :: "nat \<Rightarrow> int \<Rightarrow> int \<Rightarrow> fs \<Rightarrow> (byte list \<times> fs) option" where
  "file_read_at f size' ofs s =
     do { fl \<leftarrow> files s f; inode_read_at (file_inode fl) size' ofs s }"

text \<open>
  \<open>file_write\<close> first stores a null character in the last byte of the caller's buffer, and then
  moves the position by two less than it wrote. The result holds the changed buffer.
\<close>

definition file_write :: "allocator \<Rightarrow> nat \<Rightarrow> byte list \<Rightarrow> int \<Rightarrow> fs \<Rightarrow> (int \<times> byte list \<times> fs) option" where
  "file_write A f buf size' s =
     (if 1 \<le> size' \<and> size' \<le> int (length buf) then
        do { let buf = buf[nat (size' - 1) := 0];
             fl \<leftarrow> files s f;
             (n, s) \<leftarrow> inode_write_at A (file_inode fl) buf size' (file_pos fl) s;
             p \<leftarrow> off32 (file_pos fl + (n - 2));
             s \<leftarrow> file_set_pos f p s;
             Some (n, buf, s) }
      else None)"

definition file_write_at :: "allocator \<Rightarrow> nat \<Rightarrow> byte list \<Rightarrow> int \<Rightarrow> int \<Rightarrow> fs \<Rightarrow> (int \<times> fs) option" where
  "file_write_at A f buf size' ofs s =
     do { fl \<leftarrow> files s f; inode_write_at A (file_inode fl) buf size' ofs s }"

definition file_length :: "nat \<Rightarrow> fs \<Rightarrow> int option" where
  "file_length f s = do { fl \<leftarrow> files s f; inode_length (file_inode fl) s }"

definition file_seek :: "nat \<Rightarrow> int \<Rightarrow> fs \<Rightarrow> fs option" where
  "file_seek f new_pos s = file_set_pos f new_pos s"

definition file_tell :: "nat \<Rightarrow> fs \<Rightarrow> int option" where
  "file_tell f s = map_option file_pos (files s f)"

section \<open>The table of open files\<close>

definition init_file_table :: "fs \<Rightarrow> fs" where
  "init_file_table s = s\<lparr>file_table := []\<rparr>"

text \<open>The first entry with the name.\<close>

definition get_file_by_fname :: "string \<Rightarrow> fs \<Rightarrow> nat option" where
  "get_file_by_fname fname s = map_of (file_table s) fname"

definition add_to_file_table :: "nat \<Rightarrow> string \<Rightarrow> fs \<Rightarrow> fs" where
  "add_to_file_table f fname s =
     (if get_file_by_fname fname s \<noteq> None then s
      else s\<lparr>file_table := file_table s @ [(fname, f)]\<rparr>)"

primrec remove_entry :: "string \<Rightarrow> (string \<times> nat) list \<Rightarrow> (string \<times> nat) list" where
  "remove_entry fname [] = []"
| "remove_entry fname (e # es) = (if fst e = fname then es else e # remove_entry fname es)"

definition remove_from_file_table :: "releaser \<Rightarrow> string \<Rightarrow> fs \<Rightarrow> (bool \<times> fs) option" where
  "remove_from_file_table R fname s =
     (case get_file_by_fname fname s of
        None \<Rightarrow> Some (False, s)
      | Some f \<Rightarrow> do { s \<leftarrow> file_close R (Some f) s;
                      Some (True, s\<lparr>file_table := remove_entry fname (file_table s)\<rparr>) })"

primrec free_entries :: "releaser \<Rightarrow> (string \<times> nat) list \<Rightarrow> fs \<Rightarrow> fs option" where
  "free_entries R [] s = Some (s\<lparr>file_table := []\<rparr>)"
| "free_entries R (e # es) s =
     do { s \<leftarrow> file_close R (Some (snd e)) (s\<lparr>file_table := es\<rparr>); free_entries R es s }"

definition free_file_table :: "releaser \<Rightarrow> fs \<Rightarrow> fs option" where
  "free_file_table R s = free_entries R (file_table s) s"

section \<open>The table holds one entry per name\<close>

lemma map_of_remove_entry:
  "distinct (map fst t) \<Longrightarrow> map_of (remove_entry n t) = (map_of t)(n := None)"
proof (induction t)
  case (Cons e t)
  then show ?case by (auto simp: fun_eq_iff map_of_eq_None_iff)
qed simp

lemma distinct_remove_entry:
  "distinct (map fst t) \<Longrightarrow> distinct (map fst (remove_entry n t))"
proof (induction t)
  case (Cons e t)
  moreover have "set (map fst (remove_entry n t)) \<subseteq> set (map fst t)" by (induction t) auto
  ultimately show ?case by auto
qed simp

lemma distinct_add_to_file_table:
  "distinct (map fst (file_table s)) \<Longrightarrow> distinct (map fst (file_table (add_to_file_table f n s)))"
  by (auto simp: add_to_file_table_def get_file_by_fname_def map_of_eq_None_iff)

end
