(* ===== verification/Inode_Growth.thy ===== *)
theory Inode_Growth
  imports Inode
begin

text \<open>
  What \<open>inode_reserve\<close> does to the tree of sectors of a file, proved once for every sector
  allocator: a locale states what the inode layer relies on, and the free map is shown to
  provide it in theory \<open>Free_Map\<close>.
\<close>

section \<open>Trees of sectors\<close>

text \<open>
  The tree below an entry of a given level: \<open>nodes\<close> are all its sectors, \<open>inner\<close> the indirect blocks
  among them and \<open>leaf\<close> its data blocks in order, 0 where no sector is reserved.
\<close>

primrec nodes :: "(u32 \<Rightarrow> byte list) \<Rightarrow> nat \<Rightarrow> u32 \<Rightarrow> u32 set" where
  "nodes v 0 e = {e} - {0}"
| "nodes v (Suc l) e = (if e = 0 then {} else insert e (\<Union>j < 128. nodes v l (indirect_of (v e) ! j)))"

primrec inner :: "(u32 \<Rightarrow> byte list) \<Rightarrow> nat \<Rightarrow> u32 \<Rightarrow> u32 set" where
  "inner v 0 e = {}"
| "inner v (Suc l) e = (if e = 0 then {} else insert e (\<Union>j < 128. inner v l (indirect_of (v e) ! j)))"

primrec leaf :: "(u32 \<Rightarrow> byte list) \<Rightarrow> nat \<Rightarrow> u32 \<Rightarrow> nat \<Rightarrow> u32" where
  "leaf v 0 e m = e"
| "leaf v (Suc l) e m =
     (if e = 0 then 0 else leaf v l (indirect_of (v e) ! (m div 128 ^ l)) (m mod 128 ^ l))"

definition forest_disjoint :: "(u32 \<Rightarrow> byte list) \<Rightarrow> nat \<Rightarrow> u32 list \<Rightarrow> bool" where
  "forest_disjoint v l ws \<longleftrightarrow>
     (\<forall>i < length ws. \<forall>j < length ws. i \<noteq> j \<longrightarrow> nodes v l (ws ! i) \<inter> nodes v l (ws ! j) = {})"

primrec tree_ok :: "(u32 \<Rightarrow> byte list) \<Rightarrow> nat \<Rightarrow> u32 \<Rightarrow> bool" where
  "tree_ok v 0 e \<longleftrightarrow> True"
| "tree_ok v (Suc l) e \<longleftrightarrow> e = 0 \<or>
     (\<forall>j < 128. tree_ok v l (indirect_of (v e) ! j) \<and> e \<notin> nodes v l (indirect_of (v e) ! j)) \<and>
     forest_disjoint v l (indirect_of (v e))"

definition forest_ok :: "(u32 \<Rightarrow> byte list) \<Rightarrow> nat \<Rightarrow> u32 list \<Rightarrow> bool" where
  "forest_ok v l ws \<longleftrightarrow> (\<forall>w \<in> set ws. tree_ok v l w) \<and> forest_disjoint v l ws"

definition forest :: "(u32 \<Rightarrow> byte list) \<Rightarrow> nat \<Rightarrow> u32 list \<Rightarrow> u32 set" where
  "forest v l ws = (\<Union>w \<in> set ws. nodes v l w)"

definition forest_inner :: "(u32 \<Rightarrow> byte list) \<Rightarrow> nat \<Rightarrow> u32 list \<Rightarrow> u32 set" where
  "forest_inner v l ws = (\<Union>w \<in> set ws. inner v l w)"

definition forest_leaf :: "(u32 \<Rightarrow> byte list) \<Rightarrow> nat \<Rightarrow> u32 list \<Rightarrow> nat \<Rightarrow> u32" where
  "forest_leaf v l ws m = leaf v l (ws ! (m div 128 ^ l)) (m mod 128 ^ l)"

lemma all_128: "length ws = 128 \<Longrightarrow> (\<forall>j < (128::nat). P (ws ! j)) \<longleftrightarrow> (\<forall>w \<in> set ws. P w)"
  by (simp add: all_set_conv_all_nth)

lemma UN_128: "length ws = 128 \<Longrightarrow> (\<Union>j < (128::nat). f (ws ! j)) = (\<Union>w \<in> set ws. f w)"
  by (auto simp: set_conv_nth)

lemma nodes_Suc: "nodes v (Suc l) e = (if e = 0 then {} else insert e (forest v l (indirect_of (v e))))"
  unfolding nodes.simps forest_def UN_128 [OF length_indirect_of, where f = "nodes v l"] ..

lemma inner_Suc: "inner v (Suc l) e = (if e = 0 then {} else insert e (forest_inner v l (indirect_of (v e))))"
  unfolding inner.simps forest_inner_def UN_128 [OF length_indirect_of, where f = "inner v l"] ..

lemma leaf_Suc: "leaf v (Suc l) e m = (if e = 0 then 0 else forest_leaf v l (indirect_of (v e)) m)"
  by (simp add: forest_leaf_def)

lemma tree_ok_Suc: "tree_ok v (Suc l) e \<longleftrightarrow> e = 0 \<or>
    forest_ok v l (indirect_of (v e)) \<and> e \<notin> forest v l (indirect_of (v e))"
  unfolding tree_ok.simps forest_ok_def forest_def
    all_128 [OF length_indirect_of, where P = "\<lambda>w. tree_ok v l w \<and> e \<notin> nodes v l w"] by auto

declare nodes.simps(2) [simp del] inner.simps(2) [simp del] leaf.simps(2) [simp del] tree_ok.simps(2) [simp del]

lemma nodes_0 [simp]: "nodes v l 0 = {}" "inner v l 0 = {}" "leaf v l 0 m = 0" "tree_ok v l 0"
  by (cases l; simp add: nodes_Suc inner_Suc leaf_Suc tree_ok_Suc)+

lemma inner_nodes: "inner v l e \<subseteq> nodes v l e"
proof (induction l arbitrary: e)
  case (Suc l)
  then show ?case by (auto simp: nodes_Suc inner_Suc forest_def forest_inner_def)
qed simp

lemma forest_inner_subset: "forest_inner v l ws \<subseteq> forest v l ws"
  using inner_nodes by (fastforce simp: forest_def forest_inner_def)

lemma zero_notin_nodes: "0 \<notin> nodes v l e"
  by (induction l arbitrary: e) (auto simp: nodes_Suc forest_def)

text \<open>The tree depends on the contents of its indirect blocks only.\<close>

lemma tree_cong:
  "(\<And>k. k \<in> inner v l e \<Longrightarrow> v' k = v k) \<Longrightarrow>
   nodes v' l e = nodes v l e \<and> inner v' l e = inner v l e \<and> tree_ok v' l e = tree_ok v l e \<and>
   (\<forall>m < 128 ^ l. leaf v' l e m = leaf v l e m)"
proof (induction l arbitrary: e)
  case 0
  then show ?case by simp
next
  case (Suc l)
  show ?case
  proof (cases "e = 0")
    case False
    let ?ws = "indirect_of (v e)"
    have e: "v' e = v e" using Suc.prems [of e] False by (simp add: inner_Suc)
    have IH: "w \<in> set ?ws \<Longrightarrow> nodes v' l w = nodes v l w \<and> inner v' l w = inner v l w \<and>
        tree_ok v' l w = tree_ok v l w \<and> (\<forall>m < 128 ^ l. leaf v' l w m = leaf v l w m)" for w
      using Suc.prems False by (intro Suc.IH) (auto simp: inner_Suc forest_inner_def)
    have nth: "j < 128 \<Longrightarrow> ?ws ! j \<in> set ?ws" for j by (rule nth_mem) simp
    have "forest v' l ?ws = forest v l ?ws" "forest_inner v' l ?ws = forest_inner v l ?ws"
      "forest_ok v' l ?ws = forest_ok v l ?ws"
      using IH nth by (auto simp: forest_def forest_inner_def forest_ok_def forest_disjoint_def)
    moreover have "leaf v' (Suc l) e m = leaf v (Suc l) e m" if "m < 128 ^ Suc l" for m
    proof -
      have "m div 128 ^ l < 128" using that by (simp add: less_mult_imp_div_less)
      then show ?thesis using False e IH [OF nth] by (simp add: leaf_Suc forest_leaf_def)
    qed
    ultimately show ?thesis using False e by (simp add: nodes_Suc inner_Suc tree_ok_Suc)
  qed simp
qed

lemma forest_cong:
  assumes "\<And>k. k \<in> forest_inner v l ws \<Longrightarrow> v' k = v k"
  shows "forest v' l ws = forest v l ws" and "forest_inner v' l ws = forest_inner v l ws"
    and "forest_ok v' l ws = forest_ok v l ws"
    and "m < length ws * 128 ^ l \<Longrightarrow> forest_leaf v' l ws m = forest_leaf v l ws m"
proof -
  have T: "w \<in> set ws \<Longrightarrow> nodes v' l w = nodes v l w \<and> inner v' l w = inner v l w \<and>
        tree_ok v' l w = tree_ok v l w \<and> (\<forall>m < 128 ^ l. leaf v' l w m = leaf v l w m)" for w
    using assms by (intro tree_cong) (auto simp: forest_inner_def)
  then show "forest v' l ws = forest v l ws" "forest_inner v' l ws = forest_inner v l ws"
    "forest_ok v' l ws = forest_ok v l ws"
    by (auto simp: forest_def forest_inner_def forest_ok_def forest_disjoint_def)
  assume "m < length ws * 128 ^ l"
  then have "m div 128 ^ l < length ws" by (simp add: less_mult_imp_div_less)
  with T [OF nth_mem [OF this]] show "forest_leaf v' l ws m = forest_leaf v l ws m"
    by (simp add: forest_leaf_def)
qed

text \<open>Leaves lie in the tree, are pairwise distinct, and are no indirect blocks.\<close>

lemma leaf_in_nodes: "m < 128 ^ l \<Longrightarrow> leaf v l e m \<noteq> 0 \<Longrightarrow> leaf v l e m \<in> nodes v l e"
proof (induction l arbitrary: e m)
  case (Suc l)
  have d: "m div 128 ^ l < 128" using Suc.prems(1) by (simp add: less_mult_imp_div_less)
  let ?w = "indirect_of (v e) ! (m div 128 ^ l)"
  have "leaf v l ?w (m mod 128 ^ l) \<in> nodes v l ?w"
    using Suc.prems by (intro Suc.IH) (auto simp: leaf_Suc forest_leaf_def split: if_splits)
  moreover have "?w \<in> set (indirect_of (v e))" using d by (intro nth_mem) simp
  ultimately show ?case
    using Suc.prems(2) by (auto simp: leaf_Suc forest_leaf_def nodes_Suc forest_def split: if_splits)
qed simp

lemma forest_leaf_inj_aux:
  assumes disj: "forest_disjoint v l ws" and inj: "\<And>w m m'. w \<in> set ws \<Longrightarrow> m < 128 ^ l \<Longrightarrow> m' < 128 ^ l \<Longrightarrow>
      leaf v l w m \<noteq> 0 \<Longrightarrow> leaf v l w m = leaf v l w m' \<Longrightarrow> m = m'"
    and m: "m < length ws * 128 ^ l" "m' < length ws * 128 ^ l"
    and eq: "forest_leaf v l ws m \<noteq> 0" "forest_leaf v l ws m = forest_leaf v l ws m'"
  shows "m = m'"
proof -
  let ?i = "m div 128 ^ l" and ?i' = "m' div 128 ^ l"
  have i: "?i < length ws" "?i' < length ws" using m by (simp_all add: less_mult_imp_div_less)
  have "forest_leaf v l ws m \<in> nodes v l (ws ! ?i)"
    using eq(1) unfolding forest_leaf_def by (intro leaf_in_nodes) simp_all
  moreover have "forest_leaf v l ws m' \<in> nodes v l (ws ! ?i')"
    using eq unfolding forest_leaf_def by (intro leaf_in_nodes) simp_all
  ultimately have "?i = ?i'" using disj i eq(2) by (auto simp: forest_disjoint_def)
  moreover from this have "m mod 128 ^ l = m' mod 128 ^ l"
    using eq inj [OF nth_mem [OF i(1)], of "m mod 128 ^ l" "m' mod 128 ^ l"] by (simp add: forest_leaf_def)
  ultimately show ?thesis by (metis div_mult_mod_eq)
qed

lemma leaf_inj:
  "tree_ok v l e \<Longrightarrow> m < 128 ^ l \<Longrightarrow> m' < 128 ^ l \<Longrightarrow> leaf v l e m \<noteq> 0 \<Longrightarrow> leaf v l e m = leaf v l e m' \<Longrightarrow> m = m'"
proof (induction l arbitrary: e m m')
  case (Suc l)
  then have "e \<noteq> 0" "forest_ok v l (indirect_of (v e))" by (auto simp: leaf_Suc tree_ok_Suc split: if_splits)
  with Suc.prems show ?case
    by (intro forest_leaf_inj_aux [of v l "indirect_of (v e)" m m'] Suc.IH)
      (auto simp: leaf_Suc forest_ok_def)
qed simp

lemma forest_leaf_inj:
  assumes "forest_ok v l ws" and "m < length ws * 128 ^ l" and "m' < length ws * 128 ^ l"
    and "forest_leaf v l ws m \<noteq> 0" and "forest_leaf v l ws m = forest_leaf v l ws m'"
  shows "m = m'"
  using assms leaf_inj by (intro forest_leaf_inj_aux [OF _ _ assms(2-5)]) (auto simp: forest_ok_def)

lemma forest_leaf_in_forest:
  assumes "m < length ws * 128 ^ l" and "forest_leaf v l ws m \<noteq> 0"
  shows "forest_leaf v l ws m \<in> forest v l ws"
proof -
  have "m div 128 ^ l < length ws" using assms(1) by (simp add: less_mult_imp_div_less)
  then show ?thesis
    using assms(2) leaf_in_nodes [of "m mod 128 ^ l" l v "ws ! (m div 128 ^ l)"] nth_mem
    by (auto simp: forest_def forest_leaf_def)
qed

lemma leaf_notin_inner:
  "tree_ok v l e \<Longrightarrow> m < 128 ^ l \<Longrightarrow> leaf v l e m \<noteq> 0 \<Longrightarrow> leaf v l e m \<notin> inner v l e"
proof (induction l arbitrary: e m)
  case (Suc l)
  let ?ws = "indirect_of (v e)" let ?i = "m div 128 ^ l"
  have e: "e \<noteq> 0" "forest_ok v l ?ws" "e \<notin> forest v l ?ws"
    using Suc.prems by (auto simp: leaf_Suc tree_ok_Suc split: if_splits)
  have i: "?i < length ?ws" using Suc.prems(2) by (simp add: less_mult_imp_div_less)
  let ?x = "leaf v l (?ws ! ?i) (m mod 128 ^ l)"
  have x: "leaf v (Suc l) e m = ?x" "?x \<noteq> 0" using e Suc.prems by (simp_all add: leaf_Suc forest_leaf_def)
  have nx: "?x \<in> nodes v l (?ws ! ?i)" using x by (intro leaf_in_nodes) simp_all
  have "?x \<notin> inner v l (?ws ! ?i)"
    using e i x by (intro Suc.IH) (auto simp: forest_ok_def)
  moreover have "?x \<notin> inner v l (?ws ! j)" if "j < 128" "j \<noteq> ?i" for j
  proof -
    have "nodes v l (?ws ! j) \<inter> nodes v l (?ws ! ?i) = {}"
      using e(2) that i by (simp add: forest_ok_def forest_disjoint_def)
    with nx inner_nodes [of v l "?ws ! j"] show ?thesis by blast
  qed
  ultimately have "j < 128 \<Longrightarrow> ?x \<notin> inner v l (?ws ! j)" for j by (cases "j = ?i") simp_all
  then have "?x \<notin> forest_inner v l ?ws"
    by (auto simp: forest_inner_def in_set_conv_nth)
  moreover have "?x \<noteq> e" using nx e(3) i by (auto simp: forest_def)
  ultimately show ?case using e(1) x(1) by (simp add: inner_Suc)
qed simp

lemma forest_single [simp]:
  "forest v l [w] = nodes v l w" "forest_inner v l [w] = inner v l w" "forest_ok v l [w] = tree_ok v l w"
  "m < 128 ^ l \<Longrightarrow> forest_leaf v l [w] m = leaf v l w m"
  by (simp_all add: forest_def forest_inner_def forest_ok_def forest_disjoint_def forest_leaf_def)

lemma forest_nth:
  "forest v l ws = (\<Union>j < length ws. nodes v l (ws ! j))"
  "forest_inner v l ws = (\<Union>j < length ws. inner v l (ws ! j))"
  "(\<forall>w \<in> set ws. tree_ok v l w) = (\<forall>j < length ws. tree_ok v l (ws ! j))"
  by (auto simp: forest_def forest_inner_def set_conv_nth)

lemma le_word_replicate_0 [simp]: "le_word (replicate n 0) = 0"
  by (induction n) simp_all

lemma nth_indirect_zeros: "j < 128 \<Longrightarrow> indirect_of zeros ! j = 0"
  by (simp add: indirect_of_def nth_bytes_to_words zeros_def)

lemma forest_leaf_notin_inner:
  assumes ok: "forest_ok v l ws" and m: "m < length ws * 128 ^ l" and nz: "forest_leaf v l ws m \<noteq> 0"
  shows "forest_leaf v l ws m \<notin> forest_inner v l ws"
proof -
  let ?i = "m div 128 ^ l" and ?x = "forest_leaf v l ws m"
  have i: "?i < length ws" using m by (simp add: less_mult_imp_div_less)
  have x: "?x \<in> nodes v l (ws ! ?i)" "?x \<notin> inner v l (ws ! ?i)"
    using nz ok nth_mem [OF i] unfolding forest_leaf_def
    by (auto intro!: leaf_in_nodes simp: forest_ok_def dest!: leaf_notin_inner [rotated 2])
  show ?thesis
  proof
    assume "?x \<in> forest_inner v l ws"
    then obtain j where j: "j < length ws" "?x \<in> inner v l (ws ! j)"
      by (auto simp: forest_inner_def in_set_conv_nth)
    then have "j \<noteq> ?i" using x(2) by auto
    then have "nodes v l (ws ! j) \<inter> nodes v l (ws ! ?i) = {}"
      using ok i j(1) by (simp add: forest_ok_def forest_disjoint_def)
    with x(1) j(2) inner_nodes [of v l "ws ! j"] show False by blast
  qed
qed

section \<open>The tree of an inode\<close>

text \<open>
  The three parts of an inode are forests of the levels 0, 1 and 2: the direct blocks, the
  indirect and the doubly indirect block. \<open>part_start\<close> is the index of a part's first block.
\<close>

definition part :: "inode_disk \<Rightarrow> nat \<Rightarrow> u32 list" where
  "part d k = (if k = 0 then direct_blocks d else if k = 1 then [indirect_block d]
     else [doubly_indirect_block d])"

definition part_start :: "nat \<Rightarrow> nat" where
  "part_start k = (if k = 0 then 0 else if k = 1 then 123 else 251)"

definition part_of :: "nat \<Rightarrow> nat" where
  "part_of i = (if i < 123 then 0 else if i < 251 then 1 else 2)"

definition disk_nodes :: "(u32 \<Rightarrow> byte list) \<Rightarrow> inode_disk \<Rightarrow> u32 set" where
  "disk_nodes v d = (\<Union>k < 3. forest v k (part d k))"

definition disk_inner :: "(u32 \<Rightarrow> byte list) \<Rightarrow> inode_disk \<Rightarrow> u32 set" where
  "disk_inner v d = (\<Union>k < 3. forest_inner v k (part d k))"

definition disk_leaf :: "(u32 \<Rightarrow> byte list) \<Rightarrow> inode_disk \<Rightarrow> nat \<Rightarrow> u32" where
  "disk_leaf v d i = (let k = part_of i in forest_leaf v k (part d k) (i - part_start k))"

definition disk_ok :: "(u32 \<Rightarrow> byte list) \<Rightarrow> inode_disk \<Rightarrow> bool" where
  "disk_ok v d \<longleftrightarrow> length (direct_blocks d) = 123 \<and> (\<forall>k < 3. forest_ok v k (part d k)) \<and>
     (\<forall>j < 3. \<forall>k < 3. j \<noteq> k \<longrightarrow> forest v j (part d j) \<inter> forest v k (part d k) = {})"

lemma part_of_bounds:
  assumes "i < MAX_BLOCKS" and "length (direct_blocks d) = 123"
  shows "part_of i < 3" and "part_start (part_of i) \<le> i"
    and "i - part_start (part_of i) < length (part d (part_of i)) * 128 ^ part_of i"
  using assms by (auto simp: part_of_def part_start_def part_def MAX_BLOCKS_def)

lemma part_of_start:
  "k < 3 \<Longrightarrow> length (direct_blocks d) = 123 \<Longrightarrow> m < length (part d k) * 128 ^ k \<Longrightarrow> part_of (part_start k + m) = k"
  by (auto simp: part_of_def part_start_def part_def split: if_splits)

lemma disk_leaf_facts:
  assumes ok: "disk_ok v d" and i: "i < MAX_BLOCKS" and nz: "disk_leaf v d i \<noteq> 0"
  shows "disk_leaf v d i \<in> disk_nodes v d" and "disk_leaf v d i \<notin> disk_inner v d"
proof -
  let ?k = "part_of i" let ?m = "i - part_start ?k"
  note b = part_of_bounds [OF i, of d]
  have len: "length (direct_blocks d) = 123" using ok by (simp add: disk_ok_def)
  have lf: "disk_leaf v d i = forest_leaf v ?k (part d ?k) ?m" by (simp add: disk_leaf_def Let_def)
  have x: "disk_leaf v d i \<in> forest v ?k (part d ?k)"
    using nz b(3) [OF len] unfolding lf by (intro forest_leaf_in_forest)
  then show "disk_leaf v d i \<in> disk_nodes v d" using b(1) [OF len] by (auto simp: disk_nodes_def)
  have "disk_leaf v d i \<notin> forest_inner v ?k (part d ?k)"
    using nz b(1,3) [OF len] ok unfolding lf by (intro forest_leaf_notin_inner) (auto simp: disk_ok_def)
  moreover have "disk_leaf v d i \<notin> forest_inner v j (part d j)" if "j < 3" "j \<noteq> ?k" for j
  proof -
    have "forest v j (part d j) \<inter> forest v ?k (part d ?k) = {}"
      using ok that b(1) [OF len] by (simp add: disk_ok_def)
    with x forest_inner_subset [of v j "part d j"] show ?thesis by blast
  qed
  ultimately have "disk_leaf v d i \<notin> forest_inner v j (part d j)" if "j < 3" for j
    using that by (cases "j = ?k") simp_all
  then show "disk_leaf v d i \<notin> disk_inner v d" by (auto simp: disk_inner_def)
qed

lemma disk_leaf_inj:
  assumes ok: "disk_ok v d" and i: "i < MAX_BLOCKS" "j < MAX_BLOCKS"
    and nz: "disk_leaf v d i \<noteq> 0" and eq: "disk_leaf v d i = disk_leaf v d j"
  shows "i = j"
proof -
  have len: "length (direct_blocks d) = 123" using ok by (simp add: disk_ok_def)
  note bi = part_of_bounds [OF i(1) len] and bj = part_of_bounds [OF i(2) len]
  have x: "disk_leaf v d i \<in> forest v (part_of i) (part d (part_of i))"
    using nz bi(3) unfolding disk_leaf_def Let_def by (intro forest_leaf_in_forest)
  have "disk_leaf v d j \<in> forest v (part_of j) (part d (part_of j))"
    using nz eq bj(3) unfolding disk_leaf_def Let_def by (intro forest_leaf_in_forest) simp_all
  with x eq have k: "part_of i = part_of j" using ok bi(1) bj(1) by (auto simp: disk_ok_def)
  have "i - part_start (part_of i) = j - part_start (part_of j)"
    using nz eq bi bj ok unfolding disk_leaf_def Let_def k
    by (intro forest_leaf_inj [of v "part_of j" "part d (part_of j)"]) (auto simp: disk_ok_def)
  with k bi(2) bj(2) show ?thesis by (metis le_add_diff_inverse)
qed

text \<open>Where all blocks are there, the leaves are what the lookup of the code yields.\<close>

lemma disk_leaf_data_sector:
  assumes "disk_leaf v d i \<noteq> 0" and "i < MAX_BLOCKS"
  shows "data_sector v d i = disk_leaf v d i"
proof -
  have "(i - 251) div 128 < 128 \<or> i < 251" using assms(2) by (auto simp: MAX_BLOCKS_def less_mult_imp_div_less)
  then show ?thesis
    using assms(1)
    by (auto simp: disk_leaf_def part_of_def part_def part_start_def data_sector_def forest_leaf_def
        leaf_Suc numeral_2_eq_2 split: if_splits)
qed

text \<open>
  The sectors that a file of \<open>N\<close> blocks needs when none of them is there yet: the blocks, the indirect
  block, and the doubly indirect block with the indirect blocks below it.
\<close>

definition doubly_cost :: "nat \<Rightarrow> nat" where
  "doubly_cost n = n + Suc (DIV_ROUND_UP n 128)"

definition single_cost :: "nat \<Rightarrow> nat" where
  "single_cost n = (if n \<le> 128 then Suc n else 129 + doubly_cost (n - 128))"

definition sectors_needed :: "nat \<Rightarrow> nat" where
  "sectors_needed N = (if N \<le> 123 then N else 123 + single_cost (N - 123))"

section \<open>The contract of a sector allocator\<close>

text \<open>
  \<open>used\<close> are the sectors taken, \<open>own\<close> those the allocator keeps its own data in, \<open>full\<close> says that
  nothing is left of those it manages. An allocation returns a new sector and may rewrite the allocator's own
  sectors; it touches neither open inodes nor files.
\<close>

locale sector_allocator =
  fixes alloc :: allocator
    and inv :: "fs \<Rightarrow> bool"
    and used :: "fs \<Rightarrow> u32 set"
    and own :: "fs \<Rightarrow> u32 set"
    and full :: "fs \<Rightarrow> bool"
    and managed :: "fs \<Rightarrow> u32 set"
  assumes alloc_full: "inv s \<Longrightarrow> full s \<Longrightarrow> alloc s = Some (None, s)"
    and alloc_new: "inv s \<Longrightarrow> \<not> full s \<Longrightarrow> \<exists>k c b. alloc s = Some (Some k, s\<lparr>bc := c, free_map := b\<rparr>) \<and>
      inv (s\<lparr>bc := c, free_map := b\<rparr>) \<and> own (s\<lparr>bc := c, free_map := b\<rparr>) = own s \<and>
      within (own s) (bc s) c \<and> k \<noteq> 0 \<and> k \<noteq> - 1 \<and> k \<notin> used s \<and> sector_valid (bc s) k \<and>
      used (s\<lparr>bc := c, free_map := b\<rparr>) = insert k (used s) \<and>
      managed (s\<lparr>bc := c, free_map := b\<rparr>) = managed s"
    and inv_cache: "inv s \<Longrightarrow> cache_ok (bc s)"
    and inv_own: "inv s \<Longrightarrow> own s \<subseteq> used s"
    and inv_0: "inv s \<Longrightarrow> 0 \<in> used s - own s \<and> sector_valid (bc s) 0"
    and inv_within: "inv s \<Longrightarrow> within S (bc s) c \<Longrightarrow> S \<inter> own s = {} \<Longrightarrow>
      inv (s\<lparr>bc := c\<rparr>) \<and> own (s\<lparr>bc := c\<rparr>) = own s"
    and used_bc: "used (s\<lparr>bc := c\<rparr>) = used s"
    and full_bc: "full (s\<lparr>bc := c\<rparr>) = full s"
    and managed_bc: "managed (s\<lparr>bc := c\<rparr>) = managed s"
    and full_managed: "inv s \<Longrightarrow> full s \<Longrightarrow> managed s \<subseteq> used s"
begin

text \<open>A step that may change sectors in \<open>S\<close>, the allocator's sectors and unused sectors.\<close>

definition ext :: "u32 set \<Rightarrow> fs \<Rightarrow> fs \<Rightarrow> bool" where
  "ext S s s' \<longleftrightarrow> inv s' \<and> own s' = own s \<and> managed s' = managed s \<and> used s \<subseteq> used s' \<and>
     s' = s\<lparr>bc := bc s', free_map := free_map s'\<rparr> \<and> within (own s \<union> S \<union> - used s) (bc s) (bc s')"

lemma extD:
  assumes "ext S s s'"
  shows "inv s'" and "own s' = own s" and "used s \<subseteq> used s'"
    and "s' = s\<lparr>bc := bc s', free_map := free_map s'\<rparr>" and "sector_valid (bc s') = sector_valid (bc s)"
    and "\<And>k. sector_valid (bc s) k \<Longrightarrow> k \<in> used s \<Longrightarrow> k \<notin> own s \<Longrightarrow> k \<notin> S \<Longrightarrow>
           cache_view (bc s') k = cache_view (bc s) k"
  using assms by (auto simp: ext_def within_def)

lemma ext_refl: "inv s \<Longrightarrow> ext S s s"
  by (simp add: ext_def within_refl inv_cache)

lemma ext_trans:
  assumes a: "ext S s t" and b: "ext T t u" and "S \<subseteq> U" and "T \<subseteq> U \<union> own s \<union> - used s"
  shows "ext U s u"
proof -
  note A = extD [OF a] and B = extD [OF b]
  have "within (own s \<union> U \<union> - used s) (bc s) (bc u)"
  proof (rule within_trans)
    show "within (own s \<union> S \<union> - used s) (bc s) (bc t)" "within (own t \<union> T \<union> - used t) (bc t) (bc u)"
      using a b by (simp_all add: ext_def)
  qed (use assms(3,4) A(2,3) in blast)+
  moreover have "t\<lparr>bc := bc u, free_map := free_map u\<rparr> = s\<lparr>bc := bc u, free_map := free_map u\<rparr>"
    by (subst A(4)) simp
  with B(4) have "u = s\<lparr>bc := bc u, free_map := free_map u\<rparr>" by simp
  moreover have "managed u = managed s" using a b by (simp add: ext_def)
  ultimately show ?thesis using A B by (auto simp: ext_def)
qed

lemma ext_mono: "ext S s t \<Longrightarrow> S \<subseteq> U \<Longrightarrow> ext U s t"
  unfolding ext_def by (auto intro: within_mono)

lemma ext_within:
  assumes "inv s" and "within S (bc s) c" and "S \<inter> own s = {}"
  shows "ext S s (s\<lparr>bc := c\<rparr>)"
  using inv_within [OF assms] assms(2) by (auto simp: ext_def used_bc managed_bc intro: within_mono)

lemma ext_cwrite:
  assumes "inv s" and "sector_valid (bc s) k" and "k \<notin> own s" and "length d = BLOCK_SECTOR_SIZE"
  shows "ext {k} s (cwrite k d s)"
  unfolding cwrite_def using assms
  by (intro ext_within within_write) (auto simp: inv_cache)

lemma cwrite_view:
  assumes "inv s" and "sector_valid (bc s) k" and "length d = BLOCK_SECTOR_SIZE" and "sector_valid (bc s) j"
  shows "cache_view (bc (cwrite k d s)) j = (if j = k then d else cache_view (bc s) j)"
  using buffer_cache_write_spec(3) [OF inv_cache [OF assms(1)] assms(2,3,4)] by (simp add: cwrite_def)

lemma ext_cread:
  assumes "inv s" and "sector_valid (bc s) k"
  shows "\<exists>s'. cread k s = (cache_view (bc s) k, s') \<and> ext {} s s' \<and> used s' = used s \<and> full s' = full s \<and>
     (\<forall>j. sector_valid (bc s) j \<longrightarrow> cache_view (bc s') j = cache_view (bc s) j)"
proof -
  obtain c where c: "buffer_cache_read k (bc s) = (cache_view (bc s) k, c)" "keeps (bc s) c"
    using buffer_cache_read_spec [OF inv_cache [OF assms(1)] assms(2)] by blast
  then have "ext {} s (s\<lparr>bc := c\<rparr>)" by (intro ext_within assms(1) keeps_within) auto
  with c show ?thesis by (auto simp: cread_def used_bc full_bc keepsD(3))
qed

text \<open>
  The number of sectors a step takes is bounded by \<open>c\<close>; a step that fails takes one less, and leaves
  no sector free.
\<close>

definition spends :: "bool \<Rightarrow> fs \<Rightarrow> fs \<Rightarrow> nat \<Rightarrow> bool" where
  "spends ok s s' c \<longleftrightarrow> card (used s' - used s) + (if ok then 0 else 1) \<le> c \<and> (\<not> ok \<longrightarrow> full s')"

lemma used_cwrite [simp]: "used (cwrite k d s) = used s" "full (cwrite k d s) = full s"
  by (simp_all add: cwrite_def used_bc full_bc)

lemma spends_same: "used s' = used s \<Longrightarrow> spends True s s' c"
  by (simp add: spends_def)

lemma spends_full: "used s' = used s \<Longrightarrow> full s' \<Longrightarrow> 0 < c \<Longrightarrow> spends False s s' c"
  by (simp add: spends_def)

lemma spends_one: "used s' = insert k (used s) \<Longrightarrow> 0 < c \<Longrightarrow> spends True s s' c"
  by (cases "k \<in> used s") (auto simp: spends_def insert_Diff_if insert_absorb)

lemma spends_mono: "spends ok s s' c \<Longrightarrow> c \<le> d \<Longrightarrow> spends ok s s' d"
  by (auto simp: spends_def)

lemma spends_trans:
  assumes "spends True s t a" and "spends ok t u b" and "a + b \<le> c"
  shows "spends ok s u c"
proof -
  have "card (used u - used s) \<le> card ((used u - used t) \<union> (used t - used s))" by (intro card_mono) auto
  also have "\<dots> \<le> card (used u - used t) + card (used t - used s)" by (rule card_Un_le)
  finally show ?thesis using assms by (auto simp: spends_def)
qed

text \<open>So a step that fails was short of sectors from the start.\<close>

lemma spends_short:
  assumes "ext S s s'" and "spends False s s' c"
  shows "card (managed s - used s) < c"
proof -
  have "managed s \<subseteq> used s'" using assms full_managed [of s'] by (simp add: ext_def spends_def)
  then have "card (managed s - used s) \<le> card (used s' - used s)" by (intro card_mono) auto
  then show ?thesis using assms(2) by (simp add: spends_def)
qed

text \<open>The sectors of a tree exist, are taken, and do not belong to the allocator.\<close>

definition taken :: "fs \<Rightarrow> u32 set \<Rightarrow> bool" where
  "taken s K \<longleftrightarrow> (\<forall>k \<in> K. sector_valid (bc s) k \<and> k \<noteq> - 1 \<and> k \<in> used s \<and> k \<notin> own s)"

lemma taken_ext: "taken s K \<Longrightarrow> ext S s s' \<Longrightarrow> taken s' K"
  using extD(2,3,5) [of S s s'] by (auto simp: taken_def)

lemma taken_Un [simp]: "taken s (A \<union> B) \<longleftrightarrow> taken s A \<and> taken s B"
  by (auto simp: taken_def)

lemma taken_subset: "taken s B \<Longrightarrow> A \<subseteq> B \<Longrightarrow> taken s A"
  by (auto simp: taken_def)

lemma ext_view:
  "ext S s s' \<Longrightarrow> taken s K \<Longrightarrow> k \<in> K \<Longrightarrow> k \<notin> S \<Longrightarrow> cache_view (bc s') k = cache_view (bc s) k"
  using extD(6) [of S s s' k] by (auto simp: taken_def)

text \<open>Trees and forests that a step does not touch.\<close>

lemma tree_ext:
  assumes "ext S s s'" and "taken s (nodes (cache_view (bc s)) l e)" and "S \<inter> nodes (cache_view (bc s)) l e = {}"
  shows "nodes (cache_view (bc s')) l e = nodes (cache_view (bc s)) l e"
    and "inner (cache_view (bc s')) l e = inner (cache_view (bc s)) l e"
    and "tree_ok (cache_view (bc s')) l e = tree_ok (cache_view (bc s)) l e"
    and "m < 128 ^ l \<Longrightarrow> leaf (cache_view (bc s')) l e m = leaf (cache_view (bc s)) l e m"
proof -
  have "k \<in> inner (cache_view (bc s)) l e \<Longrightarrow> cache_view (bc s') k = cache_view (bc s) k" for k
    using assms inner_nodes [of "cache_view (bc s)" l e]
    by (intro ext_view [where K = "nodes (cache_view (bc s)) l e"]) auto
  from tree_cong [OF this]
  show "nodes (cache_view (bc s')) l e = nodes (cache_view (bc s)) l e"
    "inner (cache_view (bc s')) l e = inner (cache_view (bc s)) l e"
    "tree_ok (cache_view (bc s')) l e = tree_ok (cache_view (bc s)) l e"
    "m < 128 ^ l \<Longrightarrow> leaf (cache_view (bc s')) l e m = leaf (cache_view (bc s)) l e m"
    by simp_all
qed

section \<open>Growth of forests\<close>

text \<open>
  From \<open>ws\<close> in state \<open>s\<close> to \<open>ws'\<close> in state \<open>s'\<close> the forest has grown: it is sound, only new sectors
  came in, the blocks from \<open>a\<close> to \<open>b\<close> are all there, old blocks are where they were, and new
  blocks are filled with zeros.
\<close>

definition grown :: "fs \<Rightarrow> fs \<Rightarrow> nat \<Rightarrow> u32 list \<Rightarrow> u32 list \<Rightarrow> nat \<Rightarrow> nat \<Rightarrow> bool" where
  "grown s s' l ws ws' a b \<longleftrightarrow>
     (let v = cache_view (bc s); v' = cache_view (bc s')
      in length ws' = length ws \<and> forest_ok v' l ws' \<and> taken s' (forest v' l ws') \<and>
         forest v l ws \<subseteq> forest v' l ws' \<and> forest v' l ws' \<subseteq> forest v l ws \<union> - used s \<and>
         forest_inner v' l ws' \<subseteq> forest_inner v l ws \<union> - used s \<and>
         (\<forall>m. a \<le> m \<longrightarrow> m < b \<longrightarrow> forest_leaf v' l ws' m \<noteq> 0) \<and>
         (\<forall>m < length ws * 128 ^ l. forest_leaf v l ws m \<noteq> 0 \<longrightarrow> forest_leaf v' l ws' m = forest_leaf v l ws m) \<and>
         (\<forall>m < length ws * 128 ^ l. forest_leaf v l ws m = 0 \<longrightarrow> forest_leaf v' l ws' m \<noteq> 0 \<longrightarrow>
            v' (forest_leaf v' l ws' m) = zeros))"

lemma grownD:
  assumes "grown s s' l ws ws' a b"
  shows "length ws' = length ws" and "forest_ok (cache_view (bc s')) l ws'"
    and "taken s' (forest (cache_view (bc s')) l ws')"
    and "forest (cache_view (bc s)) l ws \<subseteq> forest (cache_view (bc s')) l ws'"
    and "forest (cache_view (bc s')) l ws' \<subseteq> forest (cache_view (bc s)) l ws \<union> - used s"
    and "forest_inner (cache_view (bc s')) l ws' \<subseteq> forest_inner (cache_view (bc s)) l ws \<union> - used s"
    and "a \<le> m \<Longrightarrow> m < b \<Longrightarrow> forest_leaf (cache_view (bc s')) l ws' m \<noteq> 0"
    and "m < length ws * 128 ^ l \<Longrightarrow> forest_leaf (cache_view (bc s)) l ws m \<noteq> 0 \<Longrightarrow>
           forest_leaf (cache_view (bc s')) l ws' m = forest_leaf (cache_view (bc s)) l ws m"
    and "m < length ws * 128 ^ l \<Longrightarrow> forest_leaf (cache_view (bc s)) l ws m = 0 \<Longrightarrow>
           forest_leaf (cache_view (bc s')) l ws' m \<noteq> 0 \<Longrightarrow>
           cache_view (bc s') (forest_leaf (cache_view (bc s')) l ws' m) = zeros"
  using assms by (simp_all add: grown_def Let_def)

lemma grown_trans:
  assumes g: "grown s t l ws ws1 a b" and h: "grown t u l ws1 ws2 b c"
    and e: "ext S s t" and f: "ext (forest_inner (cache_view (bc t)) l ws1) t u"
    and b: "b \<le> length ws * 128 ^ l"
  shows "grown s u l ws ws2 a c"
proof -
  note G = grownD [OF g] and H = grownD [OF h]
  have len: "length ws1 * 128 ^ l = length ws * 128 ^ l" using G(1) by simp
  have used: "used s \<subseteq> used t" using extD(3) [OF e] .
  have z: "cache_view (bc u) (forest_leaf (cache_view (bc u)) l ws2 m) = zeros"
    if m: "m < length ws * 128 ^ l" "forest_leaf (cache_view (bc s)) l ws m = 0"
      "forest_leaf (cache_view (bc u)) l ws2 m \<noteq> 0" for m
  proof (cases "forest_leaf (cache_view (bc t)) l ws1 m = 0")
    case True
    with H(9) m len show ?thesis by simp
  next
    case False
    have "forest_leaf (cache_view (bc t)) l ws1 m \<in> forest (cache_view (bc t)) l ws1"
      using False m len by (intro forest_leaf_in_forest) simp_all
    moreover have "forest_leaf (cache_view (bc t)) l ws1 m \<notin> forest_inner (cache_view (bc t)) l ws1"
      using False m len by (intro forest_leaf_notin_inner G(2)) simp_all
    ultimately have "cache_view (bc u) (forest_leaf (cache_view (bc t)) l ws1 m) =
        cache_view (bc t) (forest_leaf (cache_view (bc t)) l ws1 m)"
      by (rule ext_view [OF f G(3)])
    with G(9) [OF m(1,2) False] H(8) m(1) len False show ?thesis by simp
  qed
  have old: "forest_leaf (cache_view (bc u)) l ws2 m = forest_leaf (cache_view (bc s)) l ws m"
    if "m < length ws * 128 ^ l" "forest_leaf (cache_view (bc s)) l ws m \<noteq> 0" for m
    using G(8) [OF that] H(8) [of m] that len by simp
  have there: "forest_leaf (cache_view (bc u)) l ws2 m \<noteq> 0" if "a \<le> m" "m < c" for m
  proof (cases "m < b")
    case True
    then show ?thesis using G(7) [OF that(1) True] H(8) [of m] b len by simp
  next
    case False
    then show ?thesis using H(7) that by simp
  qed
  have sub: "forest (cache_view (bc s)) l ws \<subseteq> forest (cache_view (bc u)) l ws2"
    "forest (cache_view (bc u)) l ws2 \<subseteq> forest (cache_view (bc s)) l ws \<union> - used s"
    "forest_inner (cache_view (bc u)) l ws2 \<subseteq> forest_inner (cache_view (bc s)) l ws \<union> - used s"
    using G(4-6) H(4-6) used by blast+
  show ?thesis
    unfolding grown_def Let_def
    using sub H(1-3) G(1) there old z by simp
qed

lemma grown_refl:
  "inv s \<Longrightarrow> forest_ok (cache_view (bc s)) l ws \<Longrightarrow> taken s (forest (cache_view (bc s)) l ws) \<Longrightarrow>
   grown s s l ws ws a a"
  by (simp add: grown_def)

text \<open>One entry grows, the others stay.\<close>

lemma grown_update:
  assumes ok: "forest_ok (cache_view (bc s)) l ws" and tk: "taken s (forest (cache_view (bc s)) l ws)"
    and i: "i < length ws" and e: "ext (inner (cache_view (bc s)) l (ws ! i)) s t"
    and g: "grown s t l [ws ! i] [w] 0 n" and n: "n \<le> 128 ^ l"
  shows "grown s t l ws (ws[i := w]) (i * 128 ^ l) (i * 128 ^ l + n)"
proof -
  let ?v = "cache_view (bc s)" and ?t = "cache_view (bc t)" and ?ws = "ws[i := w]"
  note G = grownD [OF g, unfolded forest_single]
  have tkj: "taken s (nodes ?v l (ws ! j))" if "j < length ws" for j
    using tk that by (auto simp: forest_nth taken_def)
  have disj: "nodes ?v l (ws ! j) \<inter> nodes ?v l (ws ! k) = {}" if "j < length ws" "k < length ws" "j \<noteq> k" for j k
    using ok that by (simp add: forest_ok_def forest_disjoint_def)
  have other: "nodes ?t l (ws ! j) = nodes ?v l (ws ! j) \<and> inner ?t l (ws ! j) = inner ?v l (ws ! j) \<and>
      tree_ok ?t l (ws ! j) \<and> (\<forall>m < 128 ^ l. leaf ?t l (ws ! j) m = leaf ?v l (ws ! j) m)"
    if j: "j < length ws" "j \<noteq> i" for j
  proof -
    have "inner ?v l (ws ! i) \<inter> nodes ?v l (ws ! j) = {}"
      using disj [OF i j(1)] j(2) inner_nodes [of ?v l "ws ! i"] by blast
    note T = tree_ext [OF e tkj [OF j(1)] this]
    moreover have "tree_ok ?v l (ws ! j)" using ok j(1) by (simp add: forest_ok_def)
    ultimately show ?thesis by simp
  qed
  have used: "nodes ?v l (ws ! j) \<subseteq> used s" if "j < length ws" for j
    using tkj [OF that] by (auto simp: taken_def)
  have N: "nodes ?t l (?ws ! j) = (if j = i then nodes ?t l w else nodes ?v l (ws ! j))"
    and I: "inner ?t l (?ws ! j) = (if j = i then inner ?t l w else inner ?v l (ws ! j))"
    and O: "tree_ok ?t l (?ws ! j)" if "j < length ws" for j
    using that other [OF that] i G(2) by (cases "j = i"; simp)+
  have "forest_disjoint ?t l ?ws"
    unfolding forest_disjoint_def
  proof (intro allI impI)
    fix j k assume jk: "j < length ?ws" "k < length ?ws" "j \<noteq> k"
    then show "nodes ?t l (?ws ! j) \<inter> nodes ?t l (?ws ! k) = {}"
      using N [of j] N [of k] disj [of j k] disj [of i k] disj [of j i] G(5) used [of j] used [of k] i
      by (auto split: if_splits)
  qed
  moreover have "\<forall>x \<in> set ?ws. tree_ok ?t l x" unfolding forest_nth using O by simp
  ultimately have fo: "forest_ok ?t l ?ws" by (simp add: forest_ok_def)
  have F: "forest ?t l ?ws \<subseteq> nodes ?t l w \<union> forest ?v l ws" "forest ?v l ws \<subseteq> forest ?t l ?ws"
    "forest_inner ?t l ?ws \<subseteq> inner ?t l w \<union> forest_inner ?v l ws" "nodes ?v l (ws ! i) \<subseteq> forest ?v l ws"
    "inner ?v l (ws ! i) \<subseteq> forest_inner ?v l ws"
    unfolding forest_nth using N I i G(4) by (auto split: if_splits)
  have tkt: "taken t (forest ?t l ?ws)"
    using taken_subset [OF _ F(1)] G(3) taken_ext [OF tk e] by simp
  have L: "forest_leaf ?t l ?ws m = (if m div 128 ^ l = i then leaf ?t l w (m mod 128 ^ l) else forest_leaf ?v l ws m)"
    if "m < length ws * 128 ^ l" for m
  proof -
    have "m div 128 ^ l < length ws" using that by (simp add: less_mult_imp_div_less)
    with other [OF this] i show ?thesis by (simp add: forest_leaf_def nth_list_update)
  qed
  have old: "forest_leaf ?v l ws m = leaf ?v l (ws ! i) (m mod 128 ^ l)" if "m div 128 ^ l = i" for m
    using that by (simp add: forest_leaf_def)
  have lt: "m mod 128 ^ l < 128 ^ l" for m :: nat by simp
  have a: "forest_leaf ?t l ?ws m \<noteq> 0" if m: "i * 128 ^ l \<le> m" "m < i * 128 ^ l + n" for m
  proof -
    obtain r where r: "m = i * 128 ^ l + r" "r < n" using m by (metis le_Suc_ex nat_add_left_cancel_less)
    then have "r < 128 ^ l" "m div 128 ^ l = i" "m mod 128 ^ l = r" using n by simp_all
    moreover have "i * 128 ^ l + 128 ^ l \<le> length ws * 128 ^ l"
      using i by (metis Suc_leI add.commute mult_Suc mult_le_mono1)
    ultimately show ?thesis using G(7) [of r] L [of m] r by simp
  qed
  have b: "forest_leaf ?t l ?ws m = forest_leaf ?v l ws m"
    if "m < length ws * 128 ^ l" "forest_leaf ?v l ws m \<noteq> 0" for m
    using L [OF that(1)] old [of m] G(8) [of "m mod 128 ^ l"] lt [of m] that(2)
    by (cases "m div 128 ^ l = i") simp_all
  have c: "?t (forest_leaf ?t l ?ws m) = zeros"
    if "m < length ws * 128 ^ l" "forest_leaf ?v l ws m = 0" "forest_leaf ?t l ?ws m \<noteq> 0" for m
    using L [OF that(1)] old [of m] G(9) [of "m mod 128 ^ l"] lt [of m] that(2,3)
    by (cases "m div 128 ^ l = i") simp_all
  have "forest ?t l ?ws \<subseteq> forest ?v l ws \<union> - used s" "forest_inner ?t l ?ws \<subseteq> forest_inner ?v l ws \<union> - used s"
    using F G(5,6) by blast+
  with fo F(2) tkt a b c show ?thesis
    unfolding grown_def Let_def by simp
qed

text \<open>The loop over the entries, for a body that meets the contract on each of them.\<close>

definition entry_spec :: "(u32 \<Rightarrow> nat \<Rightarrow> fs \<Rightarrow> (bool \<times> u32 \<times> fs) option) \<Rightarrow> nat \<Rightarrow> (nat \<Rightarrow> nat) \<Rightarrow> bool" where
  "entry_spec f l c \<longleftrightarrow> (\<forall>s e n. inv s \<and> tree_ok (cache_view (bc s)) l e \<and> taken s (nodes (cache_view (bc s)) l e) \<and>
      0 < n \<and> n \<le> 128 ^ l \<longrightarrow>
      (\<exists>ok e' s'. f e n s = Some (ok, e', s') \<and> ext (inner (cache_view (bc s)) l e \<union> (if ok then {} else {0})) s s' \<and>
        (ok \<longrightarrow> grown s s' l [e] [e'] 0 n) \<and> spends ok s s' (c n)))"

lemma grown_empty: "grown s s' l ws ws' a a \<Longrightarrow> grown s s' l ws ws' b b"
  by (simp add: grown_def Let_def)

lemma reserve_loop_spec:
  assumes f: "entry_spec f l (\<lambda>n. n + c)"
  shows "inv s \<Longrightarrow> forest_ok (cache_view (bc s)) l ws \<Longrightarrow> taken s (forest (cache_view (bc s)) l ws) \<Longrightarrow>
    i + k \<le> length ws \<Longrightarrow> k = DIV_ROUND_UP n (128 ^ l) \<Longrightarrow>
    \<exists>ok ws' s'. reserve_loop f (128 ^ l) k i n ws s = Some (ok, ws', s') \<and>
      ext (forest_inner (cache_view (bc s)) l ws \<union> (if ok then {} else {0})) s s' \<and>
      (ok \<longrightarrow> grown s s' l ws ws' (i * 128 ^ l) (i * 128 ^ l + n)) \<and> spends ok s s' (n + k * c)"
proof (induction k arbitrary: s ws i n)
  case 0
  have U: "0 < (128::nat) ^ l" by simp
  from 0 have "\<not> 0 < DIV_ROUND_UP n (128 ^ l)" by simp
  then have "n = 0" unfolding less_DIV_ROUND_UP_iff [OF U] by simp
  with 0 show ?case by (intro exI [of _ True]) (simp add: ext_refl grown_refl spends_same)
next
  case (Suc k)
  let ?U = "(128::nat) ^ l"
  let ?n = "min n ?U"
  have U: "0 < ?U" by simp
  have "0 < DIV_ROUND_UP n ?U" using Suc.prems(5) by simp
  then have n: "0 < n" unfolding less_DIV_ROUND_UP_iff [OF U] by simp
  have k: "k = DIV_ROUND_UP (n - ?n) ?U"
  proof (cases "n < ?U")
    case True
    then have "\<not> 1 < DIV_ROUND_UP n ?U" unfolding less_DIV_ROUND_UP_iff [OF U] by simp
    with True Suc.prems(5) show ?thesis by simp
  next
    case False
    then have "n + ?U - 1 = (n - ?U + ?U - 1) + ?U" using U by simp
    then have "DIV_ROUND_UP n ?U = Suc (DIV_ROUND_UP (n - ?U) ?U)"
      unfolding DIV_ROUND_UP_def using U by (metis div_add_self2 Suc_eq_plus1 not_gr0)
    with False Suc.prems(5) show ?thesis by (simp add: min_def)
  qed
  have i: "i < length ws" using Suc.prems(4) by simp
  have wi: "tree_ok (cache_view (bc s)) l (ws ! i)" "taken s (nodes (cache_view (bc s)) l (ws ! i))"
    "inner (cache_view (bc s)) l (ws ! i) \<subseteq> forest_inner (cache_view (bc s)) l ws"
    using Suc.prems(2,3) i by (auto simp: forest_ok_def forest_nth taken_def)
  obtain ok w t where t: "f (ws ! i) ?n s = Some (ok, w, t)"
    "ext (inner (cache_view (bc s)) l (ws ! i) \<union> (if ok then {} else {0})) s t"
    "ok \<Longrightarrow> grown s t l [ws ! i] [w] 0 ?n" "spends ok s t (?n + c)"
    using f Suc.prems(1) wi(1,2) n U unfolding entry_spec_def by (metis min.cobounded2 min_less_iff_conj)
  show ?case
  proof (cases ok)
    case False
    then have "ext (forest_inner (cache_view (bc s)) l ws \<union> {0}) s t"
      using t(2) wi(3) by (auto elim: ext_mono)
    moreover have "spends False s t (n + Suc k * c)" using spends_mono [OF t(4)] False by simp
    ultimately show ?thesis using False t(1) i by (intro exI [of _ False]) simp
  next
    case True
    let ?ws = "ws[i := w]"
    have e: "ext (inner (cache_view (bc s)) l (ws ! i)) s t" using t(2) True by simp
    have g: "grown s t l ws ?ws (i * ?U) (i * ?U + ?n)"
      using grown_update [OF Suc.prems(2,3) i e t(3) [OF True]] by simp
    note G = grownD [OF g]
    have "Suc i + k \<le> length ?ws" using Suc.prems(4) by simp
    from Suc.IH [OF extD(1) [OF e] G(2,3) this k] obtain ok' ws' u where
      u: "reserve_loop f ?U k (Suc i) (n - ?n) ?ws t = Some (ok', ws', u)"
      "ext (forest_inner (cache_view (bc t)) l ?ws \<union> (if ok' then {} else {0})) t u"
      "ok' \<Longrightarrow> grown t u l ?ws ws' (Suc i * ?U) (Suc i * ?U + (n - ?n))" "spends ok' t u (n - ?n + k * c)" by blast
    have "ext (forest_inner (cache_view (bc s)) l ws \<union> (if ok' then {} else {0})) s u"
      using wi(3) G(6) by (intro ext_trans [OF e u(2)]) auto
    moreover have "grown s u l ws ws' (i * ?U) (i * ?U + n)" if ok'
    proof -
      have "grown t u l ?ws ws' (i * ?U + ?n) (i * ?U + n)"
        using u(3) [OF that] grown_empty [of t u l ?ws ws' "Suc i * ?U" "i * ?U + n"]
        by (cases "n \<le> ?U") (simp_all add: min_def add.commute)
      moreover have "i * ?U + ?U \<le> length ws * ?U" using i by (metis Suc_leI add.commute mult_Suc mult_le_mono1)
      ultimately show ?thesis
        using u(2) that by (intro grown_trans [OF g _ e]) auto
    qed
    moreover have "spends ok' s u (n + Suc k * c)"
      using t(4) True by (intro spends_trans [OF _ u(4)]) auto
    ultimately show ?thesis using t(1) True i u(1) by (intro exI [of _ ok']) simp
  qed
qed

section \<open>Reserving below an entry\<close>

lemma alloc_ext:
  assumes "inv s" and "\<not> full s"
  obtains k s' where "alloc s = Some (Some k, s')" "ext {} s s'" "k \<noteq> 0" "k \<noteq> - 1" "k \<notin> used s"
    "used s' = insert k (used s)" "sector_valid (bc s) k" "k \<notin> own s"
proof -
  from alloc_new [OF assms] obtain k c b where a: "alloc s = Some (Some k, s\<lparr>bc := c, free_map := b\<rparr>)"
    "inv (s\<lparr>bc := c, free_map := b\<rparr>)" "own (s\<lparr>bc := c, free_map := b\<rparr>) = own s"
    "within (own s) (bc s) c" "k \<noteq> 0" "k \<noteq> - 1" "k \<notin> used s" "sector_valid (bc s) k"
    "used (s\<lparr>bc := c, free_map := b\<rparr>) = insert k (used s)" "managed (s\<lparr>bc := c, free_map := b\<rparr>) = managed s" by blast
  then have "ext {} s (s\<lparr>bc := c, free_map := b\<rparr>)" by (auto simp: ext_def intro: within_mono)
  with a inv_own [OF assms(1)] show thesis by (intro that [of k "s\<lparr>bc := c, free_map := b\<rparr>"]) auto
qed

text \<open>Allocating a sector and filling it with zeros.\<close>

lemma alloc_zeros:
  assumes "inv s" and "\<not> full s"
  obtains k s0 s' where "alloc s = Some (Some k, s0)" "s' = cwrite k zeros s0" "ext {} s s'"
    "taken s' {k}" "k \<noteq> 0" "k \<notin> used s" "cache_view (bc s') k = zeros" "used s' = insert k (used s)"
proof -
  obtain k s0 where a: "alloc s = Some (Some k, s0)" "ext {} s s0" "k \<noteq> 0" "k \<noteq> - 1" "k \<notin> used s"
    "used s0 = insert k (used s)" "sector_valid (bc s) k" "k \<notin> own s" by (rule alloc_ext [OF assms])
  note A = extD [OF a(2)]
  have v: "sector_valid (bc s0) k" "k \<notin> own s0" using a A by simp_all
  note w = ext_cwrite [OF A(1) v length_zeros]
  have "ext {} s (cwrite k zeros s0)" using a(5) by (intro ext_trans [OF a(2) w]) auto
  moreover have "taken (cwrite k zeros s0) {k}"
    using a v extD(2,3,5) [OF w] by (auto simp: taken_def)
  moreover have "cache_view (bc (cwrite k zeros s0)) k = zeros"
    using cwrite_view [OF A(1) v(1) length_zeros v(1)] by simp
  ultimately show thesis using a by (intro that [of k s0 "cwrite k zeros s0"]) auto
qed

lemma reserve_sector_spec: "entry_spec (\<lambda>e _. reserve_sector alloc e) 0 (\<lambda>n. n + 0)"
  unfolding entry_spec_def
proof (intro allI impI)
  fix s :: fs and e and n :: nat
  let ?v = "cache_view (bc s)"
  assume a: "inv s \<and> tree_ok ?v 0 e \<and> taken s (nodes ?v 0 e) \<and> 0 < n \<and> n \<le> 128 ^ 0"
  then have n: "n = 1" by simp
  consider "e \<noteq> 0" | "e = 0" "full s" | "e = 0" "\<not> full s" by blast
  then show "\<exists>ok e' s'. reserve_sector alloc e s = Some (ok, e', s') \<and>
      ext (inner ?v 0 e \<union> (if ok then {} else {0})) s s' \<and> (ok \<longrightarrow> grown s s' 0 [e] [e'] 0 n) \<and> spends ok s s' (n + 0)"
  proof cases
    case 1
    then show ?thesis
      using a by (intro exI [of _ True]) (simp add: reserve_sector_def ext_refl grown_def n spends_same)
  next
    case 2
    then show ?thesis using a by (intro exI [of _ False]) (simp add: reserve_sector_def alloc_full ext_refl spends_full)
  next
    case 3
    obtain k s0 s' where k: "alloc s = Some (Some k, s0)" "s' = cwrite k zeros s0" "ext {} s s'"
      "taken s' {k}" "k \<noteq> 0" "k \<notin> used s" "cache_view (bc s') k = zeros" "used s' = insert k (used s)"
      using alloc_zeros a 3(2) by blast
    have "spends True s s' (n + 0)" using spends_one [OF k(8)] n by simp
    moreover have "grown s s' 0 [e] [k] 0 n"
      using 3 k by (simp add: grown_def n)
    ultimately show ?thesis by (intro exI [of _ True]) (use k(1-3) 3(1) in \<open>simp add: reserve_sector_def\<close>)
  qed
qed

lemma reserve_indirect_0_spec: "entry_spec (inode_reserve_indirect alloc 0) 0 (\<lambda>n. n + 0)"
  using reserve_sector_spec by (simp add: entry_spec_def)

lemma reserve_full:
  "inv s \<Longrightarrow> full s \<Longrightarrow> 0 < n \<Longrightarrow>
   \<exists>s'. inode_reserve_indirect alloc l 0 n s = Some (False, 0, s') \<and> ext {0} s s' \<and> full s' \<and> used s' = used s"
proof (induction l arbitrary: s n)
  case 0
  then show ?case by (simp add: reserve_sector_def alloc_full ext_refl)
next
  case (Suc l)
  have v0: "sector_valid (bc s) 0" "0 \<notin> own s" using inv_0 [OF Suc.prems(1)] by auto
  let ?s1 = "cwrite 0 zeros s"
  have e1: "ext {0} s ?s1" by (rule ext_cwrite [OF Suc.prems(1) v0 length_zeros])
  have f1: "full ?s1" using Suc.prems(2) by (simp add: cwrite_def full_bc)
  have v1: "cache_view (bc ?s1) 0 = zeros" using cwrite_view [OF Suc.prems(1) v0(1) length_zeros v0(1)] by simp
  have "sector_valid (bc ?s1) 0" using v0 extD(5) [OF e1] by simp
  from ext_cread [OF extD(1) [OF e1] this] obtain s2 where
    s2: "cread 0 ?s1 = (zeros, s2)" "ext {} ?s1 s2" "full s2" "used s2 = used s" using f1 v1 by auto
  let ?unit = "if l = 0 then 1 else (128::nat)"
  have "0 < min n ?unit" using Suc.prems(3) by simp
  from Suc.IH [OF extD(1) [OF s2(2)] s2(3) this] obtain s3 where
    s3: "inode_reserve_indirect alloc l 0 (min n ?unit) s2 = Some (False, 0, s3)" "ext {0} s2 s3" "full s3"
    "used s3 = used s" unfolding s2(4) by blast
  have "0 < DIV_ROUND_UP n ?unit" using Suc.prems(3) by (subst less_DIV_ROUND_UP_iff) simp_all
  then obtain m where m: "DIV_ROUND_UP n ?unit = Suc m" by (cases "DIV_ROUND_UP n ?unit") auto
  have z: "indirect_of zeros ! 0 = 0" using nth_indirect_zeros [of 0] by simp
  have loop: "reserve_loop (inode_reserve_indirect alloc l) ?unit (DIV_ROUND_UP n ?unit) 0 n (indirect_of zeros) s2 =
      Some (False, (indirect_of zeros)[0 := 0], s3)"
    unfolding m using s3(1) by (simp add: z)
  have "inode_reserve_indirect alloc (Suc l) 0 n s = Some (False, 0, s3)"
    unfolding inode_reserve_indirect.simps Let_def alloc_full [OF Suc.prems(1,2)]
    by (simp only: simp_thms if_True if_False Option.bind.simps option.case case_prod_conv s2(1) loop)
  moreover have "ext {0} s s3"
    by (rule ext_trans [OF ext_trans [OF e1 s2(2)] s3(2)]) auto
  ultimately show ?case using s3(3,4) by blast
qed

text \<open>The part of \<open>inode_reserve_indirect\<close> below an indirect block that is there.\<close>

lemma reserve_below:
  assumes f: "entry_spec (inode_reserve_indirect alloc l) l (\<lambda>n. n + c)" and l: "l \<le> 1"
    and inv: "inv s" and e: "e \<noteq> 0" and ok: "tree_ok (cache_view (bc s)) (Suc l) e"
    and tk: "taken s (nodes (cache_view (bc s)) (Suc l) e)" and n: "0 < n" "n \<le> 128 ^ Suc l"
  shows "\<exists>ok s'. inode_reserve_indirect alloc (Suc l) e n s = Some (ok, e, s') \<and>
    ext (inner (cache_view (bc s)) (Suc l) e \<union> (if ok then {} else {0})) s s' \<and>
    (ok \<longrightarrow> grown s s' (Suc l) [e] [e] 0 n) \<and> spends ok s s' (n + DIV_ROUND_UP n (128 ^ l) * c)"
proof -
  let ?v = "cache_view (bc s)"
  let ?ws = "indirect_of (?v e)"
  let ?U = "(128::nat) ^ l"
  have unit: "(if l = 0 then 1 else 128) = ?U" using l by (cases l) auto
  have fo: "forest_ok ?v l ?ws" "e \<notin> forest ?v l ?ws" using ok e by (simp_all add: tree_ok_Suc)
  have tkf: "taken s (forest ?v l ?ws)" "taken s {e}" using tk e by (simp_all add: nodes_Suc taken_def)
  have ve: "sector_valid (bc s) e" "e \<in> used s" "e \<notin> own s" using tkf(2) by (auto simp: taken_def)
  obtain t where t: "cread e s = (?v e, t)" "ext {} s t" "used t = used s"
    "\<And>j. sector_valid (bc s) j \<Longrightarrow> cache_view (bc t) j = ?v j"
    using ext_cread [OF inv ve(1)] by blast
  have same: "k \<in> forest_inner ?v l ?ws \<Longrightarrow> cache_view (bc t) k = ?v k" for k
    using tkf(1) forest_inner_subset [of ?v l ?ws] by (intro t(4)) (auto simp: taken_def)
  note C = forest_cong [of ?v l ?ws "cache_view (bc t)", OF same]
  have "\<not> 128 < DIV_ROUND_UP n ?U"
    using n(2) by (subst less_DIV_ROUND_UP_iff) simp_all
  then have "0 + DIV_ROUND_UP n ?U \<le> length ?ws" by simp
  from reserve_loop_spec [OF f extD(1) [OF t(2)] _ _ this refl] fo(1) taken_ext [OF tkf(1) t(2)] C(1,3)
  obtain ok' ws' u where u: "reserve_loop (inode_reserve_indirect alloc l) ?U (DIV_ROUND_UP n ?U) 0 n ?ws t = Some (ok', ws', u)"
    "ext (forest_inner (cache_view (bc t)) l ?ws \<union> (if ok' then {} else {0})) t u"
    "ok' \<Longrightarrow> grown t u l ?ws ws' (0 * ?U) (0 * ?U + n)" "spends ok' t u (n + DIV_ROUND_UP n ?U * c)" by auto
  have run: "inode_reserve_indirect alloc (Suc l) e n s =
      Some (if ok' then (True, e, cwrite e (encode_indirect ws') u) else (False, e, u))"
    unfolding inode_reserve_indirect.simps Let_def unit
    using e by (simp only: if_False Option.bind.simps case_prod_conv t(1) u(1))
  have inner_e: "inner ?v (Suc l) e = insert e (forest_inner ?v l ?ws)" using e by (simp add: inner_Suc)
  have su: "ext (forest_inner ?v l ?ws \<union> (if ok' then {} else {0})) s u"
    using C(2) by (intro ext_trans [OF t(2) u(2)]) auto
  have cost: "spends ok' s u (n + DIV_ROUND_UP n ?U * c)"
    using spends_same [OF t(3), of 0] by (rule spends_trans [OF _ u(4)]) simp
  show ?thesis
  proof (cases ok')
    case False
    then show ?thesis using run su cost by (intro exI [of _ False]) (auto simp: inner_e elim!: ext_mono)
  next
    case True
    note G = grownD [OF u(3) [OF True], simplified]
    have su': "ext (forest_inner ?v l ?ws) s u" using su True by simp
    have len: "length ws' = 128" using G(1) by simp
    let ?x = "cwrite e (encode_indirect ws') u"
    have le: "length (encode_indirect ws') = BLOCK_SECTOR_SIZE" using len by simp
    have vu: "sector_valid (bc u) e" "e \<notin> own u" using ve extD(2,5) [OF su'] by simp_all
    have ux: "ext {e} u ?x" by (rule ext_cwrite [OF extD(1) [OF su'] vu le])
    have sx: "ext (inner ?v (Suc l) e) s ?x"
      by (rule ext_trans [OF su' ux]) (auto simp: inner_e)
    have vx: "cache_view (bc ?x) k = (if k = e then encode_indirect ws' else cache_view (bc u) k)"
      if "sector_valid (bc u) k" for k
      using cwrite_view [OF extD(1) [OF su'] vu(1) le that] .
    have iu: "indirect_of (cache_view (bc ?x) e) = ws'" using vx [OF vu(1)] len by (simp add: indirect_of_encode)
    have notin: "e \<notin> forest (cache_view (bc u)) l ws'" using G(5) C(1) fo(2) ve(2) t(3) by auto
    have same2: "k \<in> forest (cache_view (bc u)) l ws' \<Longrightarrow> cache_view (bc ?x) k = cache_view (bc u) k" for k
      using notin vx [of k] G(3) by (auto simp: taken_def)
    note D = forest_cong [of "cache_view (bc u)" l ws' "cache_view (bc ?x)",
        OF same2 [OF subsetD [OF forest_inner_subset]]]
    have m128: "m < 128 ^ Suc l \<Longrightarrow> m < length ?ws * ?U \<and> m < length ws' * ?U" for m by (simp add: len)
    have lv: "leaf (cache_view (bc ?x)) (Suc l) e m = forest_leaf (cache_view (bc u)) l ws' m"
      "leaf ?v (Suc l) e m = forest_leaf (cache_view (bc t)) l ?ws m" if "m < 128 ^ Suc l" for m
      using e iu D(4) C(4) m128 [OF that] by (simp_all add: leaf_Suc)
    have z: "cache_view (bc ?x) (leaf (cache_view (bc ?x)) (Suc l) e m) = zeros"
      if m: "m < 128 ^ Suc l" "leaf ?v (Suc l) e m = 0" "leaf (cache_view (bc ?x)) (Suc l) e m \<noteq> 0" for m
      using G(9) [of m] m lv m128 [OF m(1)] same2 [OF forest_leaf_in_forest [of m ws' l]] by simp
    have nx: "nodes (cache_view (bc ?x)) (Suc l) e = insert e (forest (cache_view (bc u)) l ws')"
      "inner (cache_view (bc ?x)) (Suc l) e = insert e (forest_inner (cache_view (bc u)) l ws')"
      "nodes ?v (Suc l) e = insert e (forest ?v l ?ws)"
      using e iu D(1,2) by (simp_all add: nodes_Suc inner_Suc)
    have "tree_ok (cache_view (bc ?x)) (Suc l) e"
      using iu D(1,3) G(2) notin by (simp add: tree_ok_Suc)
    moreover have "taken ?x (nodes (cache_view (bc ?x)) (Suc l) e)"
      using taken_ext [OF G(3) ux] taken_ext [OF tkf(2) sx] unfolding nx by (auto simp: taken_def)
    moreover have "\<forall>m < n. leaf (cache_view (bc ?x)) (Suc l) e m \<noteq> 0"
      using G(7) lv(1) n(2) by simp
    moreover have "\<forall>m < 128 ^ Suc l. leaf ?v (Suc l) e m \<noteq> 0 \<longrightarrow>
        leaf (cache_view (bc ?x)) (Suc l) e m = leaf ?v (Suc l) e m"
      using G(8) lv m128 by simp
    ultimately have "grown s ?x (Suc l) [e] [e] 0 n"
      unfolding grown_def Let_def forest_single
      using nx G(4-6) C(1,2) t(3) z n(2) inner_e by auto
    moreover have "spends True s ?x (n + DIV_ROUND_UP n ?U * c)" using cost True by (simp add: spends_def)
    ultimately show ?thesis using run sx True by (intro exI [of _ True]) simp
  qed
qed

lemma reserve_indirect_spec:
  assumes f: "entry_spec (inode_reserve_indirect alloc l) l (\<lambda>n. n + c)" and l: "l \<le> 1"
  shows "entry_spec (inode_reserve_indirect alloc (Suc l)) (Suc l) (\<lambda>n. n + Suc (DIV_ROUND_UP n (128 ^ l) * c))"
  unfolding entry_spec_def
proof (intro allI impI)
  fix s :: fs and e and n :: nat
  let ?v = "cache_view (bc s)"
  assume a: "inv s \<and> tree_ok ?v (Suc l) e \<and> taken s (nodes ?v (Suc l) e) \<and> 0 < n \<and> n \<le> 128 ^ Suc l"
  consider "e \<noteq> 0" | "e = 0" "full s" | "e = 0" "\<not> full s" by blast
  then show "\<exists>ok e' s'. inode_reserve_indirect alloc (Suc l) e n s = Some (ok, e', s') \<and>
      ext (inner ?v (Suc l) e \<union> (if ok then {} else {0})) s s' \<and> (ok \<longrightarrow> grown s s' (Suc l) [e] [e'] 0 n) \<and>
      spends ok s s' (n + Suc (DIV_ROUND_UP n (128 ^ l) * c))"
  proof cases
    case 1
    from reserve_below [OF f l _ 1] a obtain ok t where t: "inode_reserve_indirect alloc (Suc l) e n s = Some (ok, e, t)"
      "ext (inner ?v (Suc l) e \<union> (if ok then {} else {0})) s t" "ok \<longrightarrow> grown s t (Suc l) [e] [e] 0 n"
      "spends ok s t (n + DIV_ROUND_UP n (128 ^ l) * c)" by blast
    then show ?thesis using spends_mono [OF t(4), of "n + Suc (DIV_ROUND_UP n (128 ^ l) * c)"] by auto
  next
    case 2
    with reserve_full [of s n "Suc l"] a obtain s' where
      "inode_reserve_indirect alloc (Suc l) 0 n s = Some (False, 0, s')" "ext {0} s s'" "full s'" "used s' = used s" by blast
    with 2 show ?thesis by (intro exI [of _ False]) (simp add: spends_full)
  next
    case 3
    obtain k s0 t where k: "alloc s = Some (Some k, s0)" "t = cwrite k zeros s0" "ext {} s t"
      "taken t {k}" "k \<noteq> 0" "k \<notin> used s" "cache_view (bc t) k = zeros" "used t = insert k (used s)"
      using alloc_zeros a 3(2) by blast
    let ?t = "cache_view (bc t)"
    have z: "w \<in> set (indirect_of zeros) \<Longrightarrow> w = 0" for w
      by (auto simp: in_set_conv_nth nth_indirect_zeros)
    have fz: "forest ?t l (indirect_of zeros) = {}" "forest_inner ?t l (indirect_of zeros) = {}"
      "forest_ok ?t l (indirect_of zeros)"
      by (auto dest!: z simp: forest_def forest_inner_def forest_ok_def forest_disjoint_def nth_indirect_zeros)
    have tk: "tree_ok ?t (Suc l) k" "nodes ?t (Suc l) k = {k}" "inner ?t (Suc l) k = {k}"
      using k(5,7) fz by (simp_all add: tree_ok_Suc nodes_Suc inner_Suc)
    have lf: "leaf ?t (Suc l) k m = 0" if "m < 128 ^ Suc l" for m
    proof -
      have "m div 128 ^ l < 128" using that by (simp add: less_mult_imp_div_less)
      then show ?thesis using k(5,7) by (simp add: leaf_Suc forest_leaf_def nth_indirect_zeros)
    qed
    have "taken t (nodes ?t (Suc l) k)" using tk(2) k(4) by simp
    from reserve_below [OF f l extD(1) [OF k(3)] k(5) tk(1) this] a obtain ok u where
      u: "inode_reserve_indirect alloc (Suc l) k n t = Some (ok, k, u)"
      "ext (inner ?t (Suc l) k \<union> (if ok then {} else {0})) t u"
      "ok \<Longrightarrow> grown t u (Suc l) [k] [k] 0 n" "spends ok t u (n + DIV_ROUND_UP n (128 ^ l) * c)" by blast
    have "spends ok s u (n + Suc (DIV_ROUND_UP n (128 ^ l) * c))"
      using spends_one [OF k(8), of 1] by (rule spends_trans [OF _ u(4)]) simp_all
    note cost = this
    have run: "inode_reserve_indirect alloc (Suc l) e n s = Some (ok, k, u)"
      using u(1) 3(1) k(1,2,5) unfolding inode_reserve_indirect.simps by simp
    have su: "ext (inner ?v (Suc l) e \<union> (if ok then {} else {0})) s u"
      using k(6) tk(3) by (intro ext_trans [OF k(3) u(2)]) auto
    moreover have "grown s u (Suc l) [e] [k] 0 n" if ok
    proof -
      note G = grownD [OF u(3) [OF that]]
      have "- used t \<subseteq> - used s" using extD(3) [OF k(3)] by blast
      then show ?thesis
        using 3(1) G(1-3,7) G(5,6,9) [unfolded forest_single tk] lf k(6) a
        unfolding grown_def Let_def forest_single by auto
    qed
    ultimately show ?thesis using run cost by blast
  qed
qed

section \<open>Growth of a whole file\<close>

definition disk_grown :: "fs \<Rightarrow> fs \<Rightarrow> inode_disk \<Rightarrow> inode_disk \<Rightarrow> nat \<Rightarrow> nat \<Rightarrow> bool" where
  "disk_grown s s' d d' a b \<longleftrightarrow>
     (let v = cache_view (bc s); v' = cache_view (bc s')
      in disk_ok v' d' \<and> taken s' (disk_nodes v' d') \<and>
         disk_nodes v d \<subseteq> disk_nodes v' d' \<and> disk_nodes v' d' \<subseteq> disk_nodes v d \<union> - used s \<and>
         disk_inner v' d' \<subseteq> disk_inner v d \<union> - used s \<and>
         (\<forall>i. a \<le> i \<longrightarrow> i < b \<longrightarrow> disk_leaf v' d' i \<noteq> 0) \<and>
         (\<forall>i < MAX_BLOCKS. disk_leaf v d i \<noteq> 0 \<longrightarrow> disk_leaf v' d' i = disk_leaf v d i) \<and>
         (\<forall>i < MAX_BLOCKS. disk_leaf v d i = 0 \<longrightarrow> disk_leaf v' d' i \<noteq> 0 \<longrightarrow>
            v' (disk_leaf v' d' i) = zeros) \<and>
         dlength d' = dlength d \<and> is_dir d' = is_dir d \<and> magic d' = magic d)"

lemma disk_grownD:
  assumes "disk_grown s s' d d' a b"
  shows "disk_ok (cache_view (bc s')) d'" and "taken s' (disk_nodes (cache_view (bc s')) d')"
    and "disk_nodes (cache_view (bc s)) d \<subseteq> disk_nodes (cache_view (bc s')) d'"
    and "disk_nodes (cache_view (bc s')) d' \<subseteq> disk_nodes (cache_view (bc s)) d \<union> - used s"
    and "disk_inner (cache_view (bc s')) d' \<subseteq> disk_inner (cache_view (bc s)) d \<union> - used s"
    and "a \<le> i \<Longrightarrow> i < b \<Longrightarrow> disk_leaf (cache_view (bc s')) d' i \<noteq> 0"
    and "i < MAX_BLOCKS \<Longrightarrow> disk_leaf (cache_view (bc s)) d i \<noteq> 0 \<Longrightarrow>
           disk_leaf (cache_view (bc s')) d' i = disk_leaf (cache_view (bc s)) d i"
    and "i < MAX_BLOCKS \<Longrightarrow> disk_leaf (cache_view (bc s)) d i = 0 \<Longrightarrow>
           disk_leaf (cache_view (bc s')) d' i \<noteq> 0 \<Longrightarrow>
           cache_view (bc s') (disk_leaf (cache_view (bc s')) d' i) = zeros"
    and "dlength d' = dlength d" and "is_dir d' = is_dir d" and "magic d' = magic d"
  using assms by (simp_all add: disk_grown_def Let_def)

lemma disk_grown_trans:
  assumes g: "disk_grown s t d d1 a b" and h: "disk_grown t u d1 d2 b c"
    and e: "ext S s t" and f: "ext (disk_inner (cache_view (bc t)) d1) t u" and b: "b \<le> MAX_BLOCKS"
  shows "disk_grown s u d d2 a c"
proof -
  note G = disk_grownD [OF g] and H = disk_grownD [OF h]
  have used: "used s \<subseteq> used t" using extD(3) [OF e] .
  have z: "cache_view (bc u) (disk_leaf (cache_view (bc u)) d2 i) = zeros"
    if i: "i < MAX_BLOCKS" "disk_leaf (cache_view (bc s)) d i = 0" "disk_leaf (cache_view (bc u)) d2 i \<noteq> 0" for i
  proof (cases "disk_leaf (cache_view (bc t)) d1 i = 0")
    case True
    with H(8) i show ?thesis by simp
  next
    case False
    from ext_view [OF f G(2) disk_leaf_facts [OF G(1) i(1) False]]
    show ?thesis using G(8) [OF i(1,2) False] H(7) [OF i(1) False] by simp
  qed
  have old: "disk_leaf (cache_view (bc u)) d2 i = disk_leaf (cache_view (bc s)) d i"
    if "i < MAX_BLOCKS" "disk_leaf (cache_view (bc s)) d i \<noteq> 0" for i
    using G(7) [OF that] H(7) [of i] that by simp
  have there: "disk_leaf (cache_view (bc u)) d2 i \<noteq> 0" if "a \<le> i" "i < c" for i
  proof (cases "i < b")
    case True
    then show ?thesis using G(6) [OF that(1) True] H(7) [of i] b by simp
  next
    case False
    then show ?thesis using H(6) that by simp
  qed
  have sub: "disk_nodes (cache_view (bc s)) d \<subseteq> disk_nodes (cache_view (bc u)) d2"
    "disk_nodes (cache_view (bc u)) d2 \<subseteq> disk_nodes (cache_view (bc s)) d \<union> - used s"
    "disk_inner (cache_view (bc u)) d2 \<subseteq> disk_inner (cache_view (bc s)) d \<union> - used s"
    using G(3-5) H(3-5) used by blast+
  show ?thesis
    unfolding disk_grown_def Let_def
    using sub H(1,2,9-11) G(9-11) there old z by simp
qed

text \<open>One of the three parts grows.\<close>

lemma disk_grown_part:
  assumes ok: "disk_ok (cache_view (bc s)) d" and tk: "taken s (disk_nodes (cache_view (bc s)) d)"
    and k: "k < 3" and e: "ext (forest_inner (cache_view (bc s)) k (part d k)) s t"
    and g: "grown s t k (part d k) (part d' k) 0 n" and n: "n \<le> length (part d k) * 128 ^ k"
    and same: "\<And>j. j < 3 \<Longrightarrow> j \<noteq> k \<Longrightarrow> part d' j = part d j"
    and attrs: "dlength d' = dlength d" "is_dir d' = is_dir d" "magic d' = magic d"
  shows "disk_grown s t d d' (part_start k) (part_start k + n)"
proof -
  let ?v = "cache_view (bc s)" and ?t = "cache_view (bc t)"
  note G = grownD [OF g]
  have len: "length (direct_blocks d) = 123" using ok by (simp add: disk_ok_def)
  have len': "length (part d' j) = length (part d j)" if "j < 3" for j
    using G(1) same that by (cases "j = k") simp_all
  have dlen: "length (direct_blocks d') = 123" using len' [of 0] len by (simp add: part_def)
  have other: "forest ?t j (part d' j) = forest ?v j (part d j) \<and>
      forest_inner ?t j (part d' j) = forest_inner ?v j (part d j) \<and> forest_ok ?t j (part d' j) \<and>
      (\<forall>m < length (part d j) * 128 ^ j. forest_leaf ?t j (part d' j) m = forest_leaf ?v j (part d j) m)"
    if j: "j < 3" "j \<noteq> k" for j
  proof -
    have "forest ?v k (part d k) \<inter> forest ?v j (part d j) = {}" using ok j k by (simp add: disk_ok_def)
    then have "x \<in> forest_inner ?v j (part d j) \<Longrightarrow> ?t x = ?v x" for x
      using j(1) forest_inner_subset [of ?v j "part d j"] forest_inner_subset [of ?v k "part d k"]
      by (intro ext_view [OF e tk]) (auto simp: disk_nodes_def)
    from forest_cong [OF this] ok j same show ?thesis by (simp add: disk_ok_def)
  qed
  have used: "forest ?v j (part d j) \<subseteq> used s" if "j < 3" for j
    using tk that by (auto simp: taken_def disk_nodes_def)
  have F: "forest ?t j (part d' j) \<subseteq> forest ?v j (part d j) \<union> - used s"
    "forest ?v j (part d j) \<subseteq> forest ?t j (part d' j)"
    "forest_inner ?t j (part d' j) \<subseteq> forest_inner ?v j (part d j) \<union> - used s"
    "forest_ok ?t j (part d' j)" "taken t (forest ?t j (part d' j))" if "j < 3" for j
  proof -
    have "taken t (forest ?v j (part d j))"
      using taken_ext [OF tk e] that by (auto simp: taken_def disk_nodes_def)
    then show "forest ?t j (part d' j) \<subseteq> forest ?v j (part d j) \<union> - used s"
      "forest ?v j (part d j) \<subseteq> forest ?t j (part d' j)"
      "forest_inner ?t j (part d' j) \<subseteq> forest_inner ?v j (part d j) \<union> - used s"
      "forest_ok ?t j (part d' j)" "taken t (forest ?t j (part d' j))"
      using G(2-6) other [OF that] by (cases "j = k"; simp)+
  qed
  have disj: "forest ?t i (part d' i) \<inter> forest ?t j (part d' j) = {}" if ij: "i < 3" "j < 3" "i \<noteq> j" for i j
  proof -
    have "forest ?v i (part d i) \<inter> forest ?v j (part d j) = {}" using ok ij by (simp add: disk_ok_def)
    note V = this
    show ?thesis
    proof (cases "i = k")
      case True
      then have "forest ?t j (part d' j) = forest ?v j (part d j)" using other [OF ij(2)] ij(3) by simp
      with V F(1) [OF ij(1)] used [OF ij(2)] show ?thesis by blast
    next
      case False
      then have "forest ?t i (part d' i) = forest ?v i (part d i)" using other [OF ij(1)] by simp
      with V F(1) [OF ij(2)] used [OF ij(1)] show ?thesis by blast
    qed
  qed
  have dok: "disk_ok ?t d'" using dlen F(4) disj by (simp add: disk_ok_def)
  have dtk: "taken t (disk_nodes ?t d')" using F(5) by (auto simp: disk_nodes_def taken_def)
  have sub: "disk_nodes ?v d \<subseteq> disk_nodes ?t d'" "disk_nodes ?t d' \<subseteq> disk_nodes ?v d \<union> - used s"
    "disk_inner ?t d' \<subseteq> disk_inner ?v d \<union> - used s"
  proof -
    have j: "forest ?v j (part d j) \<subseteq> disk_nodes ?t d'" "forest ?t j (part d' j) \<subseteq> disk_nodes ?v d \<union> - used s"
      "forest_inner ?t j (part d' j) \<subseteq> disk_inner ?v d \<union> - used s" if "j < 3" for j
      using F(1-3) [OF that] that by (auto simp: disk_nodes_def disk_inner_def)
    show "disk_nodes ?v d \<subseteq> disk_nodes ?t d'" unfolding disk_nodes_def [of ?v] using j(1) by (intro UN_least) simp
    show "disk_nodes ?t d' \<subseteq> disk_nodes ?v d \<union> - used s"
      unfolding disk_nodes_def [of ?t] using j(2) by (intro UN_least) simp
    show "disk_inner ?t d' \<subseteq> disk_inner ?v d \<union> - used s"
      unfolding disk_inner_def [of ?t] using j(3) by (intro UN_least) simp
  qed
  have lf: "disk_leaf ?t d' i = (if part_of i = k then forest_leaf ?t k (part d' k) (i - part_start k)
      else disk_leaf ?v d i)" if "i < MAX_BLOCKS" for i
    using other [of "part_of i"] part_of_bounds [OF that len] by (simp add: disk_leaf_def Let_def)
  have lv: "disk_leaf ?v d i = forest_leaf ?v k (part d k) (i - part_start k)" if "part_of i = k" for i
    using that by (simp add: disk_leaf_def)
  have max: "part_start k + n \<le> MAX_BLOCKS"
    using k n len by (auto simp: part_start_def part_def MAX_BLOCKS_def numeral_3_eq_3 less_Suc_eq)
  have there: "disk_leaf ?t d' i \<noteq> 0" if i: "part_start k \<le> i" "i < part_start k + n" for i
  proof -
    obtain m where m: "i = part_start k + m" "m < n" using i by (metis le_Suc_ex nat_add_left_cancel_less)
    then have "part_of i = k" using part_of_start [OF k len, of m] n by simp
    then show ?thesis using lf [of i] G(7) [of m] m i max by simp
  qed
  have old: "disk_leaf ?t d' i = disk_leaf ?v d i" if "i < MAX_BLOCKS" "disk_leaf ?v d i \<noteq> 0" for i
    using lf [OF that(1)] lv [of i] G(8) [of "i - part_start k"] part_of_bounds(3) [OF that(1) len] that(2)
    by (cases "part_of i = k") simp_all
  have z: "?t (disk_leaf ?t d' i) = zeros"
    if "i < MAX_BLOCKS" "disk_leaf ?v d i = 0" "disk_leaf ?t d' i \<noteq> 0" for i
    using lf [OF that(1)] lv [of i] G(9) [of "i - part_start k"] part_of_bounds(3) [OF that(1) len] that(2,3)
    by (cases "part_of i = k") simp_all
  show ?thesis
    unfolding disk_grown_def Let_def using dok dtk sub there old z attrs by simp
qed

lemma forest_inner_disk: "k < 3 \<Longrightarrow> forest_inner v k (part d k) \<subseteq> disk_inner v d"
  by (auto simp: disk_inner_def)

lemma forest_disk: "k < 3 \<Longrightarrow> forest v k (part d k) \<subseteq> disk_nodes v d"
  by (auto simp: disk_nodes_def)

lemma reserve_direct:
  assumes inv: "inv s" and ok: "disk_ok (cache_view (bc s)) d" and tk: "taken s (disk_nodes (cache_view (bc s)) d)"
    and n: "n \<le> 123"
  shows "\<exists>ok ws s'. reserve_loop (\<lambda>e _. reserve_sector alloc e) 1 n 0 n (direct_blocks d) s = Some (ok, ws, s') \<and>
    ext (if ok then {} else {0}) s s' \<and> (ok \<longrightarrow> disk_grown s s' d (d\<lparr>direct_blocks := ws\<rparr>) 0 n) \<and> spends ok s s' n"
proof -
  let ?v = "cache_view (bc s)"
  have len: "length (direct_blocks d) = 123" and fo: "forest_ok ?v 0 (direct_blocks d)"
    using ok by (auto simp: disk_ok_def part_def dest!: spec [of _ 0])
  have tkf: "taken s (forest ?v 0 (direct_blocks d))"
    using tk by (rule taken_subset) (use forest_disk [of 0 ?v d] in \<open>simp add: part_def\<close>)
  have inner: "forest_inner ?v 0 ws = {}" for ws by (simp add: forest_inner_def)
  have "0 + n \<le> length (direct_blocks d)" "n = DIV_ROUND_UP n (128 ^ 0)" using n len by simp_all
  from reserve_loop_spec [OF reserve_sector_spec inv fo tkf this] obtain b ws t where
    t: "reserve_loop (\<lambda>e _. reserve_sector alloc e) (128 ^ 0) n 0 n (direct_blocks d) s = Some (b, ws, t)"
    "ext (if b then {} else {0}) s t" "b \<Longrightarrow> grown s t 0 (direct_blocks d) ws (0 * 128 ^ 0) (0 * 128 ^ 0 + n)" "spends b s t n"
    unfolding inner by auto
  have "disk_grown s t d (d\<lparr>direct_blocks := ws\<rparr>) 0 n" if b
    using disk_grown_part [OF ok tk, of 0 t "d\<lparr>direct_blocks := ws\<rparr>" n] t(2,3) that n len inner
    by (simp add: part_def part_start_def)
  with t show ?thesis by (intro exI [of _ b]) simp
qed

lemma reserve_part:
  assumes inv: "inv s" and ok: "disk_ok (cache_view (bc s)) d" and tk: "taken s (disk_nodes (cache_view (bc s)) d)"
    and f: "entry_spec f k c" and k: "0 < k" "k < 3" and n: "0 < n" "n \<le> 128 ^ k"
    and d': "\<And>w. part (d' w) k = [w]" "\<And>w j. j < 3 \<Longrightarrow> j \<noteq> k \<Longrightarrow> part (d' w) j = part d j"
      "\<And>w. dlength (d' w) = dlength d \<and> is_dir (d' w) = is_dir d \<and> magic (d' w) = magic d"
    and e: "part d k = [e]"
  shows "\<exists>ok w s'. f e n s = Some (ok, w, s') \<and>
    ext (disk_inner (cache_view (bc s)) d \<union> (if ok then {} else {0})) s s' \<and>
    (ok \<longrightarrow> disk_grown s s' d (d' w) (part_start k) (part_start k + n)) \<and> spends ok s s' (c n)"
proof -
  let ?v = "cache_view (bc s)"
  have "forest_ok ?v k (part d k)" using ok k(2) by (simp add: disk_ok_def)
  then have t: "tree_ok ?v k e" by (simp add: e)
  have "taken s (forest ?v k (part d k))"
    using tk by (rule taken_subset) (rule forest_disk [OF k(2)])
  then have "taken s (nodes ?v k e)" by (simp add: e)
  with f inv t n obtain b w s' where s': "f e n s = Some (b, w, s')"
    "ext (inner ?v k e \<union> (if b then {} else {0})) s s'" "b \<Longrightarrow> grown s s' k [e] [w] 0 n" "spends b s s' (c n)"
    unfolding entry_spec_def by blast
  have "inner ?v k e \<subseteq> disk_inner ?v d" using forest_inner_disk [OF k(2), of ?v d] by (simp add: e)
  then have "ext (disk_inner ?v d \<union> (if b then {} else {0})) s s'" by (intro ext_mono [OF s'(2)]) auto
  moreover have "disk_grown s s' d (d' w) (part_start k) (part_start k + n)" if b
    using s' that d' n by (intro disk_grown_part [OF ok tk k(2)]) (simp_all add: e)
  ultimately show ?thesis using s'(1,4) by blast
qed

lemma reserve_indirect_12_spec:
  "entry_spec (inode_reserve_indirect alloc 1) 1 Suc" "entry_spec (inode_reserve_indirect alloc 2) 2 doubly_cost"
proof -
  have "entry_spec (inode_reserve_indirect alloc (Suc 0)) (Suc 0) (\<lambda>n. n + Suc (DIV_ROUND_UP n (128 ^ 0) * 0))"
    by (rule reserve_indirect_spec [OF reserve_indirect_0_spec]) simp
  then have 1: "entry_spec (inode_reserve_indirect alloc (Suc 0)) (Suc 0) (\<lambda>n. n + 1)" by simp
  moreover have "(\<lambda>n. n + 1) = Suc" by auto
  ultimately show "entry_spec (inode_reserve_indirect alloc 1) 1 Suc" by (simp only: One_nat_def)
  have "entry_spec (inode_reserve_indirect alloc (Suc (Suc 0))) (Suc (Suc 0)) (\<lambda>n. n + Suc (DIV_ROUND_UP n (128 ^ Suc 0) * 1))"
    by (rule reserve_indirect_spec [OF 1]) simp
  moreover have "doubly_cost = (\<lambda>n. n + Suc (DIV_ROUND_UP n (128 ^ Suc 0) * 1))" by (auto simp: doubly_cost_def)
  ultimately show "entry_spec (inode_reserve_indirect alloc 2) 2 doubly_cost" unfolding numeral_2_eq_2 by simp
qed

lemma reserve_doubly_spec:
  assumes inv: "inv s" and ok: "disk_ok (cache_view (bc s)) d" and tk: "taken s (disk_nodes (cache_view (bc s)) d)"
    and n: "0 < n" "n \<le> 128 * 128"
  shows "\<exists>ok d' s'. reserve_doubly alloc d n s = Some (ok, d', s') \<and>
    ext (disk_inner (cache_view (bc s)) d \<union> (if ok then {} else {0})) s s' \<and>
    (ok \<longrightarrow> disk_grown s s' d d' 251 (251 + n)) \<and> spends ok s s' (doubly_cost n)"
proof -
  have "\<exists>ok w s'. inode_reserve_indirect alloc 2 (doubly_indirect_block d) n s = Some (ok, w, s') \<and>
    ext (disk_inner (cache_view (bc s)) d \<union> (if ok then {} else {0})) s s' \<and>
    (ok \<longrightarrow> disk_grown s s' d (d\<lparr>doubly_indirect_block := w\<rparr>) (part_start 2) (part_start 2 + n)) \<and> spends ok s s' (doubly_cost n)"
    by (rule reserve_part [OF inv ok tk reserve_indirect_12_spec(2)])
      (use n in \<open>simp_all add: part_def\<close>)
  then obtain b w t where t: "inode_reserve_indirect alloc 2 (doubly_indirect_block d) n s = Some (b, w, t)"
    "ext (disk_inner (cache_view (bc s)) d \<union> (if b then {} else {0})) s t"
    "b \<Longrightarrow> disk_grown s t d (d\<lparr>doubly_indirect_block := w\<rparr>) 251 (251 + n)" "spends b s t (doubly_cost n)"
    by (auto simp: part_start_def)
  have m: "min n (128 * 128) = n" using n by simp
  have "reserve_doubly alloc d n s = Some (b, d\<lparr>doubly_indirect_block := w\<rparr>, t)"
    unfolding reserve_doubly_def Let_def m t(1) Option.bind.simps case_prod_conv by simp
  with t(2-4) show ?thesis by blast
qed

lemma reserve_single_spec:
  assumes inv: "inv s" and ok: "disk_ok (cache_view (bc s)) d" and tk: "taken s (disk_nodes (cache_view (bc s)) d)"
    and n: "0 < n" "n \<le> 128 + 128 * 128"
  shows "\<exists>ok d' s'. reserve_single alloc d n s = Some (ok, d', s') \<and>
    ext (disk_inner (cache_view (bc s)) d \<union> (if ok then {} else {0})) s s' \<and>
    (ok \<longrightarrow> disk_grown s s' d d' 123 (123 + n)) \<and> spends ok s s' (single_cost n)"
proof -
  let ?v = "cache_view (bc s)" and ?l = "min n 128"
  have "\<exists>ok w s'. inode_reserve_indirect alloc 1 (indirect_block d) ?l s = Some (ok, w, s') \<and>
    ext (disk_inner ?v d \<union> (if ok then {} else {0})) s s' \<and>
    (ok \<longrightarrow> disk_grown s s' d (d\<lparr>indirect_block := w\<rparr>) (part_start 1) (part_start 1 + ?l)) \<and> spends ok s s' (Suc ?l)"
    by (rule reserve_part [OF inv ok tk reserve_indirect_12_spec(1)])
      (use n in \<open>simp_all add: part_def\<close>)
  then obtain b w t where t: "inode_reserve_indirect alloc 1 (indirect_block d) ?l s = Some (b, w, t)"
    "ext (disk_inner ?v d \<union> (if b then {} else {0})) s t"
    "b \<Longrightarrow> disk_grown s t d (d\<lparr>indirect_block := w\<rparr>) 123 (123 + ?l)" "spends b s t (Suc ?l)"
    by (auto simp: part_start_def)
  note run = reserve_single_def [of alloc d n s] Let_def t(1) Option.bind.simps case_prod_conv
  consider "\<not> b" | b "n \<le> 128" | b "128 < n" by linarith
  then show ?thesis
  proof cases
    case 1
    moreover have "Suc ?l \<le> single_cost n" by (auto simp: single_cost_def)
    ultimately show ?thesis unfolding run using t(2) spends_mono [OF t(4)] by (intro exI [of _ False]) simp
  next
    case 2
    then have "min n 128 = n" "single_cost n = Suc n" by (simp_all add: single_cost_def)
    with 2 t show ?thesis unfolding run by (intro exI [of _ True]) simp
  next
    case 3
    let ?d = "d\<lparr>indirect_block := w\<rparr>"
    have l: "?l = 128" "0 < n - 128" "n - 128 \<le> 128 * 128" using 3 n by simp_all
    have e: "ext (disk_inner ?v d) s t" using t(2) 3 by simp
    note g = t(3) [OF 3(1), unfolded l(1)]
    note G = disk_grownD [OF g]
    from reserve_doubly_spec [OF extD(1) [OF e] G(1,2) l(2,3)] obtain c d' u where
      u: "reserve_doubly alloc ?d (n - 128) t = Some (c, d', u)"
      "ext (disk_inner (cache_view (bc t)) ?d \<union> (if c then {} else {0})) t u"
      "c \<Longrightarrow> disk_grown t u ?d d' (123 + 128) (123 + n)" "spends c t u (doubly_cost (n - 128))" using l(2) by auto
    have "spends c s u (single_cost n)"
      using t(4) 3 l(1) by (intro spends_trans [OF _ u(4)]) (auto simp: single_cost_def)
    note cost = this
    have "reserve_single alloc d n s = Some (c, d', u)" unfolding run using 3 l u(1) by simp
    moreover have "ext (disk_inner ?v d \<union> (if c then {} else {0})) s u"
      using G(5) by (intro ext_trans [OF e u(2)]) auto
    moreover have "disk_grown s u d d' 123 (123 + n)" if c
      using u(2,3) that by (intro disk_grown_trans [OF g _ e]) (simp_all add: MAX_BLOCKS_def)
    ultimately show ?thesis using cost by blast
  qed
qed

lemma inode_reserve_spec:
  assumes inv: "inv s" and ok: "disk_ok (cache_view (bc s)) d" and tk: "taken s (disk_nodes (cache_view (bc s)) d)"
    and len: "0 \<le> len" "len + 512 < 2 ^ 31" and N: "N = (nat len + 511) div 512" "N \<le> MAX_BLOCKS"
  shows "\<exists>ok d' s'. inode_reserve alloc d len s = Some (ok, d', s') \<and>
    ext (disk_inner (cache_view (bc s)) d \<union> (if ok then {} else {0})) s s' \<and> (ok \<longrightarrow> disk_grown s s' d d' 0 N) \<and>
    spends ok s s' (sectors_needed N)"
proof -
  let ?v = "cache_view (bc s)" and ?l = "min N 123"
  have sectors: "bytes_to_sectors len = Some N" using bytes_to_sectors_eq [OF len] N(1) by simp
  obtain b ws t where t: "reserve_loop (\<lambda>e _. reserve_sector alloc e) 1 ?l 0 ?l (direct_blocks d) s = Some (b, ws, t)"
    "ext (if b then {} else {0}) s t" "b \<Longrightarrow> disk_grown s t d (d\<lparr>direct_blocks := ws\<rparr>) 0 ?l" "spends b s t ?l"
    using reserve_direct [OF inv ok tk, of ?l] by auto
  let ?d = "d\<lparr>direct_blocks := ws\<rparr>"
  have pos: "\<not> len < 0" using len(1) by simp
  note run = inode_reserve_def [of alloc d len s] sectors Option.bind.simps Let_def t(1) case_prod_conv if_not_P [OF pos]
  consider "\<not> b" | b "N \<le> 123" | b "123 < N" by linarith
  then show ?thesis
  proof cases
    case 1
    moreover have "?l \<le> sectors_needed N" by (auto simp: sectors_needed_def)
    ultimately show ?thesis unfolding run using ext_mono [OF t(2)] spends_mono [OF t(4)] by (intro exI [of _ False]) simp
  next
    case 2
    then have "min N 123 = N" "sectors_needed N = N" by (simp_all add: sectors_needed_def)
    with 2 t ext_mono [OF t(2), of "disk_inner ?v d"] show ?thesis
      unfolding run by (intro exI [of _ True]) simp
  next
    case 3
    have l: "?l = 123" "0 < N - 123" "N - 123 \<le> 128 + 128 * 128" using 3 N(2) by (simp_all add: MAX_BLOCKS_def)
    have e: "ext {} s t" using t(2) 3 by simp
    note g = t(3) [OF 3(1), unfolded l(1)]
    note G = disk_grownD [OF g]
    from reserve_single_spec [OF extD(1) [OF e] G(1,2) l(2,3)] obtain c d' u where
      u: "reserve_single alloc ?d (N - 123) t = Some (c, d', u)"
      "ext (disk_inner (cache_view (bc t)) ?d \<union> (if c then {} else {0})) t u"
      "c \<Longrightarrow> disk_grown t u ?d d' 123 N" "spends c t u (single_cost (N - 123))" using l(2) by auto
    have "spends c s u (sectors_needed N)"
      using t(4) 3 l(1) by (intro spends_trans [OF _ u(4)]) (auto simp: sectors_needed_def)
    note cost = this
    have "inode_reserve alloc d len s = Some (c, d', u)" unfolding run using 3 l u(1) by simp
    moreover have "ext (disk_inner ?v d \<union> (if c then {} else {0})) s u"
      using G(5) by (intro ext_trans [OF e u(2)]) auto
    moreover have "disk_grown s u d d' 0 N" if c
      using u(2,3) that by (intro disk_grown_trans [OF g _ e]) (simp_all add: MAX_BLOCKS_def)
    ultimately show ?thesis using cost by blast
  qed
qed

end

end
