(* ===== verification/Free_Map.thy ===== *)
theory Free_Map
  imports File Inode_Growth
begin

text \<open>
  The free map (\<^verbatim>\<open>src/a3/fs/free-map.c\<close>): a bitmap with one bit per sector, kept in memory and,
  once the file system is running, in a file of that same file system after every change.
  Writing the file could itself allocate sectors, so the definitions are recursive; \<open>fuel\<close>
  bounds the nesting. Outside \<open>free_map_create\<close>, where no file is attached yet, the file has its
  full length from the start and the nesting is one deep (\<open>free_map_allocate_eq\<close> below).
\<close>

section \<open>The bitmap in its file\<close>

text \<open>
  The buffer handed to \<open>file_write_at\<close> is the memory of the bitmap itself; the model reads it
  when the call is made.
\<close>

definition bitmap_write :: "allocator \<Rightarrow> nat \<Rightarrow> fs \<Rightarrow> (bool \<times> fs) option" where
  "bitmap_write A f s =
     do { let b = free_map s;
          let size' = int (byte_cnt (bit_cnt b));
          (n, s) \<leftarrow> file_write_at A f (bitmap_bytes b) size' 0 s;
          Some (n = size', s) }"

definition bitmap_read :: "nat \<Rightarrow> fs \<Rightarrow> (bool \<times> fs) option" where
  "bitmap_read f s =
     (if 0 < bit_cnt (free_map s) then
        do { let size' = int (byte_cnt (bit_cnt (free_map s)));
             (data, s) \<leftarrow> file_read_at f size' 0 s;
             Some (int (length data) = size', s\<lparr>free_map := bitmap_load (free_map s) data\<rparr>) }
      else Some (True, s))"

section \<open>Operations\<close>

definition FREE_MAP_SECTOR :: u32 where
  "FREE_MAP_SECTOR = 0"

definition ROOT_DIR_SECTOR :: u32 where
  "ROOT_DIR_SECTOR = 1"

definition free_map_init :: "fs \<Rightarrow> fs option" where
  "free_map_init s =
     do { b \<leftarrow> bitmap_create (unat (block_size (fs_device (bc s)) - 1));
          b \<leftarrow> bitmap_mark b (unat FREE_MAP_SECTOR);
          b \<leftarrow> bitmap_mark b (unat ROOT_DIR_SECTOR);
          Some (s\<lparr>free_map := b\<rparr>) }"

definition num_free_sectors :: "fs \<Rightarrow> nat option" where
  "num_free_sectors s = bitmap_count (free_map s) 0 (bitmap_size (free_map s)) False"

primrec free_map_allocate :: "nat \<Rightarrow> nat \<Rightarrow> allocator" where
  "free_map_allocate 0 cnt s = None"
| "free_map_allocate (Suc fuel) cnt s =
     do { (idx, b) \<leftarrow> bitmap_scan_and_flip (free_map s) 0 cnt False;
          let sector = (of_nat idx :: u32);
          let s = s\<lparr>free_map := b\<rparr>;
          if sector = of_nat BITMAP_ERROR then Some (None, s)
          else (case free_map_file s of
              None \<Rightarrow> Some (Some sector, s)
            | Some f \<Rightarrow> do {
                (written, s) \<leftarrow> bitmap_write (free_map_allocate fuel 1) f s;
                if written then Some (Some sector, s)
                else do { b \<leftarrow> bitmap_set_multiple (free_map s) (unat sector) cnt False;
                          Some (None, s\<lparr>free_map := b\<rparr>) } }) }"

text \<open>
  Before the bits are cleared an assertion tests that they are all set; it only prints, but it
  reads the bits.
\<close>

definition free_map_release :: "nat \<Rightarrow> nat \<Rightarrow> releaser" where
  "free_map_release fuel cnt sector s =
     do { _ \<leftarrow> bitmap_all (free_map s) (unat sector) cnt;
          b \<leftarrow> bitmap_set_multiple (free_map s) (unat sector) cnt False;
          let s = s\<lparr>free_map := b\<rparr>;
          f \<leftarrow> free_map_file s;
          (_, s) \<leftarrow> bitmap_write (free_map_allocate fuel 1) f s;
          Some s }"

definition free_map_open :: "fs \<Rightarrow> fs option" where
  "free_map_open s =
     do { (i, s) \<leftarrow> inode_open FREE_MAP_SECTOR s;
          let (p, s) = file_open (Some i) s;
          let s = s\<lparr>free_map_file := p\<rparr>;
          f \<leftarrow> p;
          (_, s) \<leftarrow> bitmap_read f s;
          Some s }"

definition free_map_close :: "nat \<Rightarrow> fs \<Rightarrow> fs option" where
  "free_map_close fuel s = file_close (free_map_release fuel 1) (free_map_file s) s"

definition free_map_create :: "nat \<Rightarrow> fs \<Rightarrow> fs option" where
  "free_map_create fuel s =
     do { (_, s) \<leftarrow> inode_create (free_map_allocate fuel 1) FREE_MAP_SECTOR
                      (int (bitmap_file_size (free_map s))) False s;
          (i, s) \<leftarrow> inode_open FREE_MAP_SECTOR s;
          let (p, s) = file_open (Some i) s;
          let s = s\<lparr>free_map_file := p\<rparr>;
          f \<leftarrow> p;
          (_, s) \<leftarrow> bitmap_write (free_map_allocate fuel 1) f s;
          Some s }"

section \<open>The invariant of the free map\<close>

text \<open>The inode of the free map's file, the sectors that are marked as used, and those of the file.\<close>

definition map_data :: "fs \<Rightarrow> inode_disk option" where
  "map_data s =
     do { f \<leftarrow> free_map_file s; fl \<leftarrow> files s f; x \<leftarrow> inodes s (file_inode fl);
          if deny_write_cnt x = 0 then Some (i_data x) else None }"

definition fm_used :: "fs \<Rightarrow> u32 set" where
  "fm_used s = of_nat ` {i. i < bit_cnt (free_map s) \<and> bm_list (free_map s) ! i}"

definition fm_own :: "fs \<Rightarrow> u32 set" where
  "fm_own s = (case map_data s of None \<Rightarrow> {} | Some d \<Rightarrow> sectors_of (bc s) d)"

definition fm_full :: "fs \<Rightarrow> bool" where
  "fm_full s \<longleftrightarrow> (\<forall>i < bit_cnt (free_map s). bm_list (free_map s) ! i)"

text \<open>
  Every bit stands for a sector of the device, sector 0 is taken, and the file, once there is
  one, has room for the bitmap and lies in sectors that are marked as used.
\<close>

definition fm_inv :: "fs \<Rightarrow> bool" where
  "fm_inv s \<longleftrightarrow> cache_ok (bc s) \<and> bitmap_ok (free_map s) \<and>
     0 < bit_cnt (free_map s) \<and> bit_cnt (free_map s) \<le> BITMAP_ERROR \<and>
     (\<forall>i < bit_cnt (free_map s). sector_valid (bc s) (of_nat i)) \<and> bm_list (free_map s) ! 0 \<and>
     (free_map_file s \<noteq> None \<longrightarrow> (\<exists>d. map_data s = Some d \<and> file_ok (bc s) d \<and>
        byte_cnt (bit_cnt (free_map s)) \<le> nat (dlength d) \<and> sectors_of (bc s) d \<subseteq> fm_used s - {0}))"

lemma fm_invD:
  assumes "fm_inv s"
  shows "cache_ok (bc s)" and "bitmap_ok (free_map s)" and "0 < bit_cnt (free_map s)"
    and "bit_cnt (free_map s) \<le> BITMAP_ERROR" and "i < bit_cnt (free_map s) \<Longrightarrow> sector_valid (bc s) (of_nat i)"
    and "bm_list (free_map s) ! 0"
  using assms by (simp_all add: fm_inv_def)

lemma of_nat_u32_inj: "i \<le> BITMAP_ERROR \<Longrightarrow> j \<le> BITMAP_ERROR \<Longrightarrow> (of_nat i :: u32) = of_nat j \<longleftrightarrow> i = j"
  by (simp add: word_of_nat_eq_iff take_bit_nat_eq_self BITMAP_ERROR_def)

lemma unat_u32_of_nat: "i \<le> BITMAP_ERROR \<Longrightarrow> unat (of_nat i :: u32) = i"
  by (simp add: unat_of_nat take_bit_nat_eq_self BITMAP_ERROR_def unsigned_of_nat)

lemma map_data_bc [simp]: "map_data (s\<lparr>bc := c\<rparr>) = map_data s" "map_data (s\<lparr>free_map := b\<rparr>) = map_data s"
  by (simp_all add: map_data_def)

text \<open>Changes outside the file of the free map keep the invariant.\<close>

lemma fm_inv_within:
  assumes inv: "fm_inv s" and w: "within S (bc s) c" and disj: "S \<inter> fm_own s = {}"
  shows "fm_inv (s\<lparr>bc := c\<rparr>)" and "fm_own (s\<lparr>bc := c\<rparr>) = fm_own s"
proof -
  have kept: "file_ok c d" "sectors_of c d = sectors_of (bc s) d" if "map_data s = Some d" "file_ok (bc s) d" for d
    using file_within(1,3) [OF that(2) w] that(1) disj by (simp_all add: fm_own_def)
  show "fm_inv (s\<lparr>bc := c\<rparr>)"
    using inv kept withinD(1,2) [OF w] by (auto simp: fm_inv_def fm_used_def)
  show "fm_own (s\<lparr>bc := c\<rparr>) = fm_own s"
    using inv kept by (cases "free_map_file s") (auto simp: fm_inv_def fm_own_def map_data_def)
qed

lemma length_bitmap_bytes: "bitmap_ok b \<Longrightarrow> length (bitmap_bytes b) = byte_cnt (bit_cnt b)"
  by (simp add: bitmap_bytes_def bitmap_ok_def byte_cnt_def)

lemma byte_cnt_pos: "0 < n \<Longrightarrow> 0 < byte_cnt n"
  using elem_idx_less [of 0 n] by (simp add: byte_cnt_def)

lemma map_dataE:
  assumes "map_data s = Some d"
  obtains f fl x where "free_map_file s = Some f" "files s f = Some fl" "inodes s (file_inode fl) = Some x"
    "deny_write_cnt x = 0" "i_data x = d"
  using assms by (auto simp: map_data_def split: bind_splits if_splits)

text \<open>
  Writing the bitmap never allocates, so it does not depend on the allocator, and it makes the
  file start with the bytes of the bitmap.
\<close>

lemma bitmap_write_eq:
  assumes ok: "cache_ok (bc s)" "bitmap_ok (free_map s)" "0 < bit_cnt (free_map s)"
    and d: "free_map_file s = Some f" "map_data s = Some d"
    and F: "file_ok (bc s) d" and len: "byte_cnt (bit_cnt (free_map s)) \<le> nat (dlength d)"
  shows "\<exists>c. (\<forall>A. bitmap_write A f s = Some (True, s\<lparr>bc := c\<rparr>)) \<and> within (sectors_of (bc s) d) (bc s) c \<and>
    file_ok c d \<and> sectors_of c d = sectors_of (bc s) d \<and>
    take (byte_cnt (bit_cnt (free_map s))) (content (cache_view c) d) = bitmap_bytes (free_map s)"
proof -
  let ?n = "byte_cnt (bit_cnt (free_map s))" and ?buf = "bitmap_bytes (free_map s)"
  from d obtain fl x where x: "files s f = Some fl" "inodes s (file_inode fl) = Some x" "deny_write_cnt x = 0" "i_data x = d"
    by (auto elim: map_dataE)
  note buf = length_bitmap_bytes [OF ok(2)]
  have "0 + ?n \<le> nat (dlength (i_data x))" "0 < 0 + ?n" "?n \<le> length ?buf"
    using len x(4) byte_cnt_pos [OF ok(3)] buf by simp_all
  from inode_write_at_inside [OF x(2,3) ok(1) F [folded x(4)] this] obtain c where
    w: "\<forall>A. inode_write_at A (file_inode fl) ?buf (int ?n) (int 0) s = Some (int ?n, s\<lparr>bc := c\<rparr>)"
    "within (sectors_of (bc s) d) (bc s) c" "file_ok c d" "sectors_of c d = sectors_of (bc s) d"
    "content (cache_view c) d = overwrite 0 (take ?n ?buf) (content (cache_view (bc s)) d)"
    unfolding x(4) by blast
  have "take ?n (content (cache_view c) d) = ?buf"
    using len unfolding w(5) by (intro nth_equalityI) (simp_all add: nth_overwrite buf)
  with w x(1) show ?thesis by (auto simp: bitmap_write_def file_write_at_def Let_def)
qed

section \<open>Allocation and release\<close>

lemma run_at_1 [simp]:
  "run_at xs i 1 v \<longleftrightarrow> i < length xs \<and> xs ! i = v" "run_at xs i (Suc 0) v \<longleftrightarrow> i < length xs \<and> xs ! i = v"
  by (auto simp: run_at_def)

text \<open>
  What one allocation does: nothing on a full disk; otherwise it takes the first free sector,
  and the file of the free map holds the new bitmap. The fuel does not matter.
\<close>

lemma free_map_allocate_full:
  assumes inv: "fm_inv s" and full: "fm_full s"
  shows "free_map_allocate (Suc fuel) 1 s = Some (None, s)"
proof -
  have "\<not> (\<exists>k \<ge> 0. run_at (bm_list (free_map s)) k 1 False)"
    using full by (auto simp: fm_full_def)
  then have "bitmap_scan_and_flip (free_map s) 0 1 False = Some (BITMAP_ERROR, free_map s)"
    using bitmap_scan_and_flip_spec [OF fm_invD(2,4) [OF inv], of 0 1 False] by auto
  then show ?thesis by (simp add: Let_def)
qed

lemma free_map_allocate_first:
  assumes inv: "fm_inv s" and free: "\<not> fm_full s"
  shows "\<exists>i b c. i < bit_cnt (free_map s) \<and> \<not> bm_list (free_map s) ! i \<and> (\<forall>j < i. bm_list (free_map s) ! j) \<and>
    (\<forall>fuel. free_map_allocate (Suc fuel) 1 s = Some (Some (of_nat i), s\<lparr>bc := c, free_map := b\<rparr>)) \<and>
    bitmap_ok b \<and> bm_list b = (bm_list (free_map s))[i := True] \<and> within (fm_own s) (bc s) c \<and>
    (\<forall>d. map_data s = Some d \<longrightarrow> file_ok c d \<and> sectors_of c d = sectors_of (bc s) d \<and>
       take (byte_cnt (bit_cnt b)) (content (cache_view c) d) = bitmap_bytes b)"
proof -
  let ?xs = "bm_list (free_map s)"
  note I = fm_invD [OF inv]
  have ex: "\<exists>k \<ge> 0. run_at ?xs k 1 False" using free by (auto simp: fm_full_def)
  with bitmap_scan_and_flip_spec [OF I(2,4), of 0 1 False] obtain i b where
    i: "bitmap_scan_and_flip (free_map s) 0 1 False = Some (i, b)" "bitmap_ok b" "run_at ?xs i 1 False"
    "\<forall>k. 0 \<le> k \<and> k < i \<longrightarrow> \<not> run_at ?xs k 1 False" "bm_list b = overwrite i (replicate 1 (\<not> False)) ?xs"
    by auto
  from i(3) have free_i: "i < bit_cnt (free_map s)" "\<not> ?xs ! i" by simp_all
  have first: "\<forall>j < i. ?xs ! j" using i(4) free_i(1) by auto
  have b: "bm_list b = ?xs[i := True]"
    unfolding i(5) using free_i(1) by (intro nth_equalityI) (auto simp: nth_overwrite nth_list_update)
  have cnt: "bit_cnt b = bit_cnt (free_map s)" by (rule bm_list_bit_cnt [OF b])
  have i_max: "i \<le> BITMAP_ERROR" "i \<noteq> BITMAP_ERROR" using free_i(1) I(4) by simp_all
  then have sec: "(of_nat i :: u32) \<noteq> of_nat BITMAP_ERROR" by (simp add: of_nat_u32_inj)
  show ?thesis
  proof (cases "free_map_file s")
    case None
    then have "map_data s = None" by (simp add: map_data_def)
    then show ?thesis using None i(1,2) sec free_i first b within_refl [OF I(1)]
      by (intro exI [of _ i] exI [of _ b] exI [of _ "bc s"]) (simp add: Let_def)
  next
    case (Some f)
    with inv obtain d where d: "map_data s = Some d" "file_ok (bc s) d"
      "byte_cnt (bit_cnt (free_map s)) \<le> nat (dlength d)" by (auto simp: fm_inv_def)
    let ?s = "s\<lparr>free_map := b\<rparr>"
    have "cache_ok (bc ?s)" "bitmap_ok (free_map ?s)" "0 < bit_cnt (free_map ?s)" "free_map_file ?s = Some f"
      "map_data ?s = Some d" "file_ok (bc ?s) d" "byte_cnt (bit_cnt (free_map ?s)) \<le> nat (dlength d)"
      using I d Some i(2) cnt by simp_all
    from bitmap_write_eq [OF this] obtain c where c: "\<forall>A. bitmap_write A f ?s = Some (True, ?s\<lparr>bc := c\<rparr>)"
      "within (sectors_of (bc s) d) (bc s) c" "file_ok c d" "sectors_of c d = sectors_of (bc s) d"
      "take (byte_cnt (bit_cnt b)) (content (cache_view c) d) = bitmap_bytes b" by auto
    show ?thesis using Some d(1) c i(1,2) sec free_i first b
      by (intro exI [of _ i] exI [of _ b] exI [of _ c]) (simp add: Let_def fm_own_def)
  qed
qed

text \<open>The state after an allocation satisfies the invariant, with one more sector in use.\<close>

lemma fm_used_insert:
  assumes "bm_list b = (bm_list (free_map s))[i := True]" and "i < bit_cnt (free_map s)"
  shows "fm_used (s\<lparr>bc := c, free_map := b\<rparr>) = insert (of_nat i) (fm_used s)"
proof -
  have "bit_cnt b = bit_cnt (free_map s)" by (rule bm_list_bit_cnt [OF assms(1)])
  with assms show ?thesis by (auto simp: fm_used_def nth_list_update image_iff)
qed

lemma fm_inv_taken:
  assumes inv: "fm_inv s" and i: "i < bit_cnt (free_map s)"
    and b: "bitmap_ok b" "bm_list b = (bm_list (free_map s))[i := True]"
    and c: "within (fm_own s) (bc s) c"
      "\<forall>d. map_data s = Some d \<longrightarrow> file_ok c d \<and> sectors_of c d = sectors_of (bc s) d \<and> P d"
  shows "fm_inv (s\<lparr>bc := c, free_map := b\<rparr>)" and "fm_own (s\<lparr>bc := c, free_map := b\<rparr>) = fm_own s"
proof -
  let ?s = "s\<lparr>bc := c, free_map := b\<rparr>"
  note I = fm_invD [OF inv]
  have cnt: "bit_cnt b = bit_cnt (free_map s)" by (rule bm_list_bit_cnt [OF b(2)])
  have md: "map_data ?s = map_data s" by (simp add: map_data_def)
  have used: "fm_used ?s = insert (of_nat i) (fm_used s)" by (rule fm_used_insert [OF b(2) i])
  show own: "fm_own ?s = fm_own s" using c(2) by (auto simp: fm_own_def md split: option.split)
  have kept: "\<exists>d. map_data ?s = Some d \<and> file_ok (bc ?s) d \<and>
      byte_cnt (bit_cnt (free_map ?s)) \<le> nat (dlength d) \<and> sectors_of (bc ?s) d \<subseteq> fm_used ?s - {0}"
    if "free_map_file ?s \<noteq> None"
  proof -
    from inv that obtain d where "map_data s = Some d" "byte_cnt (bit_cnt (free_map s)) \<le> nat (dlength d)"
      "sectors_of (bc s) d \<subseteq> fm_used s - {0}" by (auto simp: fm_inv_def)
    with c(2) show ?thesis unfolding md used by (auto simp: cnt)
  qed
  have "bm_list b ! 0" using I(3,6) unfolding b(2) by (cases i) (auto simp: nth_list_update)
  moreover have "\<forall>j < bit_cnt b. sector_valid c (of_nat j)" using I(5) withinD(2) [OF c(1)] cnt by simp
  ultimately show "fm_inv ?s" unfolding fm_inv_def using kept I(3,4) b(1) withinD(1) [OF c(1)] cnt by simp
qed

lemma of_nat_in_fm_used:
  "fm_inv s \<Longrightarrow> i < bit_cnt (free_map s) \<Longrightarrow> (of_nat i \<in> fm_used s) = bm_list (free_map s) ! i"
proof -
  assume inv: "fm_inv s" and i: "i < bit_cnt (free_map s)"
  have "j = i" if "of_nat i = (of_nat j :: u32)" "j < bit_cnt (free_map s)" for j
    using that i fm_invD(4) [OF inv] of_nat_u32_inj [of i j] by simp
  with i show ?thesis by (auto simp: fm_used_def)
qed

text \<open>The sectors that have a bit.\<close>

definition fm_managed :: "fs \<Rightarrow> u32 set" where
  "fm_managed s = of_nat ` {..<bit_cnt (free_map s)}"

lemma num_free_sectors_eq:
  assumes "fm_inv s"
  shows "num_free_sectors s = Some (card (fm_managed s - fm_used s))"
proof -
  let ?n = "bit_cnt (free_map s)" and ?xs = "bm_list (free_map s)"
  note I = fm_invD [OF assms]
  have inj: "inj_on (of_nat :: nat \<Rightarrow> u32) {..<?n}"
    using I(4) by (intro inj_onI) (simp add: of_nat_u32_inj)
  have "fm_managed s - fm_used s = of_nat ` {i. i < ?n \<and> ?xs ! i = False}"
    using of_nat_in_fm_used [OF assms] by (auto simp: fm_managed_def)
  moreover have "card (of_nat ` {i. i < ?n \<and> ?xs ! i = False} :: u32 set) = card {i. i < ?n \<and> ?xs ! i = False}"
    by (rule card_image, rule inj_on_subset [OF inj]) auto
  moreover have "num_free_sectors s = Some (card {i. i < ?n \<and> ?xs ! i = False})"
    using bitmap_count_eq [OF I(2), of 0 ?n False] by (simp add: num_free_sectors_def bitmap_size_def)
  ultimately show ?thesis by simp
qed

text \<open>The free map provides what the inode layer relies on.\<close>

interpretation space: sector_allocator "free_map_allocate (Suc fuel) 1" fm_inv fm_used fm_own fm_full fm_managed for fuel
proof
  fix s
  assume inv: "fm_inv s" and "\<not> fm_full s"
  then obtain i b c where i: "i < bit_cnt (free_map s)" "\<not> bm_list (free_map s) ! i"
    and a: "\<forall>fuel. free_map_allocate (Suc fuel) 1 s = Some (Some (of_nat i), s\<lparr>bc := c, free_map := b\<rparr>)"
    and b: "bitmap_ok b" "bm_list b = (bm_list (free_map s))[i := True]" and c: "within (fm_own s) (bc s) c"
    "\<forall>d. map_data s = Some d \<longrightarrow> file_ok c d \<and> sectors_of c d = sectors_of (bc s) d \<and>
       take (byte_cnt (bit_cnt b)) (content (cache_view c) d) = bitmap_bytes b"
    using free_map_allocate_first by blast
  note I = fm_invD [OF inv]
  have "i \<noteq> 0" using i(2) I(6) by (cases i) auto
  then have "(of_nat i :: u32) \<noteq> 0" using of_nat_u32_inj [of i 0] i(1) I(4) by auto
  moreover have "(of_nat i :: u32) \<noteq> - 1"
    using of_nat_u32_inj [of i BITMAP_ERROR] i(1) I(4) by (auto simp: BITMAP_ERROR_def)
  moreover have "(of_nat i :: u32) \<notin> fm_used s" using of_nat_in_fm_used [OF inv i(1)] i(2) by simp
  moreover have managed: "fm_managed (s\<lparr>bc := c, free_map := b\<rparr>) = fm_managed s"
    using bm_list_bit_cnt [OF b(2)] by (simp add: fm_managed_def)
  ultimately show "\<exists>k c b. free_map_allocate (Suc fuel) 1 s = Some (Some k, s\<lparr>bc := c, free_map := b\<rparr>) \<and>
      fm_inv (s\<lparr>bc := c, free_map := b\<rparr>) \<and> fm_own (s\<lparr>bc := c, free_map := b\<rparr>) = fm_own s \<and>
      within (fm_own s) (bc s) c \<and> k \<noteq> 0 \<and> k \<noteq> - 1 \<and> k \<notin> fm_used s \<and> sector_valid (bc s) k \<and>
      fm_used (s\<lparr>bc := c, free_map := b\<rparr>) = insert k (fm_used s) \<and>
      fm_managed (s\<lparr>bc := c, free_map := b\<rparr>) = fm_managed s"
    using managed a c(1) I(5) [OF i(1)] fm_inv_taken [OF inv i(1) b c] fm_used_insert [OF b(2) i(1)] by blast
next
  fix s
  assume "fm_inv s" and "fm_full s"
  then show "fm_managed s \<subseteq> fm_used s" by (auto simp: fm_managed_def fm_used_def fm_full_def)
next
  fix s
  assume inv: "fm_inv s"
  note I = fm_invD [OF inv]
  show "fm_own s \<subseteq> fm_used s"
    using inv by (cases "free_map_file s") (auto simp: fm_inv_def fm_own_def map_data_def)
  have "0 \<notin> fm_own s"
    using inv by (cases "free_map_file s") (auto simp: fm_inv_def fm_own_def map_data_def)
  moreover have "0 \<in> fm_used s" using of_nat_in_fm_used [OF inv I(3)] I(6) by simp
  ultimately show "0 \<in> fm_used s - fm_own s \<and> sector_valid (bc s) 0" using I(5) [OF I(3)] by simp
qed (rule free_map_allocate_full, assumption+, simp_all add: fm_invD(1) fm_inv_within fm_used_def fm_full_def fm_managed_def)

lemma free_map_allocate_eq:
  "fm_inv s \<Longrightarrow> free_map_allocate (Suc m) 1 s = free_map_allocate (Suc n) 1 s"
  by (cases "fm_full s") (simp only: free_map_allocate_full, metis free_map_allocate_first)

text \<open>Releasing a sector that is in use and not the free map's own.\<close>

lemma free_map_release_spec:
  assumes inv: "fm_inv s" and i: "0 < i" "i < bit_cnt (free_map s)" "of_nat i \<notin> fm_own s"
    and f: "free_map_file s \<noteq> None"
  shows "\<exists>b c. free_map_release fuel 1 (of_nat i) s = Some (s\<lparr>bc := c, free_map := b\<rparr>) \<and>
    fm_inv (s\<lparr>bc := c, free_map := b\<rparr>) \<and> fm_own (s\<lparr>bc := c, free_map := b\<rparr>) = fm_own s \<and>
    bm_list b = (bm_list (free_map s))[i := False] \<and> within (fm_own s) (bc s) c \<and>
    fm_used (s\<lparr>bc := c, free_map := b\<rparr>) = fm_used s - {of_nat i} \<and>
    (\<forall>d. map_data s = Some d \<longrightarrow> take (byte_cnt (bit_cnt b)) (content (cache_view c) d) = bitmap_bytes b)"
proof -
  note I = fm_invD [OF inv]
  obtain f d where d: "free_map_file s = Some f" "map_data s = Some d" "file_ok (bc s) d"
    "byte_cnt (bit_cnt (free_map s)) \<le> nat (dlength d)" "sectors_of (bc s) d \<subseteq> fm_used s - {0}"
    using inv f by (auto simp: fm_inv_def)
  have un: "unat (of_nat i :: u32) = i" using i(2) I(4) by (intro unat_u32_of_nat) simp
  have range: "i + 1 \<le> bit_cnt (free_map s)" using i(2) by simp
  obtain a where a: "bitmap_all (free_map s) i 1 = Some a"
    using bitmap_all_eq [OF I(2), of i 1] range by auto
  obtain b where b: "bitmap_set_multiple (free_map s) i 1 False = Some b" "bitmap_ok b"
    "bm_list b = overwrite i (replicate 1 False) (bm_list (free_map s))"
    using bitmap_set_multiple_refines [OF I(2) range, of False] by blast
  have bl: "bm_list b = (bm_list (free_map s))[i := False]"
    unfolding b(3) using i(2) by (intro nth_equalityI) (auto simp: nth_overwrite nth_list_update)
  have cnt: "bit_cnt b = bit_cnt (free_map s)" by (rule bm_list_bit_cnt [OF bl])
  let ?s = "s\<lparr>free_map := b\<rparr>"
  have "cache_ok (bc ?s)" "bitmap_ok (free_map ?s)" "0 < bit_cnt (free_map ?s)" "free_map_file ?s = Some f"
    "map_data ?s = Some d" "file_ok (bc ?s) d" "byte_cnt (bit_cnt (free_map ?s)) \<le> nat (dlength d)"
    using I d b(2) cnt by simp_all
  from bitmap_write_eq [OF this] obtain c where c: "\<forall>A. bitmap_write A f ?s = Some (True, ?s\<lparr>bc := c\<rparr>)"
    "within (sectors_of (bc s) d) (bc s) c" "file_ok c d" "sectors_of c d = sectors_of (bc s) d"
    "take (byte_cnt (bit_cnt b)) (content (cache_view c) d) = bitmap_bytes b" by auto
  let ?t = "s\<lparr>bc := c, free_map := b\<rparr>"
  have run: "free_map_release fuel 1 (of_nat i) s = Some ?t"
    unfolding free_map_release_def un using a b(1) d(1) c(1) by simp
  have md: "map_data ?t = Some d" using d(2) by (simp add: map_data_def)
  have own: "fm_own ?t = fm_own s" using c(4) d(2) md by (simp add: fm_own_def)
  have used: "fm_used ?t = fm_used s - {of_nat i}"
  proof -
    have "j = i" if "of_nat j = (of_nat i :: u32)" "j < bit_cnt (free_map s)" for j
      using that i(2) I(4) of_nat_u32_inj [of j i] by simp
    then show ?thesis using i(2) cnt bl by (auto simp: fm_used_def nth_list_update split: if_splits)
  qed
  have sub: "sectors_of c d \<subseteq> fm_used ?t - {0}"
    using d(2,5) i(3) unfolding used c(4) by (auto simp: fm_own_def)
  have "within (fm_own s) (bc s) c" using c(2) d(2) by (simp add: fm_own_def)
  moreover have "fm_inv ?t"
    using I cnt b(2) md c(3) d(1,4) sub withinD(1,2) [OF c(2)] i(1) bl
    unfolding fm_inv_def by (auto simp: nth_list_update)
  ultimately show ?thesis using run own used bl c(5) d(2) by (intro exI [of _ b] exI [of _ c]) simp
qed

end
