(* ===== verification/Directory.thy ===== *)
theory Directory
  imports Free_Map
begin

text \<open>
  Directories and paths (\<^verbatim>\<open>src/a3/fs/directory.c\<close>). A directory is a file of 36-byte entries,
  the first of which stands for the parent directory. Variables of type \<open>struct dir_entry\<close> are
  kept as their bytes, because the code reads files into them and leaves parts of them
  uninitialised: \<open>junk\<close> is what such a variable contains at first.
\<close>

section \<open>Entries\<close>

definition NAME_MAX :: nat where
  "NAME_MAX = 30"

abbreviation ENTRY_SIZE :: nat where
  "ENTRY_SIZE \<equiv> 36"

definition entry_sector :: "byte list \<Rightarrow> u32" where
  "entry_sector e = le_word (take 4 e)"

definition entry_name :: "byte list \<Rightarrow> byte list" where
  "entry_name e = take 31 (drop 4 e)"

definition entry_in_use :: "byte list \<Rightarrow> bool" where
  "entry_in_use e \<longleftrightarrow> drop 35 e ! 0 \<noteq> 0"

definition dir_entry :: "u32 \<Rightarrow> byte list \<Rightarrow> bool \<Rightarrow> byte list" where
  "dir_entry sector name in_use = le_bytes 4 sector @ name @ [of_bool in_use]"

text \<open>
  \<open>!strcmp(name, e.name)\<close>: a field without a terminating zero is read past its end only when
  the name agrees with all of it.
\<close>

definition name_matches :: "string \<Rightarrow> byte list \<Rightarrow> bool option" where
  "name_matches name field =
     (case cstr field of
        Some n \<Rightarrow> Some (name = n)
      | None \<Rightarrow> if take (length field) (bytes_of_string name) = field then None else Some False)"

lemma dir_entry_fields [codec_simps]:
  "length name = 31 \<Longrightarrow> entry_sector (dir_entry sector name in_use) = sector"
  "length name = 31 \<Longrightarrow> entry_name (dir_entry sector name in_use) = name"
  "length name = 31 \<Longrightarrow> entry_in_use (dir_entry sector name in_use) = in_use"
  by (simp_all add: entry_sector_def entry_name_def entry_in_use_def dir_entry_def codec_simps)

lemma dir_entry_of_fields [codec_simps]:
  assumes "length e = ENTRY_SIZE"
  shows "length (dir_entry (entry_sector e) (entry_name e) u) = ENTRY_SIZE"
  using assms by (simp add: dir_entry_def entry_name_def)

section \<open>Paths\<close>

text \<open>
  The loop over the tokens appends the previous token, when there is one, to the directory; the
  token in hand at the end is the file name.
\<close>

primrec split_loop :: "string \<Rightarrow> string \<Rightarrow> string list \<Rightarrow> string \<times> string" where
  "split_loop dir last_token [] = (dir, last_token)"
| "split_loop dir last_token (t # ts) =
     split_loop (if 0 < length last_token then dir @ last_token @ ''/'' else dir) t ts"

definition split_path_filename :: "string \<Rightarrow> string \<times> string" where
  "split_path_filename path =
     split_loop (if 0 < length path \<and> path ! 0 = CHR ''/'' then ''/'' else '''') '''' (strtok CHR ''/'' path)"

section \<open>Opening and closing\<close>

definition dir_open :: "nat option \<Rightarrow> fs \<Rightarrow> nat option \<times> fs" where
  "dir_open p s =
     (case p of
        None \<Rightarrow> (None, s)
      | Some i \<Rightarrow> let d = next_ref s
                 in (Some d, s\<lparr>next_ref := Suc d,
                       dirs := (dirs s)(d \<mapsto> \<lparr>dir_inode = i, dir_pos = 36, dir_open_cnt = 1\<rparr>)\<rparr>))"

definition dir_get_inode :: "nat \<Rightarrow> fs \<Rightarrow> nat option" where
  "dir_get_inode d s = map_option dir_inode (dirs s d)"

definition dir_reopen :: "nat \<Rightarrow> fs \<Rightarrow> (nat option \<times> fs) option" where
  "dir_reopen d s = do { x \<leftarrow> dirs s d; Some (dir_open (Some (inode_reopen (dir_inode x))) s) }"

definition dir_close :: "releaser \<Rightarrow> nat option \<Rightarrow> fs \<Rightarrow> fs option" where
  "dir_close R p s =
     (case p of
        None \<Rightarrow> Some s
      | Some d \<Rightarrow> do {
          x \<leftarrow> dirs s d;
          let x = x\<lparr>dir_open_cnt := dir_open_cnt x - 1\<rparr>;
          let s = s\<lparr>dirs := (dirs s)(d \<mapsto> x)\<rparr>;
          if dir_open_cnt x = 0
          then do { s \<leftarrow> inode_close R (Some (dir_inode x)) s;
                    Some (s\<lparr>dirs := (dirs s)(d := None), cwd := None\<rparr>) }
          else Some s })"

definition dir_open_root :: "fs \<Rightarrow> (nat option \<times> fs) option" where
  "dir_open_root s =
     (case cwd s of
        None \<Rightarrow> do { (i, s) \<leftarrow> inode_open ROOT_DIR_SECTOR s;
                    let (d, s) = dir_open (Some i) s;
                    Some (d, s\<lparr>cwd := d\<rparr>) }
      | Some d \<Rightarrow> do { x \<leftarrow> dirs s d;
                      Some (Some d, s\<lparr>dirs := (dirs s)(d \<mapsto> x\<lparr>dir_open_cnt := dir_open_cnt x + 1\<rparr>)\<rparr>) })"

section \<open>Searching\<close>

text \<open>A read never yields more than what is left of the file; it makes the loops below end.\<close>

lemma length_inode_read_loop:
  "inode_read_loop d n ofs c = Some (data, c') \<Longrightarrow> int (length data) \<le> max 0 (dlength d - ofs)"
proof (induction d n ofs c arbitrary: data c' rule: inode_read_loop.induct)
  case (1 d n ofs c)
  show ?case
  proof (cases "0 < n")
    case False
    with "1.prems" show ?thesis by (subst (asm) inode_read_loop.simps) simp
  next
    case True
    then obtain sec c1 left where a: "byte_to_sector d ofs c = Some (sec, c1)" "off32 (dlength d - ofs) = Some left"
      using "1.prems" by (subst (asm) inode_read_loop.simps) (auto simp: Let_def split: bind_splits)
    then have left: "left = dlength d - ofs" by (simp add: off32_def split: if_splits)
    let ?so = "c_rem ofs 512" and ?k = "min n (min left (512 - c_rem ofs 512))"
    show ?thesis
    proof (cases "?k \<le> 0 \<or> ?so < 0")
      case stop: True
      with "1.prems" True a show ?thesis
        by (subst (asm) inode_read_loop.simps) (auto simp: Let_def split: if_splits)
    next
      case go: False
      obtain blk c2 where b: "buffer_cache_read sec c1 = (blk, c2)" by fastforce
      let ?ch = "if ?so = 0 \<and> ?k = 512 then take 512 blk else take (nat ?k) (drop (nat ?so) blk)"
      obtain rest c3 where r: "inode_read_loop d (n - ?k) (ofs + ?k) c2 = Some (rest, c3)"
        and data: "data = ?ch @ rest"
        using "1.prems" True a b go
        by (subst (asm) inode_read_loop.simps) (auto simp: Let_def split: bind_splits if_splits)
      have "int (length rest) \<le> max 0 (dlength d - (ofs + ?k))"
        using "1.IH" [OF True a(1) refl refl a(2) refl _ _ b [symmetric] refl refl] r go by simp
      moreover have "int (length (if a \<and> k = 512 then take 512 blk else take (nat k) (drop m blk))) \<le> k"
        if "\<not> k \<le> 0" for a k m using that by auto
      then have "int (length ?ch) \<le> ?k" using go by blast
      ultimately have "int (length rest) \<le> max 0 (dlength d - (ofs + ?k))" "int (length ?ch) \<le> ?k" by blast+
      moreover have "?k \<le> dlength d - ofs" using left by simp
      ultimately show ?thesis unfolding data length_append of_nat_add by linarith
    qed
  qed
qed

lemma inode_read_at_facts:
  assumes "inode_read_at i n ofs s = Some (data, s')"
  obtains x where "inodes s i = Some x" "inodes s' = inodes s" "int (length data) \<le> max 0 (dlength (i_data x) - ofs)"
  using assms length_inode_read_loop by (auto simp: inode_read_at_def split: bind_splits)

text \<open>The measure of the loops that walk through a directory: what is left of its file.\<close>

definition bytes_left :: "nat \<Rightarrow> int \<Rightarrow> fs \<Rightarrow> nat" where
  "bytes_left i ofs s = (case inodes s i of None \<Rightarrow> 0 | Some x \<Rightarrow> nat (dlength (i_data x) - ofs))"

lemma bytes_left_decreases:
  assumes "inode_read_at i 36 ofs s = Some (data, s')" and "length data = 36"
  shows "bytes_left i (ofs + 36) s' < bytes_left i ofs s"
  using assms by (elim inode_read_at_facts) (simp add: bytes_left_def)

text \<open>\<open>lookup\<close> returns the entry and its offset.\<close>

function lookup_from :: "nat \<Rightarrow> string \<Rightarrow> int \<Rightarrow> fs \<Rightarrow> ((byte list \<times> int) option \<times> fs) option" where
  "lookup_from i name ofs s =
     do { (e, s) \<leftarrow> inode_read_at i 36 ofs s;
          if length e \<noteq> ENTRY_SIZE then Some (None, s)
          else do { m \<leftarrow> (if entry_in_use e then name_matches name (entry_name e) else Some False);
                    if m then Some (Some (e, ofs), s) else lookup_from i name (ofs + 36) s } }"
  by pat_completeness auto
termination
  by (relation "measure (\<lambda>(i, name, ofs, s). bytes_left i ofs s)") (auto intro: bytes_left_decreases)

declare lookup_from.simps [simp del]

definition lookup :: "nat \<Rightarrow> string \<Rightarrow> fs \<Rightarrow> ((byte list \<times> int) option \<times> fs) option" where
  "lookup d name s = do { x \<leftarrow> dirs s d; lookup_from (dir_inode x) name 36 s }"

function empty_from :: "nat \<Rightarrow> int \<Rightarrow> fs \<Rightarrow> (bool \<times> fs) option" where
  "empty_from i ofs s =
     do { (e, s) \<leftarrow> inode_read_at i 36 ofs s;
          if length e \<noteq> ENTRY_SIZE then Some (True, s)
          else if entry_in_use e then Some (False, s)
          else empty_from i (ofs + 36) s }"
  by pat_completeness auto
termination
  by (relation "measure (\<lambda>(i, ofs, s). bytes_left i ofs s)") (auto intro: bytes_left_decreases)

declare empty_from.simps [simp del]

definition dir_is_empty :: "nat \<Rightarrow> fs \<Rightarrow> (bool \<times> fs) option" where
  "dir_is_empty d s = do { x \<leftarrow> dirs s d; empty_from (dir_inode x) 36 s }"

definition dir_lookup :: "byte list \<Rightarrow> nat \<Rightarrow> string \<Rightarrow> fs \<Rightarrow> (nat option \<times> fs) option" where
  "dir_lookup junk d name s =
     do { x \<leftarrow> dirs s d;
          if name = ''.'' then Some (Some (inode_reopen (dir_inode x)), s)
          else if name = ''..'' then do {
            (data, s) \<leftarrow> inode_read_at (dir_inode x) 36 0 s;
            let e = overwrite 0 data junk;
            (i, s) \<leftarrow> inode_open (entry_sector e) s;
            Some (Some i, s) }
          else do {
            (found, s) \<leftarrow> lookup d name s;
            case found of
              Some (e, ofs) \<Rightarrow> do { (i, s) \<leftarrow> inode_open (entry_sector e) s; Some (Some i, s) }
            | None \<Rightarrow> Some (None, s) } }"

section \<open>Traversing a path\<close>

primrec walk :: "releaser \<Rightarrow> byte list \<Rightarrow> string list \<Rightarrow> nat \<Rightarrow> fs \<Rightarrow> (nat option \<times> fs) option" where
  "walk R junk [] cur s = Some (Some cur, s)"
| "walk R junk (token # ts) cur s =
     do { (p, s) \<leftarrow> dir_lookup junk cur token s;
          let (next_dir, s) = dir_open p s;
          s \<leftarrow> dir_close R (Some cur) s;
          case next_dir of None \<Rightarrow> Some (None, s) | Some n \<Rightarrow> walk R junk ts n s }"

definition dir_open_path :: "releaser \<Rightarrow> byte list \<Rightarrow> string \<Rightarrow> fs \<Rightarrow> (nat option \<times> fs) option" where
  "dir_open_path R junk path s =
     do { (p, s) \<leftarrow> (if 0 < length path \<and> path ! 0 = CHR ''/'' then dir_open_root s
                    else case cwd s of None \<Rightarrow> dir_open_root s | Some d \<Rightarrow> dir_reopen d s);
          d \<leftarrow> p;
          (p, s) \<leftarrow> walk R junk (strtok CHR ''/'' path) d s;
          case p of
            None \<Rightarrow> Some (None, s)
          | Some d \<Rightarrow> do {
              i \<leftarrow> dir_get_inode d s;
              r \<leftarrow> inode_is_removed i s;
              if r then do { s \<leftarrow> dir_close R (Some d) s; Some (None, s) } else Some (Some d, s) } }"

section \<open>Changing a directory\<close>

definition dir_create :: "allocator \<Rightarrow> releaser \<Rightarrow> u32 \<Rightarrow> nat \<Rightarrow> fs \<Rightarrow> (bool \<times> fs) option" where
  "dir_create A R sector cnt s =
     do { (ok, s) \<leftarrow> inode_create A sector (int cnt * 36) True s;
          if \<not> ok then Some (False, s)
          else do {
            (i, s) \<leftarrow> inode_open sector s;
            let (p, s) = dir_open (Some i) s;
            let e = dir_entry sector (replicate 31 0) True;
            (n, s) \<leftarrow> inode_write_at A i e 36 0 s;
            s \<leftarrow> dir_close R p s;
            Some (n = 36, s) } }"

text \<open>
  The search for a free slot reads into \<open>e\<close>, which therefore ends up as the free entry, or as the
  last entry read with the bytes of a short read over it.
\<close>

function free_slot :: "nat \<Rightarrow> byte list \<Rightarrow> int \<Rightarrow> fs \<Rightarrow> (byte list \<times> int \<times> fs) option" where
  "free_slot i e ofs s =
     do { (data, s) \<leftarrow> inode_read_at i 36 ofs s;
          let e = overwrite 0 data e;
          if length data \<noteq> ENTRY_SIZE \<or> \<not> entry_in_use e then Some (e, ofs, s)
          else free_slot i e (ofs + 36) s }"
  by pat_completeness auto
termination
  by (relation "measure (\<lambda>(i, e, ofs, s). bytes_left i ofs s)") (auto intro: bytes_left_decreases)

declare free_slot.simps [simp del]

text \<open>The entry for the parent that \<open>dir_add\<close> writes into a new directory.\<close>

definition set_parent :: "allocator \<Rightarrow> releaser \<Rightarrow> nat \<Rightarrow> u32 \<Rightarrow> byte list \<Rightarrow> fs \<Rightarrow> (bool \<times> byte list \<times> fs) option" where
  "set_parent A R d sector e s =
     do { (i, s) \<leftarrow> inode_open sector s;
          let (child, s) = dir_open (Some i) s;
          di \<leftarrow> dir_get_inode d s;
          parent \<leftarrow> inode_get_inumber di s;
          let e = dir_entry parent (entry_name e) True;
          (n, s) \<leftarrow> inode_write_at A i e 36 0 s;
          s \<leftarrow> dir_close R child s;
          Some (n = 36, e, s) }"

definition dir_add :: "allocator \<Rightarrow> releaser \<Rightarrow> byte list \<Rightarrow> nat \<Rightarrow> string \<Rightarrow> u32 \<Rightarrow> bool \<Rightarrow> fs \<Rightarrow> (bool \<times> fs) option" where
  "dir_add A R junk d name sector isdir s =
     (if name = [] \<or> NAME_MAX < length name then Some (False, s)
      else do {
        (found, s) \<leftarrow> lookup d name s;
        if found \<noteq> None then Some (False, s)
        else do {
          let e = dir_entry (entry_sector junk) (entry_name junk) True;
          (ok, e, s) \<leftarrow> (if isdir then set_parent A R d sector e s else Some (True, e, s));
          if \<not> ok then Some (False, s)
          else do {
            x \<leftarrow> dirs s d;
            (e, ofs, s) \<leftarrow> free_slot (dir_inode x) e 0 s;
            let e = dir_entry sector (strncpy name 31) True;
            (n, s) \<leftarrow> inode_write_at A (dir_inode x) e 36 ofs s;
            Some (n = 36, s) }}})"

text \<open>
  Removing a directory closes its inode twice, once through \<open>target\<close>; the model runs into the
  freed inode where the code does.
\<close>

definition dir_remove :: "allocator \<Rightarrow> releaser \<Rightarrow> nat \<Rightarrow> string \<Rightarrow> fs \<Rightarrow> (bool \<times> fs) option" where
  "dir_remove A R d name s =
     do { (found, s) \<leftarrow> lookup d name s;
          case found of
            None \<Rightarrow> Some (False, s)
          | Some (e, ofs) \<Rightarrow> do {
              (i, s) \<leftarrow> inode_open (entry_sector e) s;
              isdir \<leftarrow> inode_is_directory i s;
              (go, s) \<leftarrow> (if isdir then do {
                            let (p, s) = dir_open (Some i) s;
                            target \<leftarrow> p;
                            (empty, s) \<leftarrow> dir_is_empty target s;
                            s \<leftarrow> dir_close R (Some target) s;
                            Some (empty, s) }
                          else Some (True, s));
              (ok, s) \<leftarrow> (if go then do {
                            x \<leftarrow> dirs s d;
                            let e = dir_entry (entry_sector e) (entry_name e) False;
                            (n, s) \<leftarrow> inode_write_at A (dir_inode x) e 36 ofs s;
                            if n \<noteq> 36 then Some (False, s)
                            else do { s \<leftarrow> inode_remove i s; Some (True, s) } }
                          else Some (False, s));
              s \<leftarrow> inode_close R (Some i) s;
              Some (ok, s) } }"

section \<open>Listing\<close>

text \<open>
  The loop that \<open>dir_readdir\<close> and \<open>dir_readdir_inode\<close> share; it returns the entry and the new
  position. \<open>name_copy\<close> is what \<open>strncpy\<close> leaves in the caller's array of 31 bytes.
\<close>

definition name_copy :: "byte list \<Rightarrow> byte list" where
  "name_copy field = (let n = takeWhile (\<lambda>b. b \<noteq> 0) field in n @ replicate (length field - length n) 0)"

function readdir_from :: "nat \<Rightarrow> int \<Rightarrow> fs \<Rightarrow> (byte list option \<times> int \<times> fs) option" where
  "readdir_from i pos s =
     do { (e, s) \<leftarrow> inode_read_at i 36 pos s;
          if length e \<noteq> ENTRY_SIZE then Some (None, pos, s)
          else if entry_in_use e then Some (Some e, pos + 36, s)
          else readdir_from i (pos + 36) s }"
  by pat_completeness auto
termination
  by (relation "measure (\<lambda>(i, pos, s). bytes_left i pos s)") (auto intro: bytes_left_decreases)

declare readdir_from.simps [simp del]

definition dir_readdir :: "nat \<Rightarrow> fs \<Rightarrow> (byte list option \<times> fs) option" where
  "dir_readdir d s =
     do { x \<leftarrow> dirs s d;
          (r, pos, s) \<leftarrow> readdir_from (dir_inode x) (dir_pos x) s;
          Some (map_option (name_copy \<circ> entry_name) r, s\<lparr>dirs := (dirs s)(d \<mapsto> x\<lparr>dir_pos := pos\<rparr>)\<rparr>) }"

definition dir_readdir_inode :: "nat \<Rightarrow> fs \<Rightarrow> (u32 \<times> byte list option \<times> fs) option" where
  "dir_readdir_inode d s =
     do { x \<leftarrow> dirs s d;
          (r, pos, s) \<leftarrow> readdir_from (dir_inode x) (dir_pos x) s;
          Some (case r of None \<Rightarrow> - 1 | Some e \<Rightarrow> entry_sector e, map_option (name_copy \<circ> entry_name) r,
                s\<lparr>dirs := (dirs s)(d \<mapsto> x\<lparr>dir_pos := pos\<rparr>)\<rparr>) }"

end
