(* ===== verification/Filesys.thy ===== *)
theory Filesys
  imports Directory
begin

text \<open>
  The file system proper (\<^verbatim>\<open>src/a3/fs/filesys.c\<close>). The parameters are \<open>fuel\<close> for the free map,
  \<open>junk\<close> for uninitialised directory entries, and \<open>room\<close>: the number of bytes the compiler sets
  aside for a variable-length array of the given size. C promises only \<open>n \<le> room n\<close>; the
  functions below copy \<open>n + 1\<close> bytes into arrays of size \<open>n\<close>, so they rely on more.
\<close>

definition MAX_FILES_IN_DIRECTORY :: nat where
  "MAX_FILES_IN_DIRECTORY = 1000"

text \<open>\<open>split_path_filename\<close> into two arrays of the given size.\<close>

definition split_into :: "(nat \<Rightarrow> nat) \<Rightarrow> nat \<Rightarrow> string \<Rightarrow> (string \<times> string) option" where
  "split_into room n path =
     (let (directory, file_name) = split_path_filename path
      in if length directory < room n \<and> length file_name < room n then Some (directory, file_name) else None)"

definition do_format :: "nat \<Rightarrow> fs \<Rightarrow> fs option" where
  "do_format fuel s =
     do { s \<leftarrow> free_map_create fuel s;
          (_, s) \<leftarrow> dir_create (free_map_allocate fuel 1) (free_map_release fuel 1) ROOT_DIR_SECTOR
                     MAX_FILES_IN_DIRECTORY s;
          free_map_close fuel s }"

definition filesys_init :: "nat \<Rightarrow> block \<Rightarrow> bool \<Rightarrow> fs \<Rightarrow> fs option" where
  "filesys_init fuel dev format s =
     do { let s = s\<lparr>bc := (bc s)\<lparr>fs_device := dev\<rparr>, open_inodes := []\<rparr>;
          s \<leftarrow> free_map_init s;
          let s = s\<lparr>bc := buffer_cache_init (bc s)\<rparr>;
          s \<leftarrow> (if format then do_format fuel s else Some s);
          s \<leftarrow> free_map_open s;
          _ \<leftarrow> num_free_sectors s;
          Some (init_file_table s) }"

definition filesys_done :: "nat \<Rightarrow> fs \<Rightarrow> fs option" where
  "filesys_done fuel s =
     do { s \<leftarrow> free_map_close fuel s;
          let s = s\<lparr>bc := buffer_cache_close (bc s)\<rparr>;
          free_file_table (free_map_release fuel 1) s }"

definition filesys_create ::
    "nat \<Rightarrow> (nat \<Rightarrow> nat) \<Rightarrow> byte list \<Rightarrow> string \<Rightarrow> int \<Rightarrow> bool \<Rightarrow> fs \<Rightarrow> (bool \<times> fs) option" where
  "filesys_create fuel room junk path initial_size isdir s =
     do { let A = free_map_allocate fuel 1; let R = free_map_release fuel 1;
          (directory, file_name) \<leftarrow> split_into room (length path) path;
          (p, s) \<leftarrow> dir_open_root s;
          (success, inode_sector, s) \<leftarrow>
            (case p of
               None \<Rightarrow> Some (False, 0, s)
             | Some d \<Rightarrow> do {
                 (r, s) \<leftarrow> free_map_allocate fuel 1 s;
                 case r of
                   None \<Rightarrow> Some (False, 0, s)
                 | Some k \<Rightarrow> do {
                     (ok, s) \<leftarrow> inode_create A k initial_size isdir s;
                     (ok, s) \<leftarrow> (if ok then dir_add A R junk d file_name k isdir s else Some (False, s));
                     Some (ok, k, s) } });
          s \<leftarrow> (if \<not> success \<and> inode_sector \<noteq> 0 then free_map_release fuel 1 inode_sector s else Some s);
          s \<leftarrow> dir_close R p s;
          Some (success, s) }"

definition filesys_open :: "nat \<Rightarrow> (nat \<Rightarrow> nat) \<Rightarrow> byte list \<Rightarrow> string \<Rightarrow> fs \<Rightarrow> (nat option \<times> fs) option" where
  "filesys_open fuel room junk name s =
     (if length name = 0 then Some (None, s)
      else do {
        let R = free_map_release fuel 1;
        (directory, file_name) \<leftarrow> split_into room (length name + 1) name;
        (p, s) \<leftarrow> dir_open_root s;
        (q, s) \<leftarrow> (case p of
                     None \<Rightarrow> Some (None, s)
                   | Some d \<Rightarrow>
                       if 0 < length file_name then do {
                         (q, s) \<leftarrow> dir_lookup junk d file_name s;
                         s \<leftarrow> dir_close R p s;
                         Some (q, s) }
                       else do { i \<leftarrow> dir_get_inode d s; Some (Some i, s) });
        case q of
          None \<Rightarrow> Some (None, s)
        | Some i \<Rightarrow> do {
            r \<leftarrow> inode_is_removed i s;
            if r then Some (None, s) else Some (file_open (Some i) s) } })"

definition filesys_remove :: "nat \<Rightarrow> (nat \<Rightarrow> nat) \<Rightarrow> byte list \<Rightarrow> string \<Rightarrow> fs \<Rightarrow> (bool \<times> fs) option" where
  "filesys_remove fuel room junk name s =
     do { let A = free_map_allocate fuel 1; let R = free_map_release fuel 1;
          (directory, file_name) \<leftarrow> split_into room (length name) name;
          (p, s) \<leftarrow> dir_open_path R junk directory s;
          (success, s) \<leftarrow> (case p of None \<Rightarrow> Some (False, s) | Some d \<Rightarrow> dir_remove A R d file_name s);
          s \<leftarrow> dir_close R p s;
          Some (success, s) }"

definition filesys_chdir :: "nat \<Rightarrow> byte list \<Rightarrow> string \<Rightarrow> fs \<Rightarrow> (bool \<times> fs) option" where
  "filesys_chdir fuel junk name s =
     do { let R = free_map_release fuel 1;
          (p, s) \<leftarrow> dir_open_path R junk name s;
          case p of
            None \<Rightarrow> Some (False, s)
          | Some d \<Rightarrow> do { s \<leftarrow> dir_close R (cwd s) s; Some (True, s\<lparr>cwd := Some d\<rparr>) } }"

end
