(* ===== verification/Fsutil.thy ===== *)
theory Fsutil
  imports Filesys "HOL-Library.Sublist"
begin

text \<open>
  The commands of the shell on files (\<^verbatim>\<open>src/a3/fs/fsutil.c\<close>, \<^verbatim>\<open>src/a3/fs/fsutil2.c\<close>). What a
  command prints or writes to the host is part of its result; fixed messages are left out. The
  host is a parameter: its readable files, and the names that \<open>fopen\<close> accepts for writing.
\<close>

section \<open>The environment\<close>

text \<open>
  What the code leaves open: the fuel of the free map, the size of variable-length arrays, an
  uninitialised directory entry, the contents of fresh memory of a given size, and the names
  of host files that can be written.
\<close>

record env =
  e_fuel :: nat
  e_room :: "nat \<Rightarrow> nat"
  e_junk :: "byte list"
  e_heap :: "nat \<Rightarrow> byte list"
  e_writable :: "string \<Rightarrow> bool"

abbreviation e_alloc :: "env \<Rightarrow> allocator" where
  "e_alloc E \<equiv> free_map_allocate (e_fuel E) 1"

abbreviation e_release :: "env \<Rightarrow> releaser" where
  "e_release E \<equiv> free_map_release (e_fuel E) 1"

abbreviation e_open :: "env \<Rightarrow> string \<Rightarrow> fs \<Rightarrow> (nat option \<times> fs) option" where
  "e_open E \<equiv> filesys_open (e_fuel E) (e_room E) (e_junk E)"

text \<open>The conversion of an integer to \<open>offset_t\<close>.\<close>

definition to_offset :: "int \<Rightarrow> int" where
  "to_offset n = sint (word_of_int n :: 32 word)"

section \<open>Files by name\<close>

text \<open>The entry of the file table, opening the file and adding it to the table if there is none.\<close>

definition table_file :: "env \<Rightarrow> string \<Rightarrow> fs \<Rightarrow> (nat option \<times> fs) option" where
  "table_file E name s =
     (case get_file_by_fname name s of
        Some f \<Rightarrow> Some (Some f, s)
      | None \<Rightarrow> do {
          (p, s) \<leftarrow> e_open E name s;
          case p of None \<Rightarrow> Some (None, s) | Some f \<Rightarrow> Some (Some f, add_to_file_table f name s) })"

definition fsutil_rm :: "env \<Rightarrow> string \<Rightarrow> fs \<Rightarrow> (bool \<times> fs) option" where
  "fsutil_rm E name s =
     do { (_, s) \<leftarrow> remove_from_file_table (e_release E) name s;
          filesys_remove (e_fuel E) (e_room E) (e_junk E) name s }"

definition fsutil_create :: "env \<Rightarrow> string \<Rightarrow> int \<Rightarrow> fs \<Rightarrow> (bool \<times> fs) option" where
  "fsutil_create E fname isize s =
     (if length fname = 0 \<or> 255 \<le> length fname then Some (False, s)
      else filesys_create (e_fuel E) (e_room E) (e_junk E) fname (to_offset isize) False s)"

definition fsutil_write :: "env \<Rightarrow> string \<Rightarrow> byte list \<Rightarrow> int \<Rightarrow> fs \<Rightarrow> (int \<times> fs) option" where
  "fsutil_write E name buf size' s =
     do { (p, s) \<leftarrow> table_file E name s;
          case p of
            None \<Rightarrow> Some (- 1, s)
          | Some f \<Rightarrow> do { (n, _, s) \<leftarrow> file_write (e_alloc E) f buf (to_offset size') s; Some (n, s) } }"

text \<open>The result of a read is the count, and the bytes stored in the buffer.\<close>

definition fsutil_read :: "env \<Rightarrow> string \<Rightarrow> int \<Rightarrow> fs \<Rightarrow> (int \<times> byte list \<times> fs) option" where
  "fsutil_read E name size' s =
     do { (p, s) \<leftarrow> table_file E name s;
          case p of
            None \<Rightarrow> Some (- 1, [], s)
          | Some f \<Rightarrow> do { (data, s) \<leftarrow> file_read f (to_offset size') s; Some (int (length data), data, s) } }"

definition fsutil_size :: "env \<Rightarrow> string \<Rightarrow> fs \<Rightarrow> (int \<times> fs) option" where
  "fsutil_size E name s =
     do { (p, s) \<leftarrow> table_file E name s;
          case p of
            None \<Rightarrow> Some (- 1, s)
          | Some f \<Rightarrow> do {
              cur_offset \<leftarrow> file_tell f s;
              len \<leftarrow> file_length f s;
              s \<leftarrow> file_seek f cur_offset s;
              Some (len, s) } }"

definition fsutil_seek :: "env \<Rightarrow> string \<Rightarrow> int \<Rightarrow> fs \<Rightarrow> (int \<times> fs) option" where
  "fsutil_seek E name offset s =
     do { (p, s) \<leftarrow> table_file E name s;
          case p of
            None \<Rightarrow> Some (- 1, s)
          | Some f \<Rightarrow> do { s \<leftarrow> file_seek f offset s; Some (0, s) } }"

definition fsutil_close :: "env \<Rightarrow> string \<Rightarrow> fs \<Rightarrow> fs option" where
  "fsutil_close E name s = map_option snd (remove_from_file_table (e_release E) name s)"

definition fsutil_freespace :: "fs \<Rightarrow> int option" where
  "fsutil_freespace s = map_option int (num_free_sectors s)"

section \<open>Printing a file\<close>

text \<open>What is left to read of an open file.\<close>

definition unread :: "nat \<Rightarrow> fs \<Rightarrow> nat" where
  "unread f s = (case files s f of None \<Rightarrow> 0 | Some x \<Rightarrow> bytes_left (file_inode x) (file_pos x) s)"

lemma unread_decreases:
  assumes "file_read f n s = Some (data, s')" and "data \<noteq> []"
  shows "unread f s' < unread f s"
proof -
  from assms(1) obtain x s1 where x: "files s f = Some x"
    and r: "inode_read_at (file_inode x) n (file_pos x) s = Some (data, s1)"
    and p: "off32 (file_pos x + int (length data)) = Some (file_pos x + int (length data))"
    and s': "file_set_pos f (file_pos x + int (length data)) s1 = Some s'"
    by (auto simp: file_read_def off32_def split: bind_splits if_splits)
  from r obtain y where y: "inodes s (file_inode x) = Some y" "inodes s1 = inodes s"
    "int (length data) \<le> max 0 (dlength (i_data y) - file_pos x)"
    by (rule inode_read_at_facts)
  from r have "files s1 = files s" by (auto simp: inode_read_at_def split: bind_splits)
  moreover from assms(2) have "0 < int (length data)" by simp
  with y(3) have "file_pos x < dlength (i_data y)" by linarith
  ultimately show ?thesis using s' x y assms(2)
    by (auto simp: file_set_pos_def unread_def bytes_left_def)
qed

text \<open>The blocks that are dumped, with their positions.\<close>

function cat_loop :: "nat \<Rightarrow> int \<Rightarrow> fs \<Rightarrow> ((int \<times> byte list) list \<times> fs) option" where
  "cat_loop f size' s =
     do { pos \<leftarrow> file_tell f s;
          (data, s) \<leftarrow> file_read f size' s;
          if data = [] then Some ([], s)
          else do { (dumps, s) \<leftarrow> cat_loop f size' s; Some ((pos, data) # dumps, s) } }"
  by pat_completeness auto
termination
  by (relation "measure (\<lambda>(f, size', s). unread f s)") (auto intro: unread_decreases)

declare cat_loop.simps [simp del]

definition fsutil_cat :: "env \<Rightarrow> string \<Rightarrow> fs \<Rightarrow> (int \<times> (int \<times> byte list) list \<times> fs) option" where
  "fsutil_cat E name s =
     do { let opened = (get_file_by_fname name s = None);
          (p, s) \<leftarrow> table_file E name s;
          case p of
            None \<Rightarrow> Some (- 1, [], s)
          | Some f \<Rightarrow> do {
              cur_offset \<leftarrow> file_tell f s;
              s \<leftarrow> file_seek f 0 s;
              file_size \<leftarrow> file_length f s;
              (dumps, s) \<leftarrow> cat_loop f file_size s;
              s \<leftarrow> file_seek f cur_offset s;
              s \<leftarrow> (if opened then fsutil_close E name s else Some s);
              Some (0, dumps, s) } }"

section \<open>Listings\<close>

text \<open>
  The loop \<open>while (dir_readdir(dir, name)) \<dots>\<close> that several commands share, with the accumulated
  result of its body. The body may change the directory, so the loop need not end; \<open>None\<close> then
  stands for that as well.
\<close>

partial_function (option) each_entry ::
    "nat \<Rightarrow> (byte list \<Rightarrow> 'a \<Rightarrow> fs \<Rightarrow> ('a \<times> fs) option) \<Rightarrow> 'a \<Rightarrow> fs \<Rightarrow> ('a \<times> fs) option" where
  "each_entry d body acc s =
     do { (r, s) \<leftarrow> dir_readdir d s;
          case r of
            None \<Rightarrow> Some (acc, s)
          | Some name \<Rightarrow> do { (acc, s) \<leftarrow> body name acc s; each_entry d body acc s } }"

definition fsutil_ls :: "env \<Rightarrow> fs \<Rightarrow> (int \<times> string list \<times> fs) option" where
  "fsutil_ls E s =
     do { (p, s) \<leftarrow> dir_open_root s;
          case p of
            None \<Rightarrow> Some (1, [], s)
          | Some d \<Rightarrow> do {
              (names, s) \<leftarrow> each_entry d
                (\<lambda>name names s. do { n \<leftarrow> cstr name; Some (names @ [n], s) }) [] s;
              s \<leftarrow> dir_close (e_release E) p s;
              Some (0, names, s) } }"

section \<open>Copying from and to the host\<close>

definition copy_in :: "env \<Rightarrow> (string \<Rightarrow> byte list option) \<Rightarrow> string \<Rightarrow> fs \<Rightarrow> (int \<times> fs) option" where
  "copy_in E host fname s =
     (case host fname of
        None \<Rightarrow> Some (- 1, s)
      | Some contents \<Rightarrow> do {
          let size' = int (length contents) + 1;
          let buffer = contents @ [0];
          n \<leftarrow> fsutil_freespace s;
          freespace \<leftarrow> off32 (n * 512);
          (ok, s) \<leftarrow> fsutil_create E fname (if freespace < size' then freespace else size') s;
          if \<not> ok then Some (9, s)
          else do {
            (written, s) \<leftarrow> fsutil_write E fname buffer size' s;
            Some (if written = - 1 then 11 else 0, s) } })"

text \<open>The second component is what is written to the host file.\<close>

definition copy_out :: "env \<Rightarrow> string \<Rightarrow> fs \<Rightarrow> (int \<times> (string \<times> byte list) option \<times> fs) option" where
  "copy_out E fname s =
     do { (size', s) \<leftarrow> fsutil_size E fname s;
          n \<leftarrow> off32 (size' + 1);
          (p, s) \<leftarrow> table_file E fname s;
          case p of
            None \<Rightarrow> Some (- 1, None, s)
          | Some f \<Rightarrow>
              if n \<le> 0 then None
              else do {
                cur_offset \<leftarrow> file_tell f s;
                s \<leftarrow> file_seek f 0 s;
                (_, data, s) \<leftarrow> fsutil_read E fname size' s;
                let buffer = overwrite 0 data (replicate (nat n) 0);
                s \<leftarrow> file_seek f cur_offset s;
                if e_writable E fname
                then Some (0, Some (fname, takeWhile (\<lambda>b. b \<noteq> 0) buffer), s)
                else Some (11, None, s) } }"

section \<open>Searching file contents\<close>

definition search_entry :: "env \<Rightarrow> string \<Rightarrow> byte list \<Rightarrow> string list \<Rightarrow> fs \<Rightarrow> (string list \<times> fs) option" where
  "search_entry E pattern name found s =
     do { n \<leftarrow> cstr name;
          (p, s) \<leftarrow> e_open E n s;
          f \<leftarrow> p;
          let s = add_to_file_table f n s;
          (size', s) \<leftarrow> fsutil_size E n s;
          cur_offset \<leftarrow> file_tell f s;
          s \<leftarrow> file_seek f 0 s;
          (data, s) \<leftarrow> file_read f (to_offset size') s;
          s \<leftarrow> file_seek f cur_offset s;
          if size' < 0 then None
          else do {
            let buffer = overwrite 0 data (e_heap E (nat size')) @ [0];
            text \<leftarrow> cstr buffer;
            s \<leftarrow> fsutil_close E n s;
            Some (if sublist pattern text then found @ [n] else found, s) } }"

definition find_file :: "env \<Rightarrow> string \<Rightarrow> fs \<Rightarrow> (string list \<times> fs) option" where
  "find_file E pattern s =
     do { (p, s) \<leftarrow> dir_open_root s;
          d \<leftarrow> p;
          (found, s) \<leftarrow> each_entry d (search_entry E pattern) [] s;
          s \<leftarrow> dir_close (e_release E) p s;
          Some (found, s) }"

section \<open>Fragmentation\<close>

text \<open>Whether two neighbouring sectors of a file are more than 3 apart, going up.\<close>

primrec jumps :: "int \<Rightarrow> u32 list \<Rightarrow> bool option" where
  "jumps previous [] = Some False"
| "jumps previous (x # xs) =
     do { gap \<leftarrow> off32 (sint x - previous);
          if 3 < gap then Some True else jumps (sint x) xs }"

definition count_fragments :: "env \<Rightarrow> byte list \<Rightarrow> nat \<times> nat \<Rightarrow> fs \<Rightarrow> ((nat \<times> nat) \<times> fs) option" where
  "count_fragments E name counts s =
     do { n \<leftarrow> cstr name;
          (p, s) \<leftarrow> e_open E n s;
          case p of
            None \<Rightarrow> Some (counts, s)
          | Some f \<Rightarrow> do {
              len \<leftarrow> file_length f s;
              let total = c_div len 512;
              (counts, s) \<leftarrow>
                (if 1 < total then do {
                   i \<leftarrow> file_get_inode f s;
                   x \<leftarrow> inodes s i;
                   (sectors, c) \<leftarrow> get_inode_data_sectors (i_data x) (bc s);
                   ws \<leftarrow> sectors;
                   if length ws < nat total then None
                   else do {
                     frag \<leftarrow> jumps (sint (ws ! 0)) (take (nat total - 1) (drop 1 ws));
                     Some ((fst counts + 1, snd counts + of_bool frag), s\<lparr>bc := c\<rparr>) } }
                 else Some (counts, s));
              s \<leftarrow> file_close (e_release E) (Some f) s;
              Some (counts, s) } }"

text \<open>
  The loop tests its condition at the end, so its first round uses the array for the name as
  it is: \<open>name\<close>. The result is the number of fragmentable and of fragmented files.
\<close>

definition fragmentation_degree :: "env \<Rightarrow> byte list \<Rightarrow> fs \<Rightarrow> ((nat \<times> nat) \<times> fs) option" where
  "fragmentation_degree E name s =
     do { (p, s) \<leftarrow> dir_open_root s;
          (counts, s) \<leftarrow> count_fragments E name (0, 0) s;
          d \<leftarrow> p;
          (counts, s) \<leftarrow> each_entry d (count_fragments E) counts s;
          s \<leftarrow> dir_close (e_release E) p s;
          Some (counts, s) }"

section \<open>Defragmentation\<close>

text \<open>
  The files saved in memory: name, contents and size. A negative size, for which \<open>malloc\<close> would
  fail, is \<open>None\<close>.
\<close>

type_synonym file_data = "byte list \<times> byte list \<times> int"

definition save_entry :: "env \<Rightarrow> nat \<Rightarrow> byte list \<Rightarrow> file_data list \<Rightarrow> fs \<Rightarrow> (file_data list \<times> fs) option" where
  "save_entry E d name saved s =
     do { n \<leftarrow> cstr name;
          (p, s) \<leftarrow> dir_lookup (e_junk E) d n s;
          case p of
            None \<Rightarrow> Some (saved, s)
          | Some i \<Rightarrow> do {
              isdir \<leftarrow> inode_is_directory i s;
              if isdir then do { s \<leftarrow> inode_close (e_release E) (Some i) s; Some (saved, s) }
              else do {
                file_size \<leftarrow> inode_length i s;
                if file_size < 0 then None
                else do {
                  (data, s) \<leftarrow> inode_read_at i file_size 0 s;
                  let buffer = overwrite 0 data (e_heap E (nat file_size));
                  let kept = name_copy (take NAME_MAX name) @ drop NAME_MAX (e_heap E (NAME_MAX + 1));
                  s \<leftarrow> inode_close (e_release E) (Some i) s;
                  (_, s) \<leftarrow> fsutil_rm E n s;
                  Some (saved @ [(kept, buffer, file_size)], s) } } } }"

primrec restore_files :: "env \<Rightarrow> file_data list \<Rightarrow> fs \<Rightarrow> (int \<times> fs) option" where
  "restore_files E [] s = Some (0, s)"
| "restore_files E (x # xs) s =
     do { n \<leftarrow> cstr (fst x);
          (ok, s) \<leftarrow> fsutil_create E n (snd (snd x)) s;
          if ok then do {
            (written, s) \<leftarrow> fsutil_write E n (fst (snd x)) (snd (snd x)) s;
            if written = - 1 then Some (11, s) else restore_files E xs s }
          else Some (9, s) }"

definition defragment :: "env \<Rightarrow> fs \<Rightarrow> (int \<times> fs) option" where
  "defragment E s =
     do { (p, s) \<leftarrow> dir_open_root s;
          d \<leftarrow> p;
          (saved, s) \<leftarrow> each_entry d (save_entry E d) [] s;
          s \<leftarrow> dir_close (e_release E) p s;
          restore_files E saved s }"

section \<open>Recovery\<close>

text \<open>
  Names are built by \<open>snprintf\<close> into arrays of 31 bytes, so they keep 30 characters. The files
  written on the host are collected, in order.
\<close>

type_synonym host_write = "string \<times> byte list"

definition write_host :: "env \<Rightarrow> string \<Rightarrow> byte list \<Rightarrow> host_write list \<Rightarrow> host_write list" where
  "write_host E name data out = (if e_writable E name then out @ [(name, data)] else out)"

text \<open>Flag 0: the inodes in free sectors become directory entries.\<close>

primrec recover_inodes :: "env \<Rightarrow> nat \<Rightarrow> nat list \<Rightarrow> fs \<Rightarrow> fs option" where
  "recover_inodes E d [] s = Some s"
| "recover_inodes E d (i # is) s =
     do { used \<leftarrow> bitmap_test (free_map s) i;
          if used then recover_inodes E d is s
          else do {
            let (blk, s) = cread (of_nat i) s;
            s \<leftarrow> (if magic (decode_inode blk) = INODE_MAGIC then do {
                    (ok, s) \<leftarrow> dir_add (e_alloc E) (e_release E) (e_junk E) d
                                 (take NAME_MAX (''recovered0-'' @ decimal i)) (of_nat i) False s;
                    if ok then do { b \<leftarrow> bitmap_set (free_map s) i True; Some (s\<lparr>free_map := b\<rparr>) }
                    else Some s }
                  else Some s);
            recover_inodes E d is s } }"

text \<open>Flag 1: every sector from 4 on that is not all zeros, up to its first zero byte.\<close>

primrec recover_blocks :: "env \<Rightarrow> nat list \<Rightarrow> host_write list \<Rightarrow> fs \<Rightarrow> host_write list \<times> fs" where
  "recover_blocks E [] out s = (out, s)"
| "recover_blocks E (i # is) out s =
     (let (blk, s) = cread (of_nat i) s
      in recover_blocks E is
           (if blk = zeros then out
            else write_host E (take NAME_MAX (''recovered1-'' @ decimal i @ ''.txt'')) (takeWhile (\<lambda>b. b \<noteq> 0) blk) out)
           s)"

text \<open>
  Flag 2: the range of a block, from \<open>start\<close> on, between its first and its last non-zero byte;
  the two ends are equal when there is none.
\<close>

definition hidden_range :: "byte list \<Rightarrow> nat \<Rightarrow> nat \<times> nat" where
  "hidden_range blk start =
     (case List.find (\<lambda>y. blk ! y \<noteq> 0) [start..<512] of
        None \<Rightarrow> (start, foldl (\<lambda>e z. if blk ! z \<noteq> 0 then z + 1 else e) start [start + 1..<512])
      | Some y \<Rightarrow> (y, foldl (\<lambda>e z. if blk ! z \<noteq> 0 then z + 1 else e) (y + 1) [y + 1..<512]))"

primrec hidden_blocks :: "env \<Rightarrow> string \<Rightarrow> int \<Rightarrow> u32 list \<Rightarrow> nat list \<Rightarrow> host_write list \<Rightarrow> fs \<Rightarrow> (host_write list \<times> fs) option" where
  "hidden_blocks E name len ws [] out s = Some (out, s)"
| "hidden_blocks E name len ws (x # xs) out s =
     (if x < length ws then
        let (blk, s) = cread (ws ! x) s;
            (start, end') = hidden_range blk (if xs = [] then nat (c_rem len 512) else 512)
        in hidden_blocks E name len ws xs
             (if start \<noteq> end' then
                write_host E (take NAME_MAX (''recovered2-'' @ name @ ''.txt'')) (take (end' - start) (drop start blk)) out
              else out) s
      else None)"

definition recover_past_end :: "env \<Rightarrow> nat \<Rightarrow> string \<Rightarrow> host_write list \<Rightarrow> fs \<Rightarrow> (host_write list \<times> fs) option" where
  "recover_past_end E f name out s =
     do { len \<leftarrow> file_length f s;
          let count = c_div (len + 512 - 1) 512;
          fl \<leftarrow> files s f;
          x \<leftarrow> inodes s (file_inode fl);
          (sectors, c) \<leftarrow> get_inode_data_sectors (i_data x) (bc s);
          hidden_blocks E name len (case sectors of None \<Rightarrow> [] | Some ws \<Rightarrow> ws) [0..<nat count] out (s\<lparr>bc := c\<rparr>) }"

definition hidden_entry :: "env \<Rightarrow> byte list \<Rightarrow> host_write list \<Rightarrow> fs \<Rightarrow> (host_write list \<times> fs) option" where
  "hidden_entry E name out s =
     do { n \<leftarrow> cstr name;
          (p, s) \<leftarrow> e_open E n s;
          case p of
            None \<Rightarrow> Some (out, s)
          | Some f \<Rightarrow> do {
              (out, s) \<leftarrow> recover_past_end E f n out s;
              s \<leftarrow> file_close (e_release E) (Some f) s;
              Some (out, s) } }"

definition recover :: "env \<Rightarrow> int \<Rightarrow> fs \<Rightarrow> (host_write list \<times> fs) option" where
  "recover E flag s =
     do { let size' = bitmap_size (free_map s);
          if flag = 0 then do {
            (p, s) \<leftarrow> dir_open_root s;
            d \<leftarrow> p;
            s \<leftarrow> recover_inodes E d [0..<size'] s;
            s \<leftarrow> dir_close (e_release E) p s;
            Some ([], s) }
          else if flag = 1 then Some (recover_blocks E [4..<size'] [] s)
          else if flag = 2 then do {
            (p, s) \<leftarrow> dir_open_root s;
            d \<leftarrow> p;
            (out, s) \<leftarrow> each_entry d (hidden_entry E) [] s;
            s \<leftarrow> dir_close (e_release E) p s;
            Some (out, s) }
          else Some ([], s) }"

end
