(* ===== verification/Example.thy ===== *)
theory Example
  imports Inode
begin

text \<open>
  A small file system for the examples: eight sectors of zeros, of which sector 0 holds the inode
  of the free map, sector 2 its contents, sector 3 the inode of a file of 20 bytes and sector 4
  its contents; sectors 5 to 7 are free.
\<close>

definition example_disk :: bcache where
  "example_disk = buffer_cache_init
     \<lparr>cache = replicate BUFFER_CACHE_SIZE \<lparr>occupied = False, disk_sector = 0, buffer = replicate 512 0,
        dirty = False, access = False\<rparr>, clock = 0,
      fs_device = block_register ''hda'' ''disk'' 8 Ide_driver, image = replicate 4096 0\<rparr>"

lemma example_disk_ok: "cache_ok example_disk"
  unfolding example_disk_def by (rule buffer_cache_init_ok) (simp_all add: BUFFER_CACHE_SIZE_def)

lemma example_disk_valid: "sector_valid example_disk k \<longleftrightarrow> unat k < 8"
  by (auto simp: example_disk_def buffer_cache_init_def sector_valid_def block_register_def dev_valid_def in_image_def)

lemma example_disk_view: "unat k < 8 \<Longrightarrow> cache_view example_disk k = zeros"
  unfolding example_disk_def zeros_def
  by (subst buffer_cache_init_ok)
    (simp_all add: BUFFER_CACHE_SIZE_def on_disk_def dev_sector_def block_register_def min_def)

text \<open>The inode of a file that fits into one block.\<close>

definition one_block :: "u32 \<Rightarrow> int \<Rightarrow> inode_disk" where
  "one_block k len = inode_disk_zero\<lparr>direct_blocks := k # replicate 122 0, dlength := len, magic := INODE_MAGIC\<rparr>"

lemma one_block_blocks: "0 < len \<Longrightarrow> len \<le> 512 \<Longrightarrow> blocks_of (one_block k len) = 1"
proof -
  assume "0 < len" "len \<le> 512"
  then have "nat len + 511 = 512 + (nat len - 1)" "nat len - 1 < 512" by linarith+
  then have "(nat len + 511) div 512 = 1" by simp
  then show ?thesis by (simp add: blocks_of_def one_block_def inode_disk_zero_def)
qed

lemma one_block_ok:
  assumes "sector_valid c k" and "k \<noteq> - 1" and "0 < len" and "len \<le> 512"
  shows "file_ok c (one_block k len)" and "sectors_of c (one_block k len) = {k}"
  using assms
  by (simp_all add: file_ok_def layout_ok_def sectors_of_def one_block_blocks meta_sectors_def data_sector_def
      inode_disk_ok_def MAX_BLOCKS_def lessThan_Suc)
    (simp_all add: one_block_def inode_disk_zero_def)

lemma one_block_content:
  assumes "unat k < 8" and "0 < len" and "len \<le> 512"
  shows "content (cache_view example_disk) (one_block k len) = replicate (nat len) 0"
proof (rule nth_equalityI)
  fix i assume "i < length (content (cache_view example_disk) (one_block k len))"
  then have "i < nat len" "i < 512" using assms(3) by (simp_all add: one_block_def inode_disk_zero_def)
  moreover have "cache_view example_disk k = zeros" by (rule example_disk_view [OF assms(1)])
  ultimately show "content (cache_view example_disk) (one_block k len) ! i = replicate (nat len) 0 ! i"
    by (simp add: content_def byte_at_def data_sector_def one_block_def inode_disk_zero_def zeros_def)
qed (simp add: one_block_def inode_disk_zero_def)

definition example_fs :: fs where
  "example_fs = \<lparr>bc = example_disk, free_map = \<lparr>bit_cnt = 8, bits = [31]\<rparr>, free_map_file = Some 0,
     inodes = [0 \<mapsto> \<lparr>i_sector = 0, open_cnt = 1, i_removed = False, deny_write_cnt = 0, i_data = one_block 2 8\<rparr>,
               4 \<mapsto> \<lparr>i_sector = 3, open_cnt = 1, i_removed = False, deny_write_cnt = 0, i_data = one_block 4 20\<rparr>],
     open_inodes = [4, 0],
     files = [0 \<mapsto> \<lparr>file_inode = 0, file_pos = 0, file_denies = False\<rparr>,
              7 \<mapsto> \<lparr>file_inode = 4, file_pos = 0, file_denies = False\<rparr>],
     file_table = [(''notes'', 7)], dirs = Map.empty, cwd = None, next_ref = 8\<rparr>"

lemma example_fs_sel [simp]:
  "bc example_fs = example_disk" "free_map example_fs = \<lparr>bit_cnt = 8, bits = [31]\<rparr>"
  "free_map_file example_fs = Some 0"
  "inodes example_fs 0 = Some \<lparr>i_sector = 0, open_cnt = 1, i_removed = False, deny_write_cnt = 0, i_data = one_block 2 8\<rparr>"
  "inodes example_fs 4 = Some \<lparr>i_sector = 3, open_cnt = 1, i_removed = False, deny_write_cnt = 0, i_data = one_block 4 20\<rparr>"
  "files example_fs 0 = Some \<lparr>file_inode = 0, file_pos = 0, file_denies = False\<rparr>"
  "files example_fs 7 = Some \<lparr>file_inode = 4, file_pos = 0, file_denies = False\<rparr>"
  "file_table example_fs = [(''notes'', 7)]" "open_inodes example_fs = [4, 0]"
  by (simp_all add: example_fs_def)

end
