(* ===== verification/File_Commands.thy ===== *)
theory File_Commands
  imports Fsutil Example
begin

text \<open>
  The commands on files that are open, seen through an abstraction: an open file is a position and a
  sequence of bytes, and the file table a map from names to these. Every sequence of the commands
  \<^verbatim>\<open>size\<close>, \<^verbatim>\<open>seek\<close>, \<^verbatim>\<open>read\<close>, \<^verbatim>\<open>write\<close> inside the file, \<^verbatim>\<open>cat\<close> and \<^verbatim>\<open>copy_out\<close> answers as this map does.
\<close>

section \<open>Open files\<close>

definition opened :: "fs \<Rightarrow> string \<Rightarrow> (nat \<times> ofile \<times> inode) option" where
  "opened s name =
     do { f \<leftarrow> get_file_by_fname name s; fl \<leftarrow> files s f; n \<leftarrow> inodes s (file_inode fl); Some (f, fl, n) }"

definition bytes_of :: "fs \<Rightarrow> inode \<Rightarrow> byte list" where
  "bytes_of s n = content (cache_view (bc s)) (i_data n)"

definition open_view :: "fs \<Rightarrow> string \<Rightarrow> (int \<times> byte list) option" where
  "open_view s name = map_option (\<lambda>(f, fl, n). (file_pos fl, bytes_of s n)) (opened s name)"

text \<open>Every name in the table is an open file that may be written, and different names have nothing in common.\<close>

definition open_ok :: "fs \<Rightarrow> bool" where
  "open_ok s \<longleftrightarrow> cache_ok (bc s) \<and> (\<forall>name. get_file_by_fname name s \<noteq> None \<longrightarrow> opened s name \<noteq> None) \<and>
     (\<forall>name f fl n. opened s name = Some (f, fl, n) \<longrightarrow> file_ok (bc s) (i_data n) \<and> deny_write_cnt n = 0) \<and>
     (\<forall>name f fl n name' f' fl' n'. opened s name = Some (f, fl, n) \<longrightarrow> opened s name' = Some (f', fl', n') \<longrightarrow> name \<noteq> name' \<longrightarrow>
        f \<noteq> f' \<and> sectors_of (bc s) (i_data n) \<inter> sectors_of (bc s) (i_data n') = {})"

lemma open_okD:
  assumes "open_ok s"
  shows "cache_ok (bc s)" "get_file_by_fname name s \<noteq> None \<Longrightarrow> opened s name \<noteq> None"
    "opened s name = Some (f, fl, n) \<Longrightarrow> file_ok (bc s) (i_data n)"
    "opened s name = Some (f, fl, n) \<Longrightarrow> deny_write_cnt n = 0"
    "opened s name = Some (f, fl, n) \<Longrightarrow> opened s name' = Some (f', fl', n') \<Longrightarrow> name \<noteq> name' \<Longrightarrow>
      f \<noteq> f' \<and> sectors_of (bc s) (i_data n) \<inter> sectors_of (bc s) (i_data n') = {}"
  using assms unfolding open_ok_def by blast+

lemma openedD:
  assumes "opened s name = Some (f, fl, n)"
  shows "get_file_by_fname name s = Some f" "files s f = Some fl" "inodes s (file_inode fl) = Some n"
  using assms by (auto simp: opened_def split: bind_splits)

lemma open_viewE:
  assumes "open_view s name = Some (p, xs)"
  obtains f fl n where "opened s name = Some (f, fl, n)" "file_pos fl = p" "bytes_of s n = xs"
  using assms by (auto simp: open_view_def)

text \<open>The position of one file and the contents of its sectors are changed.\<close>

definition change_file :: "nat \<Rightarrow> ofile \<Rightarrow> int \<Rightarrow> bcache \<Rightarrow> fs \<Rightarrow> fs" where
  "change_file f fl p c s = s\<lparr>bc := c, files := (files s)(f \<mapsto> fl\<lparr>file_pos := p\<rparr>)\<rparr>"

lemma change_file_facts [simp]:
  "bc (change_file f fl p c s) = c" "files (change_file f fl p c s) f = Some (fl\<lparr>file_pos := p\<rparr>)"
  "inodes (change_file f fl p c s) = inodes s" "get_file_by_fname name (change_file f fl p c s) = get_file_by_fname name s"
  "change_file f fl q d (change_file f fl p c s) = change_file f fl q d s"
  "change_file f (fl\<lparr>file_pos := q\<rparr>) p c s = change_file f fl p c s"
  by (simp_all add: change_file_def get_file_by_fname_def)

lemma change_file_view:
  fixes p :: int
  assumes ok: "open_ok s" and o: "opened s name = Some (f, fl, n)"
    and W: "within (sectors_of (bc s) (i_data n)) (bc s) c"
    and F: "file_ok c (i_data n)" "sectors_of c (i_data n) = sectors_of (bc s) (i_data n)"
  defines "s' \<equiv> change_file f fl p c s"
  shows "open_ok s'" and "open_view s' = (open_view s)(name \<mapsto> (p, content (cache_view c) (i_data n)))"
    and "opened s' name = Some (f, fl\<lparr>file_pos := p\<rparr>, n)"
proof -
  note D = open_okD [OF ok]
  show self: "opened s' name = Some (f, fl\<lparr>file_pos := p\<rparr>, n)"
    using openedD [OF o] by (simp add: opened_def s'_def)
  have other: "opened s' m = opened s m" if "m \<noteq> name" for m
  proof (cases "get_file_by_fname m s")
    case None
    then show ?thesis by (simp add: opened_def s'_def)
  next
    case (Some g)
    then obtain gl k where g: "opened s m = Some (g, gl, k)" using D(2) [of m] by (auto simp: opened_def split: bind_splits)
    then have "g \<noteq> f" using D(5) [OF g o that] by simp
    then show ?thesis using openedD [OF g] g by (simp add: opened_def s'_def change_file_def get_file_by_fname_def)
  qed
  have keep: "file_ok c (i_data k) \<and> content (cache_view c) (i_data k) = content (cache_view (bc s)) (i_data k) \<and>
      sectors_of c (i_data k) = sectors_of (bc s) (i_data k)" if "opened s m = Some (g, gl, k)" "m \<noteq> name" for m g gl k
    using file_within [OF D(3) [OF that(1)] W] D(5) [OF that(1) o that(2)] by blast
  show "open_view s' = (open_view s)(name \<mapsto> (p, content (cache_view c) (i_data n)))"
  proof
    fix m
    show "open_view s' m = ((open_view s)(name \<mapsto> (p, content (cache_view c) (i_data n)))) m"
    proof (cases "m = name")
      case True
      then show ?thesis using self by (simp add: open_view_def bytes_of_def s'_def)
    next
      case False
      then show ?thesis using other [OF False] keep [OF _ False]
        by (cases "opened s m") (auto simp: open_view_def bytes_of_def s'_def)
    qed
  qed
  have all: "file_ok c (i_data k) \<and> deny_write_cnt k = 0 \<and> sectors_of c (i_data k) = sectors_of (bc s) (i_data k) \<and>
      (\<exists>gl'. opened s m = Some (g, gl', k))" if "opened s' m = Some (g, gl, k)" for m g gl k
  proof (cases "m = name")
    case True
    then show ?thesis using that self F o D(4) [OF o] by auto
  next
    case False
    then have m: "opened s m = Some (g, gl, k)" using that other by simp
    then show ?thesis using keep [OF m False] D(4) [OF m] by blast
  qed
  show "open_ok s'"
    unfolding open_ok_def
  proof (intro conjI allI impI)
    show "cache_ok (bc s')" using withinD(1) [OF W] by (simp add: s'_def)
  next
    fix m assume "get_file_by_fname m s' \<noteq> None"
    then show "opened s' m \<noteq> None" using D(2) [of m] other [of m] self by (cases "m = name") (simp_all add: s'_def)
  next
    fix m g gl k assume "opened s' m = Some (g, gl, k)"
    then show "file_ok (bc s') (i_data k)" "deny_write_cnt k = 0" using all by (auto simp: s'_def)
  next
    fix m g gl k m' g' gl' k'
    assume "opened s' m = Some (g, gl, k)" "opened s' m' = Some (g', gl', k')" "m \<noteq> m'"
    with all obtain hl hl' where "opened s m = Some (g, hl, k)" "opened s m' = Some (g', hl', k')"
      "sectors_of c (i_data k) = sectors_of (bc s) (i_data k)" "sectors_of c (i_data k') = sectors_of (bc s) (i_data k')" by metis
    then show "g \<noteq> g'" "sectors_of (bc s') (i_data k) \<inter> sectors_of (bc s') (i_data k') = {}"
      using D(5) \<open>m \<noteq> m'\<close> by (auto simp: s'_def)
  qed
qed

lemma change_file_keeps:
  fixes p :: int
  assumes ok: "open_ok s" and o: "opened s name = Some (f, fl, n)" and K: "keeps (bc s) c"
  shows "open_ok (change_file f fl p c s)" and "open_view (change_file f fl p c s) = (open_view s)(name \<mapsto> (p, bytes_of s n))"
    and "opened (change_file f fl p c s) name = Some (f, fl\<lparr>file_pos := p\<rparr>, n)"
    and "bytes_of (change_file f fl p c s) n = bytes_of s n"
proof -
  note F = open_okD(3) [OF ok o]
  have W0: "within {} (bc s) c" using K by (simp add: within_empty)
  have W: "within (sectors_of (bc s) (i_data n)) (bc s) c" using K by (rule keeps_within)
  note S = file_within [OF F W0]
  note C = change_file_view [OF ok o W, where p = p]
  show "open_ok (change_file f fl p c s)" using C(1) S by simp
  show "open_view (change_file f fl p c s) = (open_view s)(name \<mapsto> (p, bytes_of s n))" using C(2) S by (simp add: bytes_of_def)
  show "opened (change_file f fl p c s) name = Some (f, fl\<lparr>file_pos := p\<rparr>, n)" using C(3) S by simp
  show "bytes_of (change_file f fl p c s) n = bytes_of s n" using S by (simp add: bytes_of_def)
qed

section \<open>Reading, writing and printing\<close>

lemma file_set_pos_change:
  assumes "files s f = Some fl"
  shows "file_set_pos f p (s\<lparr>bc := c\<rparr>) = Some (change_file f fl p c s)" and "file_set_pos f p s = Some (change_file f fl p (bc s) s)"
  using assms by (simp_all add: file_set_pos_def change_file_def)

lemma bytes_length:
  assumes "open_ok s" and "opened s name = Some (f, fl, n)"
  shows "int (length (bytes_of s n)) = dlength (i_data n)" and "length (bytes_of s n) < 2 ^ 31"
  using file_okD(1,2) [OF open_okD(3) [OF assms]] by (simp_all add: bytes_of_def)

lemma read_open:
  assumes ok: "open_ok s" and o: "opened s name = Some (f, fl, n)" and p: "file_pos fl = int p" "p < 2 ^ 31"
  shows "\<exists>c. file_read f (int k) s =
      Some (take k (drop p (bytes_of s n)), change_file f fl (int (p + length (take k (drop p (bytes_of s n))))) c s) \<and> keeps (bc s) c"
proof -
  let ?data = "take k (drop p (bytes_of s n))"
  note O = openedD [OF o]
  from inode_read_at_eq [OF O(3) open_okD(1) [OF ok] open_okD(3) [OF ok o] p(2), of k] obtain c where
    c: "inode_read_at (file_inode fl) (int k) (int p) s = Some (?data, s\<lparr>bc := c\<rparr>)" "keeps (bc s) c"
    by (auto simp: bytes_of_def)
  have "p + length ?data < 2 ^ 31" using p(2) bytes_length(2) [OF ok o] by (cases "p < length (bytes_of s n)") auto
  then have "off32 (int p + int (length ?data)) = Some (int (p + length ?data))" by (simp add: off32_def)
  then have "file_read f (int k) s = Some (?data, change_file f fl (int (p + length ?data)) c s)"
    using O(2) p(1) c(1) file_set_pos_change(1) [OF O(2)] by (simp add: file_read_def)
  then show ?thesis using c(2) by blast
qed

text \<open>A write inside the file; it stores a zero in the last byte and moves two bytes short.\<close>

lemma write_open:
  assumes ok: "open_ok s" and o: "opened s name = Some (f, fl, n)" and p: "file_pos fl = int p"
    and k: "buf \<noteq> []" "p + length buf \<le> length (bytes_of s n)"
  shows "\<exists>c. file_write A f buf (int (length buf)) s =
      Some (int (length buf), buf[length buf - 1 := 0], change_file f fl (int (p + length buf) - 2) c s) \<and>
    within (sectors_of (bc s) (i_data n)) (bc s) c \<and> file_ok c (i_data n) \<and> sectors_of c (i_data n) = sectors_of (bc s) (i_data n) \<and>
    content (cache_view c) (i_data n) = overwrite p (buf[length buf - 1 := 0]) (bytes_of s n)"
proof -
  let ?buf = "buf[length buf - 1 := 0]" and ?k = "length buf"
  note O = openedD [OF o] and D = open_okD [OF ok] and B = bytes_length [OF ok o]
  have "p + ?k \<le> nat (dlength (i_data n))" "0 < p + ?k" "?k \<le> length ?buf" using k B(1) by auto
  from inode_write_at_inside [OF O(3) D(4) [OF o] D(1) D(3) [OF o] this] obtain c where
    c: "inode_write_at A (file_inode fl) ?buf (int ?k) (int p) s = Some (int ?k, s\<lparr>bc := c\<rparr>)"
      "within (sectors_of (bc s) (i_data n)) (bc s) c" "file_ok c (i_data n)" "sectors_of c (i_data n) = sectors_of (bc s) (i_data n)"
      "content (cache_view c) (i_data n) = overwrite p ?buf (bytes_of s n)" by (auto simp: bytes_of_def)
  have "off32 (int p + (int ?k - 2)) = Some (int (p + ?k) - 2)" using k(2) B(2) by (simp add: off32_def)
  moreover have "nat (int ?k - 1) = ?k - 1" by simp
  ultimately have "file_write A f buf (int ?k) s = Some (int ?k, ?buf, change_file f fl (int (p + ?k) - 2) c s)"
    using k(1) O(2) p c(1) file_set_pos_change(1) [OF O(2)] by (simp add: file_write_def Suc_le_eq)
  with c(2-5) show ?thesis by blast
qed

text \<open>Printing reads the file in one piece, and once more to see its end.\<close>

lemma cat_open:
  assumes ok: "open_ok s" and o: "opened s name = Some (f, fl, n)" and p: "file_pos fl = 0"
  shows "\<exists>c q. cat_loop f (int (length (bytes_of s n))) s =
      Some (if bytes_of s n = [] then [] else [(0, bytes_of s n)], change_file f fl q c s) \<and> keeps (bc s) c"
proof -
  let ?xs = "bytes_of s n"
  note O = openedD [OF o]
  from read_open [OF ok o, of 0 "length ?xs"] p obtain c where
    c: "file_read f (int (length ?xs)) s = Some (?xs, change_file f fl (int (length ?xs)) c s)" "keeps (bc s) c" by auto
  have tell: "file_tell f s = Some 0" using O(2) p by (simp add: file_tell_def)
  show ?thesis
  proof (cases "?xs = []")
    case True
    then show ?thesis using tell c
      by (intro exI [of _ c] exI [of _ "int (length ?xs)"], subst cat_loop.simps) simp
  next
    case False
    let ?t = "change_file f fl (int (length ?xs)) c s" and ?fl = "fl\<lparr>file_pos := int (length ?xs)\<rparr>"
    note K = change_file_keeps [OF ok o c(2), of "int (length ?xs)"]
    from read_open [OF K(1,3) _ bytes_length(2) [OF ok o], of "length ?xs"] K(4) obtain d where
      d: "file_read f (int (length ?xs)) ?t = Some ([], change_file f ?fl (int (length ?xs)) d ?t)" "keeps (bc ?t) d" by auto
    have "file_tell f ?t = Some (int (length ?xs))" by (simp add: file_tell_def)
    then have "cat_loop f (int (length ?xs)) ?t = Some ([], change_file f fl (int (length ?xs)) d s)"
      using d(1) by (subst cat_loop.simps) simp
    then have "cat_loop f (int (length ?xs)) s = Some ([(0, ?xs)], change_file f fl (int (length ?xs)) d s)"
      using tell c(1) False by (subst cat_loop.simps) simp
    moreover have "keeps (bc s) d" using keeps_trans [OF c(2)] d(2) by simp
    ultimately show ?thesis using False by auto
  qed
qed

section \<open>Sequences of commands\<close>

datatype file_command = Size | Seek int | Read nat | Write "byte list" | Cat | Copy_out

datatype response = Number int | Bytes int "byte list" | Dump int "(int \<times> byte list) list" | Copied int "(string \<times> byte list) option"

definition run_file_command :: "env \<Rightarrow> string \<Rightarrow> file_command \<Rightarrow> fs \<Rightarrow> (response \<times> fs) option" where
  "run_file_command E name c s =
     (case c of
        Size \<Rightarrow> map_option (\<lambda>(n, s). (Number n, s)) (fsutil_size E name s)
      | Seek q \<Rightarrow> map_option (\<lambda>(n, s). (Number n, s)) (fsutil_seek E name q s)
      | Read k \<Rightarrow> map_option (\<lambda>(n, data, s). (Bytes n data, s)) (fsutil_read E name (int k) s)
      | Write buf \<Rightarrow> map_option (\<lambda>(n, s). (Number n, s)) (fsutil_write E name buf (int (length buf)) s)
      | Cat \<Rightarrow> map_option (\<lambda>(n, dumps, s). (Dump n dumps, s)) (fsutil_cat E name s)
      | Copy_out \<Rightarrow> map_option (\<lambda>(n, copy, s). (Copied n copy, s)) (copy_out E name s))"

primrec run_file_commands :: "env \<Rightarrow> (string \<times> file_command) list \<Rightarrow> fs \<Rightarrow> (response list \<times> fs) option" where
  "run_file_commands E [] s = Some ([], s)"
| "run_file_commands E (x # xs) s =
     do { (r, s) \<leftarrow> run_file_command E (fst x) (snd x) s;
          (rs, s) \<leftarrow> run_file_commands E xs s;
          Some (r # rs, s) }"

text \<open>
  The same on a position and a sequence of bytes; \<open>None\<close> where nothing is promised: reading and
  writing at a negative position, and writing past the end. A write stores a zero as its last byte
  and leaves the position two bytes short of its end; a copy for the host ends at the first zero.
\<close>

definition written :: "byte list \<Rightarrow> byte list" where
  "written buf = buf[length buf - 1 := 0]"

fun file_step :: "(string \<Rightarrow> bool) \<Rightarrow> string \<Rightarrow> file_command \<Rightarrow> int \<times> byte list \<Rightarrow> (response \<times> int \<times> byte list) option" where
  "file_step W name Size (p, xs) = Some (Number (int (length xs)), p, xs)"
| "file_step W name (Seek q) (p, xs) = Some (Number 0, q, xs)"
| "file_step W name (Read k) (p, xs) =
     (if 0 \<le> p \<and> p < 2 ^ 31 \<and> k < 2 ^ 31 then
        let data = take k (drop (nat p) xs) in Some (Bytes (int (length data)) data, p + int (length data), xs)
      else None)"
| "file_step W name (Write buf) (p, xs) =
     (if 0 \<le> p \<and> buf \<noteq> [] \<and> p + int (length buf) \<le> int (length xs)
      then Some (Number (int (length buf)), p + int (length buf) - 2, overwrite (nat p) (written buf) xs) else None)"
| "file_step W name Cat (p, xs) = Some (Dump 0 (if xs = [] then [] else [(0, xs)]), p, xs)"
| "file_step W name Copy_out (p, xs) =
     (if int (length xs) < 2 ^ 31 - 1
      then Some (if W name then Copied 0 (Some (name, takeWhile (\<lambda>b. b \<noteq> 0) xs)) else Copied 11 None, p, xs) else None)"

primrec file_steps :: "(string \<Rightarrow> bool) \<Rightarrow> (string \<times> file_command) list \<Rightarrow> (string \<Rightarrow> (int \<times> byte list) option) \<Rightarrow>
    (response list \<times> (string \<Rightarrow> (int \<times> byte list) option)) option" where
  "file_steps W [] m = Some ([], m)"
| "file_steps W (x # xs) m =
     do { x0 \<leftarrow> m (fst x);
          (r, x1) \<leftarrow> file_step W (fst x) (snd x) x0;
          (rs, m) \<leftarrow> file_steps W xs (m(fst x \<mapsto> x1));
          Some (r # rs, m) }"

lemma to_offset_id: "- (2 ^ 31) \<le> n \<Longrightarrow> n < 2 ^ 31 \<Longrightarrow> to_offset n = n"
  unfolding to_offset_def by (simp add: signed_of_int signed_take_bit_int_eq_self)

lemma table_file_opened: "opened s name = Some (f, fl, n) \<Longrightarrow> table_file E name s = Some (Some f, s)"
  using openedD(1) by (simp add: table_file_def)

lemma takeWhile_snoc_zero: "takeWhile (\<lambda>b. b \<noteq> 0) (xs @ [0]) = takeWhile (\<lambda>b. b \<noteq> 0) (xs :: byte list)"
  by (induction xs) simp_all

text \<open>A change of the position alone.\<close>

lemma seek_open:
  assumes "open_ok s" and "opened s name = Some (f, fl, n)"
  shows "file_seek f p s = Some (change_file f fl p (bc s) s)" and "keeps (bc s) (bc s)"
  using file_set_pos_change(2) [OF openedD(2) [OF assms(2)]] keeps_refl [OF open_okD(1) [OF assms(1)]]
  by (simp_all add: file_seek_def)

lemma same_view:
  assumes "open_view s name = Some v"
  shows "(open_view s)(name \<mapsto> v) = open_view s"
  using assms by (rule fun_upd_idem)

lemma run_file_command_step:
  assumes ok: "open_ok s" and v: "open_view s name = Some v" and step: "file_step (e_writable E) name c v = Some (r, w)"
  shows "\<exists>s'. run_file_command E name c s = Some (r, s') \<and> open_ok s' \<and> open_view s' = (open_view s)(name \<mapsto> w)"
proof -
  obtain p xs where pxs: "v = (p, xs)" by (cases v)
  from v obtain f fl n where o: "opened s name = Some (f, fl, n)" "file_pos fl = p" "bytes_of s n = xs"
    unfolding pxs by (rule open_viewE)
  note O = openedD [OF o(1)] and T = table_file_opened [OF o(1), of E] and B = bytes_length [OF ok o(1)]
  note S = seek_open [OF ok o(1)]
  note K = change_file_keeps [OF ok o(1)]
  have len: "file_length f t = Some (int (length xs))" if "files t f = Some fl'" "file_inode fl' = file_inode fl" "inodes t = inodes s" for t fl'
    using that O(3) B(1) o(3) by (simp add: file_length_def inode_length_def)
  show ?thesis
  proof (cases c)
    case Size
    have "file_tell f s = Some p" using O(2) o(2) by (simp add: file_tell_def)
    then have "run_file_command E name c s = Some (Number (int (length xs)), change_file f fl p (bc s) s)"
      using T S(1) len [OF O(2)] by (simp add: run_file_command_def fsutil_size_def Size)
    moreover have "r = Number (int (length xs))" "w = (p, xs)" using step by (simp_all add: Size pxs)
    ultimately show ?thesis using K(1,2) [OF S(2), of p] o(3) by simp
  next
    case (Seek q)
    have "run_file_command E name c s = Some (Number 0, change_file f fl q (bc s) s)"
      using T S(1) by (simp add: run_file_command_def fsutil_seek_def Seek)
    moreover have "r = Number 0" "w = (q, xs)" using step by (simp_all add: Seek pxs)
    ultimately show ?thesis using K(1,2) [OF S(2), of q] o(3) by simp
  next
    case (Read k)
    then have p: "0 \<le> p" "p < 2 ^ 31" "k < 2 ^ 31" using step pxs by (simp_all split: if_splits)
    let ?data = "take k (drop (nat p) xs)"
    have "file_pos fl = int (nat p)" "nat p < 2 ^ 31" using p o(2) by simp_all
    from read_open [OF ok o(1) this, of k] obtain d where
      d: "file_read f (int k) s = Some (?data, change_file f fl (p + int (length ?data)) d s)" "keeps (bc s) d"
      using p(1) o(3) by auto
    have "to_offset (int k) = int k" using p(3) by (simp add: to_offset_id)
    then have "run_file_command E name c s = Some (Bytes (int (length ?data)) ?data, change_file f fl (p + int (length ?data)) d s)"
      using T d(1) by (simp add: run_file_command_def fsutil_read_def Read)
    moreover have "r = Bytes (int (length ?data)) ?data" "w = (p + int (length ?data), xs)"
      using step p by (simp_all add: Read pxs Let_def)
    ultimately show ?thesis using K(1,2) [OF d(2)] o(3) by simp
  next
    case (Write buf)
    then have p: "0 \<le> p" "buf \<noteq> []" "p + int (length buf) \<le> int (length xs)" using step pxs by (simp_all split: if_splits)
    have "file_pos fl = int (nat p)" "nat p + length buf \<le> length (bytes_of s n)" using p o(2,3) by simp_all
    from write_open [OF ok o(1) this(1) p(2) this(2)] obtain d where
      d: "file_write (e_alloc E) f buf (int (length buf)) s =
        Some (int (length buf), written buf, change_file f fl (p + int (length buf) - 2) d s)"
      "within (sectors_of (bc s) (i_data n)) (bc s) d" "file_ok d (i_data n)" "sectors_of d (i_data n) = sectors_of (bc s) (i_data n)"
      "content (cache_view d) (i_data n) = overwrite (nat p) (written buf) xs"
      using p(1) o(3) by (auto simp: written_def)
    have "int (length buf) < 2 ^ 31" using p(1,3) B(2) o(3) by simp
    then have "to_offset (int (length buf)) = int (length buf)" by (simp add: to_offset_id)
    then have "run_file_command E name c s = Some (Number (int (length buf)), change_file f fl (p + int (length buf) - 2) d s)"
      using T d(1) by (simp add: run_file_command_def fsutil_write_def Write)
    moreover have "r = Number (int (length buf))" "w = (p + int (length buf) - 2, overwrite (nat p) (written buf) xs)"
      using step p by (simp_all add: Write pxs)
    ultimately show ?thesis using change_file_view(1,2) [OF ok o(1) d(2-4)] d(5) by simp
  next
    case Cat
    have tell: "file_tell f s = Some p" using O(2) o(2) by (simp add: file_tell_def)
    let ?t = "change_file f fl 0 (bc s) s"
    note K0 = K [OF S(2), of 0]
    from cat_open [OF K0(1,3)] K0(4) o(3) obtain d q where
      d: "cat_loop f (int (length xs)) ?t = Some (if xs = [] then [] else [(0, xs)], change_file f fl q d s)" "keeps (bc s) d" by auto
    note K1 = K [OF d(2), of q]
    have "file_seek f p (change_file f fl q d s) = Some (change_file f fl p d s)" using seek_open(1) [OF K1(1,3), of p] by simp
    moreover have "file_length f ?t = Some (int (length xs))" by (rule len [of _ "fl\<lparr>file_pos := 0\<rparr>"]) simp_all
    ultimately have "run_file_command E name c s = Some (Dump 0 (if xs = [] then [] else [(0, xs)]), change_file f fl p d s)"
      using T tell S(1) d(1) O(1) by (simp add: run_file_command_def fsutil_cat_def Cat)
    moreover have "r = Dump 0 (if xs = [] then [] else [(0, xs)])" "w = (p, xs)" using step by (simp_all add: Cat pxs)
    ultimately show ?thesis using K(1,2) [OF d(2), of p] o(3) by simp
  next
    case Copy_out
    then have l: "int (length xs) < 2 ^ 31 - 1" using step pxs by (simp split: if_splits)
    let ?a = "change_file f fl p (bc s) s" and ?t = "change_file f fl 0 (bc s) s"
    have tell: "file_tell f s = Some p" using O(2) o(2) by (simp add: file_tell_def)
    then have size: "fsutil_size E name s = Some (int (length xs), ?a)"
      using T S(1) len [OF O(2)] by (simp add: fsutil_size_def)
    note Ka = K [OF S(2), of p]
    have Ta: "table_file E name ?a = Some (Some f, ?a)" by (rule table_file_opened [OF Ka(3)])
    have tella: "file_tell f ?a = Some p" by (simp add: file_tell_def)
    have seeka: "file_seek f 0 ?a = Some ?t" using seek_open(1) [OF Ka(1,3), of 0] by simp
    note K0 = K [OF S(2), of 0]
    have T0: "table_file E name ?t = Some (Some f, ?t)" by (rule table_file_opened [OF K0(3)])
    from read_open [OF K0(1,3), of 0 "length xs"] K0(4) o(3) obtain d where
      d: "file_read f (int (length xs)) ?t = Some (xs, change_file f fl (int (length xs)) d s)" "keeps (bc s) d" by auto
    have "to_offset (int (length xs)) = int (length xs)" using l by (simp add: to_offset_id)
    then have rd: "fsutil_read E name (int (length xs)) ?t = Some (int (length xs), xs, change_file f fl (int (length xs)) d s)"
      using T0 d(1) by (simp add: fsutil_read_def)
    note K1 = K [OF d(2), of "int (length xs)"]
    have seekb: "file_seek f p (change_file f fl (int (length xs)) d s) = Some (change_file f fl p d s)"
      using seek_open(1) [OF K1(1,3), of p] by simp
    have off: "off32 (int (length xs) + 1) = Some (int (length xs) + 1)" using l by (simp add: off32_def)
    have "nat (int (length xs) + 1) = Suc (length xs)" by simp
    moreover have "replicate (Suc (length xs)) (0 :: byte) = replicate (length xs) 0 @ [0]" by (simp add: replicate_append_same)
    ultimately have "overwrite 0 xs (replicate (nat (int (length xs) + 1)) 0) = xs @ [0]"
      by (simp add: overwrite_def del: replicate_Suc)
    then have "run_file_command E name c s =
        Some (if e_writable E name then Copied 0 (Some (name, takeWhile (\<lambda>b. b \<noteq> 0) xs)) else Copied 11 None, change_file f fl p d s)"
      using size off Ta tella seeka rd seekb by (simp add: run_file_command_def copy_out_def Copy_out Let_def takeWhile_snoc_zero)
    moreover have "r = (if e_writable E name then Copied 0 (Some (name, takeWhile (\<lambda>b. b \<noteq> 0) xs)) else Copied 11 None)" "w = (p, xs)"
      using step l by (simp_all add: Copy_out pxs)
    ultimately show ?thesis using K(1,2) [OF d(2), of p] o(3) by simp
  qed
qed

lemma run_file_commands_steps:
  "open_ok s \<Longrightarrow> file_steps (e_writable E) cs (open_view s) = Some (rs, m) \<Longrightarrow>
   \<exists>s'. run_file_commands E cs s = Some (rs, s') \<and> open_ok s' \<and> open_view s' = m"
proof (induction cs arbitrary: s rs)
  case (Cons x cs)
  from Cons.prems(2) obtain v r w rs' where x: "open_view s (fst x) = Some v" "file_step (e_writable E) (fst x) (snd x) v = Some (r, w)"
    "file_steps (e_writable E) cs ((open_view s)(fst x \<mapsto> w)) = Some (rs', m)" "rs = r # rs'"
    by (auto split: bind_splits)
  from run_file_command_step [OF Cons.prems(1) x(1,2)] obtain s1 where
    s1: "run_file_command E (fst x) (snd x) s = Some (r, s1)" "open_ok s1" "open_view s1 = (open_view s)(fst x \<mapsto> w)" by blast
  from Cons.IH [OF s1(2)] x(3) s1(3) obtain s' where "run_file_commands E cs s1 = Some (rs', s')" "open_ok s'" "open_view s' = m"
    by metis
  then show ?case using s1(1) x(4) by simp
qed simp

text \<open>
  C4: The commands on open files are operations on a map from names to positions and contents: any
  sequence of them, on any files of the file table, answers and changes the files exactly as
  \<open>file_steps\<close> says, whatever the block structure of the files and the state of the cache; files that a
  command does not name keep their position and contents. A write loses its last byte to a zero, and
  the position it leaves lies two bytes before its end.
\<close>

theorem file_commands_refine_map:
  assumes "open_ok s" and "file_steps (e_writable E) cs (open_view s) = Some (rs, m)"
  shows "\<exists>s'. run_file_commands E cs s = Some (rs, s') \<and> open_ok s' \<and> open_view s' = m"
  by (rule run_file_commands_steps [OF assms])

lemma example_opened: "opened example_fs name =
    (if name = ''notes'' then Some (7, \<lparr>file_inode = 4, file_pos = 0, file_denies = False\<rparr>,
       \<lparr>i_sector = 3, open_cnt = 1, i_removed = False, deny_write_cnt = 0, i_data = one_block 4 20\<rparr>) else None)"
  by (simp add: opened_def get_file_by_fname_def)

lemma example_open_ok: "open_ok example_fs"
proof -
  have "file_ok example_disk (one_block 4 20)" by (rule one_block_ok) (simp_all add: example_disk_valid)
  then show ?thesis by (simp add: open_ok_def example_opened example_disk_ok get_file_by_fname_def)
qed

text \<open>Three bytes are written to a file of 20 zeros; two of them are read back.\<close>

theorem file_commands_refine_map_witness:
  "\<forall>E :: env. \<exists>s'. run_file_commands E [(''notes'', Size), (''notes'', Write [1, 2, 3]), (''notes'', Read 2), (''notes'', Seek 0), (''notes'', Read 4)]
      example_fs = Some ([Number 20, Number 3, Bytes 2 [2, 0], Number 0, Bytes 4 [1, 2, 0, 0]], s') \<and> open_ok s'"
proof
  fix E :: env
  let ?cs = "[(''notes'', Size), (''notes'', Write [1, 2, 3]), (''notes'', Read 2), (''notes'', Seek 0), (''notes'', Read 4)]"
  have "open_view example_fs ''notes'' = Some (0, replicate 20 0)"
    by (simp add: open_view_def example_opened bytes_of_def one_block_content)
  moreover have "replicate 20 (0 :: byte) = [0, 0, 0, 0] @ replicate 16 0" by (simp add: numeral_eq_Suc)
  ultimately have "\<exists>m. file_steps (e_writable E) ?cs (open_view example_fs) =
      Some ([Number 20, Number 3, Bytes 2 [2, 0], Number 0, Bytes 4 [1, 2, 0, 0]], m)"
    by (simp add: overwrite_def written_def Let_def)
  then show "\<exists>s'. run_file_commands E ?cs example_fs =
      Some ([Number 20, Number 3, Bytes 2 [2, 0], Number 0, Bytes 4 [1, 2, 0, 0]], s') \<and> open_ok s'"
    using file_commands_refine_map [OF example_open_ok, of E ?cs] by blast
qed

end
