(* ===== verification/Partition.thy ===== *)
theory Partition
  imports Block_Device
begin

text \<open>
  The partition table of the disk (\<^verbatim>\<open>src/a3/fs/partition.c\<close>) and what attaching the disk does
  with it (\<^verbatim>\<open>src/a3/fs/ide.c\<close>). A registered block device becomes \<open>hard_drive\<close>, so the last
  partition found is the one the file system uses.
\<close>

section \<open>The partition table\<close>

text \<open>The 16-byte entry and the position of the four entries in the sector.\<close>

record partition_table_entry =
  p_type :: byte
  p_offset :: u32
  p_size :: u32

definition table_entry :: "byte list \<Rightarrow> nat \<Rightarrow> partition_table_entry" where
  "table_entry pt i =
     (let e = drop (446 + 16 * i) pt
      in \<lparr>p_type = drop 4 e ! 0, p_offset = le_word (take 4 (drop 8 e)), p_size = le_word (take 4 (drop 12 e))\<rparr>)"

definition signature_ok :: "byte list \<Rightarrow> bool" where
  "signature_ok pt \<longleftrightarrow> (le_word (take 2 (drop 510 pt)) :: 16 word) = 0xaa55"

definition is_extended :: "byte \<Rightarrow> bool" where
  "is_extended t \<longleftrightarrow> t \<in> {0x05, 0x0f, 0x85, 0xc5}"

section \<open>Scanning\<close>

text \<open>
  The state of a scan: the disk (reads are counted in it), the current hard drive and the
  number of partitions seen.
\<close>

record scan_state =
  disk :: block
  hard_drive :: block
  part_nr :: nat

definition found_partition :: "u32 \<Rightarrow> u32 \<Rightarrow> string \<Rightarrow> scan_state \<Rightarrow> scan_state" where
  "found_partition start size' fname st =
     (if block_size (disk st) \<le> start then st
      else if start + size' < start \<or> block_size (disk st) < start + size' then st
      else let name = take 15 (block_name (disk st) @ decimal (part_nr st))
           in st\<lparr>hard_drive := block_register name fname size' (Partition_driver (disk st) start)\<rparr>)"

text \<open>
  \<open>read_partition_table\<close> calls itself for an extended partition, and reads sector 0 each time
  whatever \<open>sector\<close> is; with \<open>fuel\<close> the nesting is bounded, and \<open>None\<close> says that it was not enough.
\<close>

primrec read_partition_table :: "nat \<Rightarrow> u32 \<Rightarrow> u32 \<Rightarrow> string \<Rightarrow> byte list \<Rightarrow> scan_state \<Rightarrow> scan_state option" where
  "read_partition_table 0 sector primary fname img st = None"
| "read_partition_table (Suc fuel) sector primary fname img st =
     (if block_size (disk st) \<le> sector then Some st
      else let (d, pt) = block_read (disk st) 0 (replicate 512 0) img;
               st = st\<lparr>disk := d\<rparr>
           in if \<not> signature_ok pt then Some st
              else foldl (\<lambda>r i. Option.bind r (\<lambda>st.
                     let e = table_entry pt i
                     in if p_size e = 0 \<or> p_type e = 0 then Some st
                        else if is_extended (p_type e) then
                          (if sector = 0 then read_partition_table fuel (p_offset e) (p_offset e) fname img st
                           else read_partition_table fuel (p_offset e + primary) primary fname img st)
                        else let st = st\<lparr>part_nr := part_nr st + 1\<rparr>
                             in Some (found_partition (p_offset e + sector) (p_size e) fname st)))
                   (Some st) [0..<4])"

definition partition_scan :: "nat \<Rightarrow> string \<Rightarrow> byte list \<Rightarrow> block \<Rightarrow> scan_state option" where
  "partition_scan fuel fname img b =
     read_partition_table fuel 0 0 fname img \<lparr>disk = b, hard_drive = b, part_nr = 0\<rparr>"

text \<open>Registering the disk itself, and scanning it.\<close>

definition identify_ata_device :: "nat \<Rightarrow> string \<Rightarrow> byte list \<Rightarrow> scan_state option" where
  "identify_ata_device fuel fname img =
     partition_scan fuel fname img
       (block_register ''hda'' fname (of_nat (length img div 512)) Ide_driver)"

section \<open>Extended partitions\<close>

lemma foldl_bind_None [simp]: "foldl (\<lambda>r i. Option.bind r (f i)) None xs = None"
  by (induction xs) simp_all

text \<open>What a scan never changes: the size of the disk, and the partition table that is read.\<close>

definition scans :: "byte list \<Rightarrow> byte list \<Rightarrow> u32 \<Rightarrow> scan_state \<Rightarrow> bool" where
  "scans img pt n st \<longleftrightarrow> block_size (disk st) = n \<and> snd (block_read (disk st) 0 (replicate 512 0) img) = pt"

lemma block_read_size: "block_size (fst (block_read b s buf img)) = block_size b"
  by (cases b) (simp add: split_beta)

lemma scans_read:
  "scans img pt n st \<Longrightarrow> scans img pt n (st\<lparr>disk := fst (block_read (disk st) 0 (replicate 512 0) img)\<rparr>)"
  by (simp add: scans_def block_read_size block_read_snd block_read_phys)

lemma disk_found_partition: "disk (found_partition a b fname st) = disk st"
  by (simp add: found_partition_def Let_def)

definition scan_step :: "nat \<Rightarrow> u32 \<Rightarrow> u32 \<Rightarrow> string \<Rightarrow> byte list \<Rightarrow> byte list \<Rightarrow> nat \<Rightarrow> scan_state \<Rightarrow> scan_state option" where
  "scan_step fuel sector primary fname img pt i st =
     (let e = table_entry pt i
      in if p_size e = 0 \<or> p_type e = 0 then Some st
         else if is_extended (p_type e) then
           (if sector = 0 then read_partition_table fuel (p_offset e) (p_offset e) fname img st
            else read_partition_table fuel (p_offset e + primary) primary fname img st)
         else let st = st\<lparr>part_nr := part_nr st + 1\<rparr>
              in Some (found_partition (p_offset e + sector) (p_size e) fname st))"

lemma read_partition_table_Suc:
  assumes "scans img pt n st"
  shows "read_partition_table (Suc fuel) sector primary fname img st =
    (if n \<le> sector then Some st
     else let st = st\<lparr>disk := fst (block_read (disk st) 0 (replicate 512 0) img)\<rparr>
          in if \<not> signature_ok pt then Some st
             else foldl (\<lambda>r i. Option.bind r (scan_step fuel sector primary fname img pt i)) (Some st) [0..<4])"
  using assms by (simp add: scans_def split_beta Let_def scan_step_def [abs_def])

lemma scans_found [simp]:
  "scans img pt n (found_partition a b fname (st\<lparr>part_nr := k\<rparr>)) = scans img pt n st"
  by (simp add: scans_def disk_found_partition)

lemma scan_step_scans:
  assumes "\<And>sector primary st st'. scans img pt n st \<Longrightarrow>
      read_partition_table fuel sector primary fname img st = Some st' \<Longrightarrow> scans img pt n st'"
    and "scans img pt n u" and "scan_step fuel sector primary fname img pt i u = Some v"
  shows "scans img pt n v"
  using assms(3) assms(1) [OF assms(2)] assms(2) unfolding scan_step_def Let_def
  by (auto simp del: read_partition_table.simps split: if_split_asm)

lemma scans_read_partition_table:
  "scans img pt n st \<Longrightarrow> read_partition_table fuel sector primary fname img st = Some st' \<Longrightarrow> scans img pt n st'"
proof (induction fuel arbitrary: sector primary st st')
  case (Suc fuel)
  have step: "scans img pt n v" if "scans img pt n u" "scan_step fuel sector primary fname img pt i u = Some v" for i u v
    using Suc.IH that by (rule scan_step_scans)
  have "scans img pt n v"
    if "foldl (\<lambda>r i. Option.bind r (scan_step fuel sector primary fname img pt i)) (Some u) xs = Some v" "scans img pt n u" for u v xs
    using that
  proof (induction xs arbitrary: u)
    case (Cons x xs)
    then show ?case using step by (cases "scan_step fuel sector primary fname img pt x u") auto
  qed simp
  note all = this [OF _ scans_read [OF Suc.prems(1)]]
  show ?case
    using Suc.prems(2) all Suc.prems(1) scans_read [OF Suc.prems(1)] unfolding read_partition_table_Suc [OF Suc.prems(1)] Let_def
    by (simp del: read_partition_table.simps upt_rec_numeral split: if_split_asm)
qed simp

text \<open>
  C23: An extended partition in the first half of the disk makes the scan of the partition table call
  itself for ever: the recursion reads sector 0 again instead of the sector of the extended partition,
  and no bound on the nesting is enough. The nested call is given the offset of the partition and then
  that offset twice, so it is twice the offset that has to lie inside the disk; otherwise the sector
  is refused and the scan returns.
\<close>

theorem extended_partition_never_ends:
  assumes "scans img pt n \<lparr>disk = b, hard_drive = b, part_nr = 0\<rparr>" and "signature_ok pt" and "0 < n"
    and "i < 4" and "p_size (table_entry pt i) \<noteq> 0" and "is_extended (p_type (table_entry pt i))"
    and "p_offset (table_entry pt i) < n" and "p_offset (table_entry pt i) + p_offset (table_entry pt i) < n"
  shows "partition_scan fuel fname img b = None"
proof -
  let ?o = "p_offset (table_entry pt i)"
  have ty: "p_type (table_entry pt i) \<noteq> 0" using assms(6) by (auto simp: is_extended_def)
  have "read_partition_table fuel sector primary fname img st = None"
    if "scans img pt n st" "sector < n" "sector = 0 \<or> primary = ?o" for sector primary st
    using that
  proof (induction fuel arbitrary: sector primary st)
    case (Suc fuel)
    let ?f = "scan_step fuel sector primary fname img pt"
    have call: "?f i u = None" if "scans img pt n u" for u
      using Suc.IH [OF that, of ?o ?o] Suc.IH [OF that, of "?o + primary" primary] Suc.prems(3) assms(5-8) ty
      by (auto simp: scan_step_def Let_def)
    have "foldl (\<lambda>r j. Option.bind r (?f j)) (Some u) xs = None" if "scans img pt n u" "i \<in> set xs" for u xs
      using that
    proof (induction xs arbitrary: u)
      case (Cons x xs)
      show ?case
      proof (cases "?f x u")
        case (Some v)
        then have "x \<noteq> i" using call [OF Cons.prems(1)] by auto
        moreover have "scans img pt n v"
          using scans_read_partition_table Cons.prems(1) Some by (rule scan_step_scans)
        ultimately show ?thesis using Some Cons by simp
      qed simp
    qed simp
    moreover have "i \<in> set [0..<4]" using assms(4) by simp
    ultimately have "foldl (\<lambda>r j. Option.bind r (?f j)) (Some (st\<lparr>disk := fst (block_read (disk st) 0 (replicate 512 0) img)\<rparr>)) [0..<4] = None"
      using scans_read [OF Suc.prems(1)] by blast
    with Suc.prems(2) assms(2) show ?case
      unfolding read_partition_table_Suc [OF Suc.prems(1)] Let_def by (simp del: upt_rec_numeral)
  qed simp
  with assms(1,3) show ?thesis by (simp add: partition_scan_def)
qed

theorem extended_partition_never_ends_witness:
  "let img = (replicate 446 0 @ [0, 0, 0, 0, 5, 0, 0, 0, 1, 0, 0, 0, 1, 0, 0, 0] @ replicate 48 0 @ [0x55, 0xaa]) @ replicate 3584 0
   in identify_ata_device 100 ''disk'' img = None"
proof -
  define pt :: "byte list" where
    "pt = replicate 446 0 @ [0, 0, 0, 0, 5, 0, 0, 0, 1, 0, 0, 0, 1, 0, 0, 0] @ replicate 48 0 @ [0x55, 0xaa]"
  let ?b = "block_register ''hda'' ''disk'' 8 Ide_driver"
  have pt: "table_entry pt 0 = \<lparr>p_type = 5, p_offset = 1, p_size = 1\<rparr>" "length pt = 512" "signature_ok pt"
    by (simp_all add: pt_def table_entry_def signature_ok_def)
  have "scans (pt @ replicate 3584 0) pt 8 \<lparr>disk = ?b, hard_drive = ?b, part_nr = 0\<rparr>"
    using pt(2) by (simp add: scans_def block_register_def ide_read_def ide_offset_def)
  from extended_partition_never_ends [OF this pt(3), of 0 100 "''disk''"] pt(2)
  have "identify_ata_device 100 ''disk'' (pt @ replicate 3584 0) = None"
    by (simp add: pt(1) is_extended_def identify_ata_device_def)
  then show ?thesis by (simp only: pt_def Let_def)
qed

end
