(* ===== verification/Llist.thy ===== *)
theory Llist
  imports Prelude "HOL-Library.Multiset"
begin

text \<open>
  The intrusive doubly linked lists (\<^verbatim>\<open>src/a3/fs/list.c\<close>) in an explicit heap: the \<open>prev\<close> and \<open>next\<close>
  pointers of every element by its address, \<open>None\<close> being the null pointer as a value and the
  dereference of a null pointer as a result. A list is the addresses of its two headers. The
  loops follow pointers and are partial functions, since a corrupt list may have no end; on
  well-formed lists they are shown to return.
\<close>

section \<open>Elements and lists\<close>

record links =
  prv :: "nat \<Rightarrow> nat option"
  nxt :: "nat \<Rightarrow> nat option"

record llist =
  head :: nat
  tail :: nat

abbreviation set_prv :: "nat \<Rightarrow> nat option \<Rightarrow> links \<Rightarrow> links" where
  "set_prv a v h \<equiv> h\<lparr>prv := (prv h)(a := v)\<rparr>"

abbreviation set_nxt :: "nat \<Rightarrow> nat option \<Rightarrow> links \<Rightarrow> links" where
  "set_nxt a v h \<equiv> h\<lparr>nxt := (nxt h)(a := v)\<rparr>"

definition is_head :: "nat option \<Rightarrow> links \<Rightarrow> bool" where
  "is_head p h = (case p of None \<Rightarrow> False | Some e \<Rightarrow> prv h e = None \<and> nxt h e \<noteq> None)"

definition is_interior :: "nat option \<Rightarrow> links \<Rightarrow> bool" where
  "is_interior p h = (case p of None \<Rightarrow> False | Some e \<Rightarrow> prv h e \<noteq> None \<and> nxt h e \<noteq> None)"

definition is_tail :: "nat option \<Rightarrow> links \<Rightarrow> bool" where
  "is_tail p h = (case p of None \<Rightarrow> False | Some e \<Rightarrow> prv h e \<noteq> None \<and> nxt h e = None)"

section \<open>Traversal\<close>

definition llist_init :: "llist \<Rightarrow> links \<Rightarrow> links" where
  "llist_init l h =
     (let h = set_prv (head l) None h;
          h = set_nxt (head l) (Some (tail l)) h;
          h = set_prv (tail l) (Some (head l)) h
      in set_nxt (tail l) None h)"

definition list_begin :: "llist \<Rightarrow> links \<Rightarrow> nat option" where
  "list_begin l h = nxt h (head l)"

definition list_next :: "nat \<Rightarrow> links \<Rightarrow> nat option" where
  "list_next e h = nxt h e"

definition list_end :: "llist \<Rightarrow> nat" where
  "list_end l = tail l"

definition list_rbegin :: "llist \<Rightarrow> links \<Rightarrow> nat option" where
  "list_rbegin l h = prv h (tail l)"

definition list_prev :: "nat \<Rightarrow> links \<Rightarrow> nat option" where
  "list_prev e h = prv h e"

definition list_rend :: "llist \<Rightarrow> nat" where
  "list_rend l = head l"

definition list_head :: "llist \<Rightarrow> nat" where
  "list_head l = head l"

definition list_tail :: "llist \<Rightarrow> nat" where
  "list_tail l = tail l"

section \<open>Insertion and removal\<close>

definition list_insert :: "nat \<Rightarrow> nat \<Rightarrow> links \<Rightarrow> links option" where
  "list_insert before elem h =
     do { let h = set_prv elem (prv h before) h;
          let h = set_nxt elem (Some before) h;
          p \<leftarrow> prv h before;
          let h = set_nxt p (Some elem) h;
          Some (set_prv before (Some elem) h) }"

definition list_splice :: "nat \<Rightarrow> nat \<Rightarrow> nat \<Rightarrow> links \<Rightarrow> links option" where
  "list_splice before first stop h =
     (if first = stop then Some h
      else do {
        stop \<leftarrow> list_prev stop h;
        p \<leftarrow> prv h first;
        let h = set_nxt p (nxt h stop) h;
        n \<leftarrow> nxt h stop;
        let h = set_prv n (prv h first) h;
        let h = set_prv first (prv h before) h;
        let h = set_nxt stop (Some before) h;
        q \<leftarrow> prv h before;
        let h = set_nxt q (Some first) h;
        Some (set_prv before (Some stop) h) })"

definition list_push_front :: "llist \<Rightarrow> nat \<Rightarrow> links \<Rightarrow> links option" where
  "list_push_front l elem h = do { b \<leftarrow> list_begin l h; list_insert b elem h }"

definition list_push_back :: "llist \<Rightarrow> nat \<Rightarrow> links \<Rightarrow> links option" where
  "list_push_back l elem h = list_insert (list_end l) elem h"

definition list_remove :: "nat \<Rightarrow> links \<Rightarrow> (nat option \<times> links) option" where
  "list_remove elem h =
     do { p \<leftarrow> prv h elem;
          let h = set_nxt p (nxt h elem) h;
          n \<leftarrow> nxt h elem;
          let h = set_prv n (prv h elem) h;
          Some (nxt h elem, h) }"

definition list_front :: "llist \<Rightarrow> links \<Rightarrow> nat option" where
  "list_front l h = nxt h (head l)"

definition list_back :: "llist \<Rightarrow> links \<Rightarrow> nat option" where
  "list_back l h = prv h (tail l)"

definition list_pop_front :: "llist \<Rightarrow> links \<Rightarrow> (nat \<times> links) option" where
  "list_pop_front l h = do { f \<leftarrow> list_front l h; (_, h) \<leftarrow> list_remove f h; Some (f, h) }"

definition list_pop_back :: "llist \<Rightarrow> links \<Rightarrow> (nat \<times> links) option" where
  "list_pop_back l h = do { b \<leftarrow> list_back l h; (_, h) \<leftarrow> list_remove b h; Some (b, h) }"

section \<open>Size and order of the elements\<close>

partial_function (option) size_loop :: "llist \<Rightarrow> nat \<Rightarrow> nat \<Rightarrow> links \<Rightarrow> nat option" where
  "size_loop l e cnt h =
     (if e = list_end l then Some cnt else do { n \<leftarrow> list_next e h; size_loop l n (cnt + 1) h })"

definition list_size :: "llist \<Rightarrow> links \<Rightarrow> nat option" where
  "list_size l h = do { b \<leftarrow> list_begin l h; size_loop l b 0 h }"

definition list_empty :: "llist \<Rightarrow> links \<Rightarrow> bool" where
  "list_empty l h \<longleftrightarrow> list_begin l h = Some (list_end l)"

partial_function (option) reverse_loop :: "llist \<Rightarrow> nat \<Rightarrow> links \<Rightarrow> links option" where
  "reverse_loop l e h =
     (if e = list_end l then Some h
      else do { let (p, n) = (prv h e, nxt h e);
                let h = set_nxt e p (set_prv e n h);
                e \<leftarrow> prv h e;
                reverse_loop l e h })"

definition list_reverse :: "llist \<Rightarrow> links \<Rightarrow> links option" where
  "list_reverse l h =
     (if list_empty l h then Some h
      else do {
        b \<leftarrow> list_begin l h;
        h \<leftarrow> reverse_loop l b h;
        let (x, y) = (nxt h (head l), prv h (tail l));
        let h = set_prv (tail l) x (set_nxt (head l) y h);
        f \<leftarrow> nxt h (head l);
        k \<leftarrow> prv h (tail l);
        let (x, y) = (prv h f, nxt h k);
        Some (set_nxt k x (set_prv f y h)) })"

section \<open>Ordered lists\<close>

text \<open>\<open>lt\<close> is the comparison \<open>less\<close> of two elements, with the auxiliary data.\<close>

partial_function (option) sorted_loop :: "(nat \<Rightarrow> nat \<Rightarrow> bool) \<Rightarrow> nat \<Rightarrow> nat \<Rightarrow> links \<Rightarrow> bool option" where
  "sorted_loop lt a b h =
     do { a \<leftarrow> list_next a h;
          if a = b then Some True
          else do { p \<leftarrow> list_prev a h;
                    if lt a p then Some False else sorted_loop lt a b h } }"

definition is_sorted :: "(nat \<Rightarrow> nat \<Rightarrow> bool) \<Rightarrow> nat \<Rightarrow> nat \<Rightarrow> links \<Rightarrow> bool option" where
  "is_sorted lt a b h = (if a \<noteq> b then sorted_loop lt a b h else Some True)"

partial_function (option) find_end_of_run :: "(nat \<Rightarrow> nat \<Rightarrow> bool) \<Rightarrow> nat \<Rightarrow> nat \<Rightarrow> links \<Rightarrow> nat option" where
  "find_end_of_run lt a b h =
     do { a \<leftarrow> list_next a h;
          if a = b then Some a
          else do { p \<leftarrow> list_prev a h;
                    if lt a p then Some a else find_end_of_run lt a b h } }"

partial_function (option) inplace_merge :: "(nat \<Rightarrow> nat \<Rightarrow> bool) \<Rightarrow> nat \<Rightarrow> nat \<Rightarrow> nat \<Rightarrow> links \<Rightarrow> links option" where
  "inplace_merge lt a0 a1b0 b1 h =
     (if a0 \<noteq> a1b0 \<and> a1b0 \<noteq> b1 then
        if \<not> lt a1b0 a0 then do { a0 \<leftarrow> list_next a0 h; inplace_merge lt a0 a1b0 b1 h }
        else do { a1b0 \<leftarrow> list_next a1b0 h;
                  first \<leftarrow> list_prev a1b0 h;
                  h \<leftarrow> list_splice a0 first a1b0 h;
                  inplace_merge lt a0 a1b0 b1 h }
      else Some h)"

text \<open>One pass over the list, and the passes until one run is left.\<close>

partial_function (option) sort_pass :: "(nat \<Rightarrow> nat \<Rightarrow> bool) \<Rightarrow> llist \<Rightarrow> nat \<Rightarrow> nat \<Rightarrow> links \<Rightarrow> (nat \<times> links) option" where
  "sort_pass lt l a0 cnt h =
     (if a0 = list_end l then Some (cnt, h)
      else do {
        a1b0 \<leftarrow> find_end_of_run lt a0 (list_end l) h;
        if a1b0 = list_end l then Some (cnt + 1, h)
        else do {
          b1 \<leftarrow> find_end_of_run lt a1b0 (list_end l) h;
          h \<leftarrow> inplace_merge lt a0 a1b0 b1 h;
          sort_pass lt l b1 (cnt + 1) h } })"

partial_function (option) list_sort :: "(nat \<Rightarrow> nat \<Rightarrow> bool) \<Rightarrow> llist \<Rightarrow> links \<Rightarrow> links option" where
  "list_sort lt l h =
     do { b \<leftarrow> list_begin l h;
          (cnt, h) \<leftarrow> sort_pass lt l b 0 h;
          if 1 < cnt then list_sort lt l h else Some h }"



partial_function (option) unique_loop ::
    "(nat \<Rightarrow> nat \<Rightarrow> bool) \<Rightarrow> llist \<Rightarrow> llist option \<Rightarrow> nat \<Rightarrow> links \<Rightarrow> links option" where
  "unique_loop lt l dups elem h =
     do { n \<leftarrow> list_next elem h;
          if n = list_end l then Some h
          else if \<not> lt elem n \<and> \<not> lt n elem then do {
            (_, h) \<leftarrow> list_remove n h;
            h \<leftarrow> (case dups of None \<Rightarrow> Some h | Some d \<Rightarrow> list_push_back d n h);
            unique_loop lt l dups elem h }
          else unique_loop lt l dups n h }"

definition list_unique :: "(nat \<Rightarrow> nat \<Rightarrow> bool) \<Rightarrow> llist \<Rightarrow> llist option \<Rightarrow> links \<Rightarrow> links option" where
  "list_unique lt l dups h =
     (if list_empty l h then Some h
      else do { b \<leftarrow> list_begin l h; unique_loop lt l dups b h })"

partial_function (option) max_loop :: "(nat \<Rightarrow> nat \<Rightarrow> bool) \<Rightarrow> llist \<Rightarrow> nat \<Rightarrow> nat \<Rightarrow> links \<Rightarrow> nat option" where
  "max_loop lt l m e h =
     (if e = list_end l then Some m
      else do { n \<leftarrow> list_next e h; max_loop lt l (if lt m e then e else m) n h })"

definition list_max :: "(nat \<Rightarrow> nat \<Rightarrow> bool) \<Rightarrow> llist \<Rightarrow> links \<Rightarrow> nat option" where
  "list_max lt l h =
     do { m \<leftarrow> list_begin l h;
          if m \<noteq> list_end l then do { e \<leftarrow> list_next m h; max_loop lt l m e h } else Some m }"

partial_function (option) min_loop :: "(nat \<Rightarrow> nat \<Rightarrow> bool) \<Rightarrow> llist \<Rightarrow> nat \<Rightarrow> nat \<Rightarrow> links \<Rightarrow> nat option" where
  "min_loop lt l m e h =
     (if e = list_end l then Some m
      else do { n \<leftarrow> list_next e h; min_loop lt l (if lt e m then e else m) n h })"

definition list_min :: "(nat \<Rightarrow> nat \<Rightarrow> bool) \<Rightarrow> llist \<Rightarrow> links \<Rightarrow> nat option" where
  "list_min lt l h =
     do { m \<leftarrow> list_begin l h;
          if m \<noteq> list_end l then do { e \<leftarrow> list_next m h; min_loop lt l m e h } else Some m }"

section \<open>The list a heap holds\<close>

text \<open>
  \<open>linked h as\<close>: neighbours in \<open>as\<close> point at each other. A well-formed list with the elements \<open>xs\<close>
  is such a sequence between its two headers, without repetition.
\<close>

fun linked :: "links \<Rightarrow> nat list \<Rightarrow> bool" where
  "linked h (a # b # as) \<longleftrightarrow> nxt h a = Some b \<and> prv h b = Some a \<and> linked h (b # as)"
| "linked h _ \<longleftrightarrow> True"

definition holds :: "links \<Rightarrow> llist \<Rightarrow> nat list \<Rightarrow> bool" where
  "holds h l xs \<longleftrightarrow> linked h (head l # xs @ [tail l]) \<and> distinct (head l # xs @ [tail l]) \<and>
     prv h (head l) = None \<and> nxt h (tail l) = None"

text \<open>The addresses a list occupies, and two heaps that agree elsewhere.\<close>

definition cells :: "llist \<Rightarrow> nat list \<Rightarrow> nat set" where
  "cells l xs = insert (head l) (insert (tail l) (set xs))"

definition same_outside :: "nat set \<Rightarrow> links \<Rightarrow> links \<Rightarrow> bool" where
  "same_outside A h h' \<longleftrightarrow> (\<forall>a. a \<notin> A \<longrightarrow> nxt h' a = nxt h a \<and> prv h' a = prv h a)"

lemma same_outsideI:
  "(\<And>a. a \<notin> A \<Longrightarrow> nxt h' a = nxt h a) \<Longrightarrow> (\<And>a. a \<notin> A \<Longrightarrow> prv h' a = prv h a) \<Longrightarrow> same_outside A h h'"
  by (simp add: same_outside_def)

lemma same_outside_refl [simp]: "same_outside A h h"
  by (simp add: same_outside_def)

lemma same_outside_trans:
  "same_outside A h h' \<Longrightarrow> same_outside B h' h'' \<Longrightarrow> A \<subseteq> C \<Longrightarrow> B \<subseteq> C \<Longrightarrow> same_outside C h h''"
  unfolding same_outside_def using subsetD by metis

lemma linked_append: "linked h (as @ b # bs) \<longleftrightarrow> linked h (as @ [b]) \<and> linked h (b # bs)"
  by (induction h as rule: linked.induct) (auto simp: neq_Nil_conv Cons_eq_append_conv; cases bs; simp)+

lemma linked_cong:
  assumes "\<And>a. a \<in> set (butlast as) \<Longrightarrow> nxt h' a = nxt h a"
    and "\<And>a. a \<in> set (tl as) \<Longrightarrow> prv h' a = prv h a"
  shows "linked h' as = linked h as"
  using assms
proof (induction h as rule: linked.induct)
  case (1 h a b as)
  then have "linked h' (b # as) = linked h (b # as)" by (cases as) auto
  with "1.prems" show ?case by simp
qed simp_all

lemma holds_frame:
  assumes "holds h l xs" and "\<And>a. a \<in> cells l xs \<Longrightarrow> nxt h' a = nxt h a \<and> prv h' a = prv h a"
  shows "holds h' l xs"
proof -
  have "linked h' (head l # xs @ [tail l]) = linked h (head l # xs @ [tail l])"
    using assms(2) by (intro linked_cong) (auto simp: cells_def butlast_append)
  with assms show ?thesis by (simp add: holds_def cells_def)
qed

lemma linked_pair: "linked h (as @ a # b # bs) \<Longrightarrow> nxt h a = Some b \<and> prv h b = Some a"
  using linked_append [of h as a "b # bs"] by simp

lemma linked_split: "linked h (as @ bs) \<Longrightarrow> linked h as \<and> linked h bs"
  by (cases bs; cases as rule: rev_cases) (auto simp: linked_append [of h _ _ "_ # _"] linked_append [of h as])

lemma linked_append_iff:
  "linked h (as @ bs) \<longleftrightarrow> linked h as \<and> linked h bs \<and>
     (as \<noteq> [] \<longrightarrow> bs \<noteq> [] \<longrightarrow> nxt h (last as) = Some (hd bs) \<and> prv h (hd bs) = Some (last as))"
  by (induction h as rule: linked.induct) (auto simp: neq_Nil_conv; cases bs; simp)+

section \<open>What the operations do to the list\<close>

text \<open>The two pointer updates behind insertion and removal.\<close>

lemma linked_insert:
  assumes "linked h (as @ p # b # bs)" and "distinct (as @ p # b # bs)" and "e \<notin> set (as @ p # b # bs)"
    and "nxt h' = (nxt h)(e := Some b, p := Some e)" and "prv h' = (prv h)(e := Some p, b := Some e)"
  shows "linked h' (as @ p # e # b # bs)"
proof -
  have "linked h' (as @ [p]) = linked h (as @ [p])" "linked h' (b # bs) = linked h (b # bs)"
    using assms(2-5) by (intro linked_cong; cases as; auto simp: butlast_append dest: in_set_butlastD split: if_splits)+
  with assms show ?thesis
    using linked_append [of h as p "b # bs"] linked_append [of h' as p "e # b # bs"] by (auto split: if_splits)
qed

lemma linked_remove:
  assumes "linked h (as @ p # e # b # bs)" and "distinct (as @ p # e # b # bs)"
    and "nxt h' = (nxt h)(p := Some b)" and "prv h' = (prv h)(b := Some p)"
  shows "linked h' (as @ p # b # bs)"
proof -
  have "linked h' (as @ [p]) = linked h (as @ [p])" "linked h' (b # bs) = linked h (b # bs)"
    using assms(2-4) by (intro linked_cong; cases as; auto simp: butlast_append dest: in_set_butlastD split: if_splits)+
  with assms show ?thesis
    using linked_append [of h as p "e # b # bs"] linked_append [of h' as p "b # bs"] by auto
qed

text \<open>Every element has the neighbours that the sequence says, headers included.\<close>

lemma holds_split:
  assumes "holds h l (xs @ ys)"
  obtains as p b bs where "head l # xs = as @ [p]" "ys @ [tail l] = b # bs" "prv h b = Some p" "nxt h p = Some b"
proof -
  obtain as p where 1: "head l # xs = as @ [p]" by (cases "head l # xs" rule: rev_cases) auto
  obtain b bs where 2: "ys @ [tail l] = b # bs" by (cases "ys @ [tail l]") auto
  have eq: "head l # (xs @ ys) @ [tail l] = as @ p # b # bs"
    using 1 2 by (metis append.assoc append_Cons append_Nil)
  have "linked h (as @ p # b # bs)" using assms unfolding holds_def eq by simp
  then show thesis using that [OF 1 2] linked_pair by auto
qed

lemma list_insert_spec:
  assumes H: "holds h l (xs @ ys)" and e: "e \<notin> cells l (xs @ ys)" and b: "b = hd (ys @ [tail l])"
  obtains h' where "list_insert b e h = Some h'" "holds h' l (xs @ e # ys)"
    "same_outside (cells l (xs @ e # ys)) h h'"
proof -
  from H obtain as p b' bs where s: "head l # xs = as @ [p]" "ys @ [tail l] = b' # bs"
    "prv h b' = Some p" "nxt h p = Some b'"
    by (rule holds_split)
  have bb: "b' = b" using b s(2) by simp
  have full: "head l # (xs @ ys) @ [tail l] = as @ p # b # bs"
    using s(1,2) bb by (metis append.assoc append_Cons append_Nil)
  have full': "head l # (xs @ e # ys) @ [tail l] = as @ p # e # b # bs"
    using s(1,2) bb by (metis append.assoc append_Cons append_Nil)
  have in_full: "set (as @ p # b # bs) = cells l (xs @ ys)" using full by (auto simp: cells_def simp flip: full)
  have L: "linked h (as @ p # b # bs)" "distinct (as @ p # b # bs)" using H unfolding holds_def full by simp_all
  have eb: "e \<noteq> b" "e \<noteq> p" using e in_full by auto
  define h' where "h' = set_prv b (Some e) (set_nxt p (Some e) (set_nxt e (Some b) (set_prv e (Some p) h)))"
  have r: "list_insert b e h = Some h'" using s(3) eb bb by (simp add: list_insert_def h'_def Let_def)
  have L': "linked h' (as @ p # e # b # bs)"
    by (rule linked_insert [OF L]) (use e in_full eb in \<open>auto simp: h'_def fun_upd_twist\<close>)
  have "head l \<noteq> b" "tail l \<noteq> p"
    using s(1,2) bb L(2) by (cases as; cases bs rule: rev_cases; auto)+
  moreover have "head l \<noteq> e" "tail l \<noteq> e" using e by (auto simp: cells_def)
  ultimately have "holds h' l (xs @ e # ys)"
    using H L' L(2) e in_full unfolding holds_def full' full by (auto simp: h'_def)
  moreover have "same_outside (cells l (xs @ e # ys)) h h'"
  proof -
    have "cells l (xs @ e # ys) = insert e (cells l (xs @ ys))" by (auto simp: cells_def)
    then show ?thesis using in_full by (intro same_outsideI) (auto simp: h'_def)
  qed
  ultimately show thesis using r that by blast
qed

lemma list_remove_spec:
  assumes H: "holds h l (xs @ e # ys)"
  obtains h' where "list_remove e h = Some (Some (hd (ys @ [tail l])), h')" "holds h' l (xs @ ys)"
    "same_outside (cells l (xs @ ys)) h h'"
proof -
  obtain as p where 1: "head l # xs = as @ [p]" by (cases "head l # xs" rule: rev_cases) auto
  obtain b bs where 2: "ys @ [tail l] = b # bs" by (cases "ys @ [tail l]") auto
  have full: "head l # (xs @ e # ys) @ [tail l] = as @ p # e # b # bs"
    using 1 2 by (metis append.assoc append_Cons append_Nil)
  have full': "head l # (xs @ ys) @ [tail l] = as @ p # b # bs"
    using 1 2 by (metis append.assoc append_Cons append_Nil)
  have L: "linked h (as @ p # e # b # bs)" "distinct (as @ p # e # b # bs)"
    using H unfolding holds_def full by simp_all
  have pb: "prv h e = Some p" "nxt h e = Some b" "p \<noteq> e" "b \<noteq> e"
    using linked_pair [of h as p e "b # bs"] linked_pair [of h "as @ [p]" e b bs] L by auto
  define h' where "h' = set_prv b (Some p) (set_nxt p (Some b) h)"
  have r: "list_remove e h = Some (Some (hd (ys @ [tail l])), h')"
    using pb 2 by (simp add: list_remove_def h'_def Let_def)
  have L': "linked h' (as @ p # b # bs)" by (rule linked_remove [OF L]) (auto simp: h'_def)
  have "head l \<noteq> b" "tail l \<noteq> p"
    using 1 2 L(2) by (cases as; cases bs rule: rev_cases; auto)+
  then have "holds h' l (xs @ ys)"
    using H L' L(2) unfolding holds_def full' full by (auto simp: h'_def)
  moreover have "same_outside (cells l (xs @ ys)) h h'"
  proof -
    have "set (head l # (xs @ ys) @ [tail l]) = set (as @ p # b # bs)" by (simp only: full')
    then have "{p, b} \<subseteq> cells l (xs @ ys)" by (auto simp: cells_def)
    then show ?thesis by (intro same_outsideI) (auto simp: h'_def)
  qed
  ultimately show thesis using r that by blast
qed

lemma llist_init_spec:
  assumes "head l \<noteq> tail l"
  shows "holds (llist_init l h) l []"
    and "a \<noteq> head l \<Longrightarrow> a \<noteq> tail l \<Longrightarrow> nxt (llist_init l h) a = nxt h a \<and> prv (llist_init l h) a = prv h a"
  using assms by (simp_all add: holds_def llist_init_def Let_def)

lemma holds_ends:
  assumes "holds h l xs"
  shows "list_begin l h = Some (hd (xs @ [tail l]))" "list_rbegin l h = Some (last (head l # xs))"
proof -
  from assms have "holds h l ([] @ xs)" by simp
  then obtain as p b bs where "head l # [] = as @ [p]" "xs @ [tail l] = b # bs" "nxt h p = Some b"
    by (rule holds_split)
  then show "list_begin l h = Some (hd (xs @ [tail l]))" by (cases as) (simp_all add: list_begin_def)
  from assms have "holds h l (xs @ [])" by simp
  then obtain as p b bs where "head l # xs = as @ [p]" "[] @ [tail l] = b # bs" "prv h b = Some p"
    by (rule holds_split)
  then show "list_rbegin l h = Some (last (head l # xs))" by (simp add: list_rbegin_def)
qed

lemma list_empty_iff: "holds h l xs \<Longrightarrow> list_empty l h \<longleftrightarrow> xs = []"
  using holds_ends(1) [of h l xs] by (cases xs) (auto simp: list_empty_def list_end_def holds_def)

text \<open>The neighbours of an element.\<close>

lemma holds_next: "holds h l (xs @ e # ys) \<Longrightarrow> nxt h e = Some (hd (ys @ [tail l]))"
  by (cases ys) (use linked_pair [of h "head l # xs" e "tail l" "[]"] linked_pair [of h "head l # xs" e] in \<open>auto simp: holds_def\<close>)

lemma holds_prev: "holds h l (xs @ e # ys) \<Longrightarrow> prv h e = Some (last (head l # xs))"
proof -
  assume H: "holds h l (xs @ e # ys)"
  obtain as p where 1: "head l # xs = as @ [p]" by (cases "head l # xs" rule: rev_cases) auto
  have "head l # (xs @ e # ys) @ [tail l] = as @ p # e # ys @ [tail l]"
    using 1 by (metis append.assoc append_Cons append_Nil)
  then have "linked h (as @ p # e # ys @ [tail l])" using H unfolding holds_def by metis
  then show ?thesis using linked_pair 1 by simp
qed

lemma list_push_front_spec:
  assumes "holds h l xs" and "e \<notin> cells l xs"
  obtains h' where "list_push_front l e h = Some h'" "holds h' l (e # xs)"
    "same_outside (cells l (e # xs)) h h'"
proof -
  from assms obtain h' where "list_insert (hd (xs @ [tail l])) e h = Some h'" "holds h' l ([] @ e # xs)"
    "same_outside (cells l ([] @ e # xs)) h h'"
    using list_insert_spec [of h l "[]" xs e "hd (xs @ [tail l])"] by auto
  then show thesis using that holds_ends [OF assms(1)] by (auto simp: list_push_front_def)
qed

lemma list_push_back_spec:
  assumes "holds h l xs" and "e \<notin> cells l xs"
  obtains h' where "list_push_back l e h = Some h'" "holds h' l (xs @ [e])"
    "same_outside (cells l (xs @ [e])) h h'"
  using list_insert_spec [of h l xs "[]" e "tail l"] assms by (auto simp: list_push_back_def list_end_def)

lemma list_pop_front_spec:
  assumes "holds h l (e # xs)"
  obtains h' where "list_pop_front l h = Some (e, h')" "holds h' l xs"
    "same_outside (cells l xs) h h'"
proof -
  from assms have "holds h l ([] @ e # xs)" by simp
  then obtain h' where "list_remove e h = Some (Some (hd (xs @ [tail l])), h')" "holds h' l ([] @ xs)"
    "same_outside (cells l ([] @ xs)) h h'"
    by (rule list_remove_spec)
  then show thesis using that holds_ends(1) [OF assms]
    by (simp add: list_pop_front_def list_front_def list_begin_def)
qed

lemma list_pop_back_spec:
  assumes "holds h l (xs @ [e])"
  obtains h' where "list_pop_back l h = Some (e, h')" "holds h' l xs"
    "same_outside (cells l xs) h h'"
proof -
  from assms obtain h' where "list_remove e h = Some (Some (hd ([] @ [tail l])), h')" "holds h' l (xs @ [])"
    "same_outside (cells l (xs @ [])) h h'"
    by (rule list_remove_spec)
  then show thesis using that holds_ends(2) [OF assms]
    by (simp add: list_pop_back_def list_back_def list_rbegin_def)
qed

lemma linked_splice:
  assumes L: "linked h (us @ ms @ ss @ ws)" and D: "distinct (us @ ms @ ss @ ws)"
    and N: "us \<noteq> []" "ms \<noteq> []" "ss \<noteq> []" "ws \<noteq> []"
    and n: "nxt h' = (nxt h)(last ms := Some (hd ws), last ss := Some (hd ms), last us := Some (hd ss))"
    and p: "prv h' = (prv h)(hd ws := Some (last ms), hd ss := Some (last us), hd ms := Some (last ss))"
  shows "linked h' (us @ ss @ ms @ ws)"
proof -
  have disj: "set us \<inter> (set ms \<union> set ss \<union> set ws) = {}" "set ms \<inter> (set ss \<union> set ws) = {}" "set ss \<inter> set ws = {}"
    using D by auto
  have ends: "last us \<in> set us" "last ms \<in> set ms" "last ss \<in> set ss" "hd ms \<in> set ms" "hd ss \<in> set ss" "hd ws \<in> set ws"
    using N by simp_all
  have keep: "linked h' xs = linked h xs"
    if "distinct xs" "xs \<noteq> []" "xs \<in> {us, ms, ss, ws}" for xs
  proof (rule linked_cong)
    fix a assume a: "a \<in> set (butlast xs)"
    moreover have "distinct (butlast xs @ [last xs])" using that(1,2) by simp
    ultimately have "a \<in> set xs" "a \<noteq> last xs" by (auto dest: in_set_butlastD)
    then show "nxt h' a = nxt h a" using that(3) disj ends unfolding n by auto
  next
    fix a assume a: "a \<in> set (tl xs)"
    then have "a \<in> set xs" "a \<noteq> hd xs" using that(1,2) by (auto simp: neq_Nil_conv)
    then show "prv h' a = prv h a" using that(3) disj ends unfolding p by auto
  qed
  have ne: "hd ms \<noteq> hd ss" "hd ms \<noteq> hd ws" "hd ss \<noteq> hd ws" "last ms \<noteq> last ss" "last ms \<noteq> last us" "last ss \<noteq> last us"
    using disj ends by auto
  have "linked h us" "linked h ms" "linked h ss" "linked h ws"
    using L by (simp_all add: linked_append_iff)
  then have "linked h' us" "linked h' ms" "linked h' ss" "linked h' ws"
    using keep D N by auto
  then show ?thesis using N ne by (simp add: linked_append_iff n p)
qed

lemma list_splice_spec:
  assumes H: "holds h l (xs @ m # ms @ s # ss @ ys)"
  obtains h' where "list_splice m s (hd (ys @ [tail l])) h = Some h'" "holds h' l (xs @ s # ss @ m # ms @ ys)"
    "same_outside (cells l (xs @ m # ms @ s # ss @ ys)) h h'"
proof -
  define us ms' ss' ws where u: "us = head l # xs" "ms' = m # ms" "ss' = s # ss" "ws = ys @ [tail l]"
  have N: "us \<noteq> []" "ms' \<noteq> []" "ss' \<noteq> []" "ws \<noteq> []" by (simp_all add: u)
  have hds: "hd us = head l" "hd ms' = m" "hd ss' = s" "last ws = tail l" by (simp_all add: u)
  have full: "head l # (xs @ m # ms @ s # ss @ ys) @ [tail l] = us @ ms' @ ss' @ ws" by (simp add: u)
  have full': "head l # (xs @ s # ss @ m # ms @ ys) @ [tail l] = us @ ss' @ ms' @ ws" by (simp add: u)
  have L: "linked h (us @ ms' @ ss' @ ws)" and D: "distinct (us @ ms' @ ss' @ ws)"
    using H unfolding holds_def full by simp_all
  let ?q = "last us" and ?p = "last ms'" and ?t = "last ss'" and ?n = "hd ws"
  have f: "prv h ?n = Some ?t" "nxt h ?t = Some ?n" "prv h s = Some ?p" "prv h m = Some ?q"
    using L N hds by (auto simp: linked_append_iff)
  have ends: "?q \<in> set us" "?p \<in> set ms'" "?t \<in> set ss'" "?n \<in> set ws" "m \<in> set ms'" "s \<in> set ss'"
    "head l \<in> set us" "tail l \<in> set ws"
    using N hds hd_in_set last_in_set by metis+
  have disj: "set us \<inter> (set ms' \<union> set ss' \<union> set ws) = {}" "set ms' \<inter> (set ss' \<union> set ws) = {}" "set ss' \<inter> set ws = {}"
    using D by auto
  have ne: "s \<noteq> ?n" "?p \<noteq> ?t" "m \<noteq> ?n" "m \<noteq> s" "?q \<noteq> ?t" "?q \<noteq> ?p" "head l \<notin> {?n, s, m}" "tail l \<notin> {?p, ?t, ?q}"
    using disj ends by auto
  define h' where "h' = set_prv m (Some ?t) (set_nxt ?q (Some s) (set_nxt ?t (Some m) (set_prv s (Some ?q)
      (set_prv ?n (Some ?p) (set_nxt ?p (Some ?n) h)))))"
  have r: "list_splice m s ?n h = Some h'"
    using f ne unfolding list_splice_def by (simp add: Let_def list_prev_def h'_def)
  have L': "linked h' (us @ ss' @ ms' @ ws)"
    by (rule linked_splice [OF L D N]) (simp_all add: h'_def hds)
  have "distinct (us @ ss' @ ms' @ ws)" using D by auto
  then have "holds h' l (xs @ s # ss @ m # ms @ ys)"
    using H L' ne unfolding holds_def full' by (simp add: h'_def)
  moreover have "same_outside (cells l (xs @ m # ms @ s # ss @ ys)) h h'"
  proof -
    have "cells l (xs @ m # ms @ s # ss @ ys) = set (us @ ms' @ ss' @ ws)" by (auto simp: cells_def u)
    then show ?thesis using ends by (intro same_outsideI) (auto simp: h'_def)
  qed
  ultimately show thesis using r that by (simp add: u)
qed

section \<open>Walking a list\<close>

lemma size_loop_eq: "holds h l (xs @ ys) \<Longrightarrow> size_loop l (hd (ys @ [tail l])) n h = Some (n + length ys)"
proof (induction ys arbitrary: xs n)
  case Nil
  then show ?case by (simp add: size_loop.simps list_end_def)
next
  case (Cons y ys)
  then have "y \<noteq> tail l" "nxt h y = Some (hd (ys @ [tail l]))"
    using holds_next [of h l xs y ys] by (auto simp: holds_def)
  then show ?case using Cons.IH [of "xs @ [y]" "n + 1"] Cons.prems
    by (subst size_loop.simps) (simp add: list_end_def list_next_def)
qed

lemma list_size_eq: "holds h l xs \<Longrightarrow> list_size l h = Some (length xs)"
  using size_loop_eq [of h l "[]" xs 0] holds_ends(1) [of h l xs] by (simp add: list_size_def)

section \<open>Sorting\<close>

text \<open>The comparison of a list in nondecreasing order: \<open>lt\<close> is a strict weak order.\<close>

definition weak_order :: "('a \<Rightarrow> 'a \<Rightarrow> bool) \<Rightarrow> bool" where
  "weak_order lt \<longleftrightarrow> (\<forall>a b. lt a b \<longrightarrow> \<not> lt b a) \<and> (\<forall>a b c. \<not> lt b a \<longrightarrow> \<not> lt c b \<longrightarrow> \<not> lt c a)"

lemma weak_order_asym: "weak_order lt \<Longrightarrow> lt a b \<Longrightarrow> \<not> lt b a"
  unfolding weak_order_def by blast

lemma weak_order_trans: "weak_order lt \<Longrightarrow> \<not> lt b a \<Longrightarrow> \<not> lt c b \<Longrightarrow> \<not> lt c a"
  unfolding weak_order_def by metis

abbreviation upward :: "('a \<Rightarrow> 'a \<Rightarrow> bool) \<Rightarrow> 'a list \<Rightarrow> bool" where
  "upward lt xs \<equiv> sorted_wrt (\<lambda>a b. \<not> lt b a) xs"

text \<open>The functions on lists that the pointer code computes.\<close>

fun first_run :: "('a \<Rightarrow> 'a \<Rightarrow> bool) \<Rightarrow> 'a list \<Rightarrow> 'a list" where
  "first_run lt (a # b # xs) = (if lt b a then [a] else a # first_run lt (b # xs))"
| "first_run lt xs = xs"

fun after_run :: "('a \<Rightarrow> 'a \<Rightarrow> bool) \<Rightarrow> 'a list \<Rightarrow> 'a list" where
  "after_run lt (a # b # xs) = (if lt b a then b # xs else after_run lt (b # xs))"
| "after_run lt xs = []"

fun merge :: "('a \<Rightarrow> 'a \<Rightarrow> bool) \<Rightarrow> 'a list \<Rightarrow> 'a list \<Rightarrow> 'a list" where
  "merge lt [] bs = bs"
| "merge lt as [] = as"
| "merge lt (a # as) (b # bs) = (if \<not> lt b a then a # merge lt as (b # bs) else b # merge lt (a # as) bs)"

lemma run_split: "first_run lt xs @ after_run lt xs = xs"
  by (induction lt xs rule: first_run.induct) auto

lemma after_run_shorter: "xs \<noteq> [] \<Longrightarrow> length (after_run lt xs) < length xs"
  by (induction lt xs rule: after_run.induct) auto

lemma after_two_runs_shorter: "after_run lt xs \<noteq> [] \<Longrightarrow> length (after_run lt (after_run lt xs)) < length xs"
  using after_run_shorter [of xs lt] after_run_shorter [of "after_run lt xs" lt] by (cases xs) auto

function merge_pass :: "('a \<Rightarrow> 'a \<Rightarrow> bool) \<Rightarrow> 'a list \<Rightarrow> nat \<times> 'a list" where
  "merge_pass lt [] = (0, [])"
| "merge_pass lt (x # xs) =
     (let rest = after_run lt (x # xs)
      in if rest = [] then (1, x # xs)
         else let (n, ys) = merge_pass lt (after_run lt rest)
              in (n + 1, merge lt (first_run lt (x # xs)) (first_run lt rest) @ ys))"
  by pat_completeness auto
termination
proof (relation "measure (\<lambda>(lt, xs). length xs)", goal_cases)
  case (2 lt x xs rest)
  then show ?case using after_two_runs_shorter [of lt "x # xs"] by simp
qed simp

lemma mset_merge [simp]: "mset (merge lt as bs) = mset as + mset bs"
  by (induction lt as bs rule: merge.induct) auto

lemma set_merge [simp]: "set (merge lt as bs) = set as \<union> set bs"
  by (induction lt as bs rule: merge.induct) auto

lemma upward_merge: "weak_order lt \<Longrightarrow> upward lt as \<Longrightarrow> upward lt bs \<Longrightarrow> upward lt (merge lt as bs)"
proof (induction lt as bs rule: merge.induct)
  case (3 lt a as b bs)
  note W = weak_order_asym [OF "3.prems"(1)] weak_order_trans [OF "3.prems"(1)]
  show ?case
  proof (cases "lt b a")
    case True
    then have "\<not> lt x b" if "x \<in> set (a # as)" for x
      using that "3.prems"(2) W(1) [OF True] W(2) [of a b x] by (metis set_ConsD sorted_wrt.simps(2))
    with True 3 show ?thesis by (auto simp: ball_Un)
  next
    case False
    then have "\<not> lt x a" if "x \<in> set (b # bs)" for x
      using that "3.prems"(3) False W(2) [of b a x] by (metis set_ConsD sorted_wrt.simps(2))
    with False 3 show ?thesis by (auto simp: ball_Un)
  qed
qed simp_all

lemma upward_first_run: "weak_order lt \<Longrightarrow> upward lt (first_run lt xs)"
proof (induction lt xs rule: first_run.induct)
  case (1 lt a b xs)
  show ?case
  proof (cases "lt b a")
    case False
    with 1 have u: "upward lt (first_run lt (b # xs))" by simp
    have "\<exists>ys. first_run lt (b # xs) = b # ys" by (cases xs) simp_all
    then obtain ys where f: "first_run lt (b # xs) = b # ys" ..
    then have "\<not> lt y a" if "y \<in> set (b # ys)" for y
      using that u f False weak_order_trans [OF "1.prems", of b a y] by (metis set_ConsD sorted_wrt.simps(2))
    with False f u show ?thesis by simp
  qed simp
qed simp_all

text \<open>The pointer code does what these functions say.\<close>

lemma find_end_of_run_eq:
  "holds h l (xs @ a # ys) \<Longrightarrow>
   find_end_of_run lt a (tail l) h = Some (hd (after_run lt (a # ys) @ [tail l]))"
proof (induction ys arbitrary: xs a)
  case Nil
  then show ?case using holds_next [of h l xs a "[]"] by (simp add: find_end_of_run.simps list_next_def)
next
  case (Cons b ys)
  have "holds h l ((xs @ [a]) @ b # ys)" using Cons.prems by simp
  then have "prv h b = Some a" "b \<noteq> tail l" "nxt h a = Some b"
    using holds_prev [of h l "xs @ [a]" b ys] holds_next [OF Cons.prems] by (auto simp: holds_def)
  then show ?case using Cons.IH [of "xs @ [a]" b] Cons.prems
    by (subst find_end_of_run.simps) (simp add: list_next_def list_prev_def)
qed

lemma inplace_merge_spec:
  "holds h l (xs @ as @ bs @ ys) \<Longrightarrow>
   \<exists>h'. inplace_merge lt (hd (as @ bs @ ys @ [tail l])) (hd (bs @ ys @ [tail l])) (hd (ys @ [tail l])) h = Some h' \<and>
        holds h' l (xs @ merge lt as bs @ ys) \<and> same_outside (cells l (xs @ as @ bs @ ys)) h h'"
proof (induction lt as bs arbitrary: xs h rule: merge.induct)
  case (1 lt bs)
  then show ?case by (auto simp: inplace_merge.simps)
next
  case (2 lt a as)
  then show ?case by (auto simp: inplace_merge.simps)
next
  case (3 lt a as b bs)
  let ?n = "hd (ys @ [tail l])" and ?m = "hd (bs @ ys @ [tail l])"
  have d: "a \<noteq> b" "b \<noteq> ?n" using "3.prems" by (cases ys; auto simp: holds_def)+
  show ?case
  proof (cases "lt b a")
    case False
    have "holds h l ((xs @ [a]) @ as @ (b # bs) @ ys)" using "3.prems" by simp
    with "3.IH"(1) False obtain h' where
      "inplace_merge lt (hd (as @ (b # bs) @ ys @ [tail l])) b ?n h = Some h'"
      "holds h' l ((xs @ [a]) @ merge lt as (b # bs) @ ys)" "same_outside (cells l (xs @ (a # as) @ (b # bs) @ ys)) h h'"
      by fastforce
    moreover have "nxt h a = Some (hd (as @ (b # bs) @ ys @ [tail l]))"
      using holds_next [of h l xs a "as @ (b # bs) @ ys"] "3.prems" by simp
    ultimately show ?thesis using d False
      by (subst inplace_merge.simps) (auto simp: list_next_def)
  next
    case True
    have split: "holds h l ((xs @ (a # as)) @ b # bs @ ys)" using "3.prems" by simp
    have nb: "nxt h b = Some ?m" using holds_next [OF split] by simp
    have pm: "prv h ?m = Some b"
    proof -
      have "holds h l ((xs @ (a # as) @ [b]) @ bs @ ys)" using "3.prems" by simp
      then obtain us p c vs where "head l # xs @ (a # as) @ [b] = us @ [p]" "(bs @ ys) @ [tail l] = c # vs" "prv h c = Some p"
        by (rule holds_split)
      then show ?thesis by (metis append.assoc append_Cons last_snoc list.sel(1) last.simps append_is_Nil_conv list.distinct(1) last_appendR)
    qed
    have "holds h l (xs @ a # as @ b # [] @ bs @ ys)" using "3.prems" by simp
    then obtain h1 where h1: "list_splice a b (hd ((bs @ ys) @ [tail l])) h = Some h1"
      "holds h1 l (xs @ b # [] @ a # as @ bs @ ys)" "same_outside (cells l (xs @ a # as @ b # [] @ bs @ ys)) h h1"
      by (rule list_splice_spec)
    then have "holds h1 l ((xs @ [b]) @ (a # as) @ bs @ ys)" by simp
    with "3.IH"(2) True obtain h' where
      "inplace_merge lt a ?m ?n h1 = Some h'" "holds h' l ((xs @ [b]) @ merge lt (a # as) bs @ ys)"
      "same_outside (cells l ((xs @ [b]) @ (a # as) @ bs @ ys)) h1 h'"
      by fastforce
    moreover have "cells l ((xs @ [b]) @ (a # as) @ bs @ ys) = cells l (xs @ (a # as) @ (b # bs) @ ys)"
      "cells l (xs @ a # as @ b # [] @ bs @ ys) = cells l (xs @ (a # as) @ (b # bs) @ ys)"
      by (auto simp: cells_def)
    ultimately show ?thesis using d True h1 nb pm same_outside_trans
      by (subst inplace_merge.simps) (auto simp: list_next_def list_prev_def intro: same_outside_trans)
  qed
qed

lemma sort_pass_spec:
  "holds h l (xs @ ys) \<Longrightarrow>
   \<exists>h'. sort_pass lt l (hd (ys @ [tail l])) cnt h = Some (cnt + fst (merge_pass lt ys), h') \<and>
        holds h' l (xs @ snd (merge_pass lt ys)) \<and> same_outside (cells l (xs @ ys)) h h'"
proof (induction lt ys arbitrary: xs cnt h rule: merge_pass.induct)
  case (1 lt)
  then show ?case by (auto simp: sort_pass.simps list_end_def)
next
  case (2 lt x ys)
  let ?rest = "after_run lt (x # ys)" and ?run = "first_run lt (x # ys)"
  have x: "x \<noteq> tail l" using "2.prems" by (auto simp: holds_def)
  have run1: "find_end_of_run lt x (tail l) h = Some (hd (?rest @ [tail l]))"
    using find_end_of_run_eq "2.prems" by blast
  show ?case
  proof (cases "?rest = []")
    case True
    then show ?thesis using "2.prems" x run1
      by (subst sort_pass.simps) (auto simp: list_end_def)
  next
    case False
    then obtain r rs where r: "?rest = r # rs" by (cases ?rest) auto
    let ?rest2 = "after_run lt (r # rs)" and ?run2 = "first_run lt (r # rs)"
    have parts: "?run @ ?run2 @ ?rest2 = x # ys" using run_split [of lt "x # ys"] run_split [of lt "r # rs"] r by metis
    have run: "?run @ r # rs = x # ys" using run_split [of lt "x # ys"] r by simp
    have H: "holds h l ((xs @ ?run) @ r # rs)" using "2.prems" run by simp
    then have "r \<noteq> tail l" by (auto simp: holds_def)
    have run2: "find_end_of_run lt r (tail l) h = Some (hd (?rest2 @ [tail l]))"
      by (rule find_end_of_run_eq [OF H])
    have hds: "hd (?run @ ?run2 @ ?rest2 @ [tail l]) = x" "hd (?run2 @ ?rest2 @ [tail l]) = r"
      using parts run_split [of lt "r # rs"] by (metis append.assoc append_Cons list.sel(1))+
    have "holds h l (xs @ ?run @ ?run2 @ ?rest2)" using "2.prems" parts by simp
    then obtain h1 where h1: "inplace_merge lt x r (hd (?rest2 @ [tail l])) h = Some h1"
      "holds h1 l ((xs @ merge lt ?run ?run2) @ ?rest2)" "same_outside (cells l (xs @ ?run @ ?run2 @ ?rest2)) h h1"
      using inplace_merge_spec [of h l xs ?run ?run2 ?rest2 lt] unfolding hds by auto
    obtain h2 where h2: "sort_pass lt l (hd (?rest2 @ [tail l])) (cnt + 1) h1 = Some (cnt + 1 + fst (merge_pass lt ?rest2), h2)"
      "holds h2 l ((xs @ merge lt ?run ?run2) @ snd (merge_pass lt ?rest2))"
      "same_outside (cells l ((xs @ merge lt ?run ?run2) @ ?rest2)) h1 h2"
      using "2.IH" [OF refl _ h1(2) [folded r], of "cnt + 1"] r False by fastforce
    have c: "cells l ((xs @ merge lt ?run ?run2) @ ?rest2) = cells l (xs @ x # ys)"
      using arg_cong [OF parts, of set] by (simp add: cells_def Un_assoc)
    have "merge_pass lt (x # ys) = (fst (merge_pass lt ?rest2) + 1, merge lt ?run ?run2 @ snd (merge_pass lt ?rest2))"
      using r by (simp add: Let_def case_prod_unfold)
    moreover have "sort_pass lt l x cnt h = Some (cnt + 1 + fst (merge_pass lt ?rest2), h2)"
      using x run1 r \<open>r \<noteq> tail l\<close> run2 h1(1) h2(1) by (subst sort_pass.simps) (simp add: list_end_def)
    moreover have "same_outside (cells l (xs @ x # ys)) h h2"
      using same_outside_trans [OF h1(3) h2(3)] c parts by simp
    ultimately show ?thesis using h2(2) by simp
  qed
qed

text \<open>A pass keeps the elements and at least halves the number of runs, so the passes end.\<close>

lemma mset_merge_pass [simp]: "mset (snd (merge_pass lt xs)) = mset xs"
proof (induction lt xs rule: merge_pass.induct)
  case (2 lt x xs)
  show ?case
  proof (cases "after_run lt (x # xs) = []")
    case False
    let ?r = "after_run lt (x # xs)"
    have "mset (x # xs) = mset (first_run lt (x # xs)) + mset (first_run lt ?r) + mset (after_run lt ?r)"
      using run_split [of lt "x # xs"] run_split [of lt ?r] by (metis mset_append add.assoc)
    with 2 False show ?thesis by (simp add: Let_def case_prod_unfold)
  qed simp
qed simp

fun descents :: "('a \<Rightarrow> 'a \<Rightarrow> bool) \<Rightarrow> 'a list \<Rightarrow> nat" where
  "descents lt (a # b # xs) = (if lt b a then 1 else 0) + descents lt (b # xs)"
| "descents lt xs = 0"

lemma descents_after_run: "after_run lt xs \<noteq> [] \<Longrightarrow> descents lt xs = Suc (descents lt (after_run lt xs))"
  by (induction lt xs rule: after_run.induct) auto

lemma descents_append: "descents lt (xs @ ys) \<le> descents lt xs + 1 + descents lt ys"
  by (induction lt xs rule: descents.induct) (cases ys; auto)+

lemma descents_upward: "upward lt xs \<Longrightarrow> descents lt xs = 0"
  by (induction lt xs rule: descents.induct) auto

lemma upward_descents: "weak_order lt \<Longrightarrow> descents lt xs = 0 \<Longrightarrow> upward lt xs"
proof (induction lt xs rule: descents.induct)
  case (1 lt a b xs)
  then have "upward lt (b # xs)" "\<not> lt b a" by (auto split: if_splits)
  then show ?case using weak_order_trans [OF "1.prems"(1), of b a] by auto
qed simp_all

lemma merge_pass_count: "2 * fst (merge_pass lt xs) \<le> descents lt xs + 2"
proof (induction lt xs rule: merge_pass.induct)
  case (2 lt x xs)
  let ?r = "after_run lt (x # xs)"
  show ?case
  proof (cases "?r = []")
    case False
    then have d: "descents lt (x # xs) = Suc (descents lt ?r)" by (rule descents_after_run)
    show ?thesis
    proof (cases "after_run lt ?r = []")
      case True
      with False show ?thesis by (simp add: Let_def)
    next
      case more: False
      then have "descents lt ?r = Suc (descents lt (after_run lt ?r))" by (rule descents_after_run)
      with 2 False d show ?thesis by (simp add: Let_def case_prod_unfold)
    qed
  qed simp
qed simp

lemma merge_pass_descents:
  "weak_order lt \<Longrightarrow> xs \<noteq> [] \<Longrightarrow> descents lt (snd (merge_pass lt xs)) < fst (merge_pass lt xs)"
proof (induction lt xs rule: merge_pass.induct)
  case (2 lt x xs)
  let ?r = "after_run lt (x # xs)" and ?m = "merge lt (first_run lt (x # xs)) (first_run lt (after_run lt (x # xs)))"
  have W: "weak_order lt" by (rule "2.prems")
  show ?case
  proof (cases "?r = []")
    case True
    then have "upward lt (x # xs)" using upward_first_run [OF W, of "x # xs"] run_split [of lt "x # xs"] by simp
    with True show ?thesis by (simp add: descents_upward)
  next
    case False
    have m: "descents lt ?m = 0" by (intro descents_upward upward_merge upward_first_run W)
    show ?thesis
    proof (cases "after_run lt ?r = []")
      case True
      with False m show ?thesis by (simp add: Let_def)
    next
      case more: False
      with 2 False have "descents lt (snd (merge_pass lt (after_run lt ?r))) < fst (merge_pass lt (after_run lt ?r))" by simp
      with False m descents_append [of lt ?m "snd (merge_pass lt (after_run lt ?r))"] show ?thesis
        by (simp add: Let_def case_prod_unfold)
    qed
  qed
qed simp

text \<open>
  \<open>list_sort\<close> returns on every well-formed list, and leaves it a sorted permutation of itself,
  without touching anything else.
\<close>

lemma list_sort_spec:
  assumes "weak_order lt" and "holds h l xs"
  shows "\<exists>h' ys. list_sort lt l h = Some h' \<and> holds h' l ys \<and> mset ys = mset xs \<and> upward lt ys \<and>
           same_outside (cells l xs) h h'"
  using assms(2)
proof (induction "descents lt xs" arbitrary: xs h rule: less_induct)
  case less
  obtain h1 where h1: "sort_pass lt l (hd (xs @ [tail l])) 0 h = Some (fst (merge_pass lt xs), h1)"
    "holds h1 l (snd (merge_pass lt xs))" "same_outside (cells l xs) h h1"
    using sort_pass_spec [of h l "[]" xs lt 0] less.prems by auto
  let ?n = "fst (merge_pass lt xs)" and ?ys = "snd (merge_pass lt xs)"
  have step: "list_sort lt l h = (if 1 < ?n then list_sort lt l h1 else Some h1)"
    using h1(1) holds_ends(1) [OF less.prems] by (subst list_sort.simps) simp
  have same: "set ?ys = set xs" by (metis mset_merge_pass set_mset_mset)
  show ?case
  proof (cases "1 < ?n")
    case False
    have "upward lt ?ys"
    proof (cases "xs = []")
      case False
      with \<open>\<not> 1 < ?n\<close> show ?thesis
        using merge_pass_descents [OF assms(1) False] upward_descents [OF assms(1)] by simp
    qed simp
    with False step h1 show ?thesis by auto
  next
    case True
    then have "xs \<noteq> []" by auto
    then have "descents lt ?ys < descents lt xs"
      using merge_pass_descents [OF assms(1)] merge_pass_count [of lt xs] True by fastforce
    from less.hyps [OF this h1(2)] obtain h' zs where "list_sort lt l h1 = Some h'" "holds h' l zs"
      "mset zs = mset ?ys" "upward lt zs" "same_outside (cells l ?ys) h1 h'" by blast
    then show ?thesis using True step h1(3) same same_outside_trans [OF h1(3), of "cells l ?ys" h' "cells l xs"]
      by (auto simp: cells_def)
  qed
qed

section \<open>Inserting in order\<close>




section \<open>Reversing\<close>

text \<open>The loop exchanges the two pointers of every element.\<close>

definition swapped :: "links \<Rightarrow> nat set \<Rightarrow> links" where
  "swapped h A = h\<lparr>prv := (\<lambda>a. if a \<in> A then nxt h a else prv h a), nxt := (\<lambda>a. if a \<in> A then prv h a else nxt h a)\<rparr>"

lemma reverse_loop_eq:
  "holds h l (xs @ ys) \<Longrightarrow>
   reverse_loop l (hd (ys @ [tail l])) (swapped h (set xs)) = Some (swapped h (set (xs @ ys)))"
proof (induction ys arbitrary: xs)
  case Nil
  then show ?case by (simp add: reverse_loop.simps list_end_def)
next
  case (Cons y ys)
  let ?h = "swapped h (set xs)"
  have y: "y \<noteq> tail l" "y \<notin> set xs" "nxt h y = Some (hd (ys @ [tail l]))"
    using Cons.prems holds_next by (auto simp: holds_def)
  have "set_nxt y (prv ?h y) (set_prv y (nxt ?h y) ?h) = swapped h (set (xs @ [y]))"
    using y(2) by (auto simp: swapped_def fun_eq_iff)
  moreover have "prv (swapped h (set (xs @ [y]))) y = Some (hd (ys @ [tail l]))"
    using y by (simp add: swapped_def)
  moreover have "nxt ?h y = Some (hd (ys @ [tail l]))" using y by (simp add: swapped_def)
  ultimately show ?case using Cons.IH [of "xs @ [y]"] Cons.prems y(1)
    by (subst reverse_loop.simps) (simp add: list_end_def Let_def del: set_append)
qed

lemma linked_rev: "linked h xs \<Longrightarrow> linked (h\<lparr>prv := nxt h, nxt := prv h\<rparr>) (rev xs)"
proof (induction h xs rule: linked.induct)
  case (1 h a b as)
  then show ?case
    using linked_append [of "h\<lparr>prv := nxt h, nxt := prv h\<rparr>" "rev as" b "[a]"] by simp
qed simp_all

lemma list_reverse_spec:
  assumes H: "holds h l xs"
  shows "\<exists>h'. list_reverse l h = Some h' \<and> holds h' l (rev xs) \<and> same_outside (cells l xs) h h'"
proof (cases "xs = []")
  case True
  with H show ?thesis using list_empty_iff [OF H] by (auto simp: list_reverse_def)
next
  case False
  let ?H = "swapped h (set xs)"
  have split: "holds h l ([] @ hd xs # tl xs)" "holds h l (butlast xs @ last xs # [])"
    using H False by simp_all
  have D: "distinct (head l # xs @ [tail l])" and L: "linked h (head l # xs @ [tail l])"
    using H by (auto simp: holds_def)
  have ends: "hd xs \<in> set xs" "last xs \<in> set xs" using False by simp_all
  then have ne: "hd xs \<noteq> head l" "last xs \<noteq> tail l" "hd xs \<noteq> tail l" "last xs \<noteq> head l" "head l \<noteq> tail l"
    "head l \<notin> set xs" "tail l \<notin> set xs"
    using D by auto
  have p: "nxt h (head l) = Some (hd xs)" "prv h (tail l) = Some (last xs)"
    "prv h (hd xs) = Some (head l)" "nxt h (last xs) = Some (tail l)"
    using holds_ends [OF H] holds_prev [OF split(1)] holds_next [OF split(2)] False
    by (simp_all add: list_begin_def list_rbegin_def)
  have loop: "reverse_loop l (hd xs) h = Some ?H"
  proof -
    have "swapped h {} = h" by (simp add: swapped_def)
    then show ?thesis using reverse_loop_eq [of h l "[]" xs] H False by simp
  qed
  define h' where "h' = set_nxt (hd xs) (Some (tail l)) (set_prv (last xs) (Some (head l))
      (set_prv (tail l) (Some (hd xs)) (set_nxt (head l) (Some (last xs)) ?H)))"
  have r: "list_reverse l h = Some h'"
    using False list_empty_iff [OF H] loop p ne ends
    by (simp add: list_reverse_def list_begin_def Let_def h'_def swapped_def)
  have "linked h' (rev xs)"
  proof -
    have "linked h ([head l] @ xs @ [tail l])" using L by simp
    then have "linked h xs" using linked_split by blast
    then have "linked (h\<lparr>prv := nxt h, nxt := prv h\<rparr>) (rev xs)" by (rule linked_rev)
    moreover have "linked h' (rev xs) = linked (h\<lparr>prv := nxt h, nxt := prv h\<rparr>) (rev xs)"
    proof (rule linked_cong)
      fix a assume "a \<in> set (butlast (rev xs))"
      then have "a \<in> set (tl xs)" by (metis butlast_rev set_rev)
      then have "a \<in> set xs" "a \<noteq> hd xs" using False D by (auto simp: neq_Nil_conv)
      then show "nxt h' a = nxt (h\<lparr>prv := nxt h, nxt := prv h\<rparr>) a" using ne by (auto simp: h'_def swapped_def)
    next
      fix a assume "a \<in> set (tl (rev xs))"
      then have "a \<in> set (butlast xs)" by (metis butlast_rev rev_rev_ident set_rev)
      moreover have "distinct (butlast xs @ [last xs])" using False D by simp
      ultimately have "a \<in> set xs" "a \<noteq> last xs" by (auto dest: in_set_butlastD)
      then show "prv h' a = prv (h\<lparr>prv := nxt h, nxt := prv h\<rparr>) a" using ne by (auto simp: h'_def swapped_def)
    qed
    ultimately show ?thesis by simp
  qed
  then have "linked h' (head l # rev xs @ [tail l])"
    using False ne ends by (auto simp: linked_append_iff [of _ "[_]", simplified] linked_append_iff hd_rev last_rev h'_def swapped_def)
  then have "holds h' l (rev xs)"
    using H D ne by (auto simp: holds_def h'_def swapped_def)
  moreover have "same_outside (cells l xs) h h'"
    using ends by (intro same_outsideI) (auto simp: h'_def swapped_def cells_def)
  ultimately show ?thesis using r by blast
qed

section \<open>Removing duplicates\<close>

fun unique_list :: "('a \<Rightarrow> 'a \<Rightarrow> bool) \<Rightarrow> 'a list \<Rightarrow> 'a list \<times> 'a list" where
  "unique_list lt (a # b # xs) =
     (if \<not> lt a b \<and> \<not> lt b a
      then let (us, ds) = unique_list lt (a # xs) in (us, b # ds)
      else let (us, ds) = unique_list lt (b # xs) in (a # us, ds))"
| "unique_list lt xs = (xs, [])"

lemma mset_unique_list: "mset (fst (unique_list lt xs)) + mset (snd (unique_list lt xs)) = mset xs"
  by (induction lt xs rule: unique_list.induct) (auto simp: Let_def case_prod_unfold)

text \<open>The list, and the list of duplicates if there is one, in the same heap without overlap.\<close>

definition holds_both :: "links \<Rightarrow> llist \<Rightarrow> nat list \<Rightarrow> llist option \<Rightarrow> nat list \<Rightarrow> bool" where
  "holds_both h l xs dups ds \<longleftrightarrow> holds h l xs \<and>
     (\<forall>d. dups = Some d \<longrightarrow> holds h d ds \<and> cells l xs \<inter> cells d ds = {})"

lemma remove_to_dups:
  assumes "holds_both h l (xs @ e # ys) dups ds"
  obtains h1 h2 where "list_remove e h = Some (Some (hd (ys @ [tail l])), h1)"
    "(case dups of None \<Rightarrow> Some h1 | Some d \<Rightarrow> list_push_back d e h1) = Some h2"
    "holds_both h2 l (xs @ ys) dups (ds @ [e])"
proof -
  have H: "holds h l (xs @ e # ys)" using assms by (simp add: holds_both_def)
  then obtain h1 where h1: "list_remove e h = Some (Some (hd (ys @ [tail l])), h1)" "holds h1 l (xs @ ys)"
    "same_outside (cells l (xs @ ys)) h h1"
    by (rule list_remove_spec)
  have e: "e \<notin> cells l (xs @ ys)" using H by (auto simp: holds_def cells_def)
  show thesis
  proof (cases dups)
    case None
    with h1 that [of h1 h1] show ?thesis by (simp add: holds_both_def)
  next
    case (Some d)
    then have d: "holds h d ds" "cells l (xs @ e # ys) \<inter> cells d ds = {}" using assms by (simp_all add: holds_both_def)
    have ed: "e \<notin> cells d ds" "cells l (xs @ ys) \<inter> cells d ds = {}" using d(2) by (auto simp: cells_def)
    then have "holds h1 d ds" using holds_frame [OF d(1)] h1(3) unfolding same_outside_def by blast
    then obtain h2 where h2: "list_push_back d e h1 = Some h2" "holds h2 d (ds @ [e])" "same_outside (cells d (ds @ [e])) h1 h2"
      using list_push_back_spec ed(1) by blast
    have disj: "cells l (xs @ ys) \<inter> cells d (ds @ [e]) = {}" using ed e by (auto simp: cells_def)
    then have "holds h2 l (xs @ ys)" using holds_frame [OF h1(2)] h2(3) unfolding same_outside_def by blast
    with h1 h2 disj that [of h1 h2] Some show ?thesis by (simp add: holds_both_def)
  qed
qed

lemma unique_loop_spec:
  "holds_both h l (xs @ a # ys) dups ds \<Longrightarrow>
   \<exists>h'. unique_loop lt l dups a h = Some h' \<and>
        holds_both h' l (xs @ fst (unique_list lt (a # ys))) dups (ds @ snd (unique_list lt (a # ys)))"
proof (induction "length ys" arbitrary: xs a ys ds h)
  case 0
  then show ?case using holds_next [of h l xs a "[]"]
    by (subst unique_loop.simps) (simp add: holds_both_def list_next_def list_end_def)
next
  case (Suc n)
  then obtain b zs where ys: "ys = b # zs" by (cases ys) auto
  have H: "holds h l (xs @ a # b # zs)" using Suc.prems ys by (simp add: holds_both_def)
  then have b: "nxt h a = Some b" "b \<noteq> tail l" using holds_next [OF H] by (auto simp: holds_def)
  show ?case
  proof (cases "\<not> lt a b \<and> \<not> lt b a")
    case True
    have "holds_both h l ((xs @ [a]) @ b # zs) dups ds" using Suc.prems ys by simp
    then obtain h1 h2 where 1: "list_remove b h = Some (Some (hd (zs @ [tail l])), h1)"
      "(case dups of None \<Rightarrow> Some h1 | Some d \<Rightarrow> list_push_back d b h1) = Some h2"
      "holds_both h2 l ((xs @ [a]) @ zs) dups (ds @ [b])"
      by (rule remove_to_dups)
    obtain h' where "unique_loop lt l dups a h2 = Some h'"
      "holds_both h' l (xs @ fst (unique_list lt (a # zs))) dups ((ds @ [b]) @ snd (unique_list lt (a # zs)))"
      using Suc.hyps(1) [of zs h2 xs a "ds @ [b]"] Suc.hyps(2) ys 1(3) by auto
    then show ?thesis using b True 1(1,2) ys
      by (cases dups; subst unique_loop.simps; simp add: list_next_def list_end_def Let_def case_prod_unfold)
  next
    case False
    have "holds_both h l ((xs @ [a]) @ b # zs) dups ds" using Suc.prems ys by simp
    with Suc.hyps(1) [of zs h "xs @ [a]" b ds] Suc.hyps(2) ys obtain h' where
      "unique_loop lt l dups b h = Some h'"
      "holds_both h' l ((xs @ [a]) @ fst (unique_list lt (b # zs))) dups (ds @ snd (unique_list lt (b # zs)))"
      by auto
    then show ?thesis using b False ys
      by (subst unique_loop.simps) (auto simp: list_next_def list_end_def Let_def case_prod_unfold)
  qed
qed

lemma list_unique_spec:
  assumes "holds_both h l xs dups ds"
  shows "\<exists>h'. list_unique lt l dups h = Some h' \<and>
           holds_both h' l (fst (unique_list lt xs)) dups (ds @ snd (unique_list lt xs))"
proof (cases xs)
  case Nil
  with assms show ?thesis using list_empty_iff [of h l xs] by (auto simp: holds_both_def list_unique_def)
next
  case (Cons a ys)
  have "holds h l xs" using assms by (simp add: holds_both_def)
  then show ?thesis using unique_loop_spec [of h l "[]" a ys dups ds lt] assms Cons
      holds_ends(1) [of h l xs] list_empty_iff [of h l xs]
    by (auto simp: list_unique_def)
qed

section \<open>Extrema\<close>

lemma max_loop_eq:
  "holds h l (xs @ ys) \<Longrightarrow> max_loop lt l m (hd (ys @ [tail l])) h = Some (foldl (\<lambda>m e. if lt m e then e else m) m ys)"
proof (induction ys arbitrary: xs m)
  case Nil
  then show ?case by (simp add: max_loop.simps list_end_def)
next
  case (Cons y ys)
  have "y \<noteq> tail l" "nxt h y = Some (hd (ys @ [tail l]))"
    using Cons.prems holds_next by (auto simp: holds_def)
  then show ?case using Cons.IH [of "xs @ [y]"] Cons.prems
    by (subst max_loop.simps) (simp add: list_end_def list_next_def)
qed

lemma min_loop_eq:
  "holds h l (xs @ ys) \<Longrightarrow> min_loop lt l m (hd (ys @ [tail l])) h = Some (foldl (\<lambda>m e. if lt e m then e else m) m ys)"
proof (induction ys arbitrary: xs m)
  case Nil
  then show ?case by (simp add: min_loop.simps list_end_def)
next
  case (Cons y ys)
  have "y \<noteq> tail l" "nxt h y = Some (hd (ys @ [tail l]))"
    using Cons.prems holds_next by (auto simp: holds_def)
  then show ?case using Cons.IH [of "xs @ [y]"] Cons.prems
    by (subst min_loop.simps) (simp add: list_end_def list_next_def)
qed

text \<open>The chosen element is the first of those that no other exceeds.\<close>

lemma foldl_extremum:
  assumes "weak_order lt"
  shows "\<exists>us vs. m # ys = us @ foldl (\<lambda>m e. if lt m e then e else m) m ys # vs \<and>
           (\<forall>u\<in>set us. lt u (foldl (\<lambda>m e. if lt m e then e else m) m ys)) \<and>
           (\<forall>v\<in>set (m # ys). \<not> lt (foldl (\<lambda>m e. if lt m e then e else m) m ys) v)"
proof (induction ys rule: rev_induct)
  case Nil
  then show ?case using weak_order_asym [OF assms] by force
next
  case (snoc y ys)
  define f where "f = foldl (\<lambda>m e. if lt m e then e else m) m ys"
  obtain us vs where IH: "m # ys = us @ f # vs" "\<forall>u\<in>set us. lt u f" "\<forall>v\<in>set (m # ys). \<not> lt f v"
    using snoc.IH unfolding f_def by blast
  show ?case
  proof (cases "lt f y")
    case False
    then have "\<forall>v\<in>set (m # ys @ [y]). \<not> lt f v" using IH(3) by auto
    moreover have "m # ys @ [y] = us @ f # (vs @ [y])" using IH(1) by (metis append_Cons append.assoc)
    moreover have "foldl (\<lambda>m e. if lt m e then e else m) m (ys @ [y]) = f" using False by (simp add: f_def)
    ultimately show ?thesis using IH(2) by metis
  next
    case True
    have "lt u y" if "u \<in> set (m # ys)" for u
      using weak_order_trans [OF assms, of u y f] IH(3) that True by blast
    moreover from this have "\<forall>v\<in>set (m # ys @ [y]). \<not> lt y v"
      using weak_order_asym [OF assms] by (metis Un_iff append_Cons set_ConsD set_append empty_iff list.set(1))
    moreover have "m # ys @ [y] = (m # ys) @ y # []" by simp
    moreover have "foldl (\<lambda>m e. if lt m e then e else m) m (ys @ [y]) = y" using True by (simp add: f_def)
    ultimately show ?thesis by metis
  qed
qed

section \<open>The contract of the list\<close>

text \<open>A list of three elements, for the examples.\<close>

definition three :: llist where
  "three = \<lparr>head = 0, tail = 1\<rparr>"

definition three_links :: links where
  "three_links = \<lparr>prv = [4 \<mapsto> 0, 2 \<mapsto> 4, 3 \<mapsto> 2, 1 \<mapsto> 3], nxt = [0 \<mapsto> 4, 4 \<mapsto> 2, 2 \<mapsto> 3, 3 \<mapsto> 1]\<rparr>"

lemma three_holds: "holds three_links three [4, 2, 3]"
  by (simp add: holds_def three_def three_links_def)

lemma weak_order_less: "weak_order ((<) :: nat \<Rightarrow> nat \<Rightarrow> bool)"
  by (simp add: weak_order_def)

text \<open>C39: \<open>list_sort\<close> ends on every well-formed list and turns it into a well-formed list of the
  same elements in nondecreasing order, changing no pointer outside the list.\<close>

theorem list_sort_sorts:
  assumes "weak_order lt" and "holds h l xs"
  shows "\<exists>h' ys. list_sort lt l h = Some h' \<and> holds h' l ys \<and> mset ys = mset xs \<and>
           sorted_wrt (\<lambda>a b. \<not> lt b a) ys \<and> same_outside (cells l xs) h h'"
  by (rule list_sort_spec [OF assms])

theorem list_sort_sorts_witness:
  "\<exists>h' ys. list_sort (<) three three_links = Some h' \<and> holds h' three ys \<and> mset ys = mset [4, 2, 3] \<and>
     sorted_wrt (\<lambda>a b. \<not> b < a) ys \<and> same_outside (cells three [4, 2, 3]) three_links h'"
  by (rule list_sort_sorts [OF weak_order_less three_holds])

text \<open>C40: \<open>list_reverse\<close> computes the reversal of the list in place.\<close>

theorem list_reverse_reverses:
  assumes "holds h l xs"
  shows "\<exists>h'. list_reverse l h = Some h' \<and> holds h' l (rev xs) \<and> same_outside (cells l xs) h h'"
  by (rule list_reverse_spec [OF assms])

theorem list_reverse_reverses_witness:
  "\<exists>h'. list_reverse three three_links = Some h' \<and> holds h' three [3, 2, 4] \<and>
     same_outside (cells three [4, 2, 3]) three_links h'"
  using list_reverse_reverses [OF three_holds] by simp



text \<open>\<open>list_unique\<close> keeps the first of every group of adjacent equal elements and appends the
  others, in order, to the list of duplicates if there is one; no element is lost.\<close>

theorem list_unique_partitions:
  assumes "holds_both h l xs dups ds"
  shows "\<exists>h'. list_unique lt l dups h = Some h' \<and>
           holds_both h' l (fst (unique_list lt xs)) dups (ds @ snd (unique_list lt xs)) \<and>
           mset (fst (unique_list lt xs)) + mset (snd (unique_list lt xs)) = mset xs"
  using list_unique_spec [OF assms] mset_unique_list by blast

theorem list_unique_partitions_witness:
  "\<exists>h'. list_unique (\<lambda>a b. a div 2 < b div 2) three None three_links = Some h' \<and> holds h' three [4, 2]"
proof -
  have "holds_both three_links three [4, 2, 3] None []" by (simp add: holds_both_def three_holds)
  from list_unique_partitions [OF this, of "\<lambda>a b. a div 2 < b div 2"] show ?thesis
    by (auto simp: holds_both_def)
qed

text \<open>\<open>list_max\<close> and \<open>list_min\<close> of a nonempty list return the first of the greatest, or of the
  least, of its elements; of an empty list, its tail.\<close>

theorem list_max_min_first:
  assumes "weak_order lt" and "holds h l xs"
  shows "if xs = [] then list_max lt l h = Some (tail l) \<and> list_min lt l h = Some (tail l)
         else \<exists>us m vs ws k zs. list_max lt l h = Some m \<and> xs = us @ m # vs \<and>
                (\<forall>u \<in> set us. lt u m) \<and> (\<forall>v \<in> set xs. \<not> lt m v) \<and>
                list_min lt l h = Some k \<and> xs = ws @ k # zs \<and>
                (\<forall>w \<in> set ws. lt k w) \<and> (\<forall>v \<in> set xs. \<not> lt v k)"
proof (cases xs)
  case Nil
  then show ?thesis using holds_ends(1) [OF assms(2)] by (simp add: list_max_def list_min_def list_end_def)
next
  case (Cons x ys)
  let ?m = "foldl (\<lambda>m e. if lt m e then e else m) x ys" and ?k = "foldl (\<lambda>m e. if lt e m then e else m) x ys"
  have W: "weak_order (\<lambda>a b. lt b a)" using assms(1) unfolding weak_order_def by metis
  have H: "holds h l ([] @ x # ys)" "holds h l ([x] @ ys)" using assms(2) Cons by simp_all
  have "x \<noteq> tail l" "nxt h x = Some (hd (ys @ [tail l]))" using holds_next [OF H(1)] H(1) by (auto simp: holds_def)
  then have "list_max lt l h = Some ?m" "list_min lt l h = Some ?k"
    using holds_ends(1) [OF H(1)] max_loop_eq [OF H(2), of lt x] min_loop_eq [OF H(2), of lt x]
    by (simp_all add: list_max_def list_min_def list_end_def list_next_def)
  then show ?thesis using foldl_extremum [OF assms(1), of x ys] foldl_extremum [OF W, of x ys] Cons by simp
qed

theorem list_max_min_first_witness:
  "list_max (<) three three_links = Some 4 \<and> list_min (<) three three_links = Some 2"
  using list_max_min_first [OF weak_order_less three_holds] by (auto simp: Cons_eq_append_conv)

end
