(* ===== verification/Storage.thy ===== *)
theory Storage
  imports Free_Map Example
begin

text \<open>
  Properties of the storage layers together: the free map, and the inodes on top of it and of the
  buffer cache. The contents of a file are those of the abstraction \<open>content\<close>.
\<close>

section \<open>The example satisfies the invariants\<close>

lemma example_map_data [simp]: "map_data example_fs = Some (one_block 2 8)"
  by (simp add: map_data_def)

lemma example_bits: "bm_list \<lparr>bit_cnt = 8, bits = [31]\<rparr> = [True, True, True, True, True, False, False, False]"
  by (simp add: bm_list_def upt_rec elem_idx_def ELEM_BITS_def)

lemma example_files_ok:
  "file_ok example_disk (one_block 2 8)" "sectors_of example_disk (one_block 2 8) = {2}"
  "file_ok example_disk (one_block 4 20)" "sectors_of example_disk (one_block 4 20) = {4}"
  by (rule one_block_ok; simp add: example_disk_valid)+

lemma example_fs_inv: "fm_inv example_fs"
proof -
  have "(2 :: u32) \<in> fm_used example_fs"
    by (auto simp: fm_used_def example_bits image_iff intro!: exI [of _ 2])
  moreover have "\<forall>i < 8. sector_valid example_disk (of_nat i)"
    by (simp add: example_disk_valid unsigned_of_nat take_bit_nat_eq_self)
  moreover have "bitmap_ok \<lparr>bit_cnt = 8, bits = [31]\<rparr>"
    by (simp add: bitmap_ok_def elem_cnt_def ELEM_BITS_def DIV_ROUND_UP_def)
  moreover have "byte_cnt 8 = 8" by (simp add: byte_cnt_def elem_cnt_def ELEM_BITS_def DIV_ROUND_UP_def)
  moreover have "dlength (one_block 2 8) = 8" by (simp add: one_block_def inode_disk_zero_def)
  ultimately show ?thesis
    unfolding fm_inv_def example_fs_sel example_map_data
    by (simp add: example_disk_ok example_bits example_files_ok BITMAP_ERROR_def)
qed

section \<open>The free map\<close>

text \<open>
  C14: \<open>free_map_allocate\<close> always ends, however deep the nesting through its own file may be in
  principle: on a full disk it reports failure and changes nothing; otherwise it takes the first
  free sector, marks exactly that one, and leaves open inodes and files alone.
\<close>

theorem free_map_allocate_first_fit:
  assumes "fm_inv s"
  shows "if \<forall>i < bit_cnt (free_map s). bm_list (free_map s) ! i
         then free_map_allocate (Suc fuel) 1 s = Some (None, s)
         else \<exists>i s'. free_map_allocate (Suc fuel) 1 s = Some (Some (of_nat i), s') \<and>
                i < bit_cnt (free_map s) \<and> \<not> bm_list (free_map s) ! i \<and> (\<forall>j < i. bm_list (free_map s) ! j) \<and>
                bm_list (free_map s') = (bm_list (free_map s))[i := True] \<and> fm_inv s' \<and>
                inodes s' = inodes s \<and> files s' = files s"
proof (cases "fm_full s")
  case True
  then have full: "\<forall>i < bit_cnt (free_map s). bm_list (free_map s) ! i" by (simp add: fm_full_def)
  show ?thesis unfolding if_P [OF full] by (rule free_map_allocate_full [OF assms True])
next
  case False
  from free_map_allocate_first [OF assms False] obtain i b c where
    a: "i < bit_cnt (free_map s)" "\<not> bm_list (free_map s) ! i" "\<forall>j < i. bm_list (free_map s) ! j"
    "\<forall>fuel. free_map_allocate (Suc fuel) 1 s = Some (Some (of_nat i), s\<lparr>bc := c, free_map := b\<rparr>)"
    "bitmap_ok b" "bm_list b = (bm_list (free_map s))[i := True]" "within (fm_own s) (bc s) c"
    "\<forall>d. map_data s = Some d \<longrightarrow> file_ok c d \<and> sectors_of c d = sectors_of (bc s) d \<and>
       take (byte_cnt (bit_cnt b)) (content (cache_view c) d) = bitmap_bytes b" by blast
  have "\<not> (\<forall>i < bit_cnt (free_map s). bm_list (free_map s) ! i)" using a(1,2) by blast
  then show ?thesis
    using a(1-4,6) fm_inv_taken(1) [OF assms a(1) a(5-8)]
    by (simp only: if_False) (intro exI [of _ i] exI [of _ "s\<lparr>bc := c, free_map := b\<rparr>"], simp)
qed

theorem free_map_allocate_first_fit_witness:
  "\<exists>s'. free_map_allocate 1 1 example_fs = Some (Some 5, s') \<and> fm_inv s' \<and>
     bm_list (free_map s') = [True, True, True, True, True, True, False, False]"
proof -
  have some: "\<not> (\<forall>i < 8. [True, True, True, True, True, False, False, False] ! i)"
    by (intro notI) (drule spec [of _ 5], simp)
  from free_map_allocate_first_fit [OF example_fs_inv, of 0]
  obtain i s' where a: "free_map_allocate (Suc 0) 1 example_fs = Some (Some (of_nat i), s')" "i < 8"
    "\<not> [True, True, True, True, True, False, False, False] ! i"
    "\<forall>j < i. [True, True, True, True, True, False, False, False] ! j"
    "bm_list (free_map s') = [True, True, True, True, True, False, False, False][i := True]" "fm_inv s'"
    using some by (auto simp: example_bits)
  then have "\<not> i < 5" "\<not> 5 < i" by (auto simp: less_Suc_eq numeral_eq_Suc)
  then have "i = 5" by simp
  with a show ?thesis by (simp del: free_map_allocate.simps)
qed

text \<open>
  C15: Allocation and release are inverse: releasing the sector that an allocation returned restores
  the bits of the free map in memory, and the file of the free map, read through the cache, starts with
  the bytes of this restored bitmap again; nothing but the sectors of this file has been written.
\<close>

theorem free_map_allocate_release:
  assumes "fm_inv s" and "free_map_file s \<noteq> None" and "free_map_allocate (Suc fuel) 1 s = Some (Some k, s')"
  shows "\<exists>s'' d. free_map_release n 1 k s' = Some s'' \<and> bm_list (free_map s'') = bm_list (free_map s) \<and> fm_inv s'' \<and>
    map_data s'' = Some d \<and> map_data s = Some d \<and>
    take (byte_cnt (bit_cnt (free_map s''))) (content (cache_view (bc s'')) d) = bitmap_bytes (free_map s'') \<and>
    within (fm_own s) (bc s) (bc s'')"
proof -
  have nf: "\<not> fm_full s" using free_map_allocate_full [OF assms(1)] assms(3) by (auto simp del: free_map_allocate.simps)
  from free_map_allocate_first [OF assms(1) nf] obtain i b c where
    i: "i < bit_cnt (free_map s)" "\<not> bm_list (free_map s) ! i"
    and a: "free_map_allocate (Suc fuel) 1 s = Some (Some (of_nat i), s\<lparr>bc := c, free_map := b\<rparr>)"
    and b: "bitmap_ok b" "bm_list b = (bm_list (free_map s))[i := True]" "within (fm_own s) (bc s) c"
    "\<forall>d. map_data s = Some d \<longrightarrow> file_ok c d \<and> sectors_of c d = sectors_of (bc s) d \<and>
       take (byte_cnt (bit_cnt b)) (content (cache_view c) d) = bitmap_bytes b" by blast
  have s': "s' = s\<lparr>bc := c, free_map := b\<rparr>" "k = of_nat i" using a assms(3) by (simp_all del: free_map_allocate.simps)
  have cnt: "bit_cnt b = bit_cnt (free_map s)" by (rule bm_list_bit_cnt [OF b(2)])
  note T = fm_inv_taken [OF assms(1) i(1) b]
  have "0 < i" using i(2) fm_invD(6) [OF assms(1)] by (cases i) auto
  moreover have "of_nat i \<notin> fm_own s"
    using of_nat_in_fm_used [OF assms(1) i(1)] i(2) space.inv_own [OF assms(1)] by blast
  ultimately have "\<exists>b' c'. free_map_release n 1 (of_nat i) s' = Some (s'\<lparr>bc := c', free_map := b'\<rparr>) \<and>
      fm_inv (s'\<lparr>bc := c', free_map := b'\<rparr>) \<and> fm_own (s'\<lparr>bc := c', free_map := b'\<rparr>) = fm_own s' \<and>
      bm_list b' = (bm_list (free_map s'))[i := False] \<and> within (fm_own s') (bc s') c' \<and>
      fm_used (s'\<lparr>bc := c', free_map := b'\<rparr>) = fm_used s' - {of_nat i} \<and>
      (\<forall>d. map_data s' = Some d \<longrightarrow> take (byte_cnt (bit_cnt b')) (content (cache_view c') d) = bitmap_bytes b')"
    using T i(1) assms(2) cnt unfolding s'(1) by (intro free_map_release_spec) simp_all
  moreover have "(bm_list (free_map s))[i := True, i := False] = bm_list (free_map s)"
    using i(2) by (metis list_update_id list_update_overwrite)
  moreover obtain d where d: "map_data s = Some d" using assms(1,2) by (auto simp: fm_inv_def)
  moreover have "within (fm_own s) (bc s) c'" if "within (fm_own s') (bc s') c'" for c'
    using within_trans [OF b(3), of "fm_own s'" c'] that T(2) unfolding s'(1) by simp
  ultimately show ?thesis unfolding s' using b(2) by (fastforce simp: map_data_def)
qed

theorem free_map_allocate_release_witness:
  "\<exists>k s' s''. free_map_allocate 1 1 example_fs = Some (Some k, s') \<and> free_map_release 1 1 k s' = Some s'' \<and>
     bm_list (free_map s'') = [True, True, True, True, True, False, False, False] \<and>
     take (byte_cnt (bit_cnt (free_map s''))) (content (cache_view (bc s'')) (one_block 2 8)) = bitmap_bytes (free_map s'')"
proof -
  have nf: "\<not> fm_full example_fs"
    by (auto simp: fm_full_def example_bits intro!: exI [of _ 5])
  then obtain k s' where a: "free_map_allocate (Suc 0) 1 example_fs = Some (Some k, s')"
    using free_map_allocate_first [OF example_fs_inv nf] by blast
  from free_map_allocate_release [OF example_fs_inv _ this, of 1] a show ?thesis
    by (auto simp: example_bits simp del: free_map_allocate.simps)
qed

section \<open>From trees of sectors to files\<close>

text \<open>Where the first \<open>n\<close> leaves exist, the trees of an inode form a sound file layout.\<close>

lemma meta_sectors_inner:
  assumes n: "n \<le> MAX_BLOCKS" and leaves: "\<And>i. i < n \<Longrightarrow> disk_leaf v d i \<noteq> 0"
  shows "meta_sectors v d n \<subseteq> disk_inner v d"
proof -
  let ?ws = "indirect_of (v (doubly_indirect_block d))"
  have one: "indirect_block d \<in> disk_inner v d" if "123 < n"
  proof -
    have "leaf v 1 (indirect_block d) 0 \<noteq> 0"
      using leaves [OF that] by (simp add: disk_leaf_def part_of_def part_def part_start_def forest_leaf_def)
    then have "indirect_block d \<noteq> 0" by auto
    then have "indirect_block d \<in> forest_inner v 1 (part d 1)"
      by (simp add: forest_inner_def part_def inner_Suc)
    then show ?thesis by (auto simp: disk_inner_def)
  qed
  have two: "leaf v 2 (doubly_indirect_block d) (128 * j) \<noteq> 0" if "j * 128 + 251 < n" for j
  proof -
    have "disk_leaf v d (j * 128 + 251) \<noteq> 0" by (rule leaves [OF that])
    moreover have "j < 128" using that n by (simp add: MAX_BLOCKS_def)
    ultimately show ?thesis
      by (simp add: disk_leaf_def part_of_def part_def part_start_def forest_leaf_def mult.commute)
  qed
  have dbl: "doubly_indirect_block d \<in> disk_inner v d" "?ws ! j \<in> disk_inner v d" if "j * 128 + 251 < n" for j
  proof -
    have nz: "doubly_indirect_block d \<noteq> 0" using two [OF that] by auto
    have "leaf v 1 (?ws ! j) 0 \<noteq> 0"
      using two [OF that] nz by (simp add: numeral_2_eq_2 leaf_Suc forest_leaf_def)
    then have j: "?ws ! j \<noteq> 0" by auto
    have "j < length ?ws" using that n by (simp add: MAX_BLOCKS_def)
    then have "?ws ! j \<in> forest_inner v 1 ?ws"
      using j nth_mem [of j ?ws] by (auto simp: forest_inner_def inner_Suc)
    then have "?ws ! j \<in> forest_inner v 2 (part d 2)" "doubly_indirect_block d \<in> forest_inner v 2 (part d 2)"
      using nz by (simp_all add: forest_inner_def part_def numeral_2_eq_2 inner_Suc)
    then show "doubly_indirect_block d \<in> disk_inner v d" "?ws ! j \<in> disk_inner v d" by (auto simp: disk_inner_def)
  qed
  then show ?thesis using one dbl(1) [of 0] unfolding meta_sectors_def by auto
qed

lemma grown_layout:
  assumes ok: "disk_ok (cache_view (bc s)) d" and tk: "space.taken s (disk_nodes (cache_view (bc s)) d)"
    and d: "inode_disk_ok d" and n: "n \<le> MAX_BLOCKS"
    and leaves: "\<And>i. i < n \<Longrightarrow> disk_leaf (cache_view (bc s)) d i \<noteq> 0"
  shows "layout_ok (bc s) d n" and "i < n \<Longrightarrow> data_sector (cache_view (bc s)) d i = disk_leaf (cache_view (bc s)) d i"
proof -
  let ?v = "cache_view (bc s)"
  show eq: "data_sector ?v d i = disk_leaf ?v d i" if "i < n" for i
    using leaves [OF that] that n by (intro disk_leaf_data_sector) simp_all
  have nodes: "disk_leaf ?v d i \<in> disk_nodes ?v d" "disk_leaf ?v d i \<notin> disk_inner ?v d" if "i < n" for i
    using disk_leaf_facts [OF ok _ leaves [OF that]] that n by simp_all
  have inner: "disk_inner ?v d \<subseteq> disk_nodes ?v d"
    using forest_inner_subset unfolding disk_inner_def disk_nodes_def by blast
  note meta = meta_sectors_inner [OF n leaves]
  have valid: "sector_valid (bc s) k \<and> k \<noteq> - 1" if "k \<in> disk_nodes ?v d" for k
    using tk that by (simp add: space.taken_def)
  have "inj_on (data_sector ?v d) {..<n}"
    using disk_leaf_inj [OF ok] leaves eq n by (intro inj_onI) (metis lessThan_iff order_less_le_trans)
  moreover have "data_sector ?v d ` {..<n} \<inter> meta_sectors ?v d n = {}"
    using eq nodes(2) meta by fastforce
  moreover have "- 1 \<notin> data_sector ?v d ` {..<n}" using eq nodes(1) valid by fastforce
  ultimately show "layout_ok (bc s) d n"
    unfolding layout_ok_def using d n eq nodes(1) valid meta inner by auto
qed

section \<open>Reading and overwriting\<close>

text \<open>
  C3: \<open>inode_read_at\<close> returns exactly the part of the file that was asked for, cut at the end of the
  file, whether the blocks are direct, indirect or doubly indirect; nothing but the cache changes,
  and the cache still shows the same sectors.
\<close>

theorem inode_read_at_slice:
  assumes "inodes s i = Some n" and "cache_ok (bc s)" and "file_ok (bc s) (i_data n)" and "p < 2 ^ 31"
  shows "\<exists>c. inode_read_at i (int k) (int p) s =
      Some (take k (drop p (content (cache_view (bc s)) (i_data n))), s\<lparr>bc := c\<rparr>) \<and> keeps (bc s) c"
  by (rule inode_read_at_eq [OF assms])

theorem inode_read_at_slice_witness:
  "\<exists>s'. inode_read_at 4 50 8 example_fs = Some (replicate 12 0, s')"
  using inode_read_at_slice [of example_fs 4 _ 8 50]
  by (auto simp: example_disk_ok example_files_ok one_block_content)

text \<open>
  C2: Writing inside a file and reading the file back yields the old contents with the new bytes in
  their place; the length stays, and the contents of every file in other sectors stay.
\<close>

theorem inode_write_read:
  assumes "inodes s i = Some n" and "deny_write_cnt n = 0" and "cache_ok (bc s)" and "file_ok (bc s) (i_data n)"
    and "p + k \<le> nat (dlength (i_data n))" and "0 < p + k" and "k \<le> length buf"
    and "file_ok (bc s) d" and "sectors_of (bc s) d \<inter> sectors_of (bc s) (i_data n) = {}"
  shows "\<exists>s' s''. inode_write_at A i buf (int k) (int p) s = Some (int k, s') \<and> inodes s' = inodes s \<and>
    inode_read_at i (dlength (i_data n)) 0 s' =
      Some (overwrite p (take k buf) (content (cache_view (bc s)) (i_data n)), s'') \<and>
    content (cache_view (bc s')) d = content (cache_view (bc s)) d"
proof -
  from inode_write_at_inside [OF assms(1-7)] obtain c where
    c: "\<forall>A. inode_write_at A i buf (int k) (int p) s = Some (int k, s\<lparr>bc := c\<rparr>)"
    "within (sectors_of (bc s) (i_data n)) (bc s) c" "file_ok c (i_data n)"
    "content (cache_view c) (i_data n) = overwrite p (take k buf) (content (cache_view (bc s)) (i_data n))" by blast
  let ?s = "s\<lparr>bc := c\<rparr>"
  have len: "int (nat (dlength (i_data n))) = dlength (i_data n)" using file_okD(1) [OF assms(4)] by simp
  have "\<exists>c'. inode_read_at i (int (nat (dlength (i_data n)))) (int 0) ?s =
      Some (take (nat (dlength (i_data n))) (drop 0 (content (cache_view (bc ?s)) (i_data n))), ?s\<lparr>bc := c'\<rparr>) \<and>
      keeps (bc ?s) c'"
    by (rule inode_read_at_eq) (simp_all add: assms(1) c(3) withinD(1) [OF c(2)])
  moreover have "length (overwrite p (take k buf) (content (cache_view (bc s)) (i_data n))) = nat (dlength (i_data n))"
    using assms(5) by simp
  ultimately obtain c' where "inode_read_at i (dlength (i_data n)) 0 ?s =
      Some (overwrite p (take k buf) (content (cache_view (bc s)) (i_data n)), ?s\<lparr>bc := c'\<rparr>)"
    using len c(4) by auto
  moreover have "content (cache_view c) d = content (cache_view (bc s)) d"
    using file_within(2) [OF assms(8) c(2)] assms(9) by blast
  ultimately show ?thesis using c(1) by auto
qed

theorem inode_write_read_witness:
  "\<exists>s' s''. inode_write_at (\<lambda>s. None) 4 [7, 8] 2 3 example_fs = Some (2, s') \<and>
     inode_read_at 4 20 0 s' = Some (replicate 3 0 @ [7, 8] @ replicate 15 0, s'')"
proof -
  have l: "dlength (one_block 4 20) = 20" by (simp add: one_block_def inode_disk_zero_def)
  have o: "overwrite 3 [7, 8] (replicate 20 0) = replicate 3 0 @ [7, 8] @ replicate 15 (0 :: byte)"
    by (simp add: overwrite_def numeral_eq_Suc)
  from inode_write_read [of example_fs 4 _ 3 2 "[7, 8]" "one_block 2 8" "\<lambda>s. None"] show ?thesis
    by (auto simp: example_disk_ok example_files_ok one_block_content l o)
qed

section \<open>Writing past the end of a file\<close>

text \<open>The trees of an inode depend only on the indirect blocks.\<close>

lemma disk_cong:
  assumes same: "\<forall>k \<in> disk_inner v d. v' k = v k"
  shows "disk_nodes v' d = disk_nodes v d" and "disk_inner v' d = disk_inner v d"
    and "disk_ok v' d = disk_ok v d"
    and "length (direct_blocks d) = 123 \<Longrightarrow> i < MAX_BLOCKS \<Longrightarrow> disk_leaf v' d i = disk_leaf v d i"
proof -
  have C: "forest v' k (part d k) = forest v k (part d k)" "forest_inner v' k (part d k) = forest_inner v k (part d k)"
    "forest_ok v' k (part d k) = forest_ok v k (part d k)"
    "m < length (part d k) * 128 ^ k \<Longrightarrow> forest_leaf v' k (part d k) m = forest_leaf v k (part d k) m"
    if k: "k < 3" for k m
  proof -
    have "v' j = v j" if "j \<in> forest_inner v k (part d k)" for j
      using same that k by (auto simp: disk_inner_def)
    note c = forest_cong [OF this]
    show "forest v' k (part d k) = forest v k (part d k)" by (rule c(1))
    show "forest_inner v' k (part d k) = forest_inner v k (part d k)" by (rule c(2))
    show "forest_ok v' k (part d k) = forest_ok v k (part d k)" by (rule c(3))
    show "m < length (part d k) * 128 ^ k \<Longrightarrow> forest_leaf v' k (part d k) m = forest_leaf v k (part d k) m"
      by (rule c(4))
  qed
  show "disk_nodes v' d = disk_nodes v d" "disk_inner v' d = disk_inner v d" "disk_ok v' d = disk_ok v d"
    using C by (simp_all add: disk_nodes_def disk_inner_def disk_ok_def)
  assume "length (direct_blocks d) = 123" "i < MAX_BLOCKS"
  then show "disk_leaf v' d i = disk_leaf v d i"
    using part_of_bounds [of i d] C(4) by (simp add: disk_leaf_def Let_def)
qed

lemma disk_dlength [simp]:
  "disk_nodes v (d\<lparr>dlength := e\<rparr>) = disk_nodes v d" "disk_inner v (d\<lparr>dlength := e\<rparr>) = disk_inner v d"
  "disk_ok v (d\<lparr>dlength := e\<rparr>) = disk_ok v d" "disk_leaf v (d\<lparr>dlength := e\<rparr>) i = disk_leaf v d i"
proof -
  have "part (d\<lparr>dlength := e\<rparr>) k = part d k" for k by (simp add: part_def)
  then show "disk_nodes v (d\<lparr>dlength := e\<rparr>) = disk_nodes v d" "disk_inner v (d\<lparr>dlength := e\<rparr>) = disk_inner v d"
    "disk_ok v (d\<lparr>dlength := e\<rparr>) = disk_ok v d" "disk_leaf v (d\<lparr>dlength := e\<rparr>) i = disk_leaf v d i"
    by (simp_all add: disk_nodes_def disk_inner_def disk_ok_def disk_leaf_def)
qed

lemma disk_inner_nodes: "disk_inner v d \<subseteq> disk_nodes v d"
  using forest_inner_subset unfolding disk_inner_def disk_nodes_def by blast

text \<open>
  An inode that can grow: its tree is sound, covers the length, and lies, like the sector of the
  inode itself, in sectors that are marked as used and are not the free map's.
\<close>

definition growable :: "fs \<Rightarrow> inode \<Rightarrow> bool" where
  "growable s n \<longleftrightarrow>
     (let v = cache_view (bc s); d = i_data n
      in inode_disk_ok d \<and> 0 \<le> dlength d \<and> blocks_of d \<le> MAX_BLOCKS \<and> disk_ok v d \<and>
         (\<forall>i < blocks_of d. disk_leaf v d i \<noteq> 0) \<and>
         (\<forall>k \<in> insert (i_sector n) (disk_nodes v d). sector_valid (bc s) k \<and> k \<noteq> - 1 \<and> k \<in> fm_used s \<and> k \<notin> fm_own s) \<and>
         i_sector n \<notin> disk_nodes v d)"

lemma growableD:
  assumes "growable s n"
  shows "inode_disk_ok (i_data n)" and "0 \<le> dlength (i_data n)" and "blocks_of (i_data n) \<le> MAX_BLOCKS"
    and "disk_ok (cache_view (bc s)) (i_data n)" and "i < blocks_of (i_data n) \<Longrightarrow> disk_leaf (cache_view (bc s)) (i_data n) i \<noteq> 0"
    and "space.taken s (insert (i_sector n) (disk_nodes (cache_view (bc s)) (i_data n)))"
    and "i_sector n \<notin> disk_nodes (cache_view (bc s)) (i_data n)"
  using assms by (simp_all add: growable_def Let_def space.taken_def)

lemma growable_file_ok:
  assumes "growable s n"
  shows "file_ok (bc s) (i_data n)"
    and "i < blocks_of (i_data n) \<Longrightarrow>
      data_sector (cache_view (bc s)) (i_data n) i = disk_leaf (cache_view (bc s)) (i_data n) i"
proof -
  note G = growableD [OF assms]
  have "space.taken s (disk_nodes (cache_view (bc s)) (i_data n))" using G(6) by (auto intro: space.taken_subset)
  note L = grown_layout [OF G(4) this G(1,3) G(5)]
  show "file_ok (bc s) (i_data n)" using L(1) G(2) by (simp add: file_ok_def)
  show "i < blocks_of (i_data n) \<Longrightarrow>
      data_sector (cache_view (bc s)) (i_data n) i = disk_leaf (cache_view (bc s)) (i_data n) i" by (rule L(2))
qed

text \<open>Changing an inode in memory does not concern the free map unless it is its own.\<close>

lemma map_data_inodes:
  assumes "\<And>f fl. free_map_file s = Some f \<Longrightarrow> files s f = Some fl \<Longrightarrow> file_inode fl \<noteq> i"
  shows "map_data (s\<lparr>inodes := (inodes s)(i \<mapsto> m)\<rparr>) = map_data s"
  using assms by (auto simp: map_data_def split: bind_splits)

lemma fm_inodes:
  assumes "\<And>f fl. free_map_file s = Some f \<Longrightarrow> files s f = Some fl \<Longrightarrow> file_inode fl \<noteq> i"
  shows "fm_inv (s\<lparr>inodes := (inodes s)(i \<mapsto> m)\<rparr>) = fm_inv s"
    and "fm_own (s\<lparr>inodes := (inodes s)(i \<mapsto> m)\<rparr>) = fm_own s"
    and "fm_used (s\<lparr>inodes := (inodes s)(i \<mapsto> m)\<rparr>) = fm_used s"
proof -
  have "map_data (s\<lparr>inodes := (inodes s)(i \<mapsto> m)\<rparr>) = map_data s" by (rule map_data_inodes) (rule assms)
  then show "fm_inv (s\<lparr>inodes := (inodes s)(i \<mapsto> m)\<rparr>) = fm_inv s"
    "fm_own (s\<lparr>inodes := (inodes s)(i \<mapsto> m)\<rparr>) = fm_own s"
    "fm_used (s\<lparr>inodes := (inodes s)(i \<mapsto> m)\<rparr>) = fm_used s"
    by (simp_all add: fm_inv_def fm_own_def fm_used_def split: option.split)
qed

text \<open>
  The byte stored for offset \<open>q\<close> in the blocks that a file has, also behind its end: zero where no
  block is reserved.
\<close>

definition stored_byte :: "(u32 \<Rightarrow> byte list) \<Rightarrow> inode_disk \<Rightarrow> nat \<Rightarrow> byte" where
  "stored_byte v d q = (let k = disk_leaf v d (q div 512) in if k = 0 then 0 else v k ! (q mod 512))"

text \<open>What growing and writing a file may change besides sectors that are free.\<close>

definition file_sectors :: "fs \<Rightarrow> inode \<Rightarrow> u32 set" where
  "file_sectors s n = insert 0 (insert (i_sector n) (disk_nodes (cache_view (bc s)) (i_data n)))"

lemma stored_byte_content:
  assumes "growable s n" and "q < nat (dlength (i_data n))"
  shows "content (cache_view (bc s)) (i_data n) ! q = stored_byte (cache_view (bc s)) (i_data n) q"
proof -
  have b: "q div 512 < blocks_of (i_data n)" by (rule block_of_offset [OF assms(2)])
  show ?thesis using growable_file_ok(2) [OF assms(1) b] growableD(5) [OF assms(1) b] assms(2)
    by (simp add: nth_content byte_at_def stored_byte_def)
qed

lemma inode_extend_spec:
  assumes inv: "fm_inv s" and n: "inodes s i = Some n" and G: "growable s n"
    and other: "\<forall>f fl. free_map_file s = Some f \<and> files s f = Some fl \<longrightarrow> file_inode fl \<noteq> i"
    and e: "int e + 512 < 2 ^ 31" "(e + 511) div 512 \<le> MAX_BLOCKS" "nat (dlength (i_data n)) \<le> e"
  shows "\<exists>ok s'. inode_extend (free_map_allocate (Suc fuel) 1) i (int e) s = Some (ok, s') \<and> fm_inv s' \<and>
    within (fm_own s \<union> file_sectors s n \<union> - fm_used s) (bc s) (bc s') \<and> fm_own s' = fm_own s \<and> fm_used s \<subseteq> fm_used s' \<and>
    (\<not> ok \<longrightarrow> fm_full s' \<and> card (fm_managed s - fm_used s) < sectors_needed ((e + 511) div 512)) \<and>
    (ok \<longrightarrow> (\<exists>n'. inodes s' = (inodes s)(i \<mapsto> n') \<and> i_sector n' = i_sector n \<and> growable s' n' \<and>
       dlength (i_data n') = int e \<and> cache_view (bc s') (i_sector n) = encode_inode (i_data n') \<and>
       disk_nodes (cache_view (bc s')) (i_data n') \<subseteq> disk_nodes (cache_view (bc s)) (i_data n) \<union> - fm_used s \<and>
       (\<forall>q < e. content (cache_view (bc s')) (i_data n') ! q = stored_byte (cache_view (bc s)) (i_data n) q)))"
proof -
  let ?A = "free_map_allocate (Suc fuel) 1" and ?v = "cache_view (bc s)" and ?d = "i_data n" and ?sec = "i_sector n"
  define N where "N = (nat (int e) + 511) div 512"
  note D0 = growableD [OF G]
  have tk: "space.taken s (disk_nodes ?v ?d)" "space.taken s {?sec}" using D0(6) by (auto intro: space.taken_subset)
  have N: "N \<le> MAX_BLOCKS" using e(2) by (simp add: N_def)
  from space.inode_reserve_spec [where fuel = fuel, OF inv D0(4) tk(1) _ e(1) N_def N] obtain ok d1 s1 where
    r: "inode_reserve ?A ?d (int e) s = Some (ok, d1, s1)"
    "space.ext (disk_inner ?v ?d \<union> (if ok then {} else {0})) s s1" "ok \<longrightarrow> space.disk_grown s s1 ?d d1 0 N"
    "space.spends ok s s1 (sectors_needed N)"
    by auto
  have frame1: "within (fm_own s \<union> file_sectors s n \<union> - fm_used s) (bc s) (bc s1)"
  proof -
    have "disk_inner ?v ?d \<union> (if ok then {} else {0}) \<subseteq> file_sectors s n"
      using disk_inner_nodes [of ?v ?d] by (auto simp: file_sectors_def)
    with r(2) show ?thesis unfolding space.ext_def by (auto elim!: within_mono)
  qed
  note X = space.extD [OF r(2)]
  have s1: "s1 = s\<lparr>bc := bc s1, free_map := free_map s1\<rparr>" by (rule X(4))
  have same: "inodes s1 = inodes s" "free_map_file s1 = free_map_file s" "files s1 = files s"
    by (subst s1, simp)+
  have other1: "file_inode fl \<noteq> i" if "free_map_file s1 = Some f" "files s1 f = Some fl" for f fl
    using other that same by simp
  show ?thesis
  proof (cases ok)
    case False
    let ?s' = "s1\<lparr>inodes := (inodes s1)(i \<mapsto> n\<lparr>i_data := d1\<rparr>)\<rparr>"
    have "fm_inv ?s' = fm_inv s1" by (rule fm_inodes(1)) (rule other1)
    moreover have "fm_own ?s' = fm_own s" "fm_used ?s' = fm_used s1"
      using fm_inodes(2,3) [of s1 i, OF other1] X(2) by simp_all
    moreover have "inode_extend ?A i (int e) s = Some (False, ?s')"
      using False r(1) n same(1) by (simp add: inode_extend_def)
    moreover have "fm_full ?s'" using r(4) False by (simp add: space.spends_def fm_full_def)
    moreover have "card (fm_managed s - fm_used s) < sectors_needed ((e + 511) div 512)"
      using space.spends_short [OF r(2)] r(4) False by (simp add: N_def)
    ultimately show ?thesis using X(1,3) frame1 by (intro exI [of _ False] exI [of _ ?s']) simp
  next
    case True
    with r(2) have E: "space.ext (disk_inner ?v ?d) s s1" by simp
    let ?v1 = "cache_view (bc s1)"
    have "space.disk_grown s s1 ?d d1 0 N" using True r(3) by simp
    note D1 = space.disk_grownD [OF this]
    define d2 where "d2 = d1\<lparr>dlength := int e\<rparr>"
    define n2 where "n2 = n\<lparr>i_data := d2\<rparr>"
    define c where "c = buffer_cache_write ?sec (encode_inode d2) (bc s1)"
    let ?s' = "s1\<lparr>inodes := (inodes s)(i \<mapsto> n2), bc := c\<rparr>" and ?v' = "cache_view c"
    have run: "inode_extend ?A i (int e) s = Some (True, ?s')"
      using True r(1) n same by (simp add: inode_extend_def cwrite_def c_def d2_def n2_def Let_def)
    have sec1: "space.taken s1 {?sec}" by (rule space.taken_ext [OF tk(2) E])
    have sec: "sector_valid (bc s1) ?sec" "?sec \<notin> fm_own s1" using sec1 by (simp_all add: space.taken_def)
    have sec_out: "?sec \<notin> disk_nodes ?v1 d1" using D1(4) D0(7) tk(2) by (auto simp: space.taken_def)
    have d2_ok: "inode_disk_ok d2" using D1(1) e(1) by (simp add: inode_disk_ok_def d2_def disk_ok_def)
    have cache1: "cache_ok (bc s1)" by (rule fm_invD(1) [OF X(1)])
    have W: "within {?sec} (bc s1) c"
      unfolding c_def using cache1 sec(1) d2_ok by (intro within_write) simp_all
    have v': "?v' ?sec = encode_inode d2"
      unfolding c_def using buffer_cache_write_spec(3) [OF cache1 sec(1) length_encode_inode [OF d2_ok] sec(1)] by simp
    have tk1: "space.taken s1 (disk_nodes ?v1 d1)" by (rule D1(2))
    have keep: "?v' k = ?v1 k" if "k \<in> disk_nodes ?v1 d1" for k
      using withinD(3) [OF W, of k] that sec_out tk1 by (auto simp: space.taken_def)
    have "\<forall>k \<in> disk_inner ?v1 d1. ?v' k = ?v1 k" using keep disk_inner_nodes by blast
    note C = disk_cong [of ?v1 d1 ?v', OF this]
    have len: "length (direct_blocks d1) = 123" using D1(1) by (simp add: disk_ok_def)
    have own': "fm_own (s1\<lparr>bc := c\<rparr>) = fm_own s1" "fm_inv (s1\<lparr>bc := c\<rparr>)"
      using fm_inv_within [OF X(1) W] sec(2) by simp_all
    have inv': "fm_inv ?s'" "fm_own ?s' = fm_own s1" "fm_used ?s' = fm_used s1"
    proof -
      let ?t = "s1\<lparr>bc := c\<rparr>"
      have o: "file_inode fl \<noteq> i" if "free_map_file ?t = Some f" "files ?t f = Some fl" for f fl
        using that other1 by simp
      have eq: "?s' = ?t\<lparr>inodes := (inodes ?t)(i \<mapsto> n2)\<rparr>" using same(1) by simp
      have "fm_inv ?s' = fm_inv ?t" "fm_own ?s' = fm_own ?t" "fm_used ?s' = fm_used ?t"
        unfolding eq by (rule fm_inodes, rule o, assumption+)+
      then show "fm_inv ?s'" "fm_own ?s' = fm_own s1" "fm_used ?s' = fm_used s1"
        using own' by (simp_all add: fm_used_def)
    qed
    have blocks: "blocks_of d2 = N" by (simp add: blocks_of_def d2_def N_def)
    have leaf2: "disk_leaf ?v' d2 b = disk_leaf ?v1 d1 b" if "b < MAX_BLOCKS" for b
      using C(4) [OF len that] by (simp add: d2_def)
    have grow': "growable ?s' n2"
    proof -
      have "space.taken s1 (insert ?sec (disk_nodes ?v1 d1))" using sec1 tk1 by (simp add: space.taken_def)
      then have "\<forall>k \<in> insert ?sec (disk_nodes ?v' d2).
          sector_valid c k \<and> k \<noteq> - 1 \<and> k \<in> fm_used ?s' \<and> k \<notin> fm_own ?s'"
        using C(1) withinD(2) [OF W] inv'(2,3) by (simp add: space.taken_def d2_def)
      moreover have "\<forall>b < N. disk_leaf ?v' d2 b \<noteq> 0" using D1(6) leaf2 N by simp
      moreover have "disk_ok ?v' d2" using C(3) D1(1) by (simp add: d2_def)
      ultimately show ?thesis
        using d2_ok blocks N sec_out C(1) unfolding growable_def Let_def
        by (simp add: n2_def d2_def)
    qed
    have bytes: "content ?v' d2 ! q = stored_byte ?v ?d q" if q: "q < e" for q
    proof -
      let ?b = "q div 512" and ?L = "disk_leaf ?v1 d1 (q div 512)"
      have b: "?b < N" using block_of_offset [of q d2] q blocks by (simp add: d2_def)
      then have bM: "?b < MAX_BLOCKS" using N by simp
      have L: "?L \<noteq> 0" using D1(6) b by simp
      have "data_sector ?v' d2 ?b = ?L"
        using growable_file_ok(2) [OF grow', of ?b] b blocks leaf2 [OF bM] by (simp add: n2_def)
      moreover have "?v' ?L = ?v1 ?L" by (rule keep) (rule disk_leaf_facts(1) [OF D1(1) bM L])
      ultimately have new: "content ?v' d2 ! q = ?v1 ?L ! (q mod 512)"
        using q by (simp add: nth_content byte_at_def d2_def)
      have "?v1 ?L ! (q mod 512) = ?v (disk_leaf ?v ?d ?b) ! (q mod 512)" if nz: "disk_leaf ?v ?d ?b \<noteq> 0"
      proof -
        have "?L = disk_leaf ?v ?d ?b" by (rule D1(7) [OF bM nz])
        moreover have "?v1 (disk_leaf ?v ?d ?b) = ?v (disk_leaf ?v ?d ?b)"
          by (rule space.ext_view [OF E tk(1)]) (rule disk_leaf_facts [OF D0(4) bM nz])+
        ultimately show ?thesis by simp
      qed
      moreover have "?v1 ?L ! (q mod 512) = 0" if "disk_leaf ?v ?d ?b = 0"
        using D1(8) [OF bM that L] by (simp add: zeros_def)
      ultimately show ?thesis using new by (simp add: stored_byte_def Let_def)
    qed
    have frame: "within (fm_own s \<union> file_sectors s n \<union> - fm_used s) (bc s) c"
      by (rule within_trans [OF frame1 W]) (auto simp: file_sectors_def)
    have nodes': "disk_nodes ?v' d2 \<subseteq> disk_nodes ?v ?d \<union> - fm_used s" using C(1) D1(4) by (simp add: d2_def)
    show ?thesis
      using run inv' X(2,3) frame nodes' grow' v' bytes
      by (intro exI [of _ True] exI [of _ ?s']) (auto simp: n2_def d2_def intro!: exI [of _ n2])
  qed
qed

lemma data_sectors_leaves:
  assumes G: "growable s n" and k: "k \<in> data_sector (cache_view (bc s)) (i_data n) ` {..<blocks_of (i_data n)}"
  shows "k \<in> disk_nodes (cache_view (bc s)) (i_data n)" and "k \<notin> disk_inner (cache_view (bc s)) (i_data n)"
    and "k \<notin> fm_own s" and "k \<noteq> i_sector n"
proof -
  note D = growableD [OF G]
  from k obtain b where b: "b < blocks_of (i_data n)" "k = disk_leaf (cache_view (bc s)) (i_data n) b"
    using growable_file_ok(2) [OF G] by auto
  then have bM: "b < MAX_BLOCKS" using D(3) by simp
  note L = disk_leaf_facts [OF D(4) bM D(5) [OF b(1)]]
  show "k \<in> disk_nodes (cache_view (bc s)) (i_data n)" "k \<notin> disk_inner (cache_view (bc s)) (i_data n)"
    using L b(2) by simp_all
  then show "k \<notin> fm_own s" "k \<noteq> i_sector n" using D(6,7) by (auto simp: space.taken_def)
qed

lemma growable_overwrite:
  assumes inv: "fm_inv s" and G: "growable s n"
    and W: "within (data_sector (cache_view (bc s)) (i_data n) ` {..<blocks_of (i_data n)}) (bc s) c"
  shows "fm_inv (s\<lparr>bc := c\<rparr>)" and "growable (s\<lparr>bc := c\<rparr>) n"
    and "cache_view c (i_sector n) = cache_view (bc s) (i_sector n)"
proof -
  let ?v = "cache_view (bc s)" and ?d = "i_data n"
  note D = growableD [OF G] and S = data_sectors_leaves [OF G]
  have disj: "data_sector ?v ?d ` {..<blocks_of ?d} \<inter> fm_own s = {}" using S(3) by blast
  note I = fm_inv_within [OF inv W disj]
  show "fm_inv (s\<lparr>bc := c\<rparr>)" by (rule I(1))
  have "\<forall>k \<in> disk_inner ?v ?d. cache_view c k = ?v k"
  proof
    fix k assume k: "k \<in> disk_inner ?v ?d"
    then have "k \<in> disk_nodes ?v ?d" using disk_inner_nodes by blast
    moreover have "k \<notin> data_sector ?v ?d ` {..<blocks_of ?d}" using S(2) k by blast
    ultimately show "cache_view c k = ?v k" using withinD(3) [OF W] D(6) by (simp add: space.taken_def)
  qed
  note C = disk_cong [OF this]
  have len: "length (direct_blocks ?d) = 123" using D(1) by (simp add: inode_disk_ok_def)
  show "growable (s\<lparr>bc := c\<rparr>) n"
    using G C(1,3) C(4) [OF len] D(3) I(2) withinD(2) [OF W]
    unfolding growable_def Let_def by (simp add: fm_used_def)
  show "cache_view c (i_sector n) = ?v (i_sector n)"
    using withinD(3) [OF W, of "i_sector n"] D(6) S(4) by (fastforce simp: space.taken_def)
qed

text \<open>
  C1: Writing past the end of a file succeeds when there is room: it fails only if the free map has fewer
  free sectors than a file of the new size needs, and then returns 0 with no sector left. Otherwise
  the file ends with the data, in front of which are the old contents and, behind the old end, zeros in
  newly reserved blocks and what the sectors held in blocks that were there already; the file is
  again one that can grow, and the inode on disk is the one in memory. In both cases the free map stays sound,
  and files whose sectors are in use and are not among those of this file, the free map and sector 0
  keep their contents.
\<close>

theorem inode_write_past_end:
  assumes "fm_inv s" and "inodes s i = Some n" and "deny_write_cnt n = 0" and "growable s n"
    and "\<forall>f fl. free_map_file s = Some f \<and> files s f = Some fl \<longrightarrow> file_inode fl \<noteq> i"
    and "nat (dlength (i_data n)) < p + k" and "k \<le> length buf"
    and "int (p + k) + 512 < 2 ^ 31" and "(p + k + 511) div 512 \<le> MAX_BLOCKS"
  shows "\<exists>r s'. inode_write_at (free_map_allocate (Suc fuel) 1) i buf (int k) (int p) s = Some (r, s') \<and> fm_inv s' \<and>
    (\<forall>d. file_ok (bc s) d \<longrightarrow> sectors_of (bc s) d \<subseteq> fm_used s - fm_own s - file_sectors s n \<longrightarrow>
       file_ok (bc s') d \<and> content (cache_view (bc s')) d = content (cache_view (bc s)) d) \<and>
    (r = 0 \<and> fm_full s' \<and> (\<exists>m. num_free_sectors s = Some m \<and> m < sectors_needed ((p + k + 511) div 512)) \<or>
     r = int k \<and>
      (\<exists>n'. inodes s' i = Some n' \<and> growable s' n' \<and> dlength (i_data n') = int (p + k) \<and>
        (let old = content (cache_view (bc s)) (i_data n); new = content (cache_view (bc s')) (i_data n')
         in take (min p (length old)) new = take p old \<and> drop p new = take k buf \<and>
            (\<forall>q < p. length old \<le> q \<longrightarrow> new ! q = stored_byte (cache_view (bc s)) (i_data n) q)) \<and>
        decode_inode (cache_view (bc s') (i_sector n')) = i_data n'))"
proof -
  let ?A = "free_map_allocate (Suc fuel) 1" and ?d = "i_data n" and ?v = "cache_view (bc s)"
  have e: "off32 (int p + int k) = Some (int (p + k))" "off32 (int (p + k) - 1) = Some (int (p + k) - 1)"
    using assms(6,8) by (auto simp: off32_def)
  have beyond: "byte_to_sector ?d (int (p + k) - 1) (bc s) = Some (- 1, bc s)"
    using assms(6) by (auto simp: byte_to_sector_def)
  have unfold_write: "inode_write_at ?A i buf (int k) (int p) s =
      do { (ok, s) \<leftarrow> inode_extend ?A i (int (p + k)) s;
           if \<not> ok then Some (0, s)
           else do { n \<leftarrow> inodes s i; (r, c) \<leftarrow> inode_write_loop (i_data n) buf (int k) (int p) (bc s);
                     Some (r, s\<lparr>bc := c\<rparr>) } }"
    unfolding inode_write_at_def using assms(2,3) e beyond by simp
  have le: "nat (dlength ?d) \<le> p + k" using assms(6) by simp
  let ?W = "fm_own s \<union> file_sectors s n \<union> - fm_used s"
  have others: "file_ok c d \<and> content (cache_view c) d = content ?v d"
    if "within ?W (bc s) c" "file_ok (bc s) d" "sectors_of (bc s) d \<subseteq> fm_used s - fm_own s - file_sectors s n" for c d
    using file_within(1,2) [OF that(2,1)] that(3) by blast
  from inode_extend_spec [where fuel = fuel, OF assms(1,2,4,5,8,9) le] obtain ok s1 where
    x: "inode_extend ?A i (int (p + k)) s = Some (ok, s1)" "fm_inv s1" "within ?W (bc s) (bc s1)"
    "fm_own s1 = fm_own s" "fm_used s \<subseteq> fm_used s1"
    "\<not> ok \<longrightarrow> fm_full s1 \<and> card (fm_managed s - fm_used s) < sectors_needed ((p + k + 511) div 512)"
    "ok \<longrightarrow> (\<exists>n'. inodes s1 = (inodes s)(i \<mapsto> n') \<and> i_sector n' = i_sector n \<and> growable s1 n' \<and>
       dlength (i_data n') = int (p + k) \<and> cache_view (bc s1) (i_sector n) = encode_inode (i_data n') \<and>
       disk_nodes (cache_view (bc s1)) (i_data n') \<subseteq> disk_nodes ?v ?d \<union> - fm_used s \<and>
       (\<forall>q < p + k. content (cache_view (bc s1)) (i_data n') ! q = stored_byte ?v ?d q))"
    by blast
  show ?thesis
  proof (cases ok)
    case False
    then have "inode_write_at ?A i buf (int k) (int p) s = Some (0, s1)" using x(1) unfold_write by simp
    then show ?thesis using x(2,6) False others [OF x(3)] num_free_sectors_eq [OF assms(1)]
      by (intro exI [of _ 0] exI [of _ s1]) simp
  next
    case True
    with x(7) obtain n' where n': "inodes s1 = (inodes s)(i \<mapsto> n')" "i_sector n' = i_sector n" "growable s1 n'"
      "dlength (i_data n') = int (p + k)" "cache_view (bc s1) (i_sector n) = encode_inode (i_data n')"
      "disk_nodes (cache_view (bc s1)) (i_data n') \<subseteq> disk_nodes ?v ?d \<union> - fm_used s"
      "\<And>q. q < p + k \<Longrightarrow> content (cache_view (bc s1)) (i_data n') ! q = stored_byte ?v ?d q"
      by blast
    have len: "p + k \<le> nat (dlength (i_data n'))" using n'(4) by simp
    from inode_write_loop_spec [OF fm_invD(1) [OF x(2)] growable_file_ok(1) [OF n'(3)] len assms(7)] obtain c where
      c: "inode_write_loop (i_data n') buf (int k) (int p) (bc s1) = Some (int k, c)"
      "within (data_sector (cache_view (bc s1)) (i_data n') ` {..<blocks_of (i_data n')}) (bc s1) c"
      "content (cache_view c) (i_data n') = overwrite p (take k buf) (content (cache_view (bc s1)) (i_data n'))"
      by blast
    note O = growable_overwrite [OF x(2) n'(3) c(2)]
    have "data_sector (cache_view (bc s1)) (i_data n') ` {..<blocks_of (i_data n')} \<subseteq> ?W"
      using data_sectors_leaves(1) [OF n'(3)] n'(6) by (auto simp: file_sectors_def)
    then have W: "within ?W (bc s) c" by (intro within_trans [OF x(3) c(2)]) auto
    let ?old = "content ?v ?d" and ?mid = "content (cache_view (bc s1)) (i_data n')"
      and ?new = "content (cache_view c) (i_data n')"
    have mid: "length ?mid = p + k" using n'(4) by simp
    have new: "?new ! q = (if p \<le> q then buf ! (q - p) else stored_byte ?v ?d q)" if "q < p + k" for q
      using that mid assms(7) n'(7) unfolding c(3) by (simp add: nth_overwrite)
    have lnew: "length ?new = p + k" using n'(4) by simp
    have "take (min p (length ?old)) ?new = take p ?old"
      using new stored_byte_content [OF assms(4)] lnew by (intro nth_equalityI) auto
    moreover have "drop p ?new = take k buf"
      using new lnew assms(7) by (intro nth_equalityI) auto
    moreover have "\<forall>q < p. length ?old \<le> q \<longrightarrow> ?new ! q = stored_byte ?v ?d q" using new by simp
    moreover have "decode_inode (cache_view c (i_sector n')) = i_data n'"
      using O(3) n'(2,5) growableD(1) [OF n'(3)] by (simp add: decode_encode_inode)
    moreover have "inode_write_at ?A i buf (int k) (int p) s = Some (int k, s1\<lparr>bc := c\<rparr>)"
      unfolding unfold_write using x(1) True n'(1) c(1) by simp
    ultimately show ?thesis using O(1,2) n'(1,4) others [OF W]
      by (intro exI [of _ "int k"] exI [of _ "s1\<lparr>bc := c\<rparr>"]) (simp add: Let_def)
  qed
qed

lemma one_block_tree:
  assumes "k \<noteq> 0"
  shows "disk_nodes v (one_block k len) = {k}" and "disk_ok v (one_block k len)"
    and "i < 123 \<Longrightarrow> disk_leaf v (one_block k len) i = (if i = 0 then k else 0)"
proof -
  have d: "direct_blocks (one_block k len) = k # replicate 122 0" "indirect_block (one_block k len) = 0"
    "doubly_indirect_block (one_block k len) = 0"
    by (simp_all add: one_block_def inode_disk_zero_def)
  have nth: "(k # replicate 122 0) ! i = (if i = 0 then k else 0)" if "i < 123" for i
    using that by (cases i) simp_all
  have f: "forest v 0 (k # replicate 122 0) = {k}" "forest v l [0] = {}" for l
    using assms by (auto simp: forest_def)
  have "forest_disjoint v 0 (k # replicate 122 0)"
    by (auto simp: forest_disjoint_def nth)
  then have ok: "forest_ok v 0 (k # replicate 122 0)" "forest_ok v l [0]" for l
    by (auto simp: forest_ok_def forest_disjoint_def)
  have three: "j < 3 \<longleftrightarrow> j = 0 \<or> j = 1 \<or> j = (2 :: nat)" for j by auto
  show "disk_nodes v (one_block k len) = {k}"
  proof -
    have "{..<3} = {0, 1, 2 :: nat}" by auto
    then show ?thesis by (simp add: disk_nodes_def part_def d f)
  qed
  show "disk_ok v (one_block k len)"
    by (simp add: disk_ok_def three part_def d f ok all_conj_distrib imp_conjL)
  show "i < 123 \<Longrightarrow> disk_leaf v (one_block k len) i = (if i = 0 then k else 0)"
    by (simp add: disk_leaf_def part_of_def part_def part_start_def forest_leaf_def d nth)
qed

lemma example_growable:
  "growable example_fs \<lparr>i_sector = 3, open_cnt = 1, i_removed = False, deny_write_cnt = 0, i_data = one_block 4 20\<rparr>"
proof -
  have u: "(4 :: u32) \<in> fm_used example_fs" "(3 :: u32) \<in> fm_used example_fs"
    using of_nat_in_fm_used [OF example_fs_inv, of 4] of_nat_in_fm_used [OF example_fs_inv, of 3]
    by (simp_all add: example_bits)
  have o: "fm_own example_fs = {2}" by (simp add: fm_own_def example_files_ok)
  have d: "inode_disk_ok (one_block 4 20)" "dlength (one_block 4 20) = 20"
    by (simp_all add: inode_disk_ok_def one_block_def inode_disk_zero_def)
  show ?thesis
    unfolding growable_def Let_def
    by (simp add: d u o one_block_tree one_block_blocks MAX_BLOCKS_def example_disk_valid)
qed

text \<open>Three bytes at the end of the file of 20 zeros: three sectors are free, and a file of 23 bytes needs one.\<close>

theorem inode_write_past_end_witness:
  "\<exists>s' n'. inode_write_at (free_map_allocate 1 1) 4 [1, 2, 3] 3 20 example_fs = Some (3, s') \<and> fm_inv s' \<and>
     inodes s' 4 = Some n' \<and> content (cache_view (bc s')) (i_data n') = replicate 20 0 @ [1, 2, 3]"
proof -
  let ?n = "\<lparr>i_sector = 3, open_cnt = 1, i_removed = False, deny_write_cnt = 0, i_data = one_block 4 20\<rparr>"
  have l: "dlength (one_block 4 20) = 20" by (simp add: one_block_def inode_disk_zero_def)
  have "(3 :: u32) = of_nat 3 \<and> card {i. i < 8 \<and> [True, True, True, True, True, False, False, False] ! i = False} = 3"
  proof -
    have "{i. i < 8 \<and> [True, True, True, True, True, False, False, False] ! i = False} = {5, 6, 7 :: nat}"
      by (auto simp: less_Suc_eq numeral_eq_Suc)
    then show ?thesis by simp
  qed
  then have free: "num_free_sectors example_fs = Some 3"
    using bitmap_count_eq [OF fm_invD(2) [OF example_fs_inv], of 0 8 False]
    by (simp add: num_free_sectors_def bitmap_size_def example_bits)
  have one: "sectors_needed ((20 + 3 + 511) div 512) = 1" by (simp add: sectors_needed_def)
  obtain r s' where w: "inode_write_at (free_map_allocate (Suc 0) 1) 4 [1, 2, 3] (int 3) (int 20) example_fs = Some (r, s')" "fm_inv s'"
    and d: "r = 0 \<and> fm_full s' \<and> (\<exists>m. num_free_sectors example_fs = Some m \<and> m < sectors_needed ((20 + 3 + 511) div 512)) \<or>
      r = int 3 \<and> (\<exists>n'. inodes s' 4 = Some n' \<and> growable s' n' \<and> dlength (i_data n') = int (20 + 3) \<and>
        (let old = content (cache_view (bc example_fs)) (i_data ?n); new = content (cache_view (bc s')) (i_data n')
         in take (min 20 (length old)) new = take 20 old \<and> drop 20 new = take 3 [1, 2, 3] \<and>
            (\<forall>q < 20. length old \<le> q \<longrightarrow> new ! q = stored_byte (cache_view (bc example_fs)) (i_data ?n) q)) \<and>
        decode_inode (cache_view (bc s') (i_sector n')) = i_data n')"
    using inode_write_past_end [OF example_fs_inv example_fs_sel(5) _ example_growable, where p = 20 and k = 3
        and buf = "[1, 2, 3]" and fuel = 0] l
    by (simp add: MAX_BLOCKS_def del: free_map_allocate.simps One_nat_def) blast
  from d free one obtain n' where n': "r = 3" "inodes s' 4 = Some n'"
    "take 20 (content (cache_view (bc s')) (i_data n')) = replicate 20 0" "drop 20 (content (cache_view (bc s')) (i_data n')) = [1, 2, 3]"
    by (auto simp: Let_def one_block_content l numeral_3_eq_3)
  then have "content (cache_view (bc s')) (i_data n') = replicate 20 0 @ [1, 2, 3]" by (metis append_take_drop_id)
  with w n' show ?thesis by (auto simp del: free_map_allocate.simps)
qed

section \<open>Where the storage layer loses data\<close>

lemma reserve_indirect_full:
  assumes "A s = Some (None, s)" and "cread 0 (cwrite 0 zeros s) = (zeros, u)" and "A u = Some (None, u)"
  shows "inode_reserve_indirect A 1 0 (Suc m) s = Some (False, 0, u)"
proof -
  have "reserve_sector A (indirect_of zeros ! 0) u = Some (False, 0, u)"
    using assms(3) nth_indirect_zeros [of 0] by (simp add: reserve_sector_def)
  then show ?thesis using assms(1,2) by (simp add: Let_def)
qed

text \<open>
  C17: On a full disk, reserving an indirect block does not notice that the allocation failed: it
  reports failure, but only after it has overwritten sector 0, which holds the inode of the free
  map, with zeros.
\<close>

theorem full_disk_clears_sector_0:
  assumes "fm_inv s" and "\<forall>i < bit_cnt (free_map s). bm_list (free_map s) ! i" and "0 < n"
  shows "\<exists>s'. inode_reserve_indirect (free_map_allocate (Suc fuel) 1) 1 0 n s = Some (False, 0, s') \<and>
           cache_view (bc s') 0 = zeros \<and> decode_inode (cache_view (bc s') 0) = inode_disk_zero"
proof -
  let ?A = "free_map_allocate (Suc fuel) 1"
  have full: "fm_full s" using assms(2) by (simp add: fm_full_def)
  have v0: "sector_valid (bc s) 0" "0 \<notin> fm_own s" using space.inv_0 [OF assms(1)] by simp_all
  let ?t = "cwrite 0 zeros s"
  have E: "space.ext {0} s ?t" by (rule space.ext_cwrite [OF assms(1) v0 length_zeros])
  have t: "fm_inv ?t" by (rule space.extD(1) [OF E])
  have view: "cache_view (bc ?t) 0 = zeros"
    using space.cwrite_view [OF assms(1) v0(1) length_zeros v0(1)] by simp
  have v: "sector_valid (bc ?t) 0" using space.extD(5) [OF E] v0(1) by simp
  from space.ext_cread [OF t v] obtain u where u': "cread 0 ?t = (cache_view (bc ?t) 0, u)" "space.ext {} ?t u"
    "fm_full u = fm_full ?t" "\<forall>j. sector_valid (bc ?t) j \<longrightarrow> cache_view (bc u) j = cache_view (bc ?t) j" by blast
  then have u: "cread 0 ?t = (zeros, u)" "space.ext {} ?t u" "fm_full u = fm_full ?t"
    "cache_view (bc u) 0 = cache_view (bc ?t) 0"
    using v view by simp_all
  have "fm_full u" using u(3) full by (simp add: cwrite_def fm_full_def)
  then have au: "?A u = Some (None, u)" by (rule free_map_allocate_full [OF space.extD(1) [OF u(2)]])
  have as: "?A s = Some (None, s)" by (rule free_map_allocate_full [OF assms(1) full])
  obtain m where m: "n = Suc m" using assms(3) by (cases n) auto
  have "inode_reserve_indirect ?A 1 0 n s = Some (False, 0, u)"
    unfolding m by (rule reserve_indirect_full [OF as u(1) au])
  moreover have "decode_inode zeros = inode_disk_zero"
  proof -
    have "bytes_to_words 4 123 zeros = replicate 123 (0 :: u32)"
      by (rule nth_equalityI) (simp_all add: nth_bytes_to_words zeros_def min_def)
    then show ?thesis by (simp add: decode_inode_def inode_disk_zero_def) (simp add: zeros_def)
  qed
  ultimately show ?thesis using u(4) view by (intro exI [of _ u]) simp
qed

text \<open>
  A write of no bytes at offset 0 to a file that may be written truncates it to length 0, in
  memory and in the sector of the inode.
\<close>

theorem empty_write_truncates:
  assumes "inodes s i = Some n" and "deny_write_cnt n = 0"
  shows "\<exists>s'. inode_write_at A i buf 0 0 s = Some (0, s') \<and>
           inodes s' i = Some (n\<lparr>i_data := (i_data n)\<lparr>dlength := 0\<rparr>\<rparr>) \<and>
           bc s' = buffer_cache_write (i_sector n) (encode_inode ((i_data n)\<lparr>dlength := 0\<rparr>)) (bc s)"
proof -
  have "inode_reserve A (i_data n) 0 s = Some (True, i_data n, s)"
    by (simp add: inode_reserve_def bytes_to_sectors_def off32_def c_div_def Let_def)
  then show ?thesis
    using assms
    by (simp add: inode_write_at_def off32_def byte_to_sector_def inode_extend_def cwrite_def Let_def
        inode_write_loop.simps)
qed

text \<open>
  C18: Two openers of a file share one inode whose count of openers stays 1: when the first of them
  closes it, the inode of the other is freed, and its next access uses freed memory.
\<close>

theorem second_opener_dangles:
  assumes "inode_open k s = Some (i, t)" and "inodes s i = Some n" and "open_inodes s = i # rest" and "i_sector n = k"
    and "open_cnt n = 1" and "\<not> i_removed n"
  shows "t = s \<and> (\<exists>u. inode_close R (Some i) t = Some u \<and> inodes u i = None \<and> inode_read_at i size' p u = None)"
  using assms
  by (auto simp: inode_open_def inode_reopen_def inode_close_def inode_read_at_def Let_def split: bind_splits)

theorem second_opener_dangles_witness:
  "\<exists>u. inode_open 3 example_fs = Some (4, example_fs) \<and> inode_close (\<lambda>k s. None) (Some 4) example_fs = Some u \<and>
     inode_read_at 4 20 0 u = None"
proof -
  have "inode_open 3 example_fs = Some (4, example_fs)" by (simp add: inode_open_def inode_reopen_def)
  from second_opener_dangles [OF this, of _ "[0]" "\<lambda>k s. None" 20 0] this show ?thesis by auto
qed

theorem empty_write_truncates_witness:
  "\<exists>s'. inode_write_at (\<lambda>s. None) 4 [] 0 0 example_fs = Some (0, s') \<and>
     map_option (dlength \<circ> i_data) (inodes s' 4) = Some 0"
  using empty_write_truncates [of example_fs 4 _ "\<lambda>s. None" "[]"] by fastforce

lemma full_bits: "bm_list \<lparr>bit_cnt = 8, bits = [255]\<rparr> = replicate 8 True"
proof -
  have "bm_list \<lparr>bit_cnt = 8, bits = [255]\<rparr> = [True, True, True, True, True, True, True, True]"
    by (simp add: bm_list_def upt_rec elem_idx_def ELEM_BITS_def)
  moreover have "replicate 8 True = [True, True, True, True, True, True, True, True]"
    by (simp add: numeral_eq_Suc)
  ultimately show ?thesis by simp
qed

lemma example_full_inv: "fm_inv (example_fs\<lparr>free_map := \<lparr>bit_cnt = 8, bits = [255]\<rparr>\<rparr>)"
proof -
  let ?s = "example_fs\<lparr>free_map := \<lparr>bit_cnt = 8, bits = [255]\<rparr>\<rparr>"
  have "(2 :: u32) \<in> fm_used ?s" by (auto simp: fm_used_def full_bits image_iff intro!: exI [of _ 2])
  moreover have "dlength (one_block 2 8) = 8" by (simp add: one_block_def inode_disk_zero_def)
  moreover have "map_data ?s = Some (one_block 2 8)" by simp
  ultimately show ?thesis
    using fm_invD(1,5) [OF example_fs_inv] unfolding fm_inv_def
    by (simp add: full_bits example_files_ok BITMAP_ERROR_def bitmap_ok_def elem_cnt_def ELEM_BITS_def
        DIV_ROUND_UP_def byte_cnt_def)
qed

theorem full_disk_clears_sector_0_witness:
  "\<exists>s'. inode_reserve_indirect (free_map_allocate (Suc 0) 1) 1 0 1 (example_fs\<lparr>free_map := \<lparr>bit_cnt = 8, bits = [255]\<rparr>\<rparr>) =
      Some (False, 0, s') \<and> cache_view (bc s') 0 = zeros"
proof -
  have "\<forall>i < 8. replicate 8 True ! i" by simp
  then show ?thesis
    using full_disk_clears_sector_0 [OF example_full_inv, where n = 1 and fuel = 0]
    by (auto simp: full_bits simp del: free_map_allocate.simps)
qed

section \<open>The list of sectors\<close>

text \<open>
  C12: \<open>get_inode_data_sectors\<close> is the lookup of single blocks done for the whole file: entry \<open>b\<close> of the
  array is the sector that \<open>byte_to_sector\<close> finds for the bytes of block \<open>b\<close>.
\<close>

theorem data_sectors_agree_with_lookup:
  assumes "cache_ok c" and "file_ok c d"
  shows "\<exists>ws c'. get_inode_data_sectors d c = Some (Some ws, c') \<and> keeps c c' \<and> length ws = blocks_of d \<and>
    (\<forall>p < nat (dlength d). \<exists>c''. byte_to_sector d (int p) c = Some (ws ! (p div 512), c''))"
proof -
  from get_inode_data_sectors_eq [OF assms] obtain c' where
    "get_inode_data_sectors d c = Some (Some (map (data_sector (cache_view c) d) [0..<blocks_of d]), c')" "keeps c c'"
    by blast
  moreover have "\<exists>c''. byte_to_sector d (int p) c = Some (map (data_sector (cache_view c) d) [0..<blocks_of d] ! (p div 512), c'')"
    if "p < nat (dlength d)" for p
    using byte_to_sector_eq [OF assms that] block_of_offset [OF that] by auto
  ultimately show ?thesis by simp
qed

theorem data_sectors_agree_with_lookup_witness:
  "\<exists>ws c'. get_inode_data_sectors (one_block 4 20) example_disk = Some (Some ws, c') \<and> length ws = 1"
  using data_sectors_agree_with_lookup [OF example_disk_ok example_files_ok(3)] one_block_blocks [of 20 4] by auto

end
