(* ===== verification/Naming.thy ===== *)
theory Naming
  imports Filesys Storage
begin

text \<open>
  What directories mean: a directory is a finite map from names to sectors, which
  \<open>lookup\<close> reads and \<open>dir_add\<close> extends; and how paths are split. These are the properties of
  \<^verbatim>\<open>src/a3/fs/directory.c\<close> and of the paths in \<^verbatim>\<open>filesys.c\<close>.
\<close>

section \<open>The abstraction of a directory\<close>

text \<open>Entry \<open>k\<close> of the file of a directory; entry 0 is the one for the parent.\<close>

definition slot :: "byte list \<Rightarrow> nat \<Rightarrow> byte list" where
  "slot C k = take 36 (drop (36 * k) C)"

definition slots :: "byte list \<Rightarrow> nat" where
  "slots C = length C div 36"

definition slot_matches :: "byte list \<Rightarrow> string \<Rightarrow> nat \<Rightarrow> bool" where
  "slot_matches C name k \<longleftrightarrow> entry_in_use (slot C k) \<and> cstr (entry_name (slot C k)) = Some name"

definition find_slot :: "byte list \<Rightarrow> string \<Rightarrow> nat \<Rightarrow> nat option" where
  "find_slot C name k = List.find (slot_matches C name) [k..<slots C]"

definition dir_map :: "byte list \<Rightarrow> string \<Rightarrow> u32 option" where
  "dir_map C name = map_option (entry_sector \<circ> slot C) (find_slot C name 1)"

text \<open>The names in use end with a zero, as \<open>dir_add\<close> writes them.\<close>

definition names_ok :: "byte list \<Rightarrow> bool" where
  "names_ok C \<longleftrightarrow> (\<forall>k < slots C. entry_in_use (slot C k) \<longrightarrow> 0 \<in> set (entry_name (slot C k)))"

lemma slot_bound: "k < slots C \<Longrightarrow> 36 * k + 36 \<le> length C"
  unfolding slots_def using less_eq_div_iff_mult_less_eq [of 36 "Suc k" "length C"] by simp

lemma length_slot: "length (slot C k) = 36 \<longleftrightarrow> k < slots C"
  using slot_bound [of k C] less_eq_div_iff_mult_less_eq [of 36 "Suc k" "length C"]
  by (auto simp: slot_def slots_def min_def)

lemma find_slot_rec:
  "find_slot C name k = (if slots C \<le> k then None
     else if slot_matches C name k then Some k else find_slot C name (Suc k))"
  by (simp add: find_slot_def upt_rec [of k])

lemma name_matches_eq:
  "0 \<in> set field \<Longrightarrow> name_matches name field = Some (cstr field = Some name)"
  by (auto simp: name_matches_def cstr_def)

section \<open>The search\<close>

lemma lookup_from_eq:
  assumes "inodes s i = Some n" and "cache_ok (bc s)" and "file_ok (bc s) (i_data n)"
    and "names_ok (content (cache_view (bc s)) (i_data n))" and "36 * k \<le> length (content (cache_view (bc s)) (i_data n))"
  shows "\<exists>c. lookup_from i name (int (36 * k)) s =
      Some (map_option (\<lambda>j. (slot (content (cache_view (bc s)) (i_data n)) j, int (36 * j)))
              (find_slot (content (cache_view (bc s)) (i_data n)) name k), s\<lparr>bc := c\<rparr>) \<and> keeps (bc s) c"
  using assms
proof (induction "slots (content (cache_view (bc s)) (i_data n)) - k" arbitrary: k s rule: less_induct)
  case (less k s)
  let ?C = "content (cache_view (bc s)) (i_data n)"
  have "36 * k < 2 ^ 31" using less.prems(5) file_okD(2) [OF less.prems(3)] by simp
  from inode_read_at_eq [OF less.prems(1-3) this, of 36] obtain c where
    c: "inode_read_at i 36 (int (36 * k)) s = Some (slot ?C k, s\<lparr>bc := c\<rparr>)" "keeps (bc s) c"
    by (auto simp: slot_def)
  show ?case
  proof (cases "k < slots ?C")
    case False
    then have "length (slot ?C k) \<noteq> 36" by (simp add: length_slot)
    with c False show ?thesis
      by (subst lookup_from.simps) (auto simp: find_slot_rec [of ?C name k])
  next
    case True
    then have e: "length (slot ?C k) = 36" by (simp add: length_slot)
    have m: "(if entry_in_use (slot ?C k) then name_matches name (entry_name (slot ?C k)) else Some False) =
        Some (slot_matches ?C name k)"
      using less.prems(4) True by (simp add: names_ok_def name_matches_eq slot_matches_def)
    show ?thesis
    proof (cases "slot_matches ?C name k")
      case hit: True
      with c e m True show ?thesis
        by (subst lookup_from.simps) (auto simp: find_slot_rec [of ?C name k])
    next
      case miss: False
      have C: "content (cache_view c) (i_data n) = ?C" by (rule content_keeps [OF less.prems(3) c(2)])
      have "36 * Suc k \<le> length ?C" using slot_bound [OF True] by simp
      then have "\<exists>c'. lookup_from i name (int (36 * Suc k)) (s\<lparr>bc := c\<rparr>) =
          Some (map_option (\<lambda>j. (slot ?C j, int (36 * j))) (find_slot ?C name (Suc k)), s\<lparr>bc := c\<rparr>\<lparr>bc := c'\<rparr>) \<and> keeps c c'"
        using less.hyps [of "s\<lparr>bc := c\<rparr>" "Suc k"] less.prems True c(2)
        by (simp add: C file_ok_keeps [OF _ c(2)] keepsD(1) [OF c(2)])
      then obtain c' where c': "lookup_from i name (int (36 * k) + 36) (s\<lparr>bc := c\<rparr>) =
          Some (map_option (\<lambda>j. (slot ?C j, int (36 * j))) (find_slot ?C name (Suc k)), s\<lparr>bc := c'\<rparr>)" "keeps c c'"
        by (auto simp: algebra_simps)
      have "find_slot ?C name k = find_slot ?C name (Suc k)" using True miss by (simp add: find_slot_rec [of ?C name k])
      moreover have "lookup_from i name (int (36 * k)) s = lookup_from i name (int (36 * k) + 36) (s\<lparr>bc := c\<rparr>)"
        using c(1) e m miss by (subst lookup_from.simps) simp
      ultimately show ?thesis using c' keeps_trans [OF c(2) c'(2)] by auto
    qed
  qed
qed

section \<open>The free slot\<close>

definition free_at :: "byte list \<Rightarrow> nat \<Rightarrow> nat option" where
  "free_at C k = List.find (\<lambda>j. \<not> entry_in_use (slot C j)) [k..<slots C]"

lemma free_at_rec:
  "free_at C k = (if slots C \<le> k then None
     else if \<not> entry_in_use (slot C k) then Some k else free_at C (Suc k))"
  by (simp add: free_at_def upt_rec [of k])

lemma free_slot_eq:
  assumes "inodes s i = Some n" and "cache_ok (bc s)" and "file_ok (bc s) (i_data n)"
    and "length e = 36" and "free_at (content (cache_view (bc s)) (i_data n)) k = Some j"
  shows "\<exists>c. free_slot i e (int (36 * k)) s =
      Some (slot (content (cache_view (bc s)) (i_data n)) j, int (36 * j), s\<lparr>bc := c\<rparr>) \<and> keeps (bc s) c"
  using assms
proof (induction "slots (content (cache_view (bc s)) (i_data n)) - k" arbitrary: k s e rule: less_induct)
  case (less k s e)
  let ?C = "content (cache_view (bc s)) (i_data n)"
  have k: "k < slots ?C" using less.prems(5) by (simp add: free_at_rec [of ?C k] split: if_splits)
  have "36 * k < 2 ^ 31" using slot_bound [OF k] file_okD(2) [OF less.prems(3)] by simp
  from inode_read_at_eq [OF less.prems(1-3) this, of 36] obtain c where
    c: "inode_read_at i 36 (int (36 * k)) s = Some (slot ?C k, s\<lparr>bc := c\<rparr>)" "keeps (bc s) c"
    by (auto simp: slot_def)
  have len: "length (slot ?C k) = 36" using k by (simp add: length_slot)
  then have e: "overwrite 0 (slot ?C k) e = slot ?C k" using less.prems(4) by (simp add: overwrite_def)
  show ?case
  proof (cases "entry_in_use (slot ?C k)")
    case False
    then have "j = k" using less.prems(5) k by (simp add: free_at_rec [of ?C k])
    with c e False show ?thesis by (subst free_slot.simps) auto
  next
    case True
    have C: "content (cache_view c) (i_data n) = ?C" by (rule content_keeps [OF less.prems(3) c(2)])
    have "free_at ?C (Suc k) = Some j" using less.prems(5) True k by (simp add: free_at_rec [of ?C k])
    then have "\<exists>c'. free_slot i (slot ?C k) (int (36 * Suc k)) (s\<lparr>bc := c\<rparr>) =
        Some (slot ?C j, int (36 * j), s\<lparr>bc := c\<rparr>\<lparr>bc := c'\<rparr>) \<and> keeps c c'"
      using less.hyps [of "s\<lparr>bc := c\<rparr>" "Suc k" "slot ?C k"] less.prems k c(2) len
      by (simp add: C file_ok_keeps [OF _ c(2)] keepsD(1) [OF c(2)])
    then obtain c' where c': "free_slot i (slot ?C k) (int (36 * k) + 36) (s\<lparr>bc := c\<rparr>) =
        Some (slot ?C j, int (36 * j), s\<lparr>bc := c'\<rparr>)" "keeps c c'"
      by (auto simp: algebra_simps)
    moreover have "free_slot i e (int (36 * k)) s = free_slot i (slot ?C k) (int (36 * k) + 36) (s\<lparr>bc := c\<rparr>)"
      using c(1) e len True by (subst free_slot.simps) simp
    ultimately show ?thesis using keeps_trans [OF c(2) c'(2)] by auto
  qed
qed

lemma free_at_SomeD:
  assumes "free_at C k = Some j"
  shows "k \<le> j" and "j < slots C" and "\<not> entry_in_use (slot C j)"
  using assms by (auto simp: free_at_def find_Some_iff)

section \<open>Writing an entry\<close>

lemma slot_overwrite:
  assumes "j < slots C" and "length e = 36"
  shows "slots (overwrite (36 * j) e C) = slots C"
    and "slot (overwrite (36 * j) e C) k = (if k = j then e else slot C k)"
proof -
  have b: "36 * j + 36 \<le> length C" by (rule slot_bound [OF assms(1)])
  then show "slots (overwrite (36 * j) e C) = slots C" using assms(2) by (simp add: slots_def overwrite_def)
  consider "k < j" | "k = j" | "j < k" by linarith
  then show "slot (overwrite (36 * j) e C) k = (if k = j then e else slot C k)"
  proof cases
    case 1
    then have "36 * k + 36 \<le> 36 * j" by simp
    with 1 b show ?thesis by (simp add: slot_def overwrite_def take_drop min_def)
  next
    case 2
    with b assms(2) show ?thesis by (simp add: slot_def overwrite_def)
  next
    case 3
    then have "36 * j + 36 + (36 * k - (36 * j + 36)) = 36 * k" by simp
    with 3 b assms(2) show ?thesis by (simp add: slot_def overwrite_def add.commute)
  qed
qed

text \<open>Putting a new entry into a free slot behind the parent's extends the map.\<close>

lemma find_slot_write:
  assumes "j < slots C" and "length e = 36" and "k \<le> j" and "\<not> entry_in_use (slot C j)" and "entry_in_use e"
    and "cstr (entry_name e) = Some name" and "find_slot C name k = None"
  shows "find_slot (overwrite (36 * j) e C) m k = (if m = name then Some j else find_slot C m k)"
proof -
  let ?C = "overwrite (36 * j) e C"
  have S: "slots ?C = slots C" "\<And>i. slot ?C i = (if i = j then e else slot C i)"
    using slot_overwrite [OF assms(1,2)] by simp_all
  have M: "slot_matches ?C m i \<longleftrightarrow> (if i = j then m = name else slot_matches C m i)" for m i
    using assms(5,6) by (auto simp: slot_matches_def S)
  have J: "\<not> slot_matches C m j" for m using assms(4) by (simp add: slot_matches_def)
  show ?thesis
  proof (cases "m = name")
    case True
    have "\<not> slot_matches C name i" if "k \<le> i" "i < slots C" for i
      using assms(7) that by (auto simp: find_slot_def find_None_iff)
    then have "find_slot ?C name k = Some j"
      unfolding find_slot_def find_Some_iff S M
      using assms(1,3) by (intro exI [of _ "j - k"]) auto
    with True show ?thesis by simp
  next
    case False
    have "slot_matches ?C m = slot_matches C m" by (rule ext) (simp add: M J False)
    with False show ?thesis by (simp add: find_slot_def S(1))
  qed
qed

lemma dir_map_write:
  assumes "j < slots C" and "length e = 36" and "1 \<le> j" and "\<not> entry_in_use (slot C j)" and "entry_in_use e"
    and "cstr (entry_name e) = Some name" and "dir_map C name = None"
  shows "dir_map (overwrite (36 * j) e C) = (dir_map C)(name \<mapsto> entry_sector e)"
proof (rule ext)
  fix m
  have n: "find_slot C name 1 = None" using assms(7) by (simp add: dir_map_def)
  show "dir_map (overwrite (36 * j) e C) m = ((dir_map C)(name \<mapsto> entry_sector e)) m"
  proof (cases "m = name")
    case True
    then show ?thesis
      using find_slot_write [OF assms(1-6) n, of m] slot_overwrite(2) [OF assms(1,2)] by (simp add: dir_map_def)
  next
    case False
    have "slot (overwrite (36 * j) e C) i = slot C i" if "find_slot C m 1 = Some i" for i
    proof -
      have "slot_matches C m i" using that by (auto simp: find_slot_def find_Some_iff)
      then have "i \<noteq> j" using assms(4) by (auto simp: slot_matches_def)
      then show ?thesis using slot_overwrite(2) [OF assms(1,2)] by simp
    qed
    with False show ?thesis
      using find_slot_write [OF assms(1-6) n, of m] by (cases "find_slot C m 1") (auto simp: dir_map_def)
  qed
qed

lemma names_ok_write:
  assumes "names_ok C" and "j < slots C" and "length e = 36" and "0 \<in> set (entry_name e)"
  shows "names_ok (overwrite (36 * j) e C)"
  using assms slot_overwrite [OF assms(2,3)] by (auto simp: names_ok_def)

section \<open>\<open>lookup\<close> and \<open>dir_add\<close>\<close>

text \<open>A directory that is open under the reference \<open>d\<close> and whose inode is \<open>n\<close>, under \<open>i\<close>.\<close>

definition dir_content :: "fs \<Rightarrow> inode \<Rightarrow> byte list" where
  "dir_content s n = content (cache_view (bc s)) (i_data n)"

definition dir_ok :: "fs \<Rightarrow> nat \<Rightarrow> nat \<Rightarrow> inode \<Rightarrow> bool" where
  "dir_ok s d i n \<longleftrightarrow> map_option dir_inode (dirs s d) = Some i \<and> inodes s i = Some n \<and> deny_write_cnt n = 0 \<and>
     cache_ok (bc s) \<and> file_ok (bc s) (i_data n) \<and> names_ok (dir_content s n)"

text \<open>The strings C can hold.\<close>

definition c_string :: "string \<Rightarrow> bool" where
  "c_string name \<longleftrightarrow> CHR 0x00 \<notin> set name"

lemma of_char_eq_0: "(of_char c :: byte) = 0 \<longleftrightarrow> c = CHR 0x00"
proof
  assume "(of_char c :: byte) = 0"
  then have "char_of (unat (of_char c :: byte)) = (char_of (0 :: nat) :: char)" by (simp only: unat_0)
  moreover have "(char_of (0 :: nat) :: char) = CHR 0x00" by (simp add: char_of_def)
  ultimately show "c = CHR 0x00" by (simp only: of_char_8)
qed simp

lemma strncpy_name:
  assumes "length name \<le> NAME_MAX" and "c_string name"
  shows "0 \<in> set (strncpy name 31)" and "cstr (strncpy name 31) = Some name"
proof -
  have e: "strncpy name 31 = bytes_of_string name @ replicate (31 - length name) 0"
    using assms(1) by (simp add: strncpy_def NAME_MAX_def min_def)
  moreover have "replicate (31 - length name) 0 = (0 :: byte) # replicate (30 - length name) 0"
    using assms(1) by (simp add: NAME_MAX_def Suc_diff_le flip: replicate_Suc)
  moreover have "\<forall>b \<in> set (bytes_of_string name). b \<noteq> 0"
    using assms(2) by (auto simp: bytes_of_string_def c_string_def of_char_eq_0)
  ultimately show "0 \<in> set (strncpy name 31)" "cstr (strncpy name 31) = Some name"
    by (simp_all add: cstr_def codec_simps)
qed

text \<open>The first slot of a directory is in use, so that \<open>dir_add\<close> never takes the entry of the parent.\<close>

lemma lookup_eq:
  assumes "dir_ok s d i n" and "36 \<le> length (dir_content s n)"
  shows "\<exists>c. lookup d name s =
      Some (map_option (\<lambda>j. (slot (dir_content s n) j, int (36 * j))) (find_slot (dir_content s n) name 1), s\<lparr>bc := c\<rparr>) \<and>
      keeps (bc s) c"
proof -
  from assms(1) obtain x where "dirs s d = Some x" "dir_inode x = i" by (auto simp: dir_ok_def)
  moreover have "\<exists>c. lookup_from i name (int (36 * 1)) s =
      Some (map_option (\<lambda>j. (slot (dir_content s n) j, int (36 * j))) (find_slot (dir_content s n) name 1), s\<lparr>bc := c\<rparr>) \<and>
      keeps (bc s) c"
    using assms unfolding dir_content_def dir_ok_def by (intro lookup_from_eq) simp_all
  ultimately show ?thesis by (simp add: lookup_def)
qed

lemma dir_ok_keeps:
  assumes "dir_ok s d i n" and "keeps (bc s) c"
  shows "dir_ok (s\<lparr>bc := c\<rparr>) d i n" and "dir_content (s\<lparr>bc := c\<rparr>) n = dir_content s n"
  using assms content_keeps [of "bc s" "i_data n" c] file_ok_keeps [of "bc s" "i_data n" c] keepsD(1) [OF assms(2)]
  by (auto simp: dir_ok_def dir_content_def)

text \<open>
  C20: \<open>lookup\<close> reads the finite map a directory stands for: it finds an entry exactly for the names
  of the map, with the sector the map gives, and changes nothing but the cache, which still shows
  the same sectors.
\<close>

theorem lookup_reads_map:
  assumes "dir_ok s d i n" and "36 \<le> length (dir_content s n)"
  shows "\<exists>r c. lookup d name s = Some (r, s\<lparr>bc := c\<rparr>) \<and> keeps (bc s) c \<and>
           map_option (\<lambda>(e, ofs). entry_sector e) r = dir_map (dir_content s n) name"
  using lookup_eq [OF assms, of name] by (auto simp: dir_map_def option.map_comp comp_def)

text \<open>
  C19: \<open>dir_add\<close> of a file into a directory with a free slot behind the entry of the parent extends
  the map of the directory by the new name, and writes no sector outside the directory; when the
  name is taken it reports failure and the map stays.
\<close>

theorem dir_add_extends_map:
  assumes "dir_ok s d i n" and "name \<noteq> []" and "length name \<le> NAME_MAX" and "c_string name" and "length junk = 36"
    and "free_at (dir_content s n) 0 = Some j" and "0 < j"
  shows "\<exists>r c. dir_add A R junk d name sector False s = Some (r, s\<lparr>bc := c\<rparr>) \<and> dir_ok (s\<lparr>bc := c\<rparr>) d i n \<and>
    within (sectors_of (bc s) (i_data n)) (bc s) c \<and> r = (dir_map (dir_content s n) name = None) \<and>
    dir_map (dir_content (s\<lparr>bc := c\<rparr>) n) =
      (if r then (dir_map (dir_content s n))(name \<mapsto> sector) else dir_map (dir_content s n))"
proof -
  let ?C = "dir_content s n" and ?e = "dir_entry sector (strncpy name 31) True"
  note free = free_at_SomeD [OF assms(6)]
  have long: "36 \<le> length ?C" using slot_bound [OF free(2)] by simp
  from lookup_eq [OF assms(1) long] obtain c where c: "keeps (bc s) c"
    "lookup d name s = Some (map_option (\<lambda>j. (slot ?C j, int (36 * j))) (find_slot ?C name 1), s\<lparr>bc := c\<rparr>)" by blast
  let ?s = "s\<lparr>bc := c\<rparr>"
  note ok = dir_ok_keeps [OF assms(1) c(1)]
  show ?thesis
  proof (cases "find_slot ?C name 1")
    case (Some k)
    then have "dir_add A R junk d name sector False s = Some (False, ?s)"
      using c(2) assms(2,3) by (simp add: dir_add_def)
    moreover have "dir_map ?C name \<noteq> None" using Some by (simp add: dir_map_def)
    moreover note ok keeps_within [OF c(1)]
    ultimately show ?thesis by (intro exI [of _ False] exI [of _ c]) simp
  next
    case None
    from ok(1) obtain x where x: "dirs s d = Some x" "dir_inode x = i" "inodes ?s i = Some n" "deny_write_cnt n = 0"
      "cache_ok (bc ?s)" "file_ok (bc ?s) (i_data n)" "names_ok ?C"
      unfolding dir_ok_def ok(2) by auto
    let ?junk = "dir_entry (entry_sector junk) (entry_name junk) True"
    from free_slot_eq [OF x(3,5,6), of ?junk 0 j] obtain c2 where
      c2: "free_slot i ?junk 0 ?s = Some (slot ?C j, int (36 * j), s\<lparr>bc := c2\<rparr>)" "keeps c c2"
      using assms(5,6) ok(2) by (auto simp: dir_entry_of_fields dir_content_def)
    let ?t = "s\<lparr>bc := c2\<rparr>"
    have kc2: "keeps (bc s) c2" by (rule keeps_trans [OF c(1) c2(2)])
    note ok2 = dir_ok_keeps [OF assms(1) kc2]
    have t: "inodes ?t i = Some n" "deny_write_cnt n = 0" "cache_ok (bc ?t)" "file_ok (bc ?t) (i_data n)"
      using ok2(1) by (simp_all add: dir_ok_def)
    have len: "length ?e = 36" by (simp add: dir_entry_def)
    have "36 * j + 36 \<le> nat (dlength (i_data n))" using slot_bound [OF free(2)] by (simp add: dir_content_def)
    from inode_write_at_inside [OF t this, of ?e] len obtain c3 where
      c3: "\<forall>A. inode_write_at A i ?e 36 (int (36 * j)) ?t = Some (36, s\<lparr>bc := c3\<rparr>)"
      "within (sectors_of c2 (i_data n)) c2 c3" "file_ok c3 (i_data n)"
      "dir_content (s\<lparr>bc := c3\<rparr>) n = overwrite (36 * j) ?e ?C"
      using ok2(2) by (auto simp: dir_content_def)
    have look: "lookup d name s = Some (None, ?s)" using c(2) None by simp
    have add: "dir_add A R junk d name sector False s = Some (True, s\<lparr>bc := c3\<rparr>)"
      using assms(2,3) x(1,2) c2(1) c3(1) by (simp add: dir_add_def look)
    have f: "entry_in_use ?e" "entry_sector ?e = sector" "entry_name ?e = strncpy name 31"
      by (simp_all add: codec_simps)
    note nm = strncpy_name [OF assms(3,4)]
    have M: "dir_map (overwrite (36 * j) ?e ?C) = (dir_map ?C)(name \<mapsto> sector)"
      using dir_map_write [OF free(2) len _ free(3) f(1), of name] nm(2) None assms(7) f by (simp add: dir_map_def)
    have N: "names_ok (overwrite (36 * j) ?e ?C)"
      using names_ok_write [OF x(7) free(2) len] nm(1) f by simp
    have "sectors_of c2 (i_data n) = sectors_of (bc s) (i_data n)"
      using file_within(3) [OF _ keeps_within [OF kc2, of "{}"]] assms(1) by (simp add: dir_ok_def)
    then have W: "within (sectors_of (bc s) (i_data n)) (bc s) c3"
      using within_trans [OF keeps_within [OF kc2] c3(2)] by blast
    have "dir_ok (s\<lparr>bc := c3\<rparr>) d i n"
      using assms(1) c3(3) N withinD(1) [OF W] unfolding dir_ok_def c3(4) by simp
    moreover have "dir_map ?C name = None" using None by (simp add: dir_map_def)
    ultimately show ?thesis using add W M c3(4) by (intro exI [of _ True] exI [of _ c3]) simp
  qed
qed

section \<open>An example directory\<close>

text \<open>The example with a directory of two entries, in sector 5: its parent, and a free slot.\<close>

definition example_dir :: fs where
  "example_dir = example_fs\<lparr>
     bc := buffer_cache_write 5 (dir_entry 1 (replicate 31 0) True @ replicate 476 0) example_disk,
     inodes := (inodes example_fs)(5 \<mapsto>
       \<lparr>i_sector = 6, open_cnt = 1, i_removed = False, deny_write_cnt = 0, i_data = one_block 5 72\<rparr>),
     dirs := [9 \<mapsto> \<lparr>dir_inode = 5, dir_pos = 36, dir_open_cnt = 1\<rparr>]\<rparr>"

abbreviation example_dir_inode :: inode where
  "example_dir_inode \<equiv> \<lparr>i_sector = 6, open_cnt = 1, i_removed = False, deny_write_cnt = 0, i_data = one_block 5 72\<rparr>"

lemma example_dir_content:
  "dir_content example_dir example_dir_inode = dir_entry 1 (replicate 31 0) True @ replicate 36 0"
proof -
  let ?d = "dir_entry 1 (replicate 31 0) True @ replicate 476 0"
  have v: "cache_view (bc example_dir) 5 = ?d"
    using buffer_cache_write_spec(3) [OF example_disk_ok, of 5 ?d 5]
    by (simp add: example_dir_def example_disk_valid dir_entry_def)
  have len: "length (dir_entry 1 (replicate 31 0) True) = 36" by (simp add: dir_entry_def)
  show ?thesis
  proof (rule nth_equalityI)
    fix k assume "k < length (dir_content example_dir example_dir_inode)"
    then have "k < 72" by (simp add: dir_content_def one_block_def inode_disk_zero_def)
    then show "dir_content example_dir example_dir_inode ! k = (dir_entry 1 (replicate 31 0) True @ replicate 36 0) ! k"
      using len by (simp add: dir_content_def content_def byte_at_def data_sector_def one_block_def inode_disk_zero_def v nth_append)
  qed (simp add: dir_content_def one_block_def inode_disk_zero_def dir_entry_def)
qed

lemma example_dir_slots:
  "slots (dir_content example_dir example_dir_inode) = 2"
  "slot (dir_content example_dir example_dir_inode) 0 = dir_entry 1 (replicate 31 0) True"
  "slot (dir_content example_dir example_dir_inode) (Suc 0) = replicate 36 0"
  unfolding example_dir_content by (simp_all add: slots_def slot_def dir_entry_def)

lemma unused_zeros: "\<not> entry_in_use (replicate 36 0)"
  by (simp add: entry_in_use_def)

lemma example_dir_ok: "dir_ok example_dir 9 5 example_dir_inode"
proof -
  let ?d = "dir_entry 1 (replicate 31 0) True @ replicate 476 0"
  have ok: "cache_ok (bc example_dir)" "sector_valid (bc example_dir) = sector_valid example_disk"
    using buffer_cache_write_spec(1,2) [OF example_disk_ok, of 5 ?d] by (simp_all add: example_dir_def example_disk_valid dir_entry_def)
  have "file_ok (bc example_dir) (one_block 5 72)"
    by (rule one_block_ok) (simp_all add: ok(2) example_disk_valid)
  moreover have "names_ok (dir_content example_dir example_dir_inode)"
    unfolding names_ok_def example_dir_slots(1)
    by (auto simp: less_2_cases_iff example_dir_slots codec_simps unused_zeros)
  ultimately show ?thesis using ok(1) by (simp add: dir_ok_def example_dir_def)
qed

lemma example_dir_free: "free_at (dir_content example_dir example_dir_inode) 0 = Some 1"
  unfolding free_at_def example_dir_slots(1) by (simp add: upt_rec example_dir_slots codec_simps unused_zeros)

lemma example_dir_map: "dir_map (dir_content example_dir example_dir_inode) name = None"
  by (simp add: dir_map_def find_slot_def example_dir_slots(1))
    (simp add: upt_rec example_dir_slots slot_matches_def unused_zeros)

theorem lookup_reads_map_witness:
  "\<exists>c. lookup 9 ''a'' example_dir = Some (None, example_dir\<lparr>bc := c\<rparr>)"
proof -
  have "length (dir_content example_dir example_dir_inode) = 72" by (simp add: example_dir_content dir_entry_def)
  then show ?thesis using lookup_reads_map [OF example_dir_ok, of "''a''"] by (auto simp: example_dir_map)
qed

theorem dir_add_extends_map_witness:
  "\<exists>c. dir_add (\<lambda>s. None) (\<lambda>k s. None) (replicate 36 0) 9 ''a'' 7 False example_dir = Some (True, example_dir\<lparr>bc := c\<rparr>) \<and>
     dir_map (dir_content (example_dir\<lparr>bc := c\<rparr>) example_dir_inode) ''a'' = Some 7"
  using dir_add_extends_map [OF example_dir_ok _ _ _ _ example_dir_free, of "''a''" "replicate 36 0" "\<lambda>s. None" "\<lambda>k s. None" 7]
  by (auto simp: NAME_MAX_def c_string_def example_dir_map)

section \<open>Paths\<close>

lemma strtok_tokens: "t \<in> set (strtok d s) \<Longrightarrow> t \<noteq> [] \<and> d \<notin> set t"
  by (induction d s rule: strtok.induct) (auto split: if_splits dest: set_takeWhileD)

lemma span_delim:
  assumes "d \<notin> set t"
  shows "takeWhile (\<lambda>x. x \<noteq> d) (t @ d # s) = t" and "dropWhile (\<lambda>x. x \<noteq> d) (t @ d # s) = d # s"
    and "takeWhile (\<lambda>x. x \<noteq> d) t = t" and "dropWhile (\<lambda>x. x \<noteq> d) t = []"
  using assms by (induction t) auto

lemma strtok_token:
  assumes "t \<noteq> []" and "d \<notin> set t"
  shows "strtok d (t @ d # s) = t # strtok d s" and "strtok d t = [t]"
proof -
  from assms obtain c cs where t: "t = c # cs" "c \<noteq> d" "d \<notin> set cs" by (cases t) auto
  note span = span_delim [OF t(3)]
  show "strtok d (t @ d # s) = t # strtok d s" "strtok d t = [t]" using t(1,2) by (simp_all add: span)
qed

lemma strtok_total:
  "length (concat (map (\<lambda>u. u @ [d]) (strtok d s))) \<le> length s + (if s = [] \<or> List.hd s = d then 0 else 1)"
proof (induction d s rule: strtok.induct)
  case (2 d c cs)
  let ?r = "dropWhile (\<lambda>x. x \<noteq> d) cs"
  have len: "length (takeWhile (\<lambda>x. x \<noteq> d) cs) + length ?r = length cs"
    by (metis length_append takeWhile_dropWhile_id)
  show ?case
  proof (cases "c = d")
    case True
    with 2(1) [OF True] show ?thesis by (simp split: if_splits)
  next
    case False
    have "?r = [] \<or> List.hd ?r = d" using hd_dropWhile [of "\<lambda>x. x \<noteq> d" cs] by auto
    with 2(2) [OF False] len False show ?thesis by simp
  qed
qed simp

lemma split_loop_eq:
  "t \<noteq> [] \<Longrightarrow> \<forall>u \<in> set ts. u \<noteq> [] \<Longrightarrow>
   split_loop dir t ts = (dir @ concat (map (\<lambda>u. u @ ''/'') (butlast (t # ts))), List.last (t # ts))"
  by (induction ts arbitrary: dir t) auto

lemma split_path_eq:
  fixes path :: string
  defines "root \<equiv> if 0 < length path \<and> path ! 0 = CHR ''/'' then ''/'' else ''''"
    and "ts \<equiv> strtok CHR ''/'' path"
  shows "split_path_filename path =
    (root @ concat (map (\<lambda>u. u @ ''/'') (butlast ts)), if ts = [] then [] else List.last ts)"
proof (cases ts)
  case (Cons t us)
  then have "t \<noteq> []" "\<forall>u \<in> set us. u \<noteq> []" using strtok_tokens [of _ "CHR ''/''" path] by (auto simp: ts_def)
  then have "split_loop root t us = (root @ concat (map (\<lambda>u. u @ ''/'') (butlast (t # us))), List.last (t # us))"
    by (rule split_loop_eq)
  with Cons show ?thesis by (simp add: split_path_filename_def root_def ts_def)
qed (simp add: split_path_filename_def root_def ts_def)

lemma strtok_joined:
  "\<forall>u \<in> set us. u \<noteq> [] \<and> d \<notin> set u \<Longrightarrow> strtok d (concat (map (\<lambda>u. u @ [d]) us)) = us"
  by (induction us) (simp_all add: strtok_token)

text \<open>
  C21: Splitting a path loses nothing that matters: the tokens of the directory part, followed by
  the file name, are the tokens of the path, and both parts are absolute or both relative.
\<close>

theorem split_path_tokens:
  assumes "split_path_filename path = (directory, name)"
  shows "strtok CHR ''/'' directory @ (if name = [] then [] else [name]) = strtok CHR ''/'' path \<and>
    CHR ''/'' \<notin> set name \<and> (take 1 path = ''/'') = (take 1 directory = ''/'')"
proof -
  let ?ts = "strtok CHR ''/'' path"
  let ?join = "concat (map (\<lambda>u. u @ ''/'') (butlast ?ts))"
  have tok: "\<forall>u \<in> set ?ts. u \<noteq> [] \<and> CHR ''/'' \<notin> set u" using strtok_tokens by blast
  then have "strtok CHR ''/'' ?join = butlast ?ts" by (intro strtok_joined) (auto dest: in_set_butlastD)
  moreover have "take 1 ?join \<noteq> ''/''"
  proof (cases "butlast ?ts")
    case (Cons u us)
    then have "u \<in> set ?ts" using in_set_butlastD [of u ?ts] by simp
    then have "u \<noteq> [] \<and> CHR ''/'' \<notin> set u" using tok by blast
    with Cons show ?thesis by (cases u) auto
  qed simp
  moreover have "(0 < length path \<and> path ! 0 = CHR ''/'') = (take 1 path = ''/'')" by (cases path) auto
  ultimately have D: "directory = (if take 1 path = ''/'' then ''/'' else []) @ ?join" "strtok CHR ''/'' ?join = butlast ?ts"
      "take 1 ?join \<noteq> ''/''" "name = (if ?ts = [] then [] else List.last ?ts)"
    using assms by (simp_all add: split_path_eq)
  have "strtok CHR ''/'' directory = butlast ?ts" using D(1,2) by (cases "take 1 path = ''/''") simp_all
  moreover have "(take 1 path = ''/'') = (take 1 directory = ''/'')" using D(1,3) by (cases "take 1 path = ''/''") simp_all
  moreover have "?ts \<noteq> [] \<Longrightarrow> List.last ?ts \<noteq> [] \<and> CHR ''/'' \<notin> set (List.last ?ts)" using tok by simp
  ultimately show ?thesis using D(4) by (cases "?ts = []") simp_all
qed

theorem split_path_tokens_witness:
  "split_path_filename ''/a/b'' = (''/a/'', ''b'') \<and> strtok CHR ''/'' ''/a/'' @ [''b''] = strtok CHR ''/'' ''/a/b''"
proof -
  have "split_path_filename ''/a/b'' = (''/a/'', ''b'')" by (simp add: split_path_filename_def)
  from split_path_tokens [OF this] this show ?thesis by simp
qed

text \<open>
  C22: \<open>filesys_create\<close> has room for both parts of every path if the arrays it declares with the
  length of the path have one byte more; with exactly that length, every path without a slash,
  such as any name the shell passes, is written past the end of the array.
\<close>

theorem filesys_create_overflow:
  "(length path < room (length path) \<longrightarrow> split_into room (length path) path \<noteq> None) \<and>
   (CHR ''/'' \<notin> set path \<and> room (length path) \<le> length path \<longrightarrow>
      filesys_create fuel room junk path size' isdir s = None)"
proof (intro conjI impI)
  let ?ts = "strtok CHR ''/'' path"
  assume r: "length path < room (length path)"
  obtain directory name where sp: "split_path_filename path = (directory, name)" by fastforce
  let ?join = "\<lambda>us. concat (map (\<lambda>u. u @ ''/'') us)"
  have "length (?join ?ts) = length (?join (butlast ?ts)) + Suc (length (List.last ?ts))" if "?ts \<noteq> []"
    using arg_cong [OF append_butlast_last_id [OF that], of "\<lambda>us. length (?join us)"] by simp
  moreover have "(0 < length path \<and> path ! 0 = CHR ''/'') = (path \<noteq> [] \<and> List.hd path = CHR ''/'')"
    by (cases path) simp_all
  ultimately have "length directory \<le> length path \<and> length name \<le> length path"
    using strtok_total [of "CHR ''/''" path] sp
    by (cases "?ts = []"; cases "path \<noteq> [] \<and> List.hd path = CHR ''/''") (auto simp: split_path_eq Suc_le_eq split: if_splits)
  with r sp show "split_into room (length path) path \<noteq> None" by (simp add: split_into_def)
next
  assume a: "CHR ''/'' \<notin> set path \<and> room (length path) \<le> length path"
  have "split_path_filename path = ([], path)"
  proof (cases "path = []")
    case False
    with a have "strtok CHR ''/'' path = [path]" by (simp add: strtok_token)
    with a False show ?thesis by (auto simp: split_path_eq in_set_conv_nth)
  qed (simp add: split_path_filename_def)
  with a show "filesys_create fuel room junk path size' isdir s = None"
    by (simp add: filesys_create_def split_into_def)
qed

theorem filesys_create_overflow_witness:
  "split_into Suc 1 ''a'' \<noteq> None \<and> filesys_create 1 id [] ''a'' 0 False example_fs = None"
  using filesys_create_overflow [of "''a''" Suc 1 "[]" 0 False example_fs]
    filesys_create_overflow [of "''a''" id 1 "[]" 0 False example_fs] by simp

end
