(* ===== verification/Restart.thy ===== *)
theory Restart
  imports Storage Filesys
begin

text \<open>
  The file system across a shutdown and a restart: what the cache held is on the device, and the free
  map is read from its file again.
\<close>

text \<open>A cache that is closed and started again shows the same sectors, for a device with the same driver.\<close>

lemma phys_ops: "block_ops dev = block_ops dev' \<Longrightarrow> phys dev t = phys dev' t"
  by (cases dev; cases dev') simp

lemma restarted_cache:
  assumes ok: "cache_ok c" and dev: "block_ops dev = block_ops (fs_device (buffer_cache_close c))"
  shows "keeps c (buffer_cache_init ((buffer_cache_close c)\<lparr>fs_device := dev\<rparr>))"
proof -
  let ?c = "buffer_cache_close c" and ?d = "(buffer_cache_close c)\<lparr>fs_device := dev\<rparr>"
  note close = buffer_cache_close_spec [OF ok]
  note K = keepsD [OF close(1)]
  have ph: "phys dev t = phys (fs_device ?c) t" for t by (rule phys_ops [OF dev])
  have same: "sector_valid ?d = sector_valid ?c" "on_disk ?d = on_disk ?c"
    using dev_valid_cong [OF ph] dev_sector_cong [OF ph] by (simp_all add: sector_valid_def on_disk_def)
  have "length (cache ?d) = BUFFER_CACHE_SIZE" "clock ?d < BUFFER_CACHE_SIZE"
    "\<forall>e \<in> set (cache ?d). length (buffer e) = BLOCK_SECTOR_SIZE"
    using K(1) by (auto simp: cache_ok_def entry_ok_def)
  note init = buffer_cache_init_ok [OF this]
  have "sector_valid (buffer_cache_init ?d) = sector_valid ?d" by (simp add: buffer_cache_init_def sector_valid_def)
  then show ?thesis using init close(2) K(2) same by (simp add: keeps_def)
qed

lemma free_map_init_eq:
  assumes n: "n = unat (block_size (fs_device (bc s)) - 1)" "1 < n"
  shows "\<exists>b. free_map_init s = Some (s\<lparr>free_map := b\<rparr>) \<and> bitmap_ok b \<and> bit_cnt b = n"
proof -
  let ?z = "\<lparr>bit_cnt = n, bits = replicate (elem_cnt n) 0\<rparr>"
  have z: "bitmap_ok ?z" by (simp add: bitmap_ok_def)
  obtain b0 where b0: "bitmap_create n = Some b0" "bitmap_ok b0" "bm_list b0 = overwrite 0 (replicate n False) (bm_list ?z)"
    using bitmap_set_multiple_refines [OF z, of 0 n False] by (auto simp: bitmap_create_def bitmap_set_all_def bitmap_size_def)
  have "length (bm_list b0) = length (bm_list ?z)" unfolding b0(3) by simp
  then have c0: "bit_cnt b0 = n" by simp
  obtain b1 where b1: "bitmap_mark b0 0 = Some b1" "bitmap_ok b1" "bm_list b1 = (bm_list b0)[0 := True]"
    using bitmap_mark_refines [OF b0(2), of 0] c0 n(2) by auto
  have c1: "bit_cnt b1 = n" using bm_list_bit_cnt [OF b1(3)] c0 by simp
  obtain b2 where b2: "bitmap_mark b1 1 = Some b2" "bitmap_ok b2" "bm_list b2 = (bm_list b1)[1 := True]"
    using bitmap_mark_refines [OF b1(2), of 1] c1 n(2) by auto
  have "bit_cnt b2 = n" using bm_list_bit_cnt [OF b2(3)] c1 by simp
  with b0(1) b1(1) b2(1,2) n(1) show ?thesis
    by (intro exI [of _ b2]) (simp add: free_map_init_def FREE_MAP_SECTOR_def ROOT_DIR_SECTOR_def)
qed

text \<open>Opening the file of the free map reads its inode from sector 0 and the bits from its contents.\<close>

lemma free_map_open_eq:
  assumes "open_inodes s = []" and "cache_ok (bc s)" and "sector_valid (bc s) 0"
    and "decode_inode (cache_view (bc s) 0) = d" and "file_ok (bc s) d"
    and b: "bitmap_ok b" "take (byte_cnt (bit_cnt b)) (content (cache_view (bc s)) d) = bitmap_bytes b"
    and "bitmap_ok (free_map s)" and "bit_cnt (free_map s) = bit_cnt b" and "0 < bit_cnt b"
  shows "\<exists>t. free_map_open s = Some t \<and> bm_list (free_map t) = bm_list b \<and> bitmap_ok (free_map t) \<and>
    map_data t = Some d \<and> keeps (bc s) (bc t)"
proof -
  obtain c where c: "buffer_cache_read 0 (bc s) = (cache_view (bc s) 0, c)" "keeps (bc s) c"
    using buffer_cache_read_spec [OF assms(2,3)] by blast
  let ?i = "next_ref s" and ?n = "byte_cnt (bit_cnt b)"
  let ?x = "\<lparr>i_sector = 0, open_cnt = 1, i_removed = False, deny_write_cnt = 0, i_data = d\<rparr>"
  let ?fl = "\<lparr>file_inode = ?i, file_pos = 0, file_denies = False\<rparr>"
  define t where "t = s\<lparr>bc := c, open_inodes := [?i], inodes := (inodes s)(?i \<mapsto> ?x), next_ref := Suc (Suc ?i),
    files := (files s)(Suc ?i \<mapsto> ?fl), free_map_file := Some (Suc ?i)\<rparr>"
  have "inode_open FREE_MAP_SECTOR s = Some (?i, s\<lparr>bc := c, open_inodes := [?i], next_ref := Suc ?i, inodes := (inodes s)(?i \<mapsto> ?x)\<rparr>)"
    using assms(1,4) c(1) by (simp add: inode_open_def FREE_MAP_SECTOR_def cread_def Let_def)
  then have start: "free_map_open s = do { (_, s) \<leftarrow> bitmap_read (Suc ?i) t; Some s }"
    by (simp add: free_map_open_def file_open_def t_def)
  have F: "file_ok c d" "content (cache_view c) d = content (cache_view (bc s)) d"
    using file_within [OF assms(5) keeps_within [OF c(2), of "{}"]] by simp_all
  have "\<exists>c'. inode_read_at ?i (int ?n) (int 0) t =
      Some (take ?n (drop 0 (content (cache_view (bc t)) (i_data ?x))), t\<lparr>bc := c'\<rparr>) \<and> keeps (bc t) c'"
    by (rule inode_read_at_eq) (simp_all add: t_def F keepsD(1) [OF c(2)])
  then obtain c' where r: "inode_read_at ?i (int ?n) 0 t = Some (bitmap_bytes b, t\<lparr>bc := c'\<rparr>)" "keeps c c'"
    using b(2) F(2) by (auto simp: t_def)
  let ?u = "t\<lparr>bc := c', free_map := bitmap_load (free_map s) (bitmap_bytes b)\<rparr>"
  have "bitmap_read (Suc ?i) t = Some (True, ?u)"
    using r(1) assms(9,10) length_bitmap_bytes [OF b(1)] by (simp add: bitmap_read_def file_read_at_def t_def)
  then have "free_map_open s = Some ?u" using start by simp
  moreover have "bm_list (free_map ?u) = bm_list b"
    using assms(8-10) b(1) by (simp add: bitmap_load_refines)
  moreover have "bitmap_ok (free_map ?u)" using assms(8) by (simp add: bitmap_ok_def bitmap_load_def Let_def)
  moreover have "map_data ?u = Some d" by (simp add: map_data_def t_def)
  moreover have "keeps (bc s) (bc ?u)" using keeps_trans [OF c(2) r(2)] by simp
  ultimately show ?thesis by blast
qed

text \<open>
  C16: The free map survives a restart: after an allocation, shutting the cache down and starting the file
  system again on a device with the same driver reads the inode of the free map from sector 0 and the bits
  from its file; the free map is then the one from before with the allocated sector taken. It has one bit
  less than the device has sectors, as \<open>free_map_init\<close> makes it.
\<close>

theorem free_map_survives_restart:
  assumes "fm_inv s" and "map_data s = Some d" and "decode_inode (cache_view (bc s) 0) = d"
    and "free_map_allocate (Suc fuel) 1 s = Some (Some k, s')"
    and "block_ops dev = block_ops (fs_device (buffer_cache_close (bc s')))"
    and "bit_cnt (free_map s) = unat (block_size dev - 1)" and "1 < bit_cnt (free_map s)"
  shows "\<exists>t. filesys_init n dev False (s'\<lparr>bc := buffer_cache_close (bc s')\<rparr>) = Some t \<and>
    bm_list (free_map t) = (bm_list (free_map s))[unat k := True] \<and> map_data t = Some d"
proof -
  note I = fm_invD [OF assms(1)]
  have nf: "\<not> fm_full s" using free_map_allocate_full [OF assms(1)] assms(4) by (auto simp del: free_map_allocate.simps)
  from free_map_allocate_first [OF assms(1) nf] obtain i b c where i: "i < bit_cnt (free_map s)"
    and a: "free_map_allocate (Suc fuel) 1 s = Some (Some (of_nat i), s\<lparr>bc := c, free_map := b\<rparr>)"
    and b: "bitmap_ok b" "bm_list b = (bm_list (free_map s))[i := True]" "within (fm_own s) (bc s) c"
    "\<forall>d. map_data s = Some d \<longrightarrow> file_ok c d \<and> sectors_of c d = sectors_of (bc s) d \<and>
       take (byte_cnt (bit_cnt b)) (content (cache_view c) d) = bitmap_bytes b" by blast
  have s': "s' = s\<lparr>bc := c, free_map := b\<rparr>" "k = of_nat i" using a assms(4) by (simp_all del: free_map_allocate.simps)
  have k: "unat k = i" using i I(4) unat_u32_of_nat [of i] by (simp add: s'(2))
  have cnt: "bit_cnt b = bit_cnt (free_map s)" by (rule bm_list_bit_cnt [OF b(2)])
  have ok: "cache_ok c" by (rule withinD(1) [OF b(3)])
  have "0 \<notin> fm_own s" and v0: "sector_valid (bc s) 0" using space.inv_0 [OF assms(1)] by simp_all
  then have zero: "cache_view c 0 = cache_view (bc s) 0" "sector_valid c 0" using withinD(2,3) [OF b(3)] by auto
  define r where "r = buffer_cache_init ((buffer_cache_close c)\<lparr>fs_device := dev\<rparr>)"
  have K: "keeps c r" unfolding r_def by (rule restarted_cache [OF ok]) (use assms(5) in \<open>simp add: s'\<close>)
  let ?t = "s'\<lparr>bc := (buffer_cache_close c)\<lparr>fs_device := dev\<rparr>, open_inodes := []\<rparr>"
  obtain b0 where b0: "free_map_init ?t = Some (?t\<lparr>free_map := b0\<rparr>)" "bitmap_ok b0" "bit_cnt b0 = bit_cnt (free_map s)"
    using free_map_init_eq [of "bit_cnt (free_map s)" ?t] assms(6,7) by auto
  let ?u = "?t\<lparr>free_map := b0, bc := r\<rparr>"
  have F: "file_ok r d" "content (cache_view r) d = content (cache_view c) d"
    using file_within [OF _ keeps_within [OF K, of "{}"]] b(4) assms(2) by auto
  have "\<exists>t. free_map_open ?u = Some t \<and> bm_list (free_map t) = bm_list b \<and> bitmap_ok (free_map t) \<and>
    map_data t = Some d \<and> keeps (bc ?u) (bc t)"
    by (rule free_map_open_eq [OF _ _ _ _ _ b(1)])
      (use keepsD [OF K] zero assms(2,3,7) F b(4) b0(2,3) cnt in \<open>simp_all\<close>)
  then obtain t where t: "free_map_open ?u = Some t" "bm_list (free_map t) = bm_list b" "bitmap_ok (free_map t)" "map_data t = Some d"
    by blast
  obtain m where "num_free_sectors t = Some m"
    using bitmap_count_eq [OF t(3), of 0 "bit_cnt (free_map t)" False] by (auto simp: num_free_sectors_def bitmap_size_def)
  then have "filesys_init n dev False (s'\<lparr>bc := buffer_cache_close (bc s')\<rparr>) = Some (init_file_table t)"
    using b0(1) t(1) by (simp add: filesys_init_def s' r_def)
  then show ?thesis using t(2,4) b(2) k by (simp add: init_file_table_def map_data_def)
qed

text \<open>The disk of the example, with the inode of the free map in sector 0 and one bit less in the free map.\<close>

definition restart_fs :: fs where
  "restart_fs = example_fs\<lparr>bc := buffer_cache_write 0 (encode_inode (one_block 2 8)) example_disk,
     free_map := \<lparr>bit_cnt = 7, bits = [31]\<rparr>\<rparr>"

lemma restart_bits: "bm_list \<lparr>bit_cnt = 7, bits = [31]\<rparr> = [True, True, True, True, True, False, False]"
  by (simp add: bm_list_def upt_rec elem_idx_def ELEM_BITS_def)

lemma restart_map_data [simp]: "map_data restart_fs = Some (one_block 2 8)"
  by (simp add: map_data_def restart_fs_def)

lemma one_block_disk: "inode_disk_ok (one_block 2 8)"
  by (simp add: inode_disk_ok_def one_block_def inode_disk_zero_def)

lemma restart_disk:
  shows "cache_ok (bc restart_fs)" and "sector_valid (bc restart_fs) k \<longleftrightarrow> unat k < 8"
    and "decode_inode (cache_view (bc restart_fs) 0) = one_block 2 8"
proof -
  note W = buffer_cache_write_spec [OF example_disk_ok, of 0 "encode_inode (one_block 2 8)"]
  have "sector_valid example_disk 0" "length (encode_inode (one_block 2 8)) = BLOCK_SECTOR_SIZE"
    using length_encode_inode [OF one_block_disk] by (simp_all add: example_disk_valid)
  then show "cache_ok (bc restart_fs)" "sector_valid (bc restart_fs) k \<longleftrightarrow> unat k < 8"
    "decode_inode (cache_view (bc restart_fs) 0) = one_block 2 8"
    using W decode_encode_inode [OF one_block_disk] by (simp_all add: restart_fs_def example_disk_valid)
qed

lemma restart_fs_inv: "fm_inv restart_fs"
proof -
  have "free_map restart_fs = \<lparr>bit_cnt = 7, bits = [31]\<rparr>" "free_map_file restart_fs = Some 0"
    by (simp_all add: restart_fs_def)
  note S = this
  have "(2 :: u32) \<in> fm_used restart_fs"
    by (auto simp: fm_used_def S restart_bits image_iff intro!: exI [of _ 2])
  moreover have "\<forall>i < 7. sector_valid (bc restart_fs) (of_nat i)"
    by (simp add: restart_disk unsigned_of_nat take_bit_nat_eq_self)
  moreover have "bitmap_ok \<lparr>bit_cnt = 7, bits = [31]\<rparr>"
    by (simp add: bitmap_ok_def elem_cnt_def ELEM_BITS_def DIV_ROUND_UP_def)
  moreover have "byte_cnt 7 = 8" by (simp add: byte_cnt_def elem_cnt_def ELEM_BITS_def DIV_ROUND_UP_def)
  moreover have "dlength (one_block 2 8) = 8" by (simp add: one_block_def inode_disk_zero_def)
  moreover have "file_ok (bc restart_fs) (one_block 2 8)" "sectors_of (bc restart_fs) (one_block 2 8) = {2}"
    by (rule one_block_ok; simp add: restart_disk)+
  ultimately show ?thesis
    unfolding fm_inv_def S restart_map_data by (simp add: restart_disk restart_bits BITMAP_ERROR_def)
qed

theorem free_map_survives_restart_witness:
  "\<exists>s' dev t. free_map_allocate 1 1 restart_fs = Some (Some 5, s') \<and>
     filesys_init 0 dev False (s'\<lparr>bc := buffer_cache_close (bc s')\<rparr>) = Some t \<and>
     bm_list (free_map t) = [True, True, True, True, True, True, False]"
proof -
  have b: "bm_list (free_map restart_fs) = [True, True, True, True, True, False, False]" and "bit_cnt (free_map restart_fs) = 7"
    by (simp_all add: restart_fs_def restart_bits)
  then have nf: "\<not> fm_full restart_fs" by (auto simp: fm_full_def intro!: exI [of _ 5])
  obtain k s' where a: "free_map_allocate (Suc 0) 1 restart_fs = Some (Some k, s')" "k = 5"
  proof -
    from free_map_allocate_first [OF restart_fs_inv nf] obtain i d e where
      "i < 7" "\<not> [True, True, True, True, True, False, False] ! i"
      "\<forall>j < i. [True, True, True, True, True, False, False] ! j"
      "free_map_allocate (Suc 0) 1 restart_fs = Some (Some (of_nat i), restart_fs\<lparr>bc := d, free_map := e\<rparr>)"
      using b \<open>bit_cnt (free_map restart_fs) = 7\<close> by auto
    moreover from this have "\<not> i < 5" "\<not> 5 < i" by (auto simp: less_Suc_eq numeral_eq_Suc)
    then have "i = 5" by simp
    ultimately show thesis using that by simp
  qed
  let ?dev = "Block ''hda'' ''disk'' 8 (block_ops (fs_device (buffer_cache_close (bc s')))) 0 0"
  from free_map_survives_restart [OF restart_fs_inv restart_map_data restart_disk(3) a(1), of ?dev 0]
  show ?thesis using a b \<open>bit_cnt (free_map restart_fs) = 7\<close> by (auto simp del: free_map_allocate.simps)
qed

end
