(* ===== verification/Removal.thy ===== *)
theory Removal
  imports Storage
begin

text \<open>
  Removing a file: closing the last opener of a removed inode gives exactly its sectors back to the
  free map, through the same index tree that reading and growing use.
\<close>

section \<open>States with sectors freed\<close>

text \<open>The free map in memory agrees with the beginning of its file.\<close>

definition map_saved :: "fs \<Rightarrow> bool" where
  "map_saved s \<longleftrightarrow> (\<forall>d. map_data s = Some d \<longrightarrow>
     take (byte_cnt (bit_cnt (free_map s))) (content (cache_view (bc s)) d) = bitmap_bytes (free_map s))"

text \<open>Only the bits of \<open>K\<close> are cleared, and only the file of the free map is written for that.\<close>

definition freed :: "fs \<Rightarrow> u32 set \<Rightarrow> fs \<Rightarrow> bool" where
  "freed s K t \<longleftrightarrow> fm_inv t \<and> fm_own t = fm_own s \<and> within (fm_own s) (bc s) (bc t) \<and> fm_used t = fm_used s - K \<and>
     bit_cnt (free_map t) = bit_cnt (free_map s) \<and> (K \<noteq> {} \<or> map_saved s \<longrightarrow> map_saved t) \<and>
     t = s\<lparr>bc := bc t, free_map := free_map t\<rparr>"

lemma freedD:
  assumes "freed s K t"
  shows "fm_inv t" "fm_own t = fm_own s" "within (fm_own s) (bc s) (bc t)" "fm_used t = fm_used s - K"
    "bit_cnt (free_map t) = bit_cnt (free_map s)" "K \<noteq> {} \<or> map_saved s \<Longrightarrow> map_saved t"
    "t = s\<lparr>bc := bc t, free_map := free_map t\<rparr>"
  using assms unfolding freed_def by blast+

lemma freed_refl: "fm_inv s \<Longrightarrow> freed s {} s"
  by (simp add: freed_def within_refl fm_invD(1))

lemma freed_trans:
  assumes a: "freed s K t" and b: "freed t L u"
  shows "freed s (K \<union> L) u"
proof -
  note A = freedD [OF a] and B = freedD [OF b]
  have "within (fm_own s) (bc s) (bc u)" using within_trans [OF A(3) B(3)] A(2) by simp
  moreover have "map_saved u" if "K \<union> L \<noteq> {} \<or> map_saved s" using A(6) B(6) that by blast
  moreover have "u = s\<lparr>bc := bc u, free_map := free_map u\<rparr>" by (subst B(7), subst A(7)) simp
  ultimately show ?thesis using A B by (auto simp: freed_def)
qed

definition releasable :: "fs \<Rightarrow> u32 set \<Rightarrow> bool" where
  "releasable s K \<longleftrightarrow> K \<subseteq> of_nat ` {0<..<bit_cnt (free_map s)} - fm_own s"

lemma releasable_freed: "freed s K t \<Longrightarrow> releasable t L = releasable s L"
  by (simp add: releasable_def freedD(2,5))

lemma releasable_mono: "releasable s K \<Longrightarrow> L \<subseteq> K \<Longrightarrow> releasable s L"
  by (auto simp: releasable_def)

lemma freed_file: "freed s K t \<Longrightarrow> free_map_file t = free_map_file s"
  by (subst freedD(7)) simp_all

text \<open>A sector outside the file of the free map keeps its contents.\<close>

lemma freed_view:
  assumes "freed s K t" and "releasable s {k}" and "fm_inv s"
  shows "cache_view (bc t) k = cache_view (bc s) k" and "sector_valid (bc s) k"
proof -
  from assms(2) obtain i where i: "i < bit_cnt (free_map s)" "k = of_nat i" "k \<notin> fm_own s" by (auto simp: releasable_def)
  show "sector_valid (bc s) k" using fm_invD(5) [OF assms(3) i(1)] i(2) by simp
  then show "cache_view (bc t) k = cache_view (bc s) k" using withinD(3) [OF freedD(3) [OF assms(1)]] i(3) by simp
qed

lemma release_freed:
  assumes "fm_inv s" and "free_map_file s \<noteq> None" and "releasable s {k}"
  shows "\<exists>t. free_map_release fuel 1 k s = Some t \<and> freed s {k} t"
proof -
  from assms(3) obtain i where i: "0 < i" "i < bit_cnt (free_map s)" "k = of_nat i" "of_nat i \<notin> fm_own s"
    by (auto simp: releasable_def)
  from free_map_release_spec [OF assms(1) i(1,2,4) assms(2), of fuel] obtain b c where
    r: "free_map_release fuel 1 (of_nat i) s = Some (s\<lparr>bc := c, free_map := b\<rparr>)"
      "fm_inv (s\<lparr>bc := c, free_map := b\<rparr>)" "fm_own (s\<lparr>bc := c, free_map := b\<rparr>) = fm_own s"
      "bm_list b = (bm_list (free_map s))[i := False]" "within (fm_own s) (bc s) c"
      "fm_used (s\<lparr>bc := c, free_map := b\<rparr>) = fm_used s - {of_nat i}"
      "\<forall>d. map_data s = Some d \<longrightarrow> take (byte_cnt (bit_cnt b)) (content (cache_view c) d) = bitmap_bytes b" by blast
  have "freed s {k} (s\<lparr>bc := c, free_map := b\<rparr>)"
    using r bm_list_bit_cnt [OF r(4)] i(3) by (simp add: freed_def map_saved_def)
  then show ?thesis using r(1) i(3) by blast
qed

lemma cread_freed:
  assumes "fm_inv s" and "sector_valid (bc s) k"
  shows "\<exists>t. cread k s = (cache_view (bc s) k, t) \<and> freed s {} t"
proof -
  obtain c where c: "buffer_cache_read k (bc s) = (cache_view (bc s) k, c)" "keeps (bc s) c"
    using buffer_cache_read_spec [OF fm_invD(1) [OF assms(1)] assms(2)] by blast
  note W = keeps_within [OF c(2)]
  note F = fm_inv_within [OF assms(1) W [of "{}"]]
  have "map_saved (s\<lparr>bc := c\<rparr>)" if "map_saved s"
  proof -
    have "content (cache_view c) d = content (cache_view (bc s)) d" if "map_data s = Some d" for d
    proof -
      have "file_ok (bc s) d" using assms(1) that by (auto simp: fm_inv_def map_data_def split: bind_splits)
      then show ?thesis using file_within(2) [OF _ W [of "{}"]] by simp
    qed
    then show ?thesis using that by (simp add: map_saved_def)
  qed
  then have "freed s {} (s\<lparr>bc := c\<rparr>)" using F W by (simp add: freed_def fm_used_def)
  then show ?thesis using c(1) by (simp add: cread_def)
qed

section \<open>The index tree\<close>

lemma dealloc_loop_freed:
  assumes "fm_inv s"
    and "\<And>j K t. i \<le> j \<Longrightarrow> j < i + k \<Longrightarrow> freed s K t \<Longrightarrow>
           \<exists>u. f (ws ! j) (min (n - (j - i) * unit) unit) t = Some u \<and> freed t (F j) u"
    and "i + k \<le> length ws"
  shows "\<exists>u. dealloc_loop f unit k i n ws s = Some u \<and> freed s (\<Union>j \<in> {i..<i + k}. F j) u"
  using assms
proof (induction k arbitrary: i n s)
  case 0
  then show ?case by (simp add: freed_refl)
next
  case (Suc k)
  from Suc.prems(2) [of i, OF _ _ freed_refl [OF Suc.prems(1)]] obtain t where
    t: "f (ws ! i) (min n unit) s = Some t" "freed s (F i) t" by auto
  have step: "\<exists>u. f (ws ! j) (min ((n - min n unit) - (j - Suc i) * unit) unit) t' = Some u \<and> freed t' (F j) u"
    if "Suc i \<le> j" "j < Suc i + k" "freed t K t'" for j K t'
  proof -
    have "(n - min n unit) - (j - Suc i) * unit = n - (j - i) * unit"
    proof -
      have "j - i = Suc (j - Suc i)" using that(1) by (rule Suc_diff_Suc [OF Suc_le_lessD, symmetric])
      then have j: "(j - i) * unit = unit + (j - Suc i) * unit" by (simp only: mult_Suc)
      show ?thesis unfolding j by (cases "n \<le> unit") (simp_all add: min_def)
    qed
    then show ?thesis using Suc.prems(2) [OF _ _ freed_trans [OF t(2) that(3)], of j] that(1,2) by simp
  qed
  have "\<exists>u. dealloc_loop f unit k (Suc i) (n - min n unit) ws t = Some u \<and> freed t (\<Union>j \<in> {Suc i..<Suc i + k}. F j) u"
    by (rule Suc.IH [OF freedD(1) [OF t(2)]], rule step) (use Suc.prems(3) in simp_all)
  then obtain u where
    u: "dealloc_loop f unit k (Suc i) (n - min n unit) ws t = Some u" "freed t (\<Union>j \<in> {Suc i..<Suc i + k}. F j) u" by blast
  have "{i..<i + Suc k} = insert i {Suc i..<Suc i + k}" by auto
  then have "freed s (\<Union>j \<in> {i..<i + Suc k}. F j) u" using freed_trans [OF t(2) u(2)] by simp
  then show ?case using t(1) u(1) Suc.prems(3) by auto
qed

lemma indirect_freed:
  assumes "fm_inv s" and "free_map_file s \<noteq> None" and "m \<le> 128"
    and "releasable s (insert e ((!) (indirect_of (cache_view (bc s) e)) ` {..<m}))"
  shows "\<exists>t. inode_deallocate_indirect (free_map_release fuel 1) 1 e m s = Some t \<and>
    freed s (insert e ((!) (indirect_of (cache_view (bc s) e)) ` {..<m})) t"
proof -
  let ?ws = "indirect_of (cache_view (bc s) e)"
  have e: "releasable s {e}" using assms(4) by (rule releasable_mono) simp
  from cread_freed [OF assms(1) freed_view(2) [OF freed_refl [OF assms(1)] e assms(1)]] obtain t where
    t: "cread e s = (cache_view (bc s) e, t)" "freed s {} t" by blast
  have "\<exists>u. dealloc_loop (inode_deallocate_indirect (free_map_release fuel 1) 0) 1 m 0 m ?ws t = Some u \<and>
    freed t (\<Union>j \<in> {0..<0 + m}. {?ws ! j}) u"
  proof (rule dealloc_loop_freed [OF freedD(1) [OF t(2)]])
    fix j K u assume j: "0 \<le> j" "j < 0 + m" "freed t K u"
    have "releasable s {?ws ! j}" using assms(4) by (rule releasable_mono) (use j in auto)
    then have "releasable u {?ws ! j}" by (simp add: releasable_freed [OF j(3)] releasable_freed [OF t(2)])
    from release_freed [OF freedD(1) [OF j(3)] _ this, of fuel]
    show "\<exists>v. inode_deallocate_indirect (free_map_release fuel 1) 0 (?ws ! j) (min (m - (j - 0) * 1) 1) u = Some v \<and>
        freed u {?ws ! j} v"
      using assms(2) by (simp add: freed_file [OF j(3)] freed_file [OF t(2)])
  qed (use assms(3) in simp)
  then obtain u where u: "dealloc_loop (inode_deallocate_indirect (free_map_release fuel 1) 0) 1 m 0 m ?ws t = Some u"
    "freed t (\<Union>j \<in> {0..<0 + m}. {?ws ! j}) u" by blast
  note tu = freed_trans [OF t(2) u(2)]
  have "releasable u {e}" using e by (simp add: releasable_freed [OF tu])
  from release_freed [OF freedD(1) [OF tu] _ this, of fuel] obtain v where
    v: "free_map_release fuel 1 e u = Some v" "freed u {e} v" using assms(2) by (auto simp: freed_file [OF tu])
  have "{} \<union> (\<Union>j \<in> {0..<0 + m}. {?ws ! j}) \<union> {e} = insert e ((!) ?ws ` {..<m})" by auto
  then have "freed s (insert e ((!) ?ws ` {..<m})) v" using freed_trans [OF tu v(2)] by simp
  moreover have "DIV_ROUND_UP m 1 = m" by (simp add: DIV_ROUND_UP_def)
  ultimately show ?thesis using t(1) u(1) v(1) by simp
qed

lemma doubly_freed:
  assumes "fm_inv s" and "free_map_file s \<noteq> None" and "n \<le> 16384"
    and K: "K = insert e (\<Union>j \<in> {0..<DIV_ROUND_UP n 128}. insert (indirect_of (cache_view (bc s) e) ! j)
      ((!) (indirect_of (cache_view (bc s) (indirect_of (cache_view (bc s) e) ! j))) ` {..<min (n - j * 128) 128}))"
    and "releasable s K"
  shows "\<exists>t. inode_deallocate_indirect (free_map_release fuel 1) 2 e n s = Some t \<and> freed s K t"
proof -
  let ?ws = "indirect_of (cache_view (bc s) e)"
  let ?F = "\<lambda>j. insert (?ws ! j) ((!) (indirect_of (cache_view (bc s) (?ws ! j))) ` {..<min (n - j * 128) 128})"
  have e: "releasable s {e}" using assms(5) by (rule releasable_mono) (simp add: K)
  from cread_freed [OF assms(1) freed_view(2) [OF freed_refl [OF assms(1)] e assms(1)]] obtain t where
    t: "cread e s = (cache_view (bc s) e, t)" "freed s {} t" by blast
  have "\<exists>u. dealloc_loop (inode_deallocate_indirect (free_map_release fuel 1) 1) 128 (DIV_ROUND_UP n 128) 0 n ?ws t = Some u \<and>
    freed t (\<Union>j \<in> {0..<0 + DIV_ROUND_UP n 128}. ?F j) u"
  proof (rule dealloc_loop_freed [OF freedD(1) [OF t(2)]])
    fix j L u assume j: "0 \<le> j" "j < 0 + DIV_ROUND_UP n 128" "freed t L u"
    note su = freed_trans [OF t(2) j(3)]
    have F: "releasable s (?F j)" using assms(5) by (rule releasable_mono) (use j(2) in \<open>auto simp: K\<close>)
    then have "releasable s {?ws ! j}" by (rule releasable_mono) simp
    from freed_view(1) [OF su this assms(1)]
    have v: "cache_view (bc u) (?ws ! j) = cache_view (bc s) (?ws ! j)" .
    have "releasable u (?F j)" using F by (simp add: releasable_freed [OF su])
    from indirect_freed [OF freedD(1) [OF j(3)] _ _ this [folded v], of fuel]
    show "\<exists>w. inode_deallocate_indirect (free_map_release fuel 1) 1 (?ws ! j) (min (n - (j - 0) * 128) 128) u = Some w \<and>
        freed u (?F j) w"
      using assms(2) v by (simp add: freed_file [OF su])
  qed (use assms(3) in \<open>simp add: DIV_ROUND_UP_def\<close>)
  then obtain u where u: "dealloc_loop (inode_deallocate_indirect (free_map_release fuel 1) 1) 128 (DIV_ROUND_UP n 128) 0 n ?ws t = Some u"
    "freed t (\<Union>j \<in> {0..<DIV_ROUND_UP n 128}. ?F j) u" by auto
  note tu = freed_trans [OF t(2) u(2)]
  have "releasable u {e}" using e by (simp add: releasable_freed [OF tu])
  from release_freed [OF freedD(1) [OF tu] _ this, of fuel] obtain v where
    v: "free_map_release fuel 1 e u = Some v" "freed u {e} v" using assms(2) by (auto simp: freed_file [OF tu])
  have "{} \<union> (\<Union>j \<in> {0..<DIV_ROUND_UP n 128}. ?F j) \<union> {e} = K" unfolding K by blast
  then have "freed s K v" using freed_trans [OF tu v(2)] by simp
  moreover have "inode_deallocate_indirect (free_map_release fuel 1) (Suc 1) e n s = Some v"
    unfolding inode_deallocate_indirect.simps(2) t(1) Let_def prod.case using u(1) v(1) by simp
  ultimately show ?thesis by (auto simp: numeral_2_eq_2)
qed

text \<open>The sectors of a file in the order in which they are freed.\<close>

lemma sectors_of_tree:
  assumes "n = blocks_of d" and "v = cache_view c"
  shows "sectors_of c d = (!) (direct_blocks d) ` {..<min n 123} \<union>
    (if 123 < n then insert (indirect_block d) ((!) (indirect_of (v (indirect_block d))) ` {..<min (n - 123) 128}) else {}) \<union>
    (if 251 < n then insert (doubly_indirect_block d) (\<Union>j \<in> {0..<DIV_ROUND_UP (n - 251) 128}.
       insert (indirect_of (v (doubly_indirect_block d)) ! j)
         ((!) (indirect_of (v (indirect_of (v (doubly_indirect_block d)) ! j))) ` {..<min (n - 251 - j * 128) 128})) else {})"
    (is "_ = ?A \<union> ?B \<union> ?C")
proof -
  let ?w = "indirect_of (v (doubly_indirect_block d))"
  have level: "j < DIV_ROUND_UP (n - 251) 128 \<longleftrightarrow> j * 128 + 251 < n" if "251 < n" for j
    using that unfolding DIV_ROUND_UP_def by linarith
  let ?x = "indirect_of (v (indirect_block d))" and ?y = "\<lambda>j. indirect_of (v (?w ! j))"
  have direct: "data_sector v d ` {..<min n 123} = (!) (direct_blocks d) ` {..<min n 123}"
    by (intro image_cong) (simp_all add: data_sector_def)
  have single: "data_sector v d ` {123..<min n 251} = (!) ?x ` {..<min (n - 123) 128}"
  proof -
    have "{123..<min n 251} = (\<lambda>q. q + 123) ` {..<min (n - 123) 128}"
    proof (intro set_eqI iffI)
      fix i assume "i \<in> {123..<min n 251}"
      then have "i = (i - 123) + 123" "i - 123 \<in> {..<min (n - 123) 128}" by auto
      then show "i \<in> (\<lambda>q. q + 123) ` {..<min (n - 123) 128}" by (rule image_eqI)
    qed auto
    then have "data_sector v d ` {123..<min n 251} = (\<lambda>q. data_sector v d (q + 123)) ` {..<min (n - 123) 128}"
      by (simp only: image_image)
    also have "\<dots> = (!) ?x ` {..<min (n - 123) 128}" by (rule image_cong) (auto simp: data_sector_def)
    finally show ?thesis .
  qed
  have doubly: "data_sector v d ` {251..<n} = (\<Union>j \<in> {0..<DIV_ROUND_UP (n - 251) 128}. (!) (?y j) ` {..<min (n - 251 - j * 128) 128})"
    if "251 < n"
  proof (intro set_eqI iffI)
    fix k assume "k \<in> data_sector v d ` {251..<n}"
    then obtain i where i: "251 \<le> i" "i < n" "k = data_sector v d i" by auto
    let ?j = "(i - 251) div 128" and ?q = "(i - 251) mod 128"
    have "?j * 128 + ?q = i - 251" by simp
    then have b: "?j * 128 + 251 < n" "?q < n - 251 - ?j * 128" using i by linarith+
    have "k = ?y ?j ! ?q" using i by (simp add: data_sector_def)
    moreover have "?j \<in> {0..<DIV_ROUND_UP (n - 251) 128}" using b(1) level [OF that] by simp
    moreover have "?q \<in> {..<min (n - 251 - ?j * 128) 128}" using b(2) by simp
    ultimately show "k \<in> (\<Union>j \<in> {0..<DIV_ROUND_UP (n - 251) 128}. (!) (?y j) ` {..<min (n - 251 - j * 128) 128})" by blast
  next
    fix k assume "k \<in> (\<Union>j \<in> {0..<DIV_ROUND_UP (n - 251) 128}. (!) (?y j) ` {..<min (n - 251 - j * 128) 128})"
    then obtain j q where j: "q < n - 251 - j * 128" "q < 128" "k = ?y j ! q" by auto
    let ?i = "j * 128 + q + 251"
    have "(?i - 251) div 128 = j" "(?i - 251) mod 128 = q" using j(2) by simp_all
    then have "k = data_sector v d ?i" using j(3) by (simp add: data_sector_def)
    moreover have "?i \<in> {251..<n}" using j(1) by simp
    ultimately show "k \<in> data_sector v d ` {251..<n}" by blast
  qed
  have meta: "meta_sectors v d n = (if 123 < n then {indirect_block d} else {}) \<union>
      (if 251 < n then insert (doubly_indirect_block d) ((!) ?w ` {0..<DIV_ROUND_UP (n - 251) 128}) else {})"
    using level by (auto simp: meta_sectors_def)
  have "{..<n} = {..<min n 123} \<union> {123..<min n 251} \<union> {251..<n}" by auto
  then have "data_sector v d ` {..<n} = data_sector v d ` {..<min n 123} \<union> data_sector v d ` {123..<min n 251} \<union> data_sector v d ` {251..<n}"
    by (simp only: image_Un)
  then have all: "sectors_of c d = (!) (direct_blocks d) ` {..<min n 123} \<union> (!) ?x ` {..<min (n - 123) 128} \<union>
      data_sector v d ` {251..<n} \<union> meta_sectors v d n"
    unfolding direct single sectors_of_def assms [symmetric] by simp
  show ?thesis
  proof (cases "251 < n")
    case True
    then show ?thesis unfolding all doubly [OF True] meta by auto
  next
    case False
    then have "{251..<n} = {}" by simp
    then show ?thesis unfolding all meta using False by auto
  qed
qed

section \<open>All sectors of a file\<close>

lemma direct_freed:
  assumes "fm_inv s" and "free_map_file s \<noteq> None" and "m \<le> length ws" and "releasable s ((!) ws ` {..<m})"
  shows "\<exists>t. dealloc_loop (\<lambda>e _. free_map_release fuel 1 e) 1 m 0 m ws s = Some t \<and> freed s ((!) ws ` {..<m}) t"
proof -
  have "\<exists>u. dealloc_loop (\<lambda>e _. free_map_release fuel 1 e) 1 m 0 m ws s = Some u \<and> freed s (\<Union>j \<in> {0..<0 + m}. {ws ! j}) u"
  proof (rule dealloc_loop_freed [OF assms(1)])
    fix j K t assume j: "0 \<le> j" "j < 0 + m" "freed s K t"
    have "releasable s {ws ! j}" using assms(4) by (rule releasable_mono) (use j in auto)
    then have "releasable t {ws ! j}" by (simp add: releasable_freed [OF j(3)])
    from release_freed [OF freedD(1) [OF j(3)] _ this, of fuel]
    show "\<exists>u. free_map_release fuel 1 (ws ! j) t = Some u \<and> freed t {ws ! j} u"
      using assms(2) by (simp add: freed_file [OF j(3)])
  qed (use assms(3) in simp)
  moreover have "(\<Union>j \<in> {0..<0 + m}. {ws ! j}) = (!) ws ` {..<m}" by auto
  ultimately show ?thesis by simp
qed

lemma inode_deallocate_freed:
  assumes inv: "fm_inv s" and f: "free_map_file s \<noteq> None" and F: "file_ok (bc s) d"
    and R: "releasable s (sectors_of (bc s) d)"
  shows "\<exists>t. inode_deallocate (free_map_release fuel 1) d s = Some (True, t) \<and> freed s (sectors_of (bc s) d) t"
proof -
  let ?R = "free_map_release fuel 1" and ?v = "cache_view (bc s)"
  define n where "n = blocks_of d"
  have n: "n \<le> MAX_BLOCKS" "length (direct_blocks d) = 123"
    using file_okD(3) [OF F] by (simp_all add: n_def layout_ok_def inode_disk_ok_def)
  let ?x = "indirect_of (?v (indirect_block d))" and ?w = "indirect_of (?v (doubly_indirect_block d))"
  let ?A = "(!) (direct_blocks d) ` {..<min n 123}"
  let ?B = "if 123 < n then insert (indirect_block d) ((!) ?x ` {..<min (n - 123) 128}) else {}"
  let ?D = "insert (doubly_indirect_block d) (\<Union>j \<in> {0..<DIV_ROUND_UP (n - 251) 128}.
       insert (?w ! j) ((!) (indirect_of (?v (?w ! j))) ` {..<min (n - 251 - j * 128) 128}))"
  have K: "sectors_of (bc s) d = ?A \<union> ?B \<union> (if 251 < n then ?D else {})"
    by (rule sectors_of_tree [OF n_def refl])
  have "releasable s ?A" using R by (rule releasable_mono) (use K in blast)
  from direct_freed [OF inv f _ this, of fuel] n(2) obtain t where
    t: "dealloc_loop (\<lambda>e _. ?R e) 1 (min n 123) 0 (min n 123) (direct_blocks d) s = Some t" "freed s ?A t" by auto
  have "\<exists>u. (if 0 < min (n - min n 123) 128 then inode_deallocate_indirect ?R 1 (indirect_block d) (min (n - min n 123) 128) t
      else Some t) = Some u \<and> freed t ?B u"
  proof (cases "123 < n")
    case True
    have B: "releasable s ?B" using R by (rule releasable_mono) (use K in blast)
    then have "releasable s {indirect_block d}" by (rule releasable_mono) (use True in simp)
    from freed_view(1) [OF t(2) this inv] have v: "cache_view (bc t) (indirect_block d) = ?v (indirect_block d)" .
    have "releasable t (insert (indirect_block d) ((!) ?x ` {..<min (n - 123) 128}))"
      using B True by (simp add: releasable_freed [OF t(2)])
    from indirect_freed [OF freedD(1) [OF t(2)] _ _ this [folded v], of fuel] show ?thesis
      using True f v by (simp add: freed_file [OF t(2)])
  qed (simp add: freed_refl [OF freedD(1) [OF t(2)]])
  then obtain u where u: "(if 0 < min (n - min n 123) 128 then inode_deallocate_indirect ?R 1 (indirect_block d) (min (n - min n 123) 128) t
      else Some t) = Some u" "freed t ?B u" by blast
  note su = freed_trans [OF t(2) u(2)]
  have rest: "min (n - min n 123 - min (n - min n 123) 128) (128 * 128) = n - 251" using n(1) by (auto simp: MAX_BLOCKS_def)
  have "\<exists>w. (if 0 < n - 251 then inode_deallocate_indirect ?R 2 (doubly_indirect_block d) (n - 251) u else Some u) = Some w \<and>
      freed u (if 251 < n then ?D else {}) w"
  proof (cases "251 < n")
    case True
    have D: "releasable s ?D" using R by (rule releasable_mono) (use K True in auto)
    have view: "cache_view (bc u) k = ?v k" if "k \<in> ?D" for k
    proof -
      have "releasable s {k}" using D by (rule releasable_mono) (use that in blast)
      from freed_view(1) [OF su this inv] show ?thesis .
    qed
    have dbl: "cache_view (bc u) (doubly_indirect_block d) = ?v (doubly_indirect_block d)" by (rule view) simp
    have node: "cache_view (bc u) (?w ! j) = ?v (?w ! j)" if "j < DIV_ROUND_UP (n - 251) 128" for j
      by (rule view) (use that in auto)
    have "?D = insert (doubly_indirect_block d) (\<Union>j \<in> {0..<DIV_ROUND_UP (n - 251) 128}.
       insert (indirect_of (cache_view (bc u) (doubly_indirect_block d)) ! j)
         ((!) (indirect_of (cache_view (bc u) (indirect_of (cache_view (bc u) (doubly_indirect_block d)) ! j))) ` {..<min (n - 251 - j * 128) 128}))"
      unfolding dbl using node by (intro arg_cong [where f = "insert _"] SUP_cong refl) simp
    from doubly_freed [OF freedD(1) [OF su] _ _ this, of fuel] show ?thesis
      using True f n(1) D by (simp add: freed_file [OF su] releasable_freed [OF su] MAX_BLOCKS_def)
  qed (simp add: freed_refl [OF freedD(1) [OF u(2)]])
  then obtain w where w: "(if 0 < n - 251 then inode_deallocate_indirect ?R 2 (doubly_indirect_block d) (n - 251) u else Some u) = Some w"
      "freed u (if 251 < n then ?D else {}) w" by blast
  have "freed s (sectors_of (bc s) d) w" unfolding K by (rule freed_trans [OF su w(2)])
  moreover have "inode_deallocate ?R d s = Some (True, w)"
    unfolding inode_deallocate_def bytes_to_sectors_file [OF F] n_def [symmetric] Let_def Option.bind.simps
      t(1) u(1) rest w(1) using file_okD(1) [OF F] by simp
  ultimately show ?thesis by blast
qed

section \<open>Closing a removed inode\<close>

text \<open>
  C13: Removing a file gives back exactly its sectors: when the last opener of a removed inode closes it,
  the sector of the inode, the data blocks and the indirect blocks of both levels become free, and no other
  sector does; the free map in memory agrees with its file, nothing but that file has been written, so
  other files keep their contents, and the inode is no longer open.
\<close>

theorem removed_file_frees_its_sectors:
  assumes "fm_inv s" and "free_map_file s = Some f" and "\<forall>fl. files s f = Some fl \<longrightarrow> file_inode fl \<noteq> i"
    and "inodes s i = Some n" and "i_removed n" and "open_cnt n = 1" and "file_ok (bc s) (i_data n)"
    and "insert (i_sector n) (sectors_of (bc s) (i_data n)) \<subseteq> of_nat ` {0<..<bit_cnt (free_map s)} - fm_own s"
  shows "\<exists>s'. inode_close (free_map_release fuel 1) (Some i) s = Some s' \<and> fm_inv s' \<and>
    fm_used s' = fm_used s - insert (i_sector n) (sectors_of (bc s) (i_data n)) \<and>
    (\<forall>d. map_data s' = Some d \<longrightarrow> take (byte_cnt (bit_cnt (free_map s'))) (content (cache_view (bc s')) d) = bitmap_bytes (free_map s')) \<and>
    within (fm_own s) (bc s) (bc s') \<and> inodes s' = (inodes s)(i := None) \<and> open_inodes s' = remove1 i (open_inodes s) \<and>
    (\<forall>d. file_ok (bc s) d \<and> sectors_of (bc s) d \<inter> fm_own s = {} \<longrightarrow> content (cache_view (bc s')) d = content (cache_view (bc s)) d)"
proof -
  let ?S = "sectors_of (bc s) (i_data n)"
  define t where "t = s\<lparr>inodes := (inodes s)(i \<mapsto> n\<lparr>open_cnt := 0\<rparr>), open_inodes := remove1 i (open_inodes s)\<rparr>"
  have md: "map_data (s\<lparr>inodes := (inodes s)(i := y), open_inodes := L\<rparr>) = map_data s" for y L
    using assms(2,3) by (auto simp: map_data_def split: bind_splits)
  then have "map_data t = map_data s" by (simp add: t_def)
  then have inv: "fm_inv t" and own: "fm_own t = fm_own s" and ff: "free_map_file t \<noteq> None" and used: "fm_used t = fm_used s"
    using assms(1,2) by (simp_all add: fm_inv_def fm_own_def fm_used_def t_def cong: option.case_cong)
  have R: "releasable t (insert (i_sector n) ?S)" using assms(8) own by (simp add: releasable_def t_def)
  then have "releasable t {i_sector n}" by (rule releasable_mono) simp
  from release_freed [OF inv ff this, of fuel] obtain u where
    u: "free_map_release fuel 1 (i_sector n) t = Some u" "freed t {i_sector n} u" by blast
  have "fm_own t \<inter> ?S = {}" using assms(8) own by blast
  moreover have "bc t = bc s" by (simp add: t_def)
  ultimately have F: "file_ok (bc u) (i_data n)" "sectors_of (bc u) (i_data n) = ?S"
    using file_within(1,3) [of "bc t" "i_data n" "fm_own t" "bc u"] freedD(3) [OF u(2)] assms(7) by simp_all
  have "releasable t ?S" using R by (rule releasable_mono) blast
  then have "releasable u (sectors_of (bc u) (i_data n))" by (simp add: F(2) releasable_freed [OF u(2)])
  from inode_deallocate_freed [OF freedD(1) [OF u(2)] _ F(1) this, of fuel] obtain w where
    w: "inode_deallocate (free_map_release fuel 1) (i_data n) u = Some (True, w)" "freed u ?S w"
    using ff by (auto simp: F(2) freed_file [OF u(2)])
  from freed_trans [OF u(2) w(2)] have tw: "freed t (insert (i_sector n) ?S) w" by simp
  note T = freedD [OF tw]
  let ?s' = "w\<lparr>inodes := (inodes w)(i := None)\<rparr>"
  have w_eq: "inodes w = (inodes s)(i \<mapsto> n\<lparr>open_cnt := 0\<rparr>)" "open_inodes w = remove1 i (open_inodes s)"
    "files w = files s" "free_map_file w = free_map_file s"
    by (subst T(7), simp add: t_def)+
  have close: "inode_close (free_map_release fuel 1) (Some i) s = Some ?s'"
    using assms(4-6) u(1) w(1) by (simp add: inode_close_def Let_def t_def)
  have mw: "map_data ?s' = map_data w" using assms(2,3) w_eq by (auto simp: map_data_def split: bind_splits)
  then have "fm_inv ?s'" "fm_used ?s' = fm_used w" using T(1) by (simp_all add: fm_inv_def fm_used_def)
  moreover have "map_saved w" using T(6) by simp
  then have "\<forall>d. map_data ?s' = Some d \<longrightarrow> take (byte_cnt (bit_cnt (free_map ?s'))) (content (cache_view (bc ?s')) d) = bitmap_bytes (free_map ?s')"
    using mw by (simp add: map_saved_def)
  moreover have W: "within (fm_own s) (bc s) (bc ?s')" using T(3) own by (simp add: t_def)
  moreover have "\<forall>d. file_ok (bc s) d \<and> sectors_of (bc s) d \<inter> fm_own s = {} \<longrightarrow>
      content (cache_view (bc ?s')) d = content (cache_view (bc s)) d"
    using file_within(2) [OF _ W] by blast
  ultimately show ?thesis using close w_eq T(4) used by (intro exI [of _ ?s']) simp
qed

text \<open>The file of the example, removed; then its last opener closes it.\<close>

theorem removed_file_frees_its_sectors_witness:
  "\<exists>s'. inode_close (free_map_release 1 1) (Some 4) (example_fs\<lparr>inodes := (inodes example_fs)(4 \<mapsto>
       \<lparr>i_sector = 3, open_cnt = 1, i_removed = True, deny_write_cnt = 0, i_data = one_block 4 20\<rparr>)\<rparr>) = Some s' \<and>
     fm_used s' = {0, 1, 2} \<and> inodes s' 4 = None"
proof -
  let ?n = "\<lparr>i_sector = 3, open_cnt = 1, i_removed = True, deny_write_cnt = 0, i_data = one_block 4 20\<rparr>"
  let ?s = "example_fs\<lparr>inodes := (inodes example_fs)(4 \<mapsto> ?n)\<rparr>"
  have md: "map_data ?s = map_data example_fs" by (simp add: map_data_def)
  then have inv: "fm_inv ?s" and own: "fm_own ?s = {2}"
    using example_fs_inv example_files_ok(2) by (simp_all add: fm_inv_def fm_own_def fm_used_def cong: option.case_cong)
  have "{i. i < 8 \<and> [True, True, True, True, True, False, False, False] ! i} = {0, 1, 2, 3, 4}"
    by (auto simp: less_Suc_eq numeral_eq_Suc)
  then have used: "fm_used ?s = {0, 1, 2, 3, 4}" by (simp add: fm_used_def example_bits)
  have "(3 :: u32) = of_nat 3" "(4 :: u32) = of_nat 4" by simp_all
  then have "insert (i_sector ?n) (sectors_of (bc ?s) (i_data ?n)) \<subseteq> of_nat ` {0<..<bit_cnt (free_map ?s)} - fm_own ?s"
    using own example_files_ok(4) by (auto simp: image_iff Bex_def intro: exI [of _ 3] exI [of _ 4])
  from removed_file_frees_its_sectors [OF inv _ _ _ _ _ _ this, of 0 4 1] obtain s' where
    "inode_close (free_map_release 1 1) (Some 4) ?s = Some s'" "fm_used s' = {0, 1, 2, 3, 4} - {3, 4}" "inodes s' 4 = None"
    using example_files_ok(3,4) used by auto
  moreover have "{0, 1, 2, 3, 4} - {3, 4} = {0, 1, 2 :: u32}" by auto
  ultimately show ?thesis by auto
qed

end
