(* ===== verification/Outcome.thy ===== *)
theory Outcome
  imports Codec
begin

text \<open>
  How a run of the shells ends: with a result, by \<open>exit\<close>, in undefined behaviour, or not within
  the fuel that bounds loops and the nesting of scripts. Also the functions of the C library that
  the shells use.
\<close>

section \<open>Outcomes\<close>

datatype 'a outcome = Returns 'a | Exits int | Undefined | Unfinished

primrec and_then :: "'a outcome \<Rightarrow> ('a \<Rightarrow> 'b outcome) \<Rightarrow> 'b outcome" where
  "and_then (Returns x) f = f x"
| "and_then (Exits code) f = Exits code"
| "and_then Undefined f = Undefined"
| "and_then Unfinished f = Unfinished"

definition defined :: "'a option \<Rightarrow> 'a outcome" where
  "defined r = (case r of None \<Rightarrow> Undefined | Some x \<Rightarrow> Returns x)"

lemma defined_simps [simp]: "defined None = Undefined" "defined (Some x) = Returns x"
  by (simp_all add: defined_def)

lemma defined_eq_Returns [simp]: "defined r = Returns x \<longleftrightarrow> r = Some x"
  by (cases r) simp_all

lemma and_then_eq_Returns:
  "and_then r f = Returns y \<longleftrightarrow> (\<exists>x. r = Returns x \<and> f x = Returns y)"
  by (cases r) auto

section \<open>Characters and numbers\<close>

definition is_digit :: "char \<Rightarrow> bool" where
  "is_digit c \<longleftrightarrow> 48 \<le> (of_char c :: nat) \<and> (of_char c :: nat) \<le> 57"

text \<open>\<open>isalnum\<close> in the C locale.\<close>

definition isalnum :: "char \<Rightarrow> bool" where
  "isalnum c \<longleftrightarrow> is_digit c \<or> 65 \<le> (of_char c :: nat) \<and> (of_char c :: nat) \<le> 90 \<or>
     97 \<le> (of_char c :: nat) \<and> (of_char c :: nat) \<le> 122"

definition isspace :: "char \<Rightarrow> bool" where
  "isspace c \<longleftrightarrow> (of_char c :: nat) = 32 \<or> 9 \<le> (of_char c :: nat) \<and> (of_char c :: nat) \<le> 13"

definition digits_value :: "string \<Rightarrow> int" where
  "digits_value s = foldl (\<lambda>n c. 10 * n + (int (of_char c) - 48)) 0 (takeWhile is_digit s)"

text \<open>\<open>atoi\<close>; a number that does not fit an \<open>int\<close> is undefined behaviour.\<close>

definition atoi :: "string \<Rightarrow> int option" where
  "atoi s =
     (let s = dropWhile isspace s;
          n = (if take 1 s = ''-'' then - digits_value (drop 1 s)
               else digits_value (if take 1 s = ''+'' then drop 1 s else s))
      in if - (2 ^ 31) \<le> n \<and> n < 2 ^ 31 then Some n else None)"

text \<open>An \<open>int\<close> as \<open>printf\<close> prints it with \<^verbatim>\<open>%d\<close>.\<close>

definition decimal_int :: "int \<Rightarrow> string" where
  "decimal_int n = (if n < 0 then ''-'' @ decimal (nat (- n)) else decimal (nat n))"

section \<open>Lines and strings\<close>

abbreviation newline :: char where
  "newline \<equiv> CHR 0x0A"

text \<open>The contents of a character array as a string: up to its first null character.\<close>

definition c_str :: "string \<Rightarrow> string" where
  "c_str s = takeWhile (\<lambda>c. c \<noteq> CHR 0x00) s"

text \<open>
  \<open>fgets\<close> with room for \<open>n\<close> characters beside the terminating null: the line, with its newline,
  and what is left of the file. At the end of the file the line is empty, and \<open>fgets\<close> returns
  a null pointer.
\<close>

fun fgets :: "nat \<Rightarrow> string \<Rightarrow> string \<times> string" where
  "fgets 0 s = ([], s)"
| "fgets (Suc n) [] = ([], [])"
| "fgets (Suc n) (c # cs) = (if c = newline then ([c], cs) else let (l, r) = fgets n cs in (c # l, r))"

lemma fgets_append: "fgets n s = (l, r) \<Longrightarrow> l @ r = s"
  by (induction n s arbitrary: l r rule: fgets.induct) (auto split: if_splits prod.splits)

lemma fgets_line:
  "newline \<notin> set l \<Longrightarrow> length l < n \<Longrightarrow> fgets n (l @ newline # r) = (l @ [newline], r)"
  "newline \<notin> set l \<Longrightarrow> length l < n \<Longrightarrow> fgets n l = (l, [])"
  by (induction n l rule: fgets.induct) auto

text \<open>The line, the rest of the file, and \<open>feof\<close> afterwards: the read met the end of the file.\<close>

definition read_line :: "nat \<Rightarrow> string \<Rightarrow> string \<times> string \<times> bool" where
  "read_line n fp = (let (l, r) = fgets n fp in (l, r, length l < n \<and> (l = [] \<or> List.last l \<noteq> newline)))"

text \<open>\<open>s[strcspn(s, "\r\n")] = 0\<close>\<close>

definition strip :: "string \<Rightarrow> string" where
  "strip s = takeWhile (\<lambda>c. c \<noteq> CHR 0x0D \<and> c \<noteq> newline) s"

end
