(* ===== verification/Linked_List.thy ===== *)
theory Linked_List
  imports Outcome
begin

text \<open>
  The linked lists of the kernel (\<^verbatim>\<open>src/a3/linked_list.c\<close>): nodes in a heap, between two dummy
  nodes. What a list holds, a reference of type \<open>'d\<close>, is the \<open>void *\<close> of the code. The
  refinement below shows that the operations are those of a sequence; the kernel is modelled
  with such sequences.
\<close>

section \<open>The heap and the list\<close>

text \<open>The fields of fresh memory are \<open>None\<close>: reading them as data is undefined.\<close>

record 'd node =
  node_data :: "'d option"
  node_next :: "nat option"
  node_prev :: "nat option"

record 'd heap =
  nodes :: "nat \<Rightarrow> 'd node option"
  new_node :: nat

record 'd linked_list =
  ll_size :: int
  dummy_head :: nat
  dummy_tail :: nat
  equal_fn :: "'d \<Rightarrow> 'd \<Rightarrow> bool"

definition malloc_node :: "'d heap \<Rightarrow> nat \<times> 'd heap" where
  "malloc_node h = (new_node h, h\<lparr>nodes := (nodes h)(new_node h \<mapsto> \<lparr>node_data = None, node_next = None, node_prev = None\<rparr>),
     new_node := Suc (new_node h)\<rparr>)"

text \<open>Access to the fields of a node through a pointer.\<close>

definition get_next :: "nat \<Rightarrow> 'd heap \<Rightarrow> nat option" where
  "get_next p h = Option.bind (nodes h p) node_next"

definition get_prev :: "nat \<Rightarrow> 'd heap \<Rightarrow> nat option" where
  "get_prev p h = Option.bind (nodes h p) node_prev"

definition get_data :: "nat \<Rightarrow> 'd heap \<Rightarrow> 'd option" where
  "get_data p h = Option.bind (nodes h p) node_data"

definition set_next :: "nat \<Rightarrow> nat \<Rightarrow> 'd heap \<Rightarrow> 'd heap option" where
  "set_next p q h = map_option (\<lambda>n. h\<lparr>nodes := (nodes h)(p \<mapsto> n\<lparr>node_next := Some q\<rparr>)\<rparr>) (nodes h p)"

definition set_prev :: "nat \<Rightarrow> nat \<Rightarrow> 'd heap \<Rightarrow> 'd heap option" where
  "set_prev p q h = map_option (\<lambda>n. h\<lparr>nodes := (nodes h)(p \<mapsto> n\<lparr>node_prev := Some q\<rparr>)\<rparr>) (nodes h p)"

definition set_data :: "nat \<Rightarrow> 'd \<Rightarrow> 'd heap \<Rightarrow> 'd heap option" where
  "set_data p d h = map_option (\<lambda>n. h\<lparr>nodes := (nodes h)(p \<mapsto> n\<lparr>node_data := Some d\<rparr>)\<rparr>) (nodes h p)"

section \<open>Operations\<close>

definition has_next :: "nat \<Rightarrow> 'd heap \<Rightarrow> bool option" where
  "has_next p h = map_option (\<lambda>n. node_next n \<noteq> None) (nodes h p)"

text \<open>The node, and where the pointer points afterwards.\<close>

definition next_node :: "nat \<Rightarrow> 'd heap \<Rightarrow> (nat \<times> nat option) option" where
  "next_node p h = map_option (\<lambda>n. (p, node_next n)) (nodes h p)"

definition next_data :: "nat \<Rightarrow> 'd heap \<Rightarrow> ('d \<times> nat option) option" where
  "next_data p h = do { (ret, q) \<leftarrow> next_node p h; d \<leftarrow> get_data ret h; Some (d, q) }"

definition list_clear :: "'d linked_list \<Rightarrow> 'd heap \<Rightarrow> ('d linked_list \<times> 'd heap) option" where
  "list_clear l h =
     do { h \<leftarrow> set_next (dummy_head l) (dummy_tail l) h;
          h \<leftarrow> set_prev (dummy_tail l) (dummy_head l) h;
          Some (l\<lparr>ll_size := 0\<rparr>, h) }"

definition add_tail :: "'d \<Rightarrow> 'd linked_list \<Rightarrow> 'd heap \<Rightarrow> ('d linked_list \<times> 'd heap) option" where
  "add_tail d l h =
     do { let (new, h) = malloc_node h;
          old_tail \<leftarrow> get_prev (dummy_tail l) h;
          h \<leftarrow> set_data new d h;
          h \<leftarrow> set_next old_tail new h;
          h \<leftarrow> set_prev new old_tail h;
          h \<leftarrow> set_next new (dummy_tail l) h;
          h \<leftarrow> set_prev (dummy_tail l) new h;
          Some (l\<lparr>ll_size := ll_size l + 1\<rparr>, h) }"

definition add_head :: "'d \<Rightarrow> 'd linked_list \<Rightarrow> 'd heap \<Rightarrow> ('d linked_list \<times> 'd heap) option" where
  "add_head d l h =
     do { let (new, h) = malloc_node h;
          old_head \<leftarrow> get_next (dummy_head l) h;
          h \<leftarrow> set_data new d h;
          h \<leftarrow> set_prev old_head new h;
          h \<leftarrow> set_next new old_head h;
          h \<leftarrow> set_prev new (dummy_head l) h;
          h \<leftarrow> set_next (dummy_head l) new h;
          Some (l\<lparr>ll_size := ll_size l + 1\<rparr>, h) }"

text \<open>The removal that \<open>pop_head\<close>, \<open>pop_tail\<close> and \<open>remove_elem\<close> share.\<close>

definition unlink :: "nat \<Rightarrow> 'd linked_list \<Rightarrow> 'd heap \<Rightarrow> ('d \<times> 'd linked_list \<times> 'd heap) option" where
  "unlink p l h =
     do { a \<leftarrow> get_prev p h;
          b \<leftarrow> get_next p h;
          h \<leftarrow> set_next a b h;
          b \<leftarrow> get_next p h;
          a \<leftarrow> get_prev p h;
          h \<leftarrow> set_prev b a h;
          d \<leftarrow> get_data p h;
          Some (d, l\<lparr>ll_size := ll_size l - 1\<rparr>, h) }"

definition pop_head :: "'d linked_list \<Rightarrow> 'd heap \<Rightarrow> ('d \<times> 'd linked_list \<times> 'd heap) outcome" where
  "pop_head l h =
     (if ll_size l \<le> 0 then Exits 99
      else defined (do { p \<leftarrow> get_next (dummy_head l) h; unlink p l h }))"

definition pop_tail :: "'d linked_list \<Rightarrow> 'd heap \<Rightarrow> ('d \<times> 'd linked_list \<times> 'd heap) outcome" where
  "pop_tail l h =
     (if ll_size l \<le> 0 then Exits 99
      else defined (do { p \<leftarrow> get_prev (dummy_tail l) h; unlink p l h }))"

text \<open>\<open>walk n p\<close>: \<open>n\<close> times \<open>p = p->next\<close>.\<close>

primrec walk_next :: "nat \<Rightarrow> nat \<Rightarrow> 'd heap \<Rightarrow> nat option" where
  "walk_next 0 p h = Some p"
| "walk_next (Suc n) p h = do { q \<leftarrow> get_next p h; walk_next n q h }"

definition get_node_by_index :: "'d linked_list \<Rightarrow> int \<Rightarrow> 'd heap \<Rightarrow> nat option option" where
  "get_node_by_index l index h =
     (if ll_size l \<le> index \<or> index < 0 then Some None
      else do { p \<leftarrow> get_next (dummy_head l) h; map_option Some (walk_next (nat index) p h) })"

text \<open>
  The search compares the data of each node, and goes on through the dummy tail, whose data is not
  initialised. \<open>None\<close> also stands for a search in a circle.
\<close>

partial_function (option) search_node :: "'d linked_list \<Rightarrow> 'd \<Rightarrow> nat option \<Rightarrow> 'd heap \<Rightarrow> nat option option" where
  "search_node l target p h =
     (case p of
        None \<Rightarrow> Some None
      | Some q \<Rightarrow> do {
          n \<leftarrow> nodes h q;
          d \<leftarrow> node_data n;
          if equal_fn l target d then Some (Some q) else search_node l target (node_next n) h })"

definition get_node_by_value :: "'d linked_list \<Rightarrow> 'd \<Rightarrow> 'd heap \<Rightarrow> nat option option" where
  "get_node_by_value l target h = do { n \<leftarrow> nodes h (dummy_head l); search_node l target (node_next n) h }"

definition get_by_index :: "'d linked_list \<Rightarrow> int \<Rightarrow> 'd heap \<Rightarrow> 'd option" where
  "get_by_index l index h = do { r \<leftarrow> get_node_by_index l index h; p \<leftarrow> r; get_data p h }"

definition get_by_value :: "'d linked_list \<Rightarrow> 'd \<Rightarrow> 'd heap \<Rightarrow> 'd option" where
  "get_by_value l target h = do { r \<leftarrow> get_node_by_value l target h; p \<leftarrow> r; get_data p h }"

definition remove_elem :: "'d \<Rightarrow> 'd linked_list \<Rightarrow> 'd heap \<Rightarrow> ('d \<times> 'd linked_list \<times> 'd heap) option" where
  "remove_elem target l h = do { r \<leftarrow> get_node_by_value l target h; p \<leftarrow> r; unlink p l h }"

definition swap_nodes :: "nat \<Rightarrow> nat \<Rightarrow> 'd heap \<Rightarrow> 'd heap option" where
  "swap_nodes p q h =
     do { tmp \<leftarrow> get_data p h;
          d \<leftarrow> get_data q h;
          h \<leftarrow> set_data p d h;
          set_data q tmp h }"

definition list_init :: "('d \<Rightarrow> 'd \<Rightarrow> bool) \<Rightarrow> 'd heap \<Rightarrow> ('d linked_list \<times> 'd heap) option" where
  "list_init equal h =
     do { let (hd', h) = malloc_node h;
          let (tl', h) = malloc_node h;
          h \<leftarrow> set_next hd' tl' h;
          h \<leftarrow> set_prev tl' hd' h;
          Some (\<lparr>ll_size = 0, dummy_head = hd', dummy_tail = tl', equal_fn = equal\<rparr>, h) }"

section \<open>The sequence a list represents\<close>

definition joined :: "'d heap \<Rightarrow> nat \<Rightarrow> nat \<Rightarrow> bool" where
  "joined h p q \<longleftrightarrow> get_next p h = Some q \<and> get_prev q h = Some p"

definition rep_nodes :: "'d linked_list \<Rightarrow> 'd heap \<Rightarrow> nat list \<Rightarrow> bool" where
  "rep_nodes l h ps \<longleftrightarrow>
     (let all = dummy_head l # ps @ [dummy_tail l]
      in successively (joined h) all \<and> distinct all \<and> (\<forall>p \<in> set all. p < new_node h \<and> nodes h p \<noteq> None) \<and>
         get_next (dummy_tail l) h = None \<and> get_data (dummy_tail l) h = None)"

definition represents :: "'d linked_list \<times> 'd heap \<Rightarrow> 'd list \<Rightarrow> bool" where
  "represents lh xs \<longleftrightarrow>
     (case lh of (l, h) \<Rightarrow> ll_size l = int (length xs) \<and>
       (\<exists>ps. rep_nodes l h ps \<and> map (\<lambda>p. get_data p h) ps = map Some xs))"

text \<open>A heap with a new node between two others, and one without a node.\<close>

definition inserted :: "'d heap \<Rightarrow> nat \<Rightarrow> nat \<Rightarrow> 'd \<Rightarrow> 'd heap \<Rightarrow> bool" where
  "inserted h a b d h' \<longleftrightarrow> (let c = new_node h in
     (\<forall>p. get_next p h' = (if p = a then Some c else if p = c then Some b else get_next p h)) \<and>
     (\<forall>p. get_prev p h' = (if p = b then Some c else if p = c then Some a else get_prev p h)) \<and>
     (\<forall>p. get_data p h' = (if p = c then Some d else get_data p h)) \<and>
     (\<forall>p. nodes h' p \<noteq> None \<longleftrightarrow> p = c \<or> nodes h p \<noteq> None) \<and> new_node h' = Suc c)"

definition removed :: "'d heap \<Rightarrow> nat \<Rightarrow> nat \<Rightarrow> 'd heap \<Rightarrow> bool" where
  "removed h a b h' \<longleftrightarrow>
     (\<forall>p. get_next p h' = (if p = a then Some b else get_next p h)) \<and>
     (\<forall>p. get_prev p h' = (if p = b then Some a else get_prev p h)) \<and>
     (\<forall>p. get_data p h' = get_data p h) \<and>
     (\<forall>p. nodes h' p \<noteq> None \<longleftrightarrow> nodes h p \<noteq> None) \<and> new_node h' = new_node h"

lemmas node_defs = malloc_node_def get_next_def get_prev_def get_data_def set_next_def set_prev_def set_data_def

lemma add_tail_inserted:
  assumes "get_prev (dummy_tail l) h = Some a" and "nodes h a \<noteq> None" and "a < new_node h" and "dummy_tail l < new_node h"
    and "a \<noteq> dummy_tail l"
  shows "\<exists>h'. add_tail d l h = Some (l\<lparr>ll_size := ll_size l + 1\<rparr>, h') \<and> inserted h a (dummy_tail l) d h'"
proof -
  obtain na nt where "nodes h a = Some na" "nodes h (dummy_tail l) = Some nt" "node_prev nt = Some a"
    using assms(1,2) by (auto simp: get_prev_def bind_eq_Some_conv)
  moreover have "new_node h \<noteq> a" "new_node h \<noteq> dummy_tail l" using assms(3,4) by simp_all
  ultimately show ?thesis using assms(5) by (simp add: add_tail_def node_defs inserted_def Let_def)
qed

lemma add_head_inserted:
  assumes "get_next (dummy_head l) h = Some b" and "nodes h b \<noteq> None" and "b < new_node h" and "dummy_head l < new_node h"
    and "b \<noteq> dummy_head l"
  shows "\<exists>h'. add_head d l h = Some (l\<lparr>ll_size := ll_size l + 1\<rparr>, h') \<and> inserted h (dummy_head l) b d h'"
proof -
  obtain nb nh where "nodes h b = Some nb" "nodes h (dummy_head l) = Some nh" "node_next nh = Some b"
    using assms(1,2) by (auto simp: get_next_def bind_eq_Some_conv)
  moreover have "new_node h \<noteq> b" "new_node h \<noteq> dummy_head l" using assms(3,4) by simp_all
  ultimately show ?thesis using assms(5) by (simp add: add_head_def node_defs inserted_def Let_def)
qed

lemma unlink_removed:
  assumes "joined h a p" and "joined h p b" and "distinct [a, p, b]" and "get_data p h = Some d"
    and "nodes h a \<noteq> None" and "nodes h b \<noteq> None"
  shows "\<exists>h'. unlink p l h = Some (d, l\<lparr>ll_size := ll_size l - 1\<rparr>, h') \<and> removed h a b h'"
proof -
  obtain na np nb where "nodes h a = Some na" "nodes h p = Some np" "nodes h b = Some nb"
    "node_prev np = Some a" "node_next np = Some b" "node_data np = Some d"
    using assms by (auto simp: joined_def get_next_def get_prev_def get_data_def bind_eq_Some_conv)
  with assms(3) show ?thesis by (simp add: unlink_def node_defs removed_def)
qed

lemma rep_nodes_size [simp]: "rep_nodes (l\<lparr>ll_size := k\<rparr>) h ps = rep_nodes l h ps"
  by (simp add: rep_nodes_def)

lemma joinedD: "joined h p q \<Longrightarrow> get_next p h = Some q" "joined h p q \<Longrightarrow> get_prev q h = Some p"
  by (simp_all add: joined_def)

text \<open>A list of nodes around a position: the neighbours, and what surrounds them.\<close>

lemma split_at_position:
  obtains us' vs' where "x # us = us' @ [List.last (x # us)]" and "vs @ [y] = List.hd (vs @ [y]) # vs'"
  using append_butlast_last_id [of "x # us"] by (cases vs) (metis list.distinct(1) append_Cons append_Nil list.sel(1))+

lemma successively_split:
  "successively P (us @ a # b # vs) \<longleftrightarrow> successively P (us @ [a]) \<and> P a b \<and> successively P (b # vs)"
  by (induction us rule: induct_list012) auto

lemma inserted_joined:
  assumes "successively (joined h) (us @ a # b # vs)" and "distinct (us @ a # b # vs)" and "inserted h a b d h'"
    and "\<forall>p \<in> set (us @ a # b # vs). p < new_node h"
  shows "successively (joined h') (us @ a # new_node h # b # vs)"
proof -
  let ?c = "new_node h"
  have ab: "joined h a b" and parts: "successively (joined h) (us @ [a])" "successively (joined h) (b # vs)"
    using assms(1) by (simp_all add: successively_split)
  have c: "p \<noteq> ?c" if "p \<in> set (us @ a # b # vs)" for p using assms(4) that by blast
  have I: "get_next p h' = (if p = a then Some ?c else if p = ?c then Some b else get_next p h)"
    "get_prev p h' = (if p = b then Some ?c else if p = ?c then Some a else get_prev p h)" for p
    using assms(3) by (simp_all add: inserted_def Let_def)
  have "successively (joined h') (us @ [a])"
    using parts(1)
  proof (rule successively_mono)
    fix x y assume xy: "x \<in> set (us @ [a])" "y \<in> set (us @ [a])" "joined h x y"
    then have "x \<noteq> a" using ab assms(2) by (auto dest!: joinedD(1))
    moreover have "y \<noteq> b" using xy(2) assms(2) by auto
    ultimately show "joined h' x y" using xy c by (auto simp: joined_def I)
  qed
  moreover have "successively (joined h') (b # vs)"
    using parts(2)
  proof (rule successively_mono)
    fix x y assume xy: "x \<in> set (b # vs)" "y \<in> set (b # vs)" "joined h x y"
    then have "y \<noteq> b" using ab assms(2) by (auto dest!: joinedD(2))
    moreover have "x \<noteq> a" using xy(1) assms(2) by auto
    ultimately show "joined h' x y" using xy c by (auto simp: joined_def I)
  qed
  moreover have "joined h' a ?c" "joined h' ?c b"
    using c [of a] c [of b] assms(2) by (auto simp: joined_def I)
  ultimately show ?thesis by (simp add: successively_split)
qed

lemma removed_joined:
  assumes "successively (joined h) (us @ a # p # b # vs)" and "distinct (us @ a # p # b # vs)" and "removed h a b h'"
  shows "successively (joined h') (us @ a # b # vs)"
proof -
  have ap: "joined h a p" and pb: "joined h p b"
    and parts: "successively (joined h) (us @ [a])" "successively (joined h) (b # vs)"
    using assms(1) successively_split [of _ us a p "b # vs"] by simp_all
  have R: "get_next x h' = (if x = a then Some b else get_next x h)"
    "get_prev x h' = (if x = b then Some a else get_prev x h)" for x
    using assms(3) by (simp_all add: removed_def)
  have "successively (joined h') (us @ [a])"
    using parts(1)
  proof (rule successively_mono)
    fix x y assume xy: "x \<in> set (us @ [a])" "y \<in> set (us @ [a])" "joined h x y"
    then have "x \<noteq> a" using ap assms(2) by (auto dest!: joinedD(1))
    moreover have "y \<noteq> b" using xy(2) assms(2) by auto
    ultimately show "joined h' x y" using xy by (auto simp: joined_def R)
  qed
  moreover have "successively (joined h') (b # vs)"
    using parts(2)
  proof (rule successively_mono)
    fix x y assume xy: "x \<in> set (b # vs)" "y \<in> set (b # vs)" "joined h x y"
    then have "y \<noteq> b" using pb assms(2) by (auto dest!: joinedD(2))
    moreover have "x \<noteq> a" using xy(1) assms(2) by auto
    ultimately show "joined h' x y" using xy by (auto simp: joined_def R)
  qed
  moreover have "joined h' a b" by (simp add: joined_def R)
  ultimately show ?thesis by (simp add: successively_split)
qed

lemma rep_nodes_insert:
  assumes R: "rep_nodes l h (us @ vs)"
    and I: "inserted h (List.last (dummy_head l # us)) (List.hd (vs @ [dummy_tail l])) d h'"
  shows "rep_nodes l h' (us @ new_node h # vs)"
proof -
  obtain us' vs' where s: "dummy_head l # us = us' @ [List.last (dummy_head l # us)]"
    "vs @ [dummy_tail l] = List.hd (vs @ [dummy_tail l]) # vs'"
    by (rule split_at_position)
  let ?a = "List.last (dummy_head l # us)" and ?b = "List.hd (vs @ [dummy_tail l])"
  have all: "dummy_head l # (us @ vs) @ [dummy_tail l] = us' @ ?a # ?b # vs'"
    using s by (metis append.assoc append_Cons append_Nil)
  have all': "dummy_head l # (us @ new_node h # vs) @ [dummy_tail l] = us' @ ?a # new_node h # ?b # vs'"
    using s by (metis append.assoc append_Cons append_Nil)
  have r: "successively (joined h) (us' @ ?a # ?b # vs')" "distinct (us' @ ?a # ?b # vs')"
    "\<forall>p \<in> set (us' @ ?a # ?b # vs'). p < new_node h \<and> nodes h p \<noteq> None"
    "get_next (dummy_tail l) h = None" "get_data (dummy_tail l) h = None"
    using R unfolding rep_nodes_def Let_def all by auto
  have "dummy_tail l \<in> set (us' @ ?a # ?b # vs')" unfolding all [symmetric] by simp
  then have t: "dummy_tail l \<noteq> new_node h" using r(3) by auto
  have "dummy_tail l \<noteq> ?a" using r(1,4) by (auto simp: successively_split dest!: joinedD(1))
  then have "get_next (dummy_tail l) h' = None" "get_data (dummy_tail l) h' = None"
    using I t r(4,5) by (simp_all add: inserted_def Let_def)
  moreover have "successively (joined h') (us' @ ?a # new_node h # ?b # vs')"
    by (rule inserted_joined [OF r(1,2) I]) (use r(3) in blast)
  moreover have "distinct (us' @ ?a # new_node h # ?b # vs')" using r(2,3) by auto
  moreover have "\<forall>p \<in> set (us' @ ?a # new_node h # ?b # vs'). p < new_node h' \<and> nodes h' p \<noteq> None"
    using r(3) I by (auto simp: inserted_def Let_def less_Suc_eq)
  ultimately show ?thesis unfolding rep_nodes_def Let_def all' by blast
qed

lemma unlink_represents:
  assumes R: "rep_nodes l h (us @ p # vs)" and d: "get_data p h = Some d"
  shows "\<exists>h'. unlink p l h = Some (d, l\<lparr>ll_size := ll_size l - 1\<rparr>, h') \<and> rep_nodes l h' (us @ vs) \<and>
    (\<forall>q. get_data q h' = get_data q h)"
proof -
  obtain us' vs' where s: "dummy_head l # us = us' @ [List.last (dummy_head l # us)]"
    "vs @ [dummy_tail l] = List.hd (vs @ [dummy_tail l]) # vs'"
    by (rule split_at_position)
  let ?a = "List.last (dummy_head l # us)" and ?b = "List.hd (vs @ [dummy_tail l])"
  have all: "dummy_head l # (us @ p # vs) @ [dummy_tail l] = us' @ ?a # p # ?b # vs'"
    using s by (metis append.assoc append_Cons append_Nil)
  have all': "dummy_head l # (us @ vs) @ [dummy_tail l] = us' @ ?a # ?b # vs'"
    using s by (metis append.assoc append_Cons append_Nil)
  have r: "successively (joined h) (us' @ ?a # p # ?b # vs')" "distinct (us' @ ?a # p # ?b # vs')"
    "\<forall>p \<in> set (us' @ ?a # p # ?b # vs'). p < new_node h \<and> nodes h p \<noteq> None"
    "get_next (dummy_tail l) h = None" "get_data (dummy_tail l) h = None"
    using R unfolding rep_nodes_def Let_def all by auto
  have j: "joined h ?a p" "joined h p ?b" using r(1) unfolding successively_split [of _ us' ?a p] by simp_all
  from unlink_removed [OF j _ d, of l] r(2,3) obtain h' where
    h': "unlink p l h = Some (d, l\<lparr>ll_size := ll_size l - 1\<rparr>, h')" "removed h ?a ?b h'" by auto
  have "dummy_tail l \<noteq> ?a" using r(4) j(1) by (auto dest!: joinedD(1))
  then have "get_next (dummy_tail l) h' = None" "get_data (dummy_tail l) h' = None"
    using h'(2) r(4,5) by (simp_all add: removed_def)
  moreover have "successively (joined h') (us' @ ?a # ?b # vs')" by (rule removed_joined [OF r(1,2) h'(2)])
  moreover have "distinct (us' @ ?a # ?b # vs')" using r(2) by auto
  moreover have "\<forall>p \<in> set (us' @ ?a # ?b # vs'). p < new_node h' \<and> nodes h' p \<noteq> None"
    using r(3) h'(2) by (auto simp: removed_def)
  ultimately have "rep_nodes l h' (us @ vs)" unfolding rep_nodes_def Let_def all' by blast
  with h' show ?thesis by (auto simp: removed_def)
qed

section \<open>The operations are those of a sequence\<close>

lemma data_after_insert:
  assumes "rep_nodes l h (us @ vs)" and "inserted h a b d h'"
  shows "map (\<lambda>p. get_data p h') (us @ new_node h # vs) =
    map (\<lambda>p. get_data p h) us @ Some d # map (\<lambda>p. get_data p h) vs"
proof -
  have "p \<noteq> new_node h" if "p \<in> set us \<union> set vs" for p
    using assms(1) that by (auto simp: rep_nodes_def Let_def)
  with assms(2) show ?thesis by (auto simp: inserted_def Let_def)
qed

lemma add_tail_represents:
  assumes "represents (l, h) xs"
  shows "\<exists>lh. add_tail d l h = Some lh \<and> represents lh (xs @ [d])"
proof -
  from assms obtain ps where ps: "rep_nodes l h ps" "map (\<lambda>p. get_data p h) ps = map Some xs" "ll_size l = int (length xs)"
    by (auto simp: represents_def)
  let ?a = "List.last (dummy_head l # ps)"
  have "joined h ?a (dummy_tail l)" "?a < new_node h" "nodes h ?a \<noteq> None" "dummy_tail l < new_node h" "?a \<noteq> dummy_tail l"
    using ps(1) by (auto simp: rep_nodes_def Let_def successively_append_iff successively_Cons dest: joinedD(1) split: if_splits)
  from add_tail_inserted [OF joinedD(2) [OF this(1)] this(3,2,4,5)] obtain h' where
    h': "add_tail d l h = Some (l\<lparr>ll_size := ll_size l + 1\<rparr>, h')" "inserted h ?a (dummy_tail l) d h'" by blast
  have "rep_nodes l h' (ps @ [new_node h])" using rep_nodes_insert [of l h ps "[]" d h'] ps(1) h'(2) by simp
  moreover have "map (\<lambda>p. get_data p h') (ps @ [new_node h]) = map Some (xs @ [d])"
    using data_after_insert [of l h ps "[]"] ps h'(2) by simp
  ultimately show ?thesis using h'(1) ps(3) by (auto simp: represents_def)
qed

lemma add_head_represents:
  assumes "represents (l, h) xs"
  shows "\<exists>lh. add_head d l h = Some lh \<and> represents lh (d # xs)"
proof -
  from assms obtain ps where ps: "rep_nodes l h ps" "map (\<lambda>p. get_data p h) ps = map Some xs" "ll_size l = int (length xs)"
    by (auto simp: represents_def)
  let ?b = "List.hd (ps @ [dummy_tail l])"
  have "joined h (dummy_head l) ?b" "?b < new_node h" "nodes h ?b \<noteq> None" "dummy_head l < new_node h" "?b \<noteq> dummy_head l"
    using ps(1) by (cases ps; auto simp: rep_nodes_def Let_def)+
  from add_head_inserted [OF joinedD(1) [OF this(1)] this(3,2,4,5)] obtain h' where
    h': "add_head d l h = Some (l\<lparr>ll_size := ll_size l + 1\<rparr>, h')" "inserted h (dummy_head l) ?b d h'" by blast
  have "rep_nodes l h' (new_node h # ps)" using rep_nodes_insert [of l h "[]" ps d h'] ps(1) h'(2) by simp
  moreover have "map (\<lambda>p. get_data p h') (new_node h # ps) = map Some (d # xs)"
    using data_after_insert [of l h "[]" ps] ps h'(2) by simp
  ultimately show ?thesis using h'(1) ps(3) by (auto simp: represents_def)
qed

lemma unlink_at:
  assumes "represents (l, h) (xs @ d # ys)"
  shows "\<exists>us p vs lh. rep_nodes l h (us @ p # vs) \<and> map (\<lambda>p. get_data p h) us = map Some xs \<and>
    get_data p h = Some d \<and> map (\<lambda>p. get_data p h) vs = map Some ys \<and> unlink p l h = Some (d, lh) \<and> represents lh (xs @ ys)"
proof -
  from assms obtain ps where ps: "rep_nodes l h ps" "map (\<lambda>p. get_data p h) ps = map Some (xs @ d # ys)"
    "ll_size l = int (length (xs @ d # ys))" by (auto simp: represents_def)
  then obtain us p vs where s: "ps = us @ p # vs" "map (\<lambda>p. get_data p h) us = map Some xs" "get_data p h = Some d"
    "map (\<lambda>p. get_data p h) vs = map Some ys"
    by (auto simp: map_eq_append_conv map_eq_Cons_conv append_eq_map_conv Cons_eq_map_conv)
  from unlink_represents [OF ps(1) [unfolded s(1)] s(3)] obtain h' where
    h': "unlink p l h = Some (d, l\<lparr>ll_size := ll_size l - 1\<rparr>, h')" "rep_nodes l h' (us @ vs)" "\<forall>q. get_data q h' = get_data q h"
    by blast
  have "represents (l\<lparr>ll_size := ll_size l - 1\<rparr>, h') (xs @ ys)"
    using h'(2,3) s(2,4) ps(3) by (auto simp: represents_def)
  with ps(1) s h'(1) show ?thesis by blast
qed

lemma pop_head_represents:
  "represents (l, h) [] \<Longrightarrow> pop_head l h = Exits 99"
  "represents (l, h) (d # xs) \<Longrightarrow> \<exists>lh. pop_head l h = Returns (d, lh) \<and> represents lh xs"
proof -
  assume R: "represents (l, h) (d # xs)"
  with unlink_at [of l h "[]" d xs] obtain p vs lh where
    u: "rep_nodes l h (p # vs)" "unlink p l h = Some (d, lh)" "represents lh xs" by fastforce
  from u(1) have "get_next (dummy_head l) h = Some p" by (auto simp: rep_nodes_def joined_def)
  with u(2,3) R show "\<exists>lh. pop_head l h = Returns (d, lh) \<and> represents lh xs"
    by (auto simp: pop_head_def represents_def)
qed (simp add: represents_def pop_head_def)

lemma pop_tail_represents:
  "represents (l, h) [] \<Longrightarrow> pop_tail l h = Exits 99"
  "represents (l, h) (xs @ [d]) \<Longrightarrow> \<exists>lh. pop_tail l h = Returns (d, lh) \<and> represents lh xs"
proof -
  assume R: "represents (l, h) (xs @ [d])"
  with unlink_at [of l h xs d "[]"] obtain us p lh where
    u: "rep_nodes l h (us @ [p])" "unlink p l h = Some (d, lh)" "represents lh xs" by fastforce
  from u(1) have "get_prev (dummy_tail l) h = Some p"
    by (auto simp: rep_nodes_def Let_def successively_append_iff successively_Cons joined_def split: if_splits)
  with u(2,3) R show "\<exists>lh. pop_tail l h = Returns (d, lh) \<and> represents lh xs"
    by (auto simp: pop_tail_def represents_def)
qed (simp add: represents_def pop_tail_def)

lemma list_init_represents: "\<exists>lh. list_init equal h = Some lh \<and> represents lh []"
  by (auto simp: list_init_def represents_def rep_nodes_def joined_def node_defs Let_def)

lemma list_clear_represents:
  assumes "represents (l, h) xs"
  shows "\<exists>lh. list_clear l h = Some lh \<and> represents lh []"
proof -
  from assms obtain ps where "rep_nodes l h ps" by (auto simp: represents_def)
  then obtain n m where "nodes h (dummy_head l) = Some n" "nodes h (dummy_tail l) = Some m"
    "dummy_head l \<noteq> dummy_tail l" "node_next m = None" "node_data m = None"
    "dummy_head l < new_node h" "dummy_tail l < new_node h"
    by (auto simp: rep_nodes_def Let_def get_next_def get_data_def)
  then show ?thesis
    by (auto simp: list_clear_def represents_def rep_nodes_def joined_def node_defs Let_def)
qed

lemma search_node_eq:
  "successively (joined h) (ps @ [t]) \<Longrightarrow> \<forall>p \<in> set ps. get_data p h \<noteq> None \<Longrightarrow> get_data t h = None \<Longrightarrow>
   search_node l target (Some (List.hd (ps @ [t]))) h =
     map_option Some (List.find (\<lambda>p. equal_fn l target (the (get_data p h))) ps)"
proof (induction ps)
  case Nil
  then show ?case by (subst search_node.simps) (auto simp: get_data_def split: bind_split)
next
  case (Cons p ps)
  have next_p: "get_next p h = Some (List.hd (ps @ [t]))"
    using Cons.prems(1) by (cases ps) (auto simp: joined_def)
  have "successively (joined h) (ps @ [t])" using Cons.prems(1) by (cases ps) auto
  then have IH: "search_node l target (Some (List.hd (ps @ [t]))) h =
     map_option Some (List.find (\<lambda>p. equal_fn l target (the (get_data p h))) ps)"
    using Cons.IH Cons.prems by simp
  show ?case
    using Cons.prems(2) next_p IH by (subst search_node.simps) (auto simp: get_data_def get_next_def bind_eq_Some_conv)
qed

lemma get_node_by_value_eq:
  assumes "rep_nodes l h ps" and "\<forall>p \<in> set ps. get_data p h \<noteq> None"
  shows "get_node_by_value l target h = map_option Some (List.find (\<lambda>p. equal_fn l target (the (get_data p h))) ps)"
proof -
  have "successively (joined h) (ps @ [dummy_tail l])" "get_data (dummy_tail l) h = None"
    and "joined h (dummy_head l) (List.hd (ps @ [dummy_tail l]))"
    using assms(1) by (cases ps; auto simp: rep_nodes_def Let_def)+
  with search_node_eq [OF this(1) assms(2) this(2)] show ?thesis
    by (auto simp: get_node_by_value_def joined_def get_next_def bind_eq_Some_conv)
qed

lemma data_in:
  assumes "map f qs = map Some zs" and "q \<in> set qs"
  shows "\<exists>z \<in> set zs. f q = Some z"
proof -
  have "f q \<in> set (map f qs)" using assms(2) by simp
  then show ?thesis unfolding assms(1) by auto
qed

lemma find_first: "\<forall>x \<in> set us. \<not> P x \<Longrightarrow> P p \<Longrightarrow> List.find P (us @ p # vs) = Some p"
  by (induction us) simp_all

lemma remove_elem_represents:
  assumes R: "represents (l, h) (xs @ d # ys)" and "\<forall>x \<in> set xs. \<not> equal_fn l target x" and "equal_fn l target d"
  shows "\<exists>lh. remove_elem target l h = Some (d, lh) \<and> represents lh (xs @ ys)"
proof -
  from unlink_at [OF R] obtain us p vs lh where u: "rep_nodes l h (us @ p # vs)" "map (\<lambda>p. get_data p h) us = map Some xs"
    "get_data p h = Some d" "map (\<lambda>p. get_data p h) vs = map Some ys" "unlink p l h = Some (d, lh)" "represents lh (xs @ ys)"
    by blast
  note us = data_in [OF u(2)] and vs = data_in [OF u(4)]
  have "\<forall>q \<in> set us. \<not> equal_fn l target (the (get_data q h))" using us assms(2) by fastforce
  then have "List.find (\<lambda>p. equal_fn l target (the (get_data p h))) (us @ p # vs) = Some p"
    using assms(3) u(3) by (intro find_first) simp_all
  moreover have "\<forall>q \<in> set (us @ p # vs). get_data q h \<noteq> None" using us vs u(3) by fastforce
  ultimately show ?thesis using get_node_by_value_eq [OF u(1)] u(5,6) by (auto simp: remove_elem_def)
qed

lemma remove_elem_missing:
  assumes "represents (l, h) xs" and "\<forall>x \<in> set xs. \<not> equal_fn l target x"
  shows "remove_elem target l h = None"
proof -
  from assms(1) obtain ps where ps: "rep_nodes l h ps" "map (\<lambda>p. get_data p h) ps = map Some xs"
    by (auto simp: represents_def)
  have "\<forall>q \<in> set ps. get_data q h \<noteq> None" "\<forall>q \<in> set ps. \<not> equal_fn l target (the (get_data q h))"
    using assms(2) data_in [OF ps(2)] by fastforce+
  moreover from this(2) have "List.find (\<lambda>p. equal_fn l target (the (get_data p h))) ps = None"
    by (simp add: find_None_iff)
  ultimately show ?thesis using get_node_by_value_eq [OF ps(1)] by (simp add: remove_elem_def)
qed

section \<open>The interface of a double-ended queue\<close>

text \<open>Taking \<open>n\<close> elements from one end.\<close>

primrec pop_n :: "('l \<Rightarrow> ('d \<times> 'l) outcome) \<Rightarrow> nat \<Rightarrow> 'l \<Rightarrow> ('d list \<times> 'l) outcome" where
  "pop_n pop 0 l = Returns ([], l)"
| "pop_n pop (Suc n) l =
     and_then (pop l) (\<lambda>(d, l). and_then (pop_n pop n l) (\<lambda>(ds, l). Returns (d # ds, l)))"

locale deque =
  fixes rep :: "'l \<Rightarrow> 'd list \<Rightarrow> bool"
    and push_front push_back :: "'d \<Rightarrow> 'l \<Rightarrow> 'l option"
    and pop_front pop_back :: "'l \<Rightarrow> ('d \<times> 'l) outcome"
  assumes push_front: "rep l xs \<Longrightarrow> \<exists>l'. push_front d l = Some l' \<and> rep l' (d # xs)"
    and push_back: "rep l xs \<Longrightarrow> \<exists>l'. push_back d l = Some l' \<and> rep l' (xs @ [d])"
    and pop_front: "rep l (d # xs) \<Longrightarrow> \<exists>l'. pop_front l = Returns (d, l') \<and> rep l' xs"
    and pop_back: "rep l (xs @ [d]) \<Longrightarrow> \<exists>l'. pop_back l = Returns (d, l') \<and> rep l' xs"
    and pop_empty: "rep l [] \<Longrightarrow> pop_front l = Exits 99 \<and> pop_back l = Exits 99"
begin

lemma push_back_all: "rep l xs \<Longrightarrow> \<exists>l'. ofold push_back ds l = Some l' \<and> rep l' (xs @ ds)"
proof (induction ds arbitrary: l xs)
  case (Cons d ds)
  from push_back [OF Cons.prems, of d] obtain l1 where "push_back d l = Some l1" "rep l1 (xs @ [d])" by blast
  with Cons.IH [of l1 "xs @ [d]"] show ?case by simp
qed simp

lemma pop_front_all: "rep l (ds @ xs) \<Longrightarrow> \<exists>l'. pop_n pop_front (length ds) l = Returns (ds, l') \<and> rep l' xs"
proof (induction ds arbitrary: l)
  case (Cons d ds)
  from pop_front [of l d "ds @ xs"] Cons.prems obtain l1 where "pop_front l = Returns (d, l1)" "rep l1 (ds @ xs)" by auto
  with Cons.IH [of l1] show ?case by auto
qed simp

lemma pop_back_all: "rep l (xs @ ds) \<Longrightarrow> \<exists>l'. pop_n pop_back (length ds) l = Returns (rev ds, l') \<and> rep l' xs"
proof (induction ds arbitrary: l rule: rev_induct)
  case (snoc d ds)
  from pop_back [of l "xs @ ds" d] snoc.prems obtain l1 where "pop_back l = Returns (d, l1)" "rep l1 (xs @ ds)" by auto
  with snoc.IH [of l1] show ?case by auto
qed simp

lemma queue_discipline:
  assumes "rep l []"
  shows "\<exists>l'. ofold push_back ds l = Some l' \<and>
    (\<exists>e. pop_n pop_front (length ds) l' = Returns (ds, e) \<and> pop_front e = Exits 99) \<and>
    (\<exists>e. pop_n pop_back (length ds) l' = Returns (rev ds, e) \<and> pop_back e = Exits 99)"
  using push_back_all [OF assms, of ds] pop_front_all [of _ ds "[]"] pop_back_all [of _ "[]" ds] pop_empty by fastforce

end

interpretation nodes: deque represents "\<lambda>d. case_prod (add_head d)" "\<lambda>d. case_prod (add_tail d)"
  "case_prod pop_head" "case_prod pop_tail"
proof unfold_locales
  fix lh :: "'d linked_list \<times> 'd heap" and xs d
  obtain l h where lh: "lh = (l, h)" by (cases lh)
  show "represents lh xs \<Longrightarrow> \<exists>l'. case_prod (add_head d) lh = Some l' \<and> represents l' (d # xs)"
    using add_head_represents lh by auto
  show "represents lh xs \<Longrightarrow> \<exists>l'. case_prod (add_tail d) lh = Some l' \<and> represents l' (xs @ [d])"
    using add_tail_represents lh by auto
  show "represents lh (d # xs) \<Longrightarrow> \<exists>l'. case_prod pop_head lh = Returns (d, l') \<and> represents l' xs"
    using pop_head_represents lh by auto
  show "represents lh (xs @ [d]) \<Longrightarrow> \<exists>l'. case_prod pop_tail lh = Returns (d, l') \<and> represents l' xs"
    using pop_tail_represents lh by auto
  show "represents lh [] \<Longrightarrow> case_prod pop_head lh = Exits 99 \<and> case_prod pop_tail lh = Exits 99"
    using pop_head_represents(1) pop_tail_represents(1) lh by auto
qed

text \<open>
  C32: A linked list is a queue: what \<open>add_tail\<close> put into a new list comes out of \<open>pop_head\<close> in the
  same order and out of \<open>pop_tail\<close> in the opposite order, and popping once more ends the program.
\<close>

theorem linked_list_queue:
  "\<exists>lh lh'. list_init equal h = Some lh \<and> ofold (\<lambda>d. case_prod (add_tail d)) ds lh = Some lh' \<and>
    (\<exists>e. pop_n (case_prod pop_head) (length ds) lh' = Returns (ds, e) \<and> case_prod pop_head e = Exits 99) \<and>
    (\<exists>e. pop_n (case_prod pop_tail) (length ds) lh' = Returns (rev ds, e) \<and> case_prod pop_tail e = Exits 99)"
  using list_init_represents [of equal h] nodes.queue_discipline [of _ ds] by meson

text \<open>
  C33: \<open>remove_elem\<close> takes the first element that equals its argument out of the sequence a list
  stands for; when there is none, it reads the data of the dummy node at the end, which nothing has
  initialised.
\<close>

theorem remove_elem_first:
  assumes "represents (l, h) xs"
  shows "if \<exists>x \<in> set xs. equal_fn l target x
    then \<exists>us d vs lh. xs = us @ d # vs \<and> (\<forall>x \<in> set us. \<not> equal_fn l target x) \<and> equal_fn l target d \<and>
           remove_elem target l h = Some (d, lh) \<and> represents lh (us @ vs)
    else remove_elem target l h = None"
proof (cases "\<exists>x \<in> set xs. equal_fn l target x")
  case True
  then obtain us d vs where "xs = us @ d # vs" "equal_fn l target d" "\<forall>x \<in> set us. \<not> equal_fn l target x"
    using split_list_first_prop [OF True] by blast
  moreover from this remove_elem_represents [of l h us d vs target] assms
  obtain lh where "remove_elem target l h = Some (d, lh)" "represents lh (us @ vs)" by auto
  ultimately show ?thesis unfolding if_P [OF True] by blast
next
  case False
  with remove_elem_missing [OF assms] show ?thesis by auto
qed

theorem remove_elem_first_witness:
  "\<exists>l h. list_init (=) \<lparr>nodes = Map.empty, new_node = 0\<rparr> = Some (l, h) \<and> remove_elem (5 :: nat) l h = None"
  using list_init_represents [of "(=) :: nat \<Rightarrow> nat \<Rightarrow> bool" "\<lparr>nodes = Map.empty, new_node = 0\<rparr>"] remove_elem_first
  by fastforce

end
