(* ===== verification/Shell_Memory.thy ===== *)
theory Shell_Memory
  imports Outcome
begin

text \<open>
  The memory of the shell (\<^verbatim>\<open>src/a3/shellmemory.c\<close>): an array of cells, each with a key and a
  value. The first cells are frames of three lines each, whose key is the number of the
  process; the others are variables. A cell with the key \<^verbatim>\<open>none\<close> is free. The sizes are those
  the makefile passes to the compiler.
\<close>

declare upt_rec_numeral [simp del]

section \<open>Cells\<close>

abbreviation FRAME_STORE_SIZE :: nat where
  "FRAME_STORE_SIZE \<equiv> 30"

abbreviation VAR_STORE_SIZE :: nat where
  "VAR_STORE_SIZE \<equiv> 90"

record memory_struct =
  cell_var :: string
  cell_value :: string

type_synonym memory = "memory_struct list"

definition FRAME_VAR_BORDER :: nat where
  "FRAME_VAR_BORDER = FRAME_STORE_SIZE"

abbreviation MEM_SIZE :: nat where
  "MEM_SIZE \<equiv> 120"

definition free_cell :: memory_struct where
  "free_cell = \<lparr>cell_var = ''none'', cell_value = ''none''\<rparr>"

section \<open>Helpers of the code\<close>

text \<open>
  \<open>match\<close> counts the positions at which the two strings agree; it reads the model up to the length
  of the other string, so at most its terminating null may be compared.
\<close>

definition match_count :: "string \<Rightarrow> string \<Rightarrow> nat \<Rightarrow> nat" where
  "match_count model v n = length (filter (\<lambda>i. (model @ [CHR 0x00]) ! i = v ! i) [0..<n])"

definition match_str :: "string \<Rightarrow> string \<Rightarrow> bool option" where
  "match_str model v =
     (if length v \<le> Suc (length model) then Some (match_count model v (length v) = length v) else None)"

text \<open>What follows the first \<^verbatim>\<open>=\<close>, in an array of 1000 characters.\<close>

definition extract_value :: "string \<Rightarrow> string option" where
  "extract_value model =
     (let v = drop (Suc (length (takeWhile (\<lambda>c. c \<noteq> CHR ''='') model))) model
      in if length v < 1000 then Some v else None)"

section \<open>Operations\<close>

definition mem_init :: memory where
  "mem_init = replicate (FRAME_STORE_SIZE + VAR_STORE_SIZE) free_cell"

definition mem_free_at :: "nat \<Rightarrow> memory \<Rightarrow> memory option" where
  "mem_free_at pos m = (if pos < length m then Some (m[pos := free_cell]) else None)"

text \<open>The number of free cells from \<open>i\<close> on, of at most three, below the border.\<close>

definition free_run :: "memory \<Rightarrow> nat \<Rightarrow> nat" where
  "free_run m i = length (takeWhile (\<lambda>j. cell_var (m ! j) = ''none'') [i..<min (i + 3) FRAME_VAR_BORDER])"

text \<open>The first of the three cells, which now have the process number as their key.\<close>

definition frame_alloc :: "string \<Rightarrow> memory \<Rightarrow> (nat \<times> memory) option" where
  "frame_alloc pid m =
     (case List.find (\<lambda>i. free_run m i = 3) [0..<FRAME_VAR_BORDER] of
        None \<Rightarrow> None
      | Some i \<Rightarrow> Some (i, foldl (\<lambda>m k. m[k := (m ! k)\<lparr>cell_var := pid\<rparr>]) m [i..<i + 3]))"

definition mem_set_value_at :: "nat \<Rightarrow> string \<Rightarrow> string \<Rightarrow> memory \<Rightarrow> memory option" where
  "mem_set_value_at pos pid value_in m =
     (if pos < length m then Some (m[pos := \<lparr>cell_var = pid, cell_value = value_in\<rparr>]) else None)"

definition mem_get_value_at :: "nat \<Rightarrow> memory \<Rightarrow> string option" where
  "mem_get_value_at pos m = (if pos < length m then Some (cell_value (m ! pos)) else None)"

text \<open>The first variable cell with the given key.\<close>

definition find_var :: "string \<Rightarrow> memory \<Rightarrow> nat option" where
  "find_var v m = List.find (\<lambda>i. cell_var (m ! i) = v) [FRAME_VAR_BORDER..<FRAME_STORE_SIZE + VAR_STORE_SIZE]"

definition mem_set_value :: "string \<Rightarrow> string \<Rightarrow> memory \<Rightarrow> memory" where
  "mem_set_value var_in value_in m =
     (case find_var var_in m of
        Some i \<Rightarrow> m[i := (m ! i)\<lparr>cell_value := value_in\<rparr>]
      | None \<Rightarrow>
          (case find_var ''none'' m of
             Some i \<Rightarrow> m[i := \<lparr>cell_var = var_in, cell_value = value_in\<rparr>]
           | None \<Rightarrow> m))"

definition mem_get_value :: "string \<Rightarrow> char \<Rightarrow> memory \<Rightarrow> string" where
  "mem_get_value var_in caller m =
     (case find_var var_in m of
        Some i \<Rightarrow> cell_value (m ! i)
      | None \<Rightarrow> if caller = CHR ''p'' then ''Variable does not exist'' else '''')"

definition reset_var_zone :: "memory \<Rightarrow> memory option" where
  "reset_var_zone m = ofold mem_free_at [FRAME_VAR_BORDER..<FRAME_STORE_SIZE + VAR_STORE_SIZE] m"

definition clear_frame :: "nat \<Rightarrow> memory \<Rightarrow> memory option" where
  "clear_frame start_pos m = ofold mem_free_at [start_pos..<start_pos + 3] m"

text \<open>What \<open>printShellMemory\<close> counts: the free cells.\<close>

definition count_empty :: "memory \<Rightarrow> nat" where
  "count_empty m = length (filter (\<lambda>c. cell_var c = ''none'') m)"

section \<open>Variables are a map\<close>

definition mem_ok :: "memory \<Rightarrow> bool" where
  "mem_ok m \<longleftrightarrow> length m = MEM_SIZE"

definition var_map :: "memory \<Rightarrow> string \<Rightarrow> string option" where
  "var_map m v = map_option (\<lambda>i. cell_value (m ! i)) (find_var v m)"

lemma find_varD:
  assumes "find_var v m = Some i"
  shows "30 \<le> i" and "i < 120" and "cell_var (m ! i) = v"
  using assms by (auto simp: find_var_def find_Some_iff FRAME_VAR_BORDER_def)

lemma find_var_cong:
  assumes "\<And>j. 30 \<le> j \<Longrightarrow> j < 120 \<Longrightarrow> (cell_var (m' ! j) = v) = (cell_var (m ! j) = v)"
  shows "find_var v m' = find_var v m"
  unfolding find_var_def FRAME_VAR_BORDER_def by (rule find_cong) (auto simp: assms)

lemma find_var_unique:
  assumes "30 \<le> i" and "i < 120" and "cell_var (m ! i) = v" and "\<And>j. 30 \<le> j \<Longrightarrow> j < i \<Longrightarrow> cell_var (m ! j) \<noteq> v"
  shows "find_var v m = Some i"
  unfolding find_var_def FRAME_VAR_BORDER_def find_Some_iff
  using assms by (intro exI [of _ "i - 30"]) auto

lemma find_var_NoneD: "find_var v m = None \<Longrightarrow> 30 \<le> j \<Longrightarrow> j < 120 \<Longrightarrow> cell_var (m ! j) \<noteq> v"
  by (auto simp: find_var_def find_None_iff FRAME_VAR_BORDER_def)

lemma mem_set_value_ok: "mem_ok m \<Longrightarrow> mem_ok (mem_set_value v x m)"
  by (simp add: mem_set_value_def mem_ok_def split: option.split)

lemma mem_get_value_var_map:
  "mem_get_value v caller m =
     (case var_map m v of Some x \<Rightarrow> x | None \<Rightarrow> if caller = CHR ''p'' then ''Variable does not exist'' else [])"
  by (simp add: mem_get_value_def var_map_def split: option.split)

lemma var_map_set_value:
  assumes "mem_ok m" and "v \<noteq> ''none''" and "w \<noteq> ''none''"
    and "var_map m v \<noteq> None \<or> var_map m ''none'' \<noteq> None"
  shows "var_map (mem_set_value v x m) w = (if w = v then Some x else var_map m w)"
proof -
  have len: "length m = 120" using assms(1) by (simp add: mem_ok_def)
  show ?thesis
  proof (cases "find_var v m")
    case (Some i)
    note i = find_varD [OF Some]
    let ?m = "m[i := (m ! i)\<lparr>cell_value := x\<rparr>]"
    have "find_var w ?m = find_var w m" by (rule find_var_cong) (simp add: nth_list_update len i)
    moreover have "j \<noteq> i" if "find_var w m = Some j" "w \<noteq> v" for j using find_varD(3) [OF that(1)] i(3) that(2) by auto
    ultimately show ?thesis
      using Some i len by (cases "find_var w m") (auto simp: mem_set_value_def var_map_def nth_list_update)
  next
    case None
    then obtain i where f: "find_var ''none'' m = Some i" using assms(4) by (auto simp: var_map_def)
    note i = find_varD [OF f]
    let ?m = "m[i := \<lparr>cell_var = v, cell_value = x\<rparr>]"
    have new: "mem_set_value v x m = ?m" using None f by (simp add: mem_set_value_def)
    show ?thesis
    proof (cases "w = v")
      case True
      have "find_var v ?m = Some i"
        using i None len by (intro find_var_unique) (auto simp: find_var_NoneD)
      with True i len show ?thesis by (simp add: new var_map_def)
    next
      case False
      have "find_var w ?m = find_var w m"
        using False assms(3) i len by (intro find_var_cong) (auto simp: nth_list_update)
      moreover have "j \<noteq> i" if "find_var w m = Some j" for j using find_varD(3) [OF that] i(3) assms(3) by auto
      ultimately show ?thesis
        using False by (cases "find_var w m") (auto simp: new var_map_def)
    qed
  qed
qed

text \<open>
  C34: The variables of the shell are a map: after \<open>set\<close>, \<open>print\<close> yields the new value and every
  other variable keeps its own, unless all cells are taken; then a new variable is dropped without
  any sign. The key \<^verbatim>\<open>none\<close>, which marks free cells, is not a variable.
\<close>

theorem mem_set_get:
  assumes "mem_ok m" and "v \<noteq> ''none''" and "w \<noteq> ''none''"
  shows "mem_ok (mem_set_value v x m) \<and>
    (if var_map m v = None \<and> var_map m ''none'' = None then mem_set_value v x m = m
     else mem_get_value v c (mem_set_value v x m) = x \<and>
       (w \<noteq> v \<longrightarrow> mem_get_value w c (mem_set_value v x m) = mem_get_value w c m))"
proof (cases "var_map m v = None \<and> var_map m ''none'' = None")
  case True
  then show ?thesis using assms(1) mem_set_value_ok [OF assms(1)]
    by (simp add: mem_set_value_def var_map_def split: option.split)
next
  case False
  then show ?thesis
    using mem_set_value_ok [OF assms(1)] var_map_set_value [OF assms(1,2,2)] var_map_set_value [OF assms]
    by (auto simp: mem_get_value_var_map)
qed

lemma mem_init_ok: "mem_ok mem_init"
  by (simp add: mem_ok_def mem_init_def)

lemma mem_init_free: "var_map mem_init ''none'' = Some ''none''"
proof -
  have "find_var ''none'' mem_init = Some 30" by (rule find_var_unique) (auto simp: mem_init_def free_cell_def)
  then show ?thesis by (simp add: var_map_def mem_init_def free_cell_def)
qed

theorem mem_set_get_witness:
  "mem_get_value ''x'' CHR ''p'' (mem_set_value ''x'' ''5'' mem_init) = ''5'' \<and>
   mem_get_value ''y'' CHR ''p'' (mem_set_value ''x'' ''5'' mem_init) = mem_get_value ''y'' CHR ''p'' mem_init"
  using mem_set_get [OF mem_init_ok, of "''x''" "''y''" "''5''" "CHR ''p''"] by (simp add: mem_init_free)

section \<open>Frames\<close>

definition frame_free :: "memory \<Rightarrow> nat \<Rightarrow> bool" where
  "frame_free m i \<longleftrightarrow> i + 3 \<le> 30 \<and> (\<forall>j < 3. cell_var (m ! (i + j)) = ''none'')"

lemma takeWhile_length_eq: "length (takeWhile P xs) = length xs \<longleftrightarrow> (\<forall>x \<in> set xs. P x)"
  by (induction xs) auto

lemma free_run_3: "free_run m i = 3 \<longleftrightarrow> frame_free m i"
proof (cases "i + 3 \<le> 30")
  case True
  then have "free_run m i = 3 \<longleftrightarrow> (\<forall>j \<in> set [i..<i + 3]. cell_var (m ! j) = ''none'')"
    using takeWhile_length_eq [of "\<lambda>j. cell_var (m ! j) = ''none''" "[i..<i + 3]"]
    by (simp add: free_run_def FRAME_VAR_BORDER_def min_def)
  also have "\<dots> \<longleftrightarrow> (\<forall>j < 3. cell_var (m ! (i + j)) = ''none'')"
    by (auto simp: less_diff_conv le_iff_add)
  finally show ?thesis using True by (simp add: frame_free_def)
next
  case False
  then have "free_run m i < 3"
    using length_takeWhile_le [of "\<lambda>j. cell_var (m ! j) = ''none''" "[i..<min (i + 3) 30]"]
    by (simp add: free_run_def FRAME_VAR_BORDER_def)
  with False show ?thesis by (simp add: frame_free_def)
qed

text \<open>Marking the three cells of a frame.\<close>

definition mark_frame :: "string \<Rightarrow> nat \<Rightarrow> memory \<Rightarrow> memory" where
  "mark_frame pid i m = foldl (\<lambda>m k. m[k := (m ! k)\<lparr>cell_var := pid\<rparr>]) m [i..<i + 3]"

lemma mark_frame_nth:
  assumes "length m = 120" and "i + 3 \<le> 30"
  shows "length (mark_frame pid i m) = 120"
    and "mark_frame pid i m ! j = (if i \<le> j \<and> j < i + 3 then (m ! j)\<lparr>cell_var := pid\<rparr> else m ! j)"
proof -
  have u: "[i..<i + 3] = [i, i + 1, i + 2]" by (simp add: upt_rec)
  show "length (mark_frame pid i m) = 120" using assms by (simp add: mark_frame_def u)
  have "j = i \<or> j = i + 1 \<or> j = i + 2 \<or> j < i \<or> i + 3 \<le> j" by linarith
  then show "mark_frame pid i m ! j = (if i \<le> j \<and> j < i + 3 then (m ! j)\<lparr>cell_var := pid\<rparr> else m ! j)"
    unfolding mark_frame_def u using assms by (elim disjE) simp_all
qed

lemma frame_alloc_eq:
  "frame_alloc pid m = map_option (\<lambda>i. (i, mark_frame pid i m)) (List.find (frame_free m) [0..<30])"
  by (simp add: frame_alloc_def free_run_3 mark_frame_def FRAME_VAR_BORDER_def split: option.split)

text \<open>
  C35: \<open>frame_alloc\<close> takes the first three cells in a row that are all free, marks exactly these as
  belonging to the process, and never a cell of the variables; it fails only if there are no three
  free cells in a row.
\<close>

theorem frame_alloc_first_fit:
  assumes "mem_ok m"
  shows "case frame_alloc pid m of
      None \<Rightarrow> \<forall>i. \<not> frame_free m i
    | Some (i, m') \<Rightarrow> frame_free m i \<and> (\<forall>j < i. \<not> frame_free m j) \<and> mem_ok m' \<and>
        (\<forall>j. m' ! j = (if i \<le> j \<and> j < i + 3 then (m ! j)\<lparr>cell_var := pid\<rparr> else m ! j)) \<and>
        (pid \<noteq> ''none'' \<longrightarrow> var_map m' = var_map m)"
proof (cases "List.find (frame_free m) [0..<30]")
  case None
  then have "\<not> frame_free m i" for i by (cases "i < 30") (auto simp: find_None_iff frame_free_def)
  then show ?thesis by (simp add: frame_alloc_eq None)
next
  case (Some i)
  then have i: "frame_free m i" "\<forall>j < i. \<not> frame_free m j" by (auto simp: find_upt_Some_iff)
  then have b: "i + 3 \<le> 30" "length m = 120" using assms by (simp_all add: frame_free_def mem_ok_def)
  note n = mark_frame_nth [OF b(2,1), of pid]
  have "find_var v (mark_frame pid i m) = find_var v m" for v by (rule find_var_cong) (use b n(2) in auto)
  then have "var_map (mark_frame pid i m) v = var_map m v" for v
    using b(1) find_varD(1) [of v m] by (cases "find_var v m") (auto simp: var_map_def n(2))
  then have "var_map (mark_frame pid i m) = var_map m" by (rule ext)
  then show ?thesis using i n by (simp add: frame_alloc_eq Some mem_ok_def)
qed

theorem frame_alloc_first_fit_witness: "\<exists>m. frame_alloc ''1'' mem_init = Some (0, m) \<and> mem_ok m"
proof -
  have "frame_free mem_init 0" by (simp add: frame_free_def mem_init_def free_cell_def)
  with frame_alloc_first_fit [OF mem_init_ok, of "''1''"] show ?thesis
    by (cases "frame_alloc ''1'' mem_init") (auto split: prod.splits)
qed

end
