(* ===== verification/Process.thy ===== *)
theory Process
  imports Shell_Memory Fsutil
begin

text \<open>
  Processes and their pages (\<^verbatim>\<open>src/a3/pcb.c\<close>), and the state of the whole shell. A page has three
  lines; the page table of a process refers to its pages. Processes and pages are objects in
  heaps; a freed object is absent. The kernel's lists hold references to them; they are
  sequences here, as \<open>Linked_List\<close> shows that its lists are.
\<close>

section \<open>The state of the shell\<close>

record page =
  frame_index :: "nat list"
  valid_bit :: "bool list"
  page_index :: nat
  page_pid :: int

record pcb =
  pcb_pid :: int
  pcb_size :: int
  program_counter :: "nat list"
  page_table :: "nat list"
  source_file :: string

text \<open>What the shell prints: texts, and the formatted results of the commands on files.\<close>

datatype shell_output =
    Text string
  | Help_text
  | Dumps "(int \<times> byte list) list"
  | Names "string list"
  | Fragments nat nat

type_synonym host_files = "string \<Rightarrow> byte list option"

record shell =
  memory :: memory
  pages :: "nat \<Rightarrow> page option"
  pcbs :: "nat \<Rightarrow> pcb option"
  fresh_ref :: nat
  QUEUE :: "nat list"
  LRU_CACHE :: "nat list"
  ALL_PCB :: "nat list"
  PID_counter :: int
  new_name_count :: nat
  strtok_rest :: string
  host :: host_files
  file_system :: fs
  outputs :: "shell_output list"

definition print_out :: "shell_output \<Rightarrow> shell \<Rightarrow> shell" where
  "print_out x s = s\<lparr>outputs := outputs s @ [x]\<rparr>"

definition print_line :: "string \<Rightarrow> shell \<Rightarrow> shell" where
  "print_line t s = print_out (Text (t @ [newline])) s"

text \<open>A host file opened for reading as text, the path taken relative to the working directory.\<close>

definition open_text :: "string \<Rightarrow> shell \<Rightarrow> string option" where
  "open_text path s =
     map_option string_of_bytes (host s (if take 2 path = ''./'' then drop 2 path else path))"

section \<open>Sizes\<close>

primrec count_newlines :: "char \<Rightarrow> string \<Rightarrow> nat" where
  "count_newlines last_char [] = 0"
| "count_newlines last_char (c # cs) =
     (if c = newline \<and> last_char \<noteq> newline then 1 else 0) + count_newlines c cs"

definition count_lines :: "string \<Rightarrow> shell \<Rightarrow> int" where
  "count_lines script s =
     (case open_text script s of None \<Rightarrow> - 1 | Some t \<Rightarrow> int (count_newlines newline t) + 1)"

definition PAGE_table_size :: "int \<Rightarrow> int" where
  "PAGE_table_size lines = (if c_rem lines 3 = 0 then c_div lines 3 else c_div lines 3 + 1)"

definition PAGE_init :: "int \<Rightarrow> nat \<Rightarrow> page" where
  "PAGE_init pid i = \<lparr>frame_index = [1000, 1000, 1000], valid_bit = [False, False, False], page_index = i, page_pid = pid\<rparr>"

section \<open>Loading pages\<close>

text \<open>
  The loop that stores the next lines of the source file in a page, until the end of the file.
\<close>

primrec load_lines :: "nat \<Rightarrow> nat \<Rightarrow> string \<Rightarrow> nat list \<Rightarrow> shell \<Rightarrow> shell option" where
  "load_lines p q pid_str [] s = Some s"
| "load_lines p q pid_str (j # js) s =
     do { x \<leftarrow> pcbs s p;
          if source_file x = [] then Some s
          else do {
            let (line, rest) = fgets 998 (source_file x);
            pg \<leftarrow> pages s q;
            m \<leftarrow> mem_set_value_at (frame_index pg ! j) pid_str (c_str line) (memory s);
            load_lines p q pid_str js
              (s\<lparr>memory := m, pages := (pages s)(q \<mapsto> pg\<lparr>valid_bit := (valid_bit pg)[j := True]\<rparr>),
                 pcbs := (pcbs s)(p \<mapsto> x\<lparr>source_file := rest\<rparr>)\<rparr>) } }"

text \<open>
  The result is 1 if there is no free frame. The number of the process is printed into ten bytes.
\<close>

definition load_PAGE :: "nat \<Rightarrow> nat \<Rightarrow> shell \<Rightarrow> (int \<times> shell) option" where
  "load_PAGE p i s =
     do { x \<leftarrow> pcbs s p;
          if length (page_table x) \<le> i then None
          else do {
            let q = page_table x ! i;
            pg \<leftarrow> pages s q;
            let pid_str = decimal_int (pcb_pid x);
            if 10 \<le> length pid_str then None
            else case frame_alloc pid_str (memory s) of
                None \<Rightarrow> Some (1, s)
              | Some (k, m) \<Rightarrow> do {
                  s \<leftarrow> load_lines p q pid_str [0..<3]
                         (s\<lparr>memory := m,
                            pages := (pages s)(q \<mapsto> pg\<lparr>frame_index := [k, k + 1, k + 2], valid_bit := [False, False, False]\<rparr>)\<rparr>);
                  Some (0, s) } } }"

primrec load_first :: "nat \<Rightarrow> nat list \<Rightarrow> shell \<Rightarrow> shell outcome" where
  "load_first p [] s = Returns s"
| "load_first p (i # is) s =
     and_then (defined (load_PAGE p i s)) (\<lambda>(ret, s). if ret = 1 then Exits 99 else load_first p is s)"

section \<open>Creating and freeing\<close>

definition PCB_init :: "int \<Rightarrow> string \<Rightarrow> shell \<Rightarrow> (nat \<times> shell) outcome" where
  "PCB_init pid script s =
     (let size' = count_lines script s;
          n = nat (PAGE_table_size size');
          p = fresh_ref s;
          table = [p + 1..<p + 1 + n]
      in case open_text script s of
           None \<Rightarrow> Exits 99
         | Some text \<Rightarrow>
             let x = \<lparr>pcb_pid = pid, pcb_size = size', program_counter = replicate n 0, page_table = table, source_file = text\<rparr>;
                 s = s\<lparr>fresh_ref := p + 1 + n, pcbs := (pcbs s)(p \<mapsto> x),
                       pages := (\<lambda>q. if q \<in> set table then Some (PAGE_init pid (q - (p + 1))) else pages s q)\<rparr>
             in and_then (load_first p [0..<min 2 n] s) (\<lambda>s. Returns (p, s)))"

primrec free_pages :: "nat list \<Rightarrow> shell \<Rightarrow> shell option" where
  "free_pages [] s = Some s"
| "free_pages (q # qs) s =
     do { pg \<leftarrow> pages s q;
          m \<leftarrow> ofold clear_frame (frame_index pg) (memory s);
          free_pages qs (s\<lparr>memory := m, pages := (pages s)(q := None)\<rparr>) }"

definition free_PCB :: "nat \<Rightarrow> shell \<Rightarrow> shell option" where
  "free_PCB p s =
     do { x \<leftarrow> pcbs s p;
          s \<leftarrow> free_pages (page_table x) s;
          Some (s\<lparr>pcbs := (pcbs s)(p := None)\<rparr>) }"

section \<open>Eviction and comparison\<close>

primrec evict_lines :: "nat \<Rightarrow> nat list \<Rightarrow> shell \<Rightarrow> shell option" where
  "evict_lines q [] s = Some s"
| "evict_lines q (j # js) s =
     do { pg \<leftarrow> pages s q;
          line \<leftarrow> mem_get_value_at (frame_index pg ! j) (memory s);
          m \<leftarrow> mem_free_at (frame_index pg ! j) (memory s);
          evict_lines q js (print_out (Text line)
            (s\<lparr>memory := m, pages := (pages s)(q \<mapsto> pg\<lparr>frame_index := (frame_index pg)[j := 0],
                 valid_bit := (valid_bit pg)[j := False]\<rparr>)\<rparr>)) }"

definition PAGE_evict :: "nat \<Rightarrow> nat \<Rightarrow> shell \<Rightarrow> shell option" where
  "PAGE_evict p i s =
     do { x \<leftarrow> pcbs s p;
          if length (page_table x) \<le> i then None
          else map_option (print_line ''End of victim page contents.'')
                 (evict_lines (page_table x ! i) [0..<3] (print_line ''Page fault! Victim page contents:'' s)) }"

definition PCB_equal :: "nat \<Rightarrow> nat \<Rightarrow> shell \<Rightarrow> bool option" where
  "PCB_equal a b s = do { x \<leftarrow> pcbs s a; y \<leftarrow> pcbs s b; Some (pcb_pid x = pcb_pid y) }"

definition PAGE_equal :: "nat \<Rightarrow> nat \<Rightarrow> shell \<Rightarrow> bool option" where
  "PAGE_equal a b s = do { x \<leftarrow> pages s a; y \<leftarrow> pages s b; Some (frame_index x ! 0 = frame_index y ! 0) }"

definition PCB_done :: "nat \<Rightarrow> shell \<Rightarrow> bool option" where
  "PCB_done p s = map_option (\<lambda>x. \<forall>i \<in> set (program_counter x). i = 3) (pcbs s p)"

end
