(* ===== verification/Kernel.thy ===== *)
theory Kernel
  imports Process
begin

text \<open>
  The processor and the scheduler (\<^verbatim>\<open>src/a3/cpu.c\<close>, \<^verbatim>\<open>src/a3/kernel.c\<close>). The function that executes
  a line, \<open>parseInput\<close> of the shell, calls back into the scheduler, so it is a parameter here and
  comes in when the shell is put together. Loops of the scheduler are bounded by fuel.
\<close>

type_synonym parser = "string \<Rightarrow> shell \<Rightarrow> (int \<times> shell) outcome"

section \<open>The processor\<close>

text \<open>
  \<open>cpu_run\<close> gets pointers into the page and the process: cell \<open>j\<close> of page \<open>i\<close> of the process \<open>p\<close>.
  A line that frees the process leaves the pointers dangling.
\<close>

definition cpu_run :: "parser \<Rightarrow> nat \<Rightarrow> nat \<Rightarrow> nat \<Rightarrow> shell \<Rightarrow> (int \<times> shell) outcome" where
  "cpu_run P p i j s =
     and_then (defined (do { x \<leftarrow> pcbs s p;
                             if length (page_table x) \<le> i \<or> 3 \<le> j then None else pages s (page_table x ! i) }))
       (\<lambda>pg. if \<not> valid_bit pg ! j then Returns (1, s)
             else and_then (defined (mem_get_value_at (frame_index pg ! j) (memory s)))
               (\<lambda>line. and_then (P line s)
                 (\<lambda>(ret, s). defined (do {
                    x \<leftarrow> pcbs s p;
                    Some (ret, s\<lparr>pcbs := (pcbs s)(p \<mapsto> x\<lparr>
                      program_counter := (program_counter x)[i := program_counter x ! i + 1],
                      pcb_size := pcb_size x - 1\<rparr>)\<rparr>) }))))"

definition proc_done :: "int \<Rightarrow> bool" where
  "proc_done size' \<longleftrightarrow> \<not> 0 < size'"

section \<open>Running a line\<close>

text \<open>Searching the list of all processes for a process number; running off its end is undefined.\<close>

primrec find_pcb :: "int \<Rightarrow> nat list \<Rightarrow> shell \<Rightarrow> nat option" where
  "find_pcb pid [] s = None"
| "find_pcb pid (p # ps) s = do { x \<leftarrow> pcbs s p; if pcb_pid x = pid then Some p else find_pcb pid ps s }"

text \<open>\<open>remove_elem\<close> on the LRU list: the first page in the same frame, and the other pages.\<close>

primrec remove_page :: "nat \<Rightarrow> nat list \<Rightarrow> shell \<Rightarrow> (nat \<times> nat list) option" where
  "remove_page q [] s = None"
| "remove_page q (r # rs) s =
     do { same \<leftarrow> PAGE_equal q r s;
          if same then Some (r, rs)
          else do { (x, rs) \<leftarrow> remove_page q rs s; Some (x, r # rs) } }"

definition page_fault :: "nat \<Rightarrow> nat \<Rightarrow> shell \<Rightarrow> shell outcome" where
  "page_fault p i s =
     and_then (defined (load_PAGE p i s))
       (\<lambda>(ret, s). if ret \<noteq> 1 then Returns s
          else if LRU_CACHE s = [] then Exits 99
          else defined (do {
            let v = List.last (LRU_CACHE s);
            let s = s\<lparr>LRU_CACHE := butlast (LRU_CACHE s)\<rparr>;
            victim \<leftarrow> pages s v;
            c \<leftarrow> find_pcb (page_pid victim) (ALL_PCB s) s;
            s \<leftarrow> PAGE_evict c (page_index victim) s;
            (_, s) \<leftarrow> load_PAGE p i s;
            Some s }))"

definition run_proc :: "parser \<Rightarrow> nat \<Rightarrow> nat \<Rightarrow> nat \<Rightarrow> shell \<Rightarrow> (int \<times> shell) outcome" where
  "run_proc P p i j s =
     and_then (cpu_run P p i j s)
       (\<lambda>(ret, s).
          if ret = 1 then
            and_then (page_fault p i s)
              (\<lambda>s. defined (do {
                 x \<leftarrow> pcbs s p;
                 Some (1, s\<lparr>LRU_CACHE := page_table x ! i # LRU_CACHE s, QUEUE := QUEUE s @ [p]\<rparr>) }))
          else defined (do {
            x \<leftarrow> pcbs s p;
            (q, rest) \<leftarrow> remove_page (page_table x ! i) (LRU_CACHE s) s;
            Some (0, s\<lparr>LRU_CACHE := q # rest\<rparr>) }))"

section \<open>Creating a process\<close>

definition new_proc :: "string \<Rightarrow> shell \<Rightarrow> (int \<times> shell) outcome" where
  "new_proc script s =
     (let pid = PID_counter s
      in and_then (PCB_init pid script (s\<lparr>PID_counter := pid + 1\<rparr>))
           (\<lambda>(p, s). defined (do {
              x \<leftarrow> pcbs s p;
              Some (0, s\<lparr>ALL_PCB := ALL_PCB s @ [p], QUEUE := QUEUE s @ [p],
                         LRU_CACHE := rev (take 2 (page_table x)) @ LRU_CACHE s\<rparr>) })))"

section \<open>First come, first served\<close>

text \<open>The first valid line, in the order of the page table.\<close>

primrec first_valid :: "nat \<Rightarrow> nat list \<Rightarrow> shell \<Rightarrow> (nat \<times> nat) option" where
  "first_valid i [] s = None"
| "first_valid i (q # qs) s =
     do { pg \<leftarrow> pages s q;
          case List.find (\<lambda>j. valid_bit pg ! j) [0..<3] of
            Some j \<Rightarrow> Some (i, j)
          | None \<Rightarrow> first_valid (i + 1) qs s }"

text \<open>The process in hand is \<open>Some p\<close> inside the inner loop.\<close>

primrec run_proc_FIFO :: "parser \<Rightarrow> nat \<Rightarrow> nat option \<Rightarrow> shell \<Rightarrow> (int \<times> shell) outcome" where
  "run_proc_FIFO P 0 current s = Unfinished"
| "run_proc_FIFO P (Suc fuel) current s =
     (case current of
        None \<Rightarrow>
          (case QUEUE s of
             [] \<Rightarrow> Returns (0, s)
           | p # ps \<Rightarrow> run_proc_FIFO P fuel (Some p) (s\<lparr>QUEUE := ps\<rparr>))
      | Some p \<Rightarrow>
          and_then (defined (pcbs s p))
            (\<lambda>x. if proc_done (pcb_size x)
                 then and_then (defined (free_PCB p s)) (\<lambda>s. run_proc_FIFO P fuel None s)
                 else and_then (defined (first_valid 0 (page_table x) s))
                   (\<lambda>(i, j). and_then (run_proc P p i j s)
                     (\<lambda>(ret, s). run_proc_FIFO P fuel (Some p) s))))"

section \<open>Round robin\<close>

definition queue_done :: "shell \<Rightarrow> bool option" where
  "queue_done s = foldr (\<lambda>p r. do { d \<leftarrow> PCB_done p s; if d then r else Some False }) (QUEUE s) (Some True)"

text \<open>One line of a process: its first page that is not done, at that page's program counter.\<close>

definition run_line :: "parser \<Rightarrow> nat \<Rightarrow> shell \<Rightarrow> (int \<times> shell) outcome" where
  "run_line P p s =
     and_then (defined (pcbs s p))
       (\<lambda>x. case List.find (\<lambda>i. program_counter x ! i \<noteq> 3) [0..<length (page_table x)] of
              None \<Rightarrow> Undefined
            | Some i \<Rightarrow> run_proc P p i (program_counter x ! i) s)"

definition rr_turn :: "parser \<Rightarrow> nat \<Rightarrow> shell \<Rightarrow> shell outcome" where
  "rr_turn P p s =
     and_then (defined (pcbs s p))
       (\<lambda>x. if 1 < pcb_size x then
              and_then (run_line P p s)
                (\<lambda>(ret, s). if ret = 1 then Returns s
                   else and_then (run_line P p s)
                     (\<lambda>(ret, s). if ret = 1 then Returns s else Returns (s\<lparr>QUEUE := QUEUE s @ [p]\<rparr>)))
            else if pcb_size x = 1 then and_then (run_line P p s) (\<lambda>(ret, s). Returns s)
            else Returns s)"

definition rr_finish :: "shell \<Rightarrow> (int \<times> shell) option" where
  "rr_finish s =
     do { s \<leftarrow> ofold free_PCB (ALL_PCB s) s;
          Some (0, s\<lparr>QUEUE := [], LRU_CACHE := [], ALL_PCB := []\<rparr>) }"

primrec run_proc_RR :: "parser \<Rightarrow> nat \<Rightarrow> shell \<Rightarrow> (int \<times> shell) outcome" where
  "run_proc_RR P 0 s = Unfinished"
| "run_proc_RR P (Suc fuel) s =
     and_then (defined (queue_done s))
       (\<lambda>d. if d then defined (rr_finish s)
            else case QUEUE s of
                [] \<Rightarrow> Exits 99
              | p # ps \<Rightarrow> and_then (rr_turn P p (s\<lparr>QUEUE := ps\<rparr>)) (\<lambda>s. run_proc_RR P fuel s))"

end
