(* ===== verification/Interpreter.thy ===== *)
theory Interpreter
  imports Kernel
begin

text \<open>
  The commands of the shell (\<^verbatim>\<open>src/a3/interpreter.c\<close>). A command gets the words of a line, changes
  the state and returns a code. What the shell asks of the operating system with \<open>system\<close> is a
  parameter, a function on the files of the host.
\<close>

section \<open>The environment of the shell\<close>

text \<open>
  The parameters of the file system, \<open>system\<close>, the working directory, an uninitialised array for a
  file name, and the number of rounds a scheduler may take.
\<close>

record shell_env =
  s_fs :: env
  s_system :: "string \<Rightarrow> host_files \<Rightarrow> host_files"
  s_cwd :: string
  s_name :: "byte list"
  s_rounds :: nat

definition run_system :: "shell_env \<Rightarrow> string \<Rightarrow> shell \<Rightarrow> shell" where
  "run_system E cmd s = s\<lparr>host := s_system E cmd (host s)\<rparr>"

text \<open>An operation of the file system as a command.\<close>

definition on_fs :: "(fs \<Rightarrow> ('a \<times> fs) option) \<Rightarrow> shell \<Rightarrow> ('a \<times> shell) outcome" where
  "on_fs f s = and_then (defined (f (file_system s))) (\<lambda>(r, t). Returns (r, s\<lparr>file_system := t\<rparr>))"

section \<open>Errors\<close>

datatype error =
    FILE_DOES_NOT_EXIST | NO_MEM_SPACE | READY_QUEUE_FULL | SCHEDULING_ERROR | TOO_MANY_TOKENS
  | TOO_FEW_TOKENS | NON_ALPHANUMERIC_TOKEN | BAD_COMMAND | ERROR_RM | FILE_CREATION_ERROR
  | FILESYSTEM_ERROR | FILE_WRITE_ERROR | FILE_READ_ERROR

primrec error_code :: "error \<Rightarrow> nat" where
  "error_code FILE_DOES_NOT_EXIST = 0"
| "error_code NO_MEM_SPACE = 1"
| "error_code READY_QUEUE_FULL = 2"
| "error_code SCHEDULING_ERROR = 3"
| "error_code TOO_MANY_TOKENS = 4"
| "error_code TOO_FEW_TOKENS = 5"
| "error_code NON_ALPHANUMERIC_TOKEN = 6"
| "error_code BAD_COMMAND = 7"
| "error_code ERROR_RM = 8"
| "error_code FILE_CREATION_ERROR = 9"
| "error_code FILESYSTEM_ERROR = 10"
| "error_code FILE_WRITE_ERROR = 11"
| "error_code FILE_READ_ERROR = 12"

definition error_msgs :: "string list" where
  "error_msgs =
     [''file does not exist'', ''no space left in shell memory'', ''ready queue is full'',
      ''scheduling policy error'', ''too many tokens'', ''too few tokens'', ''non-alphanumeric token'',
      ''unknown name'', ''rm'', ''file could not be created'', ''bad filesystem'',
      ''file could not be written (maybe no space?)'', ''file could not be read'']"

text \<open>The codes that file commands return are used as indices, too.\<close>

definition handle_error :: "int \<Rightarrow> shell \<Rightarrow> (int \<times> shell) outcome" where
  "handle_error code s =
     (if 0 \<le> code \<and> code < int (length error_msgs)
      then Returns (code, print_line (''Bad command: '' @ error_msgs ! nat code) s)
      else Undefined)"

definition fail :: "error \<Rightarrow> shell \<Rightarrow> (int \<times> shell) outcome" where
  "fail e = handle_error (int (error_code e))"

section \<open>Variables and printing\<close>

definition isAlphaNumStr :: "string \<Rightarrow> bool" where
  "isAlphaNumStr str \<longleftrightarrow> str \<noteq> [] \<and> (\<forall>c \<in> set str. isalnum c)"

text \<open>The assignment is also spelt out in an array of 1000 bytes.\<close>

definition set_var :: "string \<Rightarrow> string \<Rightarrow> shell \<Rightarrow> (int \<times> shell) outcome" where
  "set_var v x s =
     (if length v + 1 + length x < 1000 then Returns (0, s\<lparr>memory := mem_set_value v x (memory s)\<rparr>) else Undefined)"

definition print_var :: "string \<Rightarrow> shell \<Rightarrow> (int \<times> shell) outcome" where
  "print_var v s = Returns (0, print_line (mem_get_value v CHR ''p'' (memory s)) s)"

definition echo :: "string \<Rightarrow> shell \<Rightarrow> (int \<times> shell) outcome" where
  "echo v s =
     (if take 1 v \<noteq> ''$'' then
        if \<not> isAlphaNumStr v then fail NON_ALPHANUMERIC_TOKEN s else Returns (0, print_line v s)
      else if \<exists>k < length (drop 1 v). \<not> isAlphaNumStr (drop k (drop 1 v)) then fail NON_ALPHANUMERIC_TOKEN s
      else Returns (0, print_line (mem_get_value (drop 1 v) CHR ''e'' (memory s)) s))"

definition show_help :: "shell \<Rightarrow> (int \<times> shell) outcome" where
  "show_help s = Returns (0, print_out Help_text s)"

definition quit_shell :: "shell \<Rightarrow> (int \<times> shell) outcome" where
  "quit_shell s = Returns (- 1, print_line ''Bye!'' s)"

text \<open>
  \<^verbatim>\<open>set\<close> joins its arguments with spaces in an array of 505 bytes, checking each as it comes.
\<close>

primrec join_args :: "string \<Rightarrow> string list \<Rightarrow> string option outcome" where
  "join_args buf [] = Returns (Some buf)"
| "join_args buf (a # as) =
     (if \<not> isAlphaNumStr a then Returns None
      else let b = buf @ a @ (if as = [] then [] else '' '')
           in if length b < 505 then join_args b as else Undefined)"

definition cmd_set :: "string list \<Rightarrow> shell \<Rightarrow> (int \<times> shell) outcome" where
  "cmd_set args s =
     (if length args < 3 then fail TOO_FEW_TOKENS s
      else if \<not> isAlphaNumStr (args ! 1) then fail NON_ALPHANUMERIC_TOKEN s
      else and_then (join_args [] (drop 2 args))
        (\<lambda>r. case r of None \<Rightarrow> fail NON_ALPHANUMERIC_TOKEN s | Some b \<Rightarrow> set_var (args ! 1) b s))"

definition cmd_print :: "string list \<Rightarrow> shell \<Rightarrow> (int \<times> shell) outcome" where
  "cmd_print args s =
     (if length args < 2 then fail TOO_FEW_TOKENS s
      else if 2 < length args then fail TOO_MANY_TOKENS s
      else print_var (args ! 1) s)"

text \<open>Without an argument, \<^verbatim>\<open>echo\<close> reads an uninitialised pointer.\<close>

definition cmd_echo :: "string list \<Rightarrow> shell \<Rightarrow> (int \<times> shell) outcome" where
  "cmd_echo args s =
     (if 2 < length args then fail TOO_MANY_TOKENS s
      else if length args < 2 then Undefined
      else echo (args ! 1) s)"

section \<open>Scripts\<close>

text \<open>
  A script is copied under a new name, made in arrays of 100 bytes, before it is run. The
  backing store is emptied afterwards.
\<close>

definition backing_name :: "string \<Rightarrow> shell \<Rightarrow> string" where
  "backing_name script s = ''./backing_store/'' @ script @ replicate (new_name_count s) (CHR ''a'')"

definition copy_script :: "shell_env \<Rightarrow> string \<Rightarrow> shell \<Rightarrow> (string \<times> shell) outcome" where
  "copy_script E script s =
     (let new_name = backing_name script s;
          cmd = ''cp ./'' @ script @ '' '' @ new_name
      in if length cmd < 100
         then Returns (new_name, (run_system E cmd s)\<lparr>new_name_count := new_name_count s + 1\<rparr>)
         else Undefined)"

definition empty_store :: "shell_env \<Rightarrow> shell \<Rightarrow> shell" where
  "empty_store E s =
     run_system E (take 1068 (''mkdir '' @ s_cwd E @ ''/backing_store''))
       (run_system E (take 1068 (''rm -rf '' @ s_cwd E @ ''/backing_store'')) s)"

definition run_script :: "shell_env \<Rightarrow> parser \<Rightarrow> string \<Rightarrow> shell \<Rightarrow> (int \<times> shell) outcome" where
  "run_script E P script s =
     and_then (new_proc script s)
       (\<lambda>(r, s). if r \<noteq> 0 then Returns (1, s) else run_proc_RR P (s_rounds E) s)"

primrec new_procs :: "string list \<Rightarrow> shell \<Rightarrow> (int \<times> shell) outcome" where
  "new_procs [] s = Returns (0, s)"
| "new_procs (x # xs) s =
     and_then (new_proc x s) (\<lambda>(r, s). if r \<noteq> 0 then Returns (1, s) else new_procs xs s)"

definition exec :: "shell_env \<Rightarrow> parser \<Rightarrow> string list \<Rightarrow> string \<Rightarrow> shell \<Rightarrow> (int \<times> shell) outcome" where
  "exec E P scripts policy s =
     (if 3 < length scripts
      then Returns (1, print_out (Text (''exec can only take between 1 to 3 scripts'' @ [newline])) s)
      else and_then (new_procs scripts s)
        (\<lambda>(r, s). if r \<noteq> 0 then Returns (1, s)
                  else if policy = ''FIFO'' then run_proc_FIFO P (s_rounds E) None s
                  else if policy = ''RR'' then run_proc_RR P (s_rounds E) s
                  else Returns (0, s)))"

primrec copy_scripts :: "shell_env \<Rightarrow> string list \<Rightarrow> shell \<Rightarrow> (string list \<times> shell) outcome" where
  "copy_scripts E [] s = Returns ([], s)"
| "copy_scripts E (x # xs) s =
     and_then (copy_script E x s)
       (\<lambda>(n, s). and_then (copy_scripts E xs s) (\<lambda>(ns, s). Returns (n # ns, s)))"

definition cmd_run :: "shell_env \<Rightarrow> parser \<Rightarrow> string list \<Rightarrow> shell \<Rightarrow> (int \<times> shell) outcome" where
  "cmd_run E P args s =
     (if length args < 2 then fail TOO_FEW_TOKENS s
      else if 2 < length args then fail TOO_MANY_TOKENS s
      else and_then (copy_script E (args ! 1) s)
        (\<lambda>(n, s). and_then (run_script E P n s) (\<lambda>(ret, s). Returns (ret, empty_store E s))))"

definition cmd_exec :: "shell_env \<Rightarrow> parser \<Rightarrow> string list \<Rightarrow> shell \<Rightarrow> (int \<times> shell) outcome" where
  "cmd_exec E P args s =
     (if length args \<le> 1 then fail TOO_FEW_TOKENS s
      else if 5 < length args then fail TOO_MANY_TOKENS s
      else and_then (copy_scripts E (drop 1 args) s)
        (\<lambda>(ns, s). and_then (exec E P ns ''RR'' s) (\<lambda>(ret, s). Returns (ret, empty_store E s))))"

definition cmd_quit :: "shell_env \<Rightarrow> string list \<Rightarrow> shell \<Rightarrow> (int \<times> shell) outcome" where
  "cmd_quit E args s =
     (if 1 < length args then fail TOO_MANY_TOKENS s
      else let s = run_system E (take 1068 (''rm -rf '' @ s_cwd E @ ''/backing_store'')) s
           in and_then (on_fs (\<lambda>t. map_option (Pair ()) (filesys_done (e_fuel (s_fs E)) t)) s) (\<lambda>(_, s). quit_shell s))"

section \<open>Files\<close>

definition cmd_ls :: "shell_env \<Rightarrow> string list \<Rightarrow> shell \<Rightarrow> (int \<times> shell) outcome" where
  "cmd_ls E args s =
     (if 1 < length args then fail TOO_MANY_TOKENS s
      else let s = print_line ''Files in the root directory:'' s
           in and_then (on_fs (\<lambda>t. map_option (\<lambda>(st, names, t). ((st, names), t)) (fsutil_ls (s_fs E) t)) s)
                (\<lambda>((status, names), s).
                   if status = 1 then fail FILESYSTEM_ERROR s
                   else Returns (0, print_line ''End of listing.'' (print_out (Names names) s))))"

definition cmd_cat :: "shell_env \<Rightarrow> string list \<Rightarrow> shell \<Rightarrow> (int \<times> shell) outcome" where
  "cmd_cat E args s =
     (if length args \<noteq> 2 then fail TOO_MANY_TOKENS s
      else let s = print_line (''Printing <'' @ args ! 1 @ ''> to the console...'') s
           in and_then (on_fs (\<lambda>t. map_option (\<lambda>(st, d, t). ((st, d), t)) (fsutil_cat (s_fs E) (args ! 1) t)) s)
                (\<lambda>((status, dumps), s).
                   let s = (if status = - 1 then print_line ''Error'' s else print_out (Dumps dumps) s)
                   in if status = 1 then fail FILE_DOES_NOT_EXIST s else Returns (0, s)))"

definition cmd_rm :: "shell_env \<Rightarrow> string list \<Rightarrow> shell \<Rightarrow> (int \<times> shell) outcome" where
  "cmd_rm E args s =
     (if length args \<noteq> 2 then fail TOO_MANY_TOKENS s
      else and_then (on_fs (fsutil_rm (s_fs E) (args ! 1)) s)
        (\<lambda>(ok, s). if \<not> ok then fail ERROR_RM s else Returns (1, s)))"

definition cmd_create :: "shell_env \<Rightarrow> string list \<Rightarrow> shell \<Rightarrow> (int \<times> shell) outcome" where
  "cmd_create E args s =
     (if length args \<noteq> 3 then fail TOO_MANY_TOKENS s
      else and_then (defined (atoi (args ! 2)))
        (\<lambda>size'. and_then (on_fs (fsutil_create (s_fs E) (args ! 1) size') s)
          (\<lambda>(ok, s). if \<not> ok then fail FILE_CREATION_ERROR s else Returns (0, s))))"

text \<open>
  The arguments joined with spaces; the buffer of \<^verbatim>\<open>write\<close> has two nulls at its end, the second of
  which is the last byte the file layer overwrites with a null.
\<close>

definition joined_words :: "string list \<Rightarrow> string" where
  "joined_words ws = concat (map (\<lambda>w. w @ '' '') ws)"

definition write_buffer :: "string list \<Rightarrow> byte list" where
  "write_buffer ws = bytes_of_string (butlast (joined_words ws)) @ [0, 0]"

definition short_write :: "int \<Rightarrow> int \<Rightarrow> string" where
  "short_write n size' =
     ''Warning: could only write '' @ decimal_int n @ '' out of '' @ decimal_int size' @ '' bytes (reached end of file)''"

definition cmd_write :: "shell_env \<Rightarrow> string list \<Rightarrow> shell \<Rightarrow> (int \<times> shell) outcome" where
  "cmd_write E args s =
     (if length args < 3 then fail TOO_FEW_TOKENS s
      else let buf = write_buffer (drop 2 args); size' = int (length buf)
           in and_then (on_fs (fsutil_write (s_fs E) (args ! 1) buf size') s)
                (\<lambda>(n, s). if n = - 1 then fail FILE_WRITE_ERROR s
                          else Returns (0, if n \<noteq> size' then print_line (short_write n size') s else s)))"

definition cmd_find_file :: "shell_env \<Rightarrow> string list \<Rightarrow> shell \<Rightarrow> (int \<times> shell) outcome" where
  "cmd_find_file E args s =
     (if length args < 2 then fail TOO_FEW_TOKENS s
      else and_then (on_fs (find_file (s_fs E) (butlast (joined_words (drop 1 args)))) s)
        (\<lambda>(names, s). Returns (0, print_out (Names names) s)))"

text \<open>The buffer has \<open>size + 1\<close> bytes; there is no buffer for a negative size.\<close>

definition cmd_read :: "shell_env \<Rightarrow> string list \<Rightarrow> shell \<Rightarrow> (int \<times> shell) outcome" where
  "cmd_read E args s =
     (if length args \<noteq> 3 then fail TOO_MANY_TOKENS s
      else and_then (defined (do { n \<leftarrow> atoi (args ! 2); if 0 \<le> n \<and> n < 2 ^ 31 - 1 then Some n else None }))
        (\<lambda>size'. and_then (on_fs (\<lambda>t. map_option (\<lambda>(n, d, t). ((n, d), t)) (fsutil_read (s_fs E) (args ! 1) size' t)) s)
          (\<lambda>((n, data), s).
             if n = - 1 then fail FILE_READ_ERROR s
             else Returns (of_bool (n = size'), print_line (string_of_bytes (takeWhile (\<lambda>b. b \<noteq> 0) data)) s))))"

definition cmd_copy_in :: "shell_env \<Rightarrow> string list \<Rightarrow> shell \<Rightarrow> (int \<times> shell) outcome" where
  "cmd_copy_in E args s =
     (if length args \<noteq> 2 then fail TOO_MANY_TOKENS s
      else and_then (on_fs (copy_in (s_fs E) (host s) (args ! 1)) s)
        (\<lambda>(status, s).
           if status = - 1 then fail FILE_DOES_NOT_EXIST s
           else if status \<noteq> 0 then handle_error status s else Returns (0, s)))"

definition cmd_copy_out :: "shell_env \<Rightarrow> string list \<Rightarrow> shell \<Rightarrow> (int \<times> shell) outcome" where
  "cmd_copy_out E args s =
     (if length args \<noteq> 2 then fail TOO_MANY_TOKENS s
      else and_then (on_fs (\<lambda>t. map_option (\<lambda>(st, w, t). ((st, w), t)) (copy_out (s_fs E) (args ! 1) t)) s)
        (\<lambda>((status, written), s).
           let s = (case written of None \<Rightarrow> s | Some (n, d) \<Rightarrow> s\<lparr>host := (host s)(n \<mapsto> d)\<rparr>)
           in if status \<noteq> 0 then handle_error status s else Returns (0, s)))"

definition cmd_size :: "shell_env \<Rightarrow> string list \<Rightarrow> shell \<Rightarrow> (int \<times> shell) outcome" where
  "cmd_size E args s =
     (if length args \<noteq> 2 then fail TOO_MANY_TOKENS s
      else and_then (on_fs (fsutil_size (s_fs E) (args ! 1)) s)
        (\<lambda>(n, s). if n = - 1 then fail FILE_DOES_NOT_EXIST s
                  else Returns (0, print_line (''File length: '' @ decimal_int n) s)))"

definition cmd_seek :: "shell_env \<Rightarrow> string list \<Rightarrow> shell \<Rightarrow> (int \<times> shell) outcome" where
  "cmd_seek E args s =
     (if length args \<noteq> 3 then fail TOO_MANY_TOKENS s
      else and_then (defined (atoi (args ! 2)))
        (\<lambda>ofs. and_then (on_fs (fsutil_seek (s_fs E) (args ! 1) ofs) s)
          (\<lambda>(status, s). if status = - 1 then fail FILE_DOES_NOT_EXIST s else Returns (0, s))))"

definition cmd_freespace :: "string list \<Rightarrow> shell \<Rightarrow> (int \<times> shell) outcome" where
  "cmd_freespace args s =
     (if length args \<noteq> 1 then fail TOO_MANY_TOKENS s
      else and_then (defined (do { n \<leftarrow> fsutil_freespace (file_system s); b \<leftarrow> off32 (n * 512); Some (n, b) }))
        (\<lambda>(n, b). Returns (0, print_line
           (''Num free sectors: '' @ decimal_int n @ '' ('' @ decimal_int b @ '' total bytes)'') s)))"

definition cmd_fragmentation_degree :: "shell_env \<Rightarrow> string list \<Rightarrow> shell \<Rightarrow> (int \<times> shell) outcome" where
  "cmd_fragmentation_degree E args s =
     (if length args \<noteq> 1 then fail TOO_MANY_TOKENS s
      else and_then (on_fs (fragmentation_degree (s_fs E) (s_name E)) s)
        (\<lambda>((a, b), s). Returns (0, print_out (Fragments a b) s)))"

definition cmd_defragment :: "shell_env \<Rightarrow> string list \<Rightarrow> shell \<Rightarrow> (int \<times> shell) outcome" where
  "cmd_defragment E args s =
     (if length args \<noteq> 1 then fail TOO_MANY_TOKENS s
      else and_then (on_fs (defragment (s_fs E)) s)
        (\<lambda>(status, s). if status \<noteq> 0 then handle_error status s else Returns (0, s)))"

definition cmd_recover :: "shell_env \<Rightarrow> string list \<Rightarrow> shell \<Rightarrow> (int \<times> shell) outcome" where
  "cmd_recover E args s =
     (if length args \<noteq> 2 then fail TOO_MANY_TOKENS s
      else and_then (defined (atoi (args ! 1)))
        (\<lambda>flag. and_then (on_fs (recover (s_fs E) flag) s)
          (\<lambda>(written, s). Returns (0, s\<lparr>host := fold (\<lambda>(n, d) h. h(n \<mapsto> d)) written (host s)\<rparr>))))"

section \<open>The interpreter\<close>

definition interpreter :: "shell_env \<Rightarrow> parser \<Rightarrow> string list \<Rightarrow> shell \<Rightarrow> (int \<times> shell) outcome" where
  "interpreter E P command_args s =
     (case map strip command_args of
        [] \<Rightarrow> fail TOO_FEW_TOKENS s
      | name # rest \<Rightarrow>
          let args = name # rest
          in if name = ''help'' then (if 1 < length args then fail TOO_MANY_TOKENS s else show_help s)
             else if name = ''quit'' \<or> name = ''exit'' then cmd_quit E args s
             else if name = ''set'' then cmd_set args s
             else if name = ''print'' then cmd_print args s
             else if name = ''run'' then cmd_run E P args s
             else if name = ''echo'' then cmd_echo args s
             else if name = ''exec'' then cmd_exec E P args s
             else if name = ''resetmem'' then
               and_then (defined (reset_var_zone (memory s))) (\<lambda>m. Returns (0, s\<lparr>memory := m\<rparr>))
             else if name = ''ls'' then cmd_ls E args s
             else if name = ''cat'' then cmd_cat E args s
             else if name = ''rm'' then cmd_rm E args s
             else if name = ''create'' then cmd_create E args s
             else if name = ''write'' then cmd_write E args s
             else if name = ''find_file'' then cmd_find_file E args s
             else if name = ''read'' then cmd_read E args s
             else if name = ''copy_in'' then cmd_copy_in E args s
             else if name = ''copy_out'' then cmd_copy_out E args s
             else if name = ''size'' then cmd_size E args s
             else if name = ''seek'' then cmd_seek E args s
             else if name = ''freespace'' then cmd_freespace args s
             else if name = ''fragmentation_degree'' then cmd_fragmentation_degree E args s
             else if name = ''defragment'' then cmd_defragment E args s
             else if name = ''recover'' then cmd_recover E args s
             else fail BAD_COMMAND s)"

end
