(* ===== verification/Script_Lines.thy ===== *)
theory Script_Lines
  imports Interpreter
begin

text \<open>
  Scripts as lists of lines, what their lines may change, how \<open>fgets\<close> cuts the text of a script, and
  how the lines of a page get into a frame.
\<close>

declare upt_rec_numeral [simp del]

section \<open>Scripts and the part of the state that commands change\<close>

text \<open>The lines of a script as \<open>fgets\<close> yields them; the last one has no newline.\<close>

definition raw_lines :: "string list \<Rightarrow> string list" where
  "raw_lines ls = (if ls = [] then [] else map (\<lambda>l. l @ [newline]) (butlast ls) @ [List.last ls])"

definition script_ok :: "string list \<Rightarrow> bool" where
  "script_ok ls \<longleftrightarrow> ls \<noteq> [] \<and> (\<forall>l \<in> set ls. l \<noteq> [] \<and> newline \<notin> set l \<and> CHR 0x00 \<notin> set l \<and> length l < 997)"

record user =
  user_vars :: memory
  user_name_count :: nat
  user_rest :: string
  user_host :: host_files
  user_fs :: fs
  user_outputs :: "shell_output list"

definition user_of :: "shell \<Rightarrow> user" where
  "user_of s = \<lparr>user_vars = drop 30 (memory s), user_name_count = new_name_count s, user_rest = strtok_rest s,
     user_host = host s, user_fs = file_system s, user_outputs = outputs s\<rparr>"

definition put_user :: "user \<Rightarrow> shell \<Rightarrow> shell" where
  "put_user u s = s\<lparr>memory := take 30 (memory s) @ user_vars u, new_name_count := user_name_count u,
     strtok_rest := user_rest u, host := user_host u, file_system := user_fs u, outputs := user_outputs u\<rparr>"

text \<open>
  A parser that treats the given lines as commands of their own: each changes only what commands
  change, and none returns 1, which the scheduler would take for a page fault.
\<close>

definition plain_on :: "string list \<Rightarrow> (string \<Rightarrow> user \<Rightarrow> (int \<times> user) option) \<Rightarrow> parser \<Rightarrow> bool" where
  "plain_on L F P \<longleftrightarrow> (\<forall>l \<in> set L.
     (\<forall>s. mem_ok (memory s) \<longrightarrow>
        P l s = (case F l (user_of s) of None \<Rightarrow> Undefined | Some (r, u) \<Rightarrow> Returns (r, put_user u s))) \<and>
     (\<forall>u r u'. F l u = Some (r, u') \<longrightarrow> length (user_vars u) = 90 \<longrightarrow> r \<noteq> 1 \<and> length (user_vars u') = 90))"

primrec run_lines :: "(string \<Rightarrow> user \<Rightarrow> (int \<times> user) option) \<Rightarrow> string list \<Rightarrow> user \<Rightarrow> user option" where
  "run_lines F [] u = Some u"
| "run_lines F (l # ls) u = do { (r, u) \<leftarrow> F l u; run_lines F ls u }"

text \<open>No process, and all frames free.\<close>

definition kernel_idle :: "shell \<Rightarrow> bool" where
  "kernel_idle s \<longleftrightarrow> mem_ok (memory s) \<and> (\<forall>c < 30. cell_var (memory s ! c) = ''none'') \<and>
     QUEUE s = [] \<and> LRU_CACHE s = [] \<and> ALL_PCB s = []"

section \<open>Reading a script\<close>

lemma length_raw_lines [simp]: "length (raw_lines ls) = length ls"
  by (simp add: raw_lines_def)

lemma raw_line:
  assumes "script_ok ls" and "c < length ls"
  shows "raw_lines ls ! c = (if Suc c = length ls then ls ! c else ls ! c @ [newline])"
proof (cases "Suc c = length ls")
  case True
  then have "length ls - Suc 0 = c" by simp
  with True show ?thesis using assms by (auto simp: raw_lines_def script_ok_def nth_append last_conv_nth)
next
  case False
  then show ?thesis using assms by (auto simp: raw_lines_def script_ok_def nth_append nth_butlast)
qed

lemma raw_line_facts:
  assumes "script_ok ls" and "c < length ls"
  shows "raw_lines ls ! c \<noteq> []" and "c_str (raw_lines ls ! c) = raw_lines ls ! c"
    and "fgets 998 (concat (drop c (raw_lines ls))) = (raw_lines ls ! c, concat (drop (Suc c) (raw_lines ls)))"
proof -
  have l: "ls ! c \<noteq> []" "newline \<notin> set (ls ! c)" "CHR 0x00 \<notin> set (ls ! c)" "length (ls ! c) < 997"
    using assms by (simp_all add: script_ok_def)
  show "raw_lines ls ! c \<noteq> []" using l(1) by (simp add: raw_line [OF assms])
  have "takeWhile (\<lambda>x. x \<noteq> CHR 0x00) (ls ! c @ xs) = ls ! c @ takeWhile (\<lambda>x. x \<noteq> CHR 0x00) xs" for xs
    using l(3) by (intro takeWhile_append2) auto
  from this [of "[]"] this [of "[newline]"] show "c_str (raw_lines ls ! c) = raw_lines ls ! c"
    by (simp add: raw_line [OF assms] c_str_def)
  have d: "drop c (raw_lines ls) = raw_lines ls ! c # drop (Suc c) (raw_lines ls)"
    using assms(2) by (simp add: Cons_nth_drop_Suc)
  show "fgets 998 (concat (drop c (raw_lines ls))) = (raw_lines ls ! c, concat (drop (Suc c) (raw_lines ls)))"
  proof (cases "Suc c = length ls")
    case True
    then show ?thesis using l by (simp add: d raw_line [OF assms] fgets_line)
  next
    case False
    then show ?thesis using fgets_line(1) [of "ls ! c" 998] l by (simp add: d raw_line [OF assms])
  qed
qed

lemma concat_raw_empty: "script_ok ls \<Longrightarrow> concat (drop c (raw_lines ls)) = [] \<longleftrightarrow> length ls \<le> c"
proof (cases "c < length ls")
  case True
  assume ok: "script_ok ls"
  have "drop c (raw_lines ls) = raw_lines ls ! c # drop (Suc c) (raw_lines ls)"
    using True by (simp add: Cons_nth_drop_Suc)
  then show ?thesis using raw_line_facts(1) [OF ok True] True by simp
qed simp

lemma count_newlines_body:
  "newline \<notin> set l \<Longrightarrow> l \<noteq> [] \<Longrightarrow> count_newlines c (l @ xs) = count_newlines (List.last l) xs"
  by (induction l arbitrary: c) auto

lemma count_newlines_raw:
  "script_ok ls \<Longrightarrow> Suc (count_newlines newline (concat (raw_lines ls))) = length ls"
proof (induction ls)
  case (Cons l ls)
  then have l: "newline \<notin> set l" "l \<noteq> []" by (simp_all add: script_ok_def)
  then have "List.last l \<noteq> newline" by (metis last_in_set)
  show ?case
  proof (cases "ls = []")
    case True
    then show ?thesis using count_newlines_body [OF l, of newline "[]"] by (simp add: raw_lines_def)
  next
    case False
    then have "Suc (count_newlines newline (concat (raw_lines ls))) = length ls"
      using Cons by (simp add: script_ok_def)
    moreover have "concat (raw_lines (l # ls)) = l @ newline # concat (raw_lines ls)"
      using False by (simp add: raw_lines_def)
    ultimately show ?thesis using count_newlines_body [OF l] \<open>List.last l \<noteq> newline\<close> by simp
  qed
qed (simp add: script_ok_def)

section \<open>Loading a page\<close>

text \<open>
  The memory, the page and the process after \<open>j\<close> lines have been loaded from line \<open>c\<close> on into the
  frame that starts at cell \<open>b\<close>.
\<close>

definition loaded_memory :: "string list \<Rightarrow> string \<Rightarrow> nat \<Rightarrow> nat \<Rightarrow> nat \<Rightarrow> memory \<Rightarrow> memory" where
  "loaded_memory L pid b c j m =
     map (\<lambda>a. if b \<le> a \<and> a < b + j \<and> c + (a - b) < length L then \<lparr>cell_var = pid, cell_value = L ! (c + (a - b))\<rparr>
               else m ! a) [0..<length m]"

definition loaded_bits :: "nat \<Rightarrow> nat \<Rightarrow> nat \<Rightarrow> bool list" where
  "loaded_bits n c j = map (\<lambda>a. a < j \<and> c + a < n) [0..<3]"

definition loaded :: "string list \<Rightarrow> string \<Rightarrow> nat \<Rightarrow> nat \<Rightarrow> nat \<Rightarrow> nat \<Rightarrow> page \<Rightarrow> pcb \<Rightarrow> nat \<Rightarrow> shell \<Rightarrow> shell" where
  "loaded L pid p q b c pg x j s = s\<lparr>memory := loaded_memory L pid b c j (memory s),
     pages := (pages s)(q \<mapsto> pg\<lparr>valid_bit := loaded_bits (length L) c j\<rparr>),
     pcbs := (pcbs s)(p \<mapsto> x\<lparr>source_file := concat (drop (c + j) L)\<rparr>)\<rparr>"

lemma loaded_memory_Suc:
  assumes "c + j < length L" and "b + j < length m"
  shows "(loaded_memory L pid b c j m)[b + j := \<lparr>cell_var = pid, cell_value = L ! (c + j)\<rparr>] = loaded_memory L pid b c (Suc j) m"
  using assms by (intro nth_equalityI) (auto simp: loaded_memory_def nth_list_update less_Suc_eq)

lemma loaded_bits_Suc: "j < 3 \<Longrightarrow> c + j < n \<Longrightarrow> (loaded_bits n c j)[j := True] = loaded_bits n c (Suc j)"
  by (intro nth_equalityI) (auto simp: loaded_bits_def nth_list_update less_Suc_eq)

lemma loaded_beyond:
  assumes "length L \<le> c + j" and "j \<le> k"
  shows "loaded L pid p q b c pg x j s = loaded L pid p q b c pg x k s"
proof -
  have "loaded_memory L pid b c j m = loaded_memory L pid b c k m" for m
    using assms unfolding loaded_memory_def by (intro map_cong) auto
  moreover have "loaded_bits (length L) c j = loaded_bits (length L) c k"
    using assms unfolding loaded_bits_def by (intro map_cong) auto
  ultimately show ?thesis using assms by (simp add: loaded_def)
qed

lemma length_loaded_memory [simp]: "length (loaded_memory L pid b c j m) = length m"
  by (simp add: loaded_memory_def)

lemma load_lines_eq:
  assumes "script_ok ls" and "L = raw_lines ls" and "frame_index pg = [b, b + 1, b + 2]" and "b + 3 \<le> length (memory s)"
  shows "j \<le> 3 \<Longrightarrow> load_lines p q pid [j..<3] (loaded L pid p q b c pg x j s) = Some (loaded L pid p q b c pg x 3 s)"
proof (induction "3 - j" arbitrary: j)
  case (Suc d)
  then have j: "j < 3" by simp
  have sel: "pcbs (loaded L pid p q b c pg x j s) p = Some (x\<lparr>source_file := concat (drop (c + j) L)\<rparr>)"
    "pages (loaded L pid p q b c pg x j s) q = Some (pg\<lparr>valid_bit := loaded_bits (length L) c j\<rparr>)"
    "memory (loaded L pid p q b c pg x j s) = loaded_memory L pid b c j (memory s)"
    by (simp_all add: loaded_def)
  have upt: "[j..<3] = j # [Suc j..<3]" using j by (simp add: upt_conv_Cons)
  have idx: "frame_index pg ! j = b + j" using j assms(3) by (auto simp: less_Suc_eq numeral_3_eq_3)
  show ?case
  proof (cases "c + j < length ls")
    case True
    note facts = raw_line_facts [OF assms(1) True, folded assms(2)]
    have "concat (drop (c + j) L) \<noteq> []" using concat_raw_empty [OF assms(1)] True by (simp add: assms(2))
    moreover have "mem_set_value_at (b + j) pid (L ! (c + j)) (loaded_memory L pid b c j (memory s)) =
        Some (loaded_memory L pid b c (Suc j) (memory s))"
      using assms(4) j True loaded_memory_Suc [of c j L b "memory s" pid]
      by (simp add: mem_set_value_at_def assms(2))
    ultimately have "load_lines p q pid [j..<3] (loaded L pid p q b c pg x j s) =
        load_lines p q pid [Suc j..<3] (loaded L pid p q b c pg x (Suc j) s)"
      using facts idx loaded_bits_Suc [OF j, of c "length L"] True
      by (simp add: upt sel del: concat_eq_Nil_conv) (simp add: loaded_def assms(2))
    moreover have "load_lines p q pid [Suc j..<3] (loaded L pid p q b c pg x (Suc j) s) = Some (loaded L pid p q b c pg x 3 s)"
      using Suc.hyps(1) [of "Suc j"] Suc.hyps(2) j by simp
    ultimately show ?thesis by simp
  next
    case False
    then have "concat (drop (c + j) L) = []" using concat_raw_empty [OF assms(1)] by (simp add: assms(2))
    then have "load_lines p q pid [j..<3] (loaded L pid p q b c pg x j s) = Some (loaded L pid p q b c pg x j s)"
      by (simp add: upt sel)
    moreover have "loaded L pid p q b c pg x j s = loaded L pid p q b c pg x 3 s"
      by (rule loaded_beyond) (use False j in \<open>simp_all add: assms(2)\<close>)
    ultimately show ?thesis by simp
  qed
qed simp

section \<open>Pages and counters\<close>

definition page_count :: "nat \<Rightarrow> nat" where
  "page_count n = (n + 2) div 3"

definition counters :: "nat \<Rightarrow> nat \<Rightarrow> nat list" where
  "counters n k = map (\<lambda>i. min 3 (k - 3 * i)) [0..<page_count n]"

lemma page_count_bounds:
  "n \<le> 3 * page_count n" "n \<le> 27 \<Longrightarrow> page_count n \<le> 9" "3 * i < n \<longleftrightarrow> i < page_count n"
  by (simp_all add: page_count_def) presburger+

lemma nth_triple: "j < 3 \<Longrightarrow> [a, a + 1, a + 2] ! j = a + (j :: nat)"
  by (auto simp: numeral_3_eq_3 less_Suc_eq)

lemma counters_nth: "i < page_count n \<Longrightarrow> counters n k ! i = min 3 (k - 3 * i)"
  by (simp add: counters_def)

lemma find_counter:
  assumes "k < n"
  shows "List.find (\<lambda>i. counters n k ! i \<noteq> 3) [0..<page_count n] = Some (k div 3)"
    and "k div 3 < page_count n" and "counters n k ! (k div 3) = k mod 3"
proof -
  have "3 * (k div 3) \<le> k" by simp
  then show lt: "k div 3 < page_count n" using assms by (subst page_count_bounds(3) [symmetric]) linarith
  show c: "counters n k ! (k div 3) = k mod 3" using lt by (simp add: counters_nth minus_mult_div_eq_mod [symmetric])
  have "counters n k ! j = 3" if "j < k div 3" for j
  proof -
    have "3 * j + 3 \<le> k" using that less_eq_div_iff_mult_less_eq [of 3 "Suc j" k] by simp
    then show ?thesis using that lt by (simp add: counters_nth)
  qed
  with lt c show "List.find (\<lambda>i. counters n k ! i \<noteq> 3) [0..<page_count n] = Some (k div 3)"
    by (auto simp: find_upt_Some_iff)
qed

lemma counters_Suc:
  assumes "k < n"
  shows "(counters n k)[k div 3 := Suc (k mod 3)] = counters n (Suc k)"
proof (rule nth_equalityI)
  fix i assume "i < length ((counters n k)[k div 3 := Suc (k mod 3)])"
  then have i: "i < page_count n" by (simp add: counters_def)
  show "(counters n k)[k div 3 := Suc (k mod 3)] ! i = counters n (Suc k) ! i"
  proof (cases "i = k div 3")
    case True
    then have "Suc k - 3 * i = Suc (k mod 3)" by (simp add: minus_mult_div_eq_mod Suc_diff_le)
    with True i show ?thesis by (simp add: counters_def)
  next
    case False
    then have "min 3 (k - 3 * i) = min 3 (Suc k - 3 * i)" by presburger
    with False i show ?thesis by (simp add: counters_def)
  qed
qed (simp add: counters_def)

lemma put_user_facts:
  assumes "length (memory s) = 120" and "length (user_vars u) = 90"
  shows "user_of (put_user u s) = u" and "length (memory (put_user u s)) = 120"
    and "c < 30 \<Longrightarrow> memory (put_user u s) ! c = memory s ! c"
  using assms by (simp_all add: user_of_def put_user_def nth_append)

lemma PAGE_table_size_eq: "nat (PAGE_table_size (int n)) = page_count n"
proof -
  have "page_count n = (if n mod 3 = 0 then n div 3 else n div 3 + 1)"
    unfolding page_count_def by presburger
  moreover have "c_rem (int n) 3 = int (n mod 3)" "c_div (int n) 3 = int (n div 3)"
    by (simp_all add: c_rem_nonneg c_div_nonneg zmod_int zdiv_int)
  ultimately show ?thesis by (simp add: PAGE_table_size_def nat_add_distrib)
qed

section \<open>Cells cleared at the end\<close>

definition clear_range :: "nat \<Rightarrow> nat \<Rightarrow> memory \<Rightarrow> memory" where
  "clear_range a b m = map (\<lambda>c. if a \<le> c \<and> c < b then free_cell else m ! c) [0..<length m]"

lemma length_clear_range [simp]: "length (clear_range a b m) = length m"
  by (simp add: clear_range_def)

lemma nth_clear_range: "c < length m \<Longrightarrow> clear_range a b m ! c = (if a \<le> c \<and> c < b then free_cell else m ! c)"
  by (simp add: clear_range_def)

lemma ofold_mem_free_at: "a \<le> b \<Longrightarrow> b \<le> length m \<Longrightarrow> ofold mem_free_at [a..<b] m = Some (clear_range a b m)"
proof (induction b)
  case (Suc b)
  show ?case
  proof (cases "a \<le> b")
    case True
    have "(clear_range a b m)[b := free_cell] = clear_range a (Suc b) m"
      using Suc.prems True by (intro nth_equalityI) (auto simp: nth_list_update nth_clear_range less_Suc_eq)
    with Suc True show ?thesis by (simp add: mem_free_at_def)
  next
    case False
    then have "a = Suc b" using Suc.prems(1) by simp
    moreover have "clear_range (Suc b) (Suc b) m = m" by (intro nth_equalityI) (auto simp: nth_clear_range)
    ultimately show ?thesis by simp
  qed
qed (simp add: clear_range_def map_nth)

text \<open>
  \<open>free_PCB\<close> clears three cells from each of the three cells of a page on, so two cells behind the
  page as well.
\<close>

lemma clear_page:
  assumes "c + 5 \<le> length m"
  shows "ofold clear_frame [c, c + 1, c + 2] m = Some (clear_range c (c + 5) m)"
proof -
  have "clear_range (c + 2) (c + 5) (clear_range (c + 1) (c + 4) (clear_range c (c + 3) m)) = clear_range c (c + 5) m"
    using assms by (intro nth_equalityI) (auto simp: nth_clear_range)
  moreover have "clear_frame a m' = Some (clear_range a (a + 3) m')" if "a + 3 \<le> length m'" for a m'
    using that by (simp add: clear_frame_def ofold_mem_free_at)
  ultimately show ?thesis using assms by (simp add: add.commute add.left_commute)
qed

lemma length_decimal: "n < 10 ^ Suc k \<Longrightarrow> length (decimal n) \<le> Suc k"
proof (induction k arbitrary: n)
  case 0
  then show ?case by (simp add: decimal.simps)
next
  case (Suc k)
  then have "n div 10 < 10 ^ Suc k" by (simp add: div_less_iff_less_mult)
  from Suc.IH [OF this] show ?case by (subst decimal.simps) simp
qed

lemma decimal_int_pid:
  assumes "0 \<le> pid" and "pid < 10 ^ 9"
  shows "length (decimal_int pid) < 10" and "decimal_int pid \<noteq> ''none''"
proof -
  have "nat pid < 10 ^ Suc 8" using assms by simp
  from length_decimal [OF this] show "length (decimal_int pid) < 10" using assms by (simp add: decimal_int_def)
  have "List.last (decimal n) = char_of (48 + n mod 10)" for n
    by (subst decimal.simps) auto
  moreover have "char_of (48 + n mod 10) \<noteq> CHR ''e''" for n :: nat
  proof
    assume "char_of (48 + n mod 10) = CHR ''e''"
    then have "of_char (char_of (48 + n mod 10)) = (of_char CHR ''e'' :: nat)" by simp
    moreover have "n mod 10 < 10" by simp
    ultimately show False by (simp del: mod_less_divisor)
  qed
  ultimately have "List.last (decimal (nat pid)) \<noteq> List.last ''none''" by simp
  then show "decimal_int pid \<noteq> ''none''" using assms by (auto simp: decimal_int_def)
qed

end
