(* ===== verification/Script_Processes.thy ===== *)
theory Script_Processes
  imports Script_Lines
begin

text \<open>
  Any number of processes that share the frames: what it means that their lines are in their pages, and
  that loading a page, executing a line, a page fault and the freeing of all processes keep this.
\<close>

declare upt_rec_numeral [simp del]

section \<open>Processes and their pages\<close>

text \<open>A process: its script, number and page table, the frames of its loaded pages, and how many lines it has executed.\<close>

record proc =
  r_lines :: "string list"
  r_pid :: int
  r_table :: "nat list"
  r_frames :: "nat list"
  r_done :: nat

abbreviation r_size :: "proc \<Rightarrow> nat" where
  "r_size x \<equiv> length (r_lines x)"

abbreviation r_loaded :: "proc \<Rightarrow> nat" where
  "r_loaded x \<equiv> length (r_frames x)"

definition proc_ok :: "proc \<Rightarrow> bool" where
  "proc_ok x \<longleftrightarrow> script_ok (r_lines x) \<and> length (decimal_int (r_pid x)) < 10 \<and> decimal_int (r_pid x) \<noteq> ''none'' \<and>
     length (r_table x) = page_count (r_size x) \<and> r_loaded x \<le> page_count (r_size x) \<and>
     r_done x \<le> r_size x \<and> r_done x \<le> 3 * r_loaded x"

definition loaded_page :: "int \<Rightarrow> nat \<Rightarrow> nat \<Rightarrow> nat \<Rightarrow> page" where
  "loaded_page pid n f i = \<lparr>frame_index = [3 * f, 3 * f + 1, 3 * f + 2], valid_bit = loaded_bits n (3 * i) 3,
     page_index = i, page_pid = pid\<rparr>"

definition page_of :: "proc \<Rightarrow> nat \<Rightarrow> page" where
  "page_of x i = (if i < r_loaded x then loaded_page (r_pid x) (r_size x) (r_frames x ! i) i else PAGE_init (r_pid x) i)"

definition pcb_of :: "proc \<Rightarrow> pcb" where
  "pcb_of x = \<lparr>pcb_pid = r_pid x, pcb_size = int (r_size x) - int (r_done x), program_counter = counters (r_size x) (r_done x),
     page_table = r_table x, source_file = concat (drop (3 * r_loaded x) (raw_lines (r_lines x)))\<rparr>"

text \<open>The lines of a process are in its frames, which are among the first \<open>M\<close>.\<close>

definition cells_hold :: "proc \<Rightarrow> nat \<Rightarrow> memory \<Rightarrow> bool" where
  "cells_hold x M mem \<longleftrightarrow> (\<forall>i < r_loaded x. r_frames x ! i < M \<and>
     (\<forall>c < 3. 3 * i + c < r_size x \<longrightarrow> cell_value (mem ! (3 * (r_frames x ! i) + c)) = raw_lines (r_lines x) ! (3 * i + c)))"

definition proc_at :: "proc \<Rightarrow> nat \<Rightarrow> nat \<Rightarrow> shell \<Rightarrow> bool" where
  "proc_at x p M s \<longleftrightarrow> proc_ok x \<and> pcbs s p = Some (pcb_of x) \<and>
     (\<forall>i < page_count (r_size x). pages s (r_table x ! i) = Some (page_of x i)) \<and> cells_hold x M (memory s)"

text \<open>
  Different processes, and different pages of a process, have different entries in a table of
  references or frames.
\<close>

definition separate :: "nat set \<Rightarrow> (nat \<Rightarrow> nat list) \<Rightarrow> bool" where
  "separate A f \<longleftrightarrow> (\<forall>p \<in> A. \<forall>q \<in> A. \<forall>i < length (f p). \<forall>j < length (f q). f p ! i = f q ! j \<longrightarrow> p = q \<and> i = j)"

definition pages_left :: "proc \<Rightarrow> nat" where
  "pages_left x = page_count (r_size x) - r_loaded x"

text \<open>The processes \<open>R p\<close> for \<open>p\<close> in \<open>A\<close> use the first \<open>M\<close> frames, and there are enough for all their pages.\<close>

definition procs_at :: "nat set \<Rightarrow> (nat \<Rightarrow> proc) \<Rightarrow> nat \<Rightarrow> shell \<Rightarrow> bool" where
  "procs_at A R M s \<longleftrightarrow> finite A \<and> length (memory s) = 120 \<and>
     (\<forall>c < 30. cell_var (memory s ! c) = ''none'' \<longleftrightarrow> 3 * M \<le> c) \<and>
     M + (\<Sum>p \<in> A. pages_left (R p)) \<le> 9 \<and> (\<forall>p \<in> A. proc_at (R p) p M s) \<and>
     (\<forall>f < M. \<exists>p \<in> A. f \<in> set (r_frames (R p))) \<and>
     separate A (\<lambda>p. r_frames (R p)) \<and> separate A (\<lambda>p. r_table (R p))"

lemma proc_okD:
  assumes "proc_ok x"
  shows "script_ok (r_lines x)" "length (decimal_int (r_pid x)) < 10" "decimal_int (r_pid x) \<noteq> ''none''"
    "length (r_table x) = page_count (r_size x)" "r_loaded x \<le> page_count (r_size x)" "r_done x \<le> r_size x"
    "r_done x \<le> 3 * r_loaded x"
  using assms by (simp_all add: proc_ok_def)

lemma proc_atD:
  assumes "proc_at x p M s"
  shows "proc_ok x" "pcbs s p = Some (pcb_of x)"
    "i < page_count (r_size x) \<Longrightarrow> pages s (r_table x ! i) = Some (page_of x i)" "cells_hold x M (memory s)"
  using assms by (simp_all add: proc_at_def)

lemma procs_atD:
  assumes "procs_at A R M s"
  shows "finite A" "length (memory s) = 120" "c < 30 \<Longrightarrow> cell_var (memory s ! c) = ''none'' \<longleftrightarrow> 3 * M \<le> c"
    "M + (\<Sum>p \<in> A. pages_left (R p)) \<le> 9" "p \<in> A \<Longrightarrow> proc_at (R p) p M s"
    "separate A (\<lambda>p. r_frames (R p))" "separate A (\<lambda>p. r_table (R p))" "M \<le> 9"
    "f < M \<Longrightarrow> \<exists>p \<in> A. f \<in> set (r_frames (R p))"
proof -
  show "finite A" "length (memory s) = 120" "c < 30 \<Longrightarrow> cell_var (memory s ! c) = ''none'' \<longleftrightarrow> 3 * M \<le> c"
    "M + (\<Sum>p \<in> A. pages_left (R p)) \<le> 9" "p \<in> A \<Longrightarrow> proc_at (R p) p M s"
    "separate A (\<lambda>p. r_frames (R p))" "separate A (\<lambda>p. r_table (R p))" "f < M \<Longrightarrow> \<exists>p \<in> A. f \<in> set (r_frames (R p))"
    using assms unfolding procs_at_def by blast+
  then show "M \<le> 9" by linarith
qed

lemma separateD:
  "separate A f \<Longrightarrow> p \<in> A \<Longrightarrow> q \<in> A \<Longrightarrow> i < length (f p) \<Longrightarrow> j < length (f q) \<Longrightarrow> f p ! i = f q ! j \<Longrightarrow> p = q \<and> i = j"
  unfolding separate_def by blast

section \<open>Loading the next page of a process\<close>

lemma frame_alloc_next:
  assumes "length mem = 120" and "\<forall>c < 30. cell_var (mem ! c) = ''none'' \<longleftrightarrow> 3 * M \<le> c" and "M \<le> 9"
  shows "frame_alloc ps mem = Some (3 * M, mark_frame ps (3 * M) mem)"
proof -
  have "frame_free mem (3 * M)"
    using assms by (auto simp: frame_free_def)
  moreover have "\<not> frame_free mem j" if "j < 3 * M" for j
    using assms that by (auto simp: frame_free_def intro!: exI [of _ 0])
  moreover have "3 * M < 30" using assms(3) by simp
  ultimately have "List.find (frame_free mem) [0..<30] = Some (3 * M)" by (auto simp: find_upt_Some_iff)
  then show ?thesis by (simp add: frame_alloc_eq)
qed

text \<open>The memory after a page from line \<open>c\<close> on has been loaded into frame \<open>M\<close>.\<close>

abbreviation paged_in :: "string list \<Rightarrow> string \<Rightarrow> nat \<Rightarrow> nat \<Rightarrow> memory \<Rightarrow> memory" where
  "paged_in L ps M c mem \<equiv> loaded_memory L ps (3 * M) c 3 (mark_frame ps (3 * M) mem)"

lemma paged_in_nth:
  assumes "length mem = 120" and "M \<le> 9" and "a < 120"
  shows "paged_in L ps M c mem ! a =
    (if 3 * M \<le> a \<and> a < 3 * M + 3 then
       (if c + (a - 3 * M) < length L then \<lparr>cell_var = ps, cell_value = L ! (c + (a - 3 * M))\<rparr> else (mem ! a)\<lparr>cell_var := ps\<rparr>)
     else mem ! a)"
  using assms mark_frame_nth [OF assms(1), of "3 * M" ps] by (simp add: loaded_memory_def)

lemma paged_in_facts:
  assumes "length mem = 120" and "M \<le> 9" and "ps \<noteq> ''none''" and "\<forall>c < 30. cell_var (mem ! c) = ''none'' \<longleftrightarrow> 3 * M \<le> c"
  shows "length (paged_in L ps M c mem) = 120" and "drop 30 (paged_in L ps M c mem) = drop 30 mem"
    and "a < 30 \<Longrightarrow> cell_var (paged_in L ps M c mem ! a) = ''none'' \<longleftrightarrow> 3 * Suc M \<le> a"
    and "d < 3 \<Longrightarrow> c + d < length L \<Longrightarrow> cell_value (paged_in L ps M c mem ! (3 * M + d)) = L ! (c + d)"
    and "a < 3 * M \<Longrightarrow> paged_in L ps M c mem ! a = mem ! a"
proof -
  note mk = mark_frame_nth [OF assms(1), of "3 * M" ps]
  show len: "length (paged_in L ps M c mem) = 120" using mk assms(2) by simp
  show "drop 30 (paged_in L ps M c mem) = drop 30 mem"
    using assms(1,2) len by (intro nth_equalityI) (simp_all add: paged_in_nth del: length_loaded_memory)
  show "a < 30 \<Longrightarrow> cell_var (paged_in L ps M c mem ! a) = ''none'' \<longleftrightarrow> 3 * Suc M \<le> a"
    using assms by (auto simp: paged_in_nth)
  show "d < 3 \<Longrightarrow> c + d < length L \<Longrightarrow> cell_value (paged_in L ps M c mem ! (3 * M + d)) = L ! (c + d)"
    using assms(1,2) by (simp add: paged_in_nth)
  show "a < 3 * M \<Longrightarrow> paged_in L ps M c mem ! a = mem ! a" using assms(1,2) by (simp add: paged_in_nth)
qed

text \<open>The next page of a process goes into the next frame.\<close>

definition load_next :: "nat \<Rightarrow> proc \<Rightarrow> proc" where
  "load_next M x = x\<lparr>r_frames := r_frames x @ [M]\<rparr>"

lemma load_next_simps [simp]:
  "r_lines (load_next M x) = r_lines x" "r_pid (load_next M x) = r_pid x" "r_table (load_next M x) = r_table x"
  "r_frames (load_next M x) = r_frames x @ [M]" "r_done (load_next M x) = r_done x"
  by (simp_all add: load_next_def)

lemma separate_update_table:
  "r_table x = r_table (R p) \<Longrightarrow> separate A (\<lambda>q. r_table ((R(p := x)) q)) = separate A (\<lambda>q. r_table (R q))"
  by (intro arg_cong [where f = "separate A"]) auto

lemma separate_update_frames:
  "r_frames x = r_frames (R p) \<Longrightarrow> separate A (\<lambda>q. r_frames ((R(p := x)) q)) = separate A (\<lambda>q. r_frames (R q))"
  by (intro arg_cong [where f = "separate A"]) auto

lemma separate_snoc:
  assumes "separate A f" and "\<forall>q \<in> A. \<forall>i < length (f q). f q ! i < M"
  shows "separate A (f(p := f p @ [M]))"
  unfolding separate_def
proof (intro ballI allI impI)
  let ?g = "f(p := f p @ [M])"
  fix a b i j assume ab: "a \<in> A" "b \<in> A" "i < length (?g a)" "j < length (?g b)" "?g a ! i = ?g b ! j"
  have g: "c \<in> A \<Longrightarrow> k < length (?g c) \<Longrightarrow> c = p \<and> k = length (f p) \<and> ?g c ! k = M \<or> k < length (f c) \<and> ?g c ! k = f c ! k" for c k
    by (auto simp: nth_append less_Suc_eq split: if_splits)
  from g [OF ab(1,3)] g [OF ab(2,4)] show "a = b \<and> i = j"
    using ab(5) assms(2) separateD [OF assms(1) ab(1,2)] ab(1,2) by (metis less_irrefl)
qed

lemma proc_at_cong:
  assumes "proc_at x p M s" and "pcbs s' p = pcbs s p" and "\<forall>i < page_count (r_size x). pages s' (r_table x ! i) = pages s (r_table x ! i)"
    and "\<forall>a < 3 * M. memory s' ! a = memory s ! a" and "M \<le> M'"
  shows "proc_at x p M' s'"
proof -
  have "cells_hold x M' (memory s')"
    unfolding cells_hold_def
  proof (intro allI impI conjI)
    fix i assume i: "i < r_loaded x"
    then have f: "r_frames x ! i < M" using proc_atD(4) [OF assms(1)] by (simp add: cells_hold_def)
    then show "r_frames x ! i < M'" using assms(5) by simp
    fix c :: nat assume c: "c < 3" "3 * i + c < r_size x"
    have "3 * (r_frames x ! i) + c < 3 * M" using f c(1) by linarith
    then show "cell_value (memory s' ! (3 * (r_frames x ! i) + c)) = raw_lines (r_lines x) ! (3 * i + c)"
      using proc_atD(4) [OF assms(1)] assms(4) i c by (simp add: cells_hold_def)
  qed
  with assms show ?thesis by (simp add: proc_at_def)
qed

lemma load_PAGE_procs:
  assumes S: "procs_at A R M s" and p: "p \<in> A" and m: "r_loaded (R p) = m" "m < page_count (r_size (R p))"
  shows "\<exists>s'. load_PAGE p m s = Some (0, s') \<and> user_of s' = user_of s \<and> QUEUE s' = QUEUE s \<and> LRU_CACHE s' = LRU_CACHE s \<and>
    ALL_PCB s' = ALL_PCB s \<and> PID_counter s' = PID_counter s \<and> fresh_ref s' = fresh_ref s \<and>
    procs_at A (R(p := load_next M (R p))) (Suc M) s'"
proof -
  let ?x = "R p" and ?y = "load_next M (R p)"
  let ?L = "raw_lines (r_lines ?x)" and ?ps = "decimal_int (r_pid ?x)" and ?q = "r_table ?x ! m"
  note I = procs_atD [OF S] and X = proc_atD [OF procs_atD(5) [OF S p]]
  note O = proc_okD [OF X(1)]
  have b: "3 * M + 3 \<le> 30" using I(8) by simp
  let ?pg = "(PAGE_init (r_pid ?x) m)\<lparr>frame_index := [3 * M, 3 * M + 1, 3 * M + 2], valid_bit := [False, False, False]\<rparr>"
  let ?mem = "mark_frame ?ps (3 * M) (memory s)"
  let ?s0 = "s\<lparr>memory := ?mem\<rparr>"
  let ?s1 = "loaded ?L ?ps p ?q (3 * M) (3 * m) ?pg (pcb_of ?x) 3 ?s0"
  have start: "loaded ?L ?ps p ?q (3 * M) (3 * m) ?pg (pcb_of ?x) 0 ?s0 = s\<lparr>memory := ?mem, pages := (pages s)(?q \<mapsto> ?pg)\<rparr>"
  proof -
    have "loaded_memory ?L ?ps (3 * M) (3 * m) 0 ?mem = ?mem"
      unfolding loaded_memory_def by (intro nth_equalityI) auto
    moreover have "loaded_bits (length ?L) (3 * m) 0 = [False, False, False]" by (simp add: loaded_bits_def upt_rec)
    moreover have "(pcbs s)(p \<mapsto> pcb_of ?x) = pcbs s" using X(2) by (simp add: fun_upd_idem)
    ultimately show ?thesis by (simp add: loaded_def pcb_of_def m(1))
  qed
  have x: "page_table (pcb_of ?x) = r_table ?x" "pcb_pid (pcb_of ?x) = r_pid ?x" by (simp_all add: pcb_of_def)
  have "load_lines p ?q ?ps [0..<3] (loaded ?L ?ps p ?q (3 * M) (3 * m) ?pg (pcb_of ?x) 0 ?s0) = Some ?s1"
    by (rule load_lines_eq [OF O(1) refl]) (use mark_frame_nth(1) [OF I(2) b] b in \<open>simp_all add: PAGE_init_def\<close>)
  moreover have "pages s ?q = Some (PAGE_init (r_pid ?x) m)" using X(3) [OF m(2)] m(1) by (simp add: page_of_def)
  moreover have "frame_alloc ?ps (memory s) = Some (3 * M, ?mem)" using I(2,3,8) by (intro frame_alloc_next) auto
  ultimately have "load_PAGE p m s = Some (0, ?s1)"
    using O(2,4) X(2) m(2) unfolding start by (simp add: load_PAGE_def Let_def x)
  moreover have mem: "memory ?s1 = paged_in ?L ?ps M (3 * m) (memory s)" by (simp add: loaded_def)
  note P = paged_in_facts [OF I(2,8) O(3)]
  have "user_of ?s1 = user_of s" using P(2) I(3) by (simp add: user_of_def loaded_def)
  moreover have "procs_at A (R(p := ?y)) (Suc M) ?s1"
  proof -
    have left: "pages_left ?x = Suc (pages_left ?y)" using m by (simp add: pages_left_def)
    have "(\<Sum>q \<in> A. pages_left ((R(p := ?y)) q)) = pages_left ?y + (\<Sum>q \<in> A - {p}. pages_left (R q))"
      using I(1) p by (simp add: sum.remove)
    moreover have "(\<Sum>q \<in> A. pages_left (R q)) = pages_left ?x + (\<Sum>q \<in> A - {p}. pages_left (R q))"
      using I(1) p by (simp add: sum.remove)
    ultimately have sum: "Suc M + (\<Sum>q \<in> A. pages_left ((R(p := ?y)) q)) \<le> 9" using left I(4) by simp
    have below: "\<forall>q \<in> A. \<forall>i < r_loaded (R q). r_frames (R q) ! i < M"
      using I(5) by (auto simp: proc_at_def cells_hold_def)
    have fr: "separate A (\<lambda>q. r_frames ((R(p := ?y)) q))"
      using separate_snoc [OF I(6) below, of p] by (rule back_subst [where P = "separate A"]) auto
    have tb: "separate A (\<lambda>q. r_table ((R(p := ?y)) q))" by (rule separate_update_table [THEN iffD2, OF _ I(7)]) simp
    have tabs: "length (r_table (R q)) = page_count (r_size (R q))" if "q \<in> A" for q
      using proc_okD(4) [OF proc_atD(1) [OF I(5) [OF that]]] .
    have "proc_at ((R(p := ?y)) q) q (Suc M) ?s1" if q: "q \<in> A" for q
    proof (cases "q = p")
      case False
      have "r_table (R q) ! i \<noteq> ?q" if "i < page_count (r_size (R q))" for i
        using separateD [OF I(7) q p, of i m] that tabs q p m(2) False by auto
      then have "\<forall>i < page_count (r_size (R q)). pages ?s1 (r_table (R q) ! i) = pages s (r_table (R q) ! i)"
        by (simp add: loaded_def)
      moreover have "\<forall>a < 3 * M. memory ?s1 ! a = memory s ! a" unfolding mem using P(5) I(3) by simp
      ultimately have "proc_at (R q) q (Suc M) ?s1"
        by (intro proc_at_cong [OF I(5) [OF q]]) (use False in \<open>simp_all add: loaded_def\<close>)
      with False show ?thesis by simp
    next
      case True
      have "proc_ok ?y" using O m by (simp add: proc_ok_def)
      moreover have "pcbs ?s1 p = Some (pcb_of ?y)" by (simp add: loaded_def pcb_of_def m add.commute)
      moreover have "pages ?s1 (r_table ?x ! i) = Some (page_of ?y i)" if i: "i < page_count (r_size ?x)" for i
      proof (cases "i = m")
        case True
        then show ?thesis by (simp add: loaded_def page_of_def loaded_page_def PAGE_init_def m(1) nth_append)
      next
        case False
        then have "r_table ?x ! i \<noteq> ?q" using separateD [OF I(7) p p, of i m] i m(2) tabs [OF p] by auto
        then show ?thesis using X(3) [OF i] False by (simp add: loaded_def page_of_def m(1) nth_append less_Suc_eq)
      qed
      moreover have "cells_hold ?y (Suc M) (memory ?s1)"
      proof -
        have old: "cells_hold ?x (Suc M) (memory ?s1)"
          using proc_atD(4) [OF proc_at_cong [OF I(5) [OF p], of "?s1\<lparr>pcbs := pcbs s, pages := pages s\<rparr>" "Suc M"]]
            P(5) I(3) mem by simp
        moreover have "cell_value (memory ?s1 ! (3 * M + c)) = ?L ! (3 * m + c)" if "c < 3" "3 * m + c < r_size ?x" for c
          unfolding mem using P(4) [of c "3 * m" ?L] that I(3) by simp
        ultimately show ?thesis by (auto simp: cells_hold_def nth_append less_Suc_eq m(1))
      qed
      ultimately show ?thesis using True by (simp add: proc_at_def)
    qed
    moreover have "\<exists>q \<in> A. f \<in> set (r_frames ((R(p := ?y)) q))" if f: "f < Suc M" for f
    proof (cases "f = M")
      case True
      then show ?thesis using p by (intro bexI [of _ p]) simp_all
    next
      case False
      then have "f < M" using f by simp
      with I(9) obtain q where "q \<in> A" "f \<in> set (r_frames (R q))" by blast
      then show ?thesis by (intro bexI [of _ q]) auto
    qed
    ultimately show ?thesis using I(1) P(1,3) I(3) sum fr tb unfolding procs_at_def mem by blast
  qed
  moreover have "QUEUE ?s1 = QUEUE s" "LRU_CACHE ?s1 = LRU_CACHE s" "ALL_PCB ?s1 = ALL_PCB s" "PID_counter ?s1 = PID_counter s"
    "fresh_ref ?s1 = fresh_ref s" by (simp_all add: loaded_def)
  ultimately show ?thesis by blast
qed

section \<open>The lists of the kernel\<close>

definition loaded_of :: "proc \<Rightarrow> nat set" where
  "loaded_of x = (\<lambda>i. r_table x ! i) ` {..<r_loaded x}"

definition loaded_refs :: "nat set \<Rightarrow> (nat \<Rightarrow> proc) \<Rightarrow> nat set" where
  "loaded_refs A R = (\<Union>p \<in> A. loaded_of (R p))"

definition sched_at :: "(nat \<Rightarrow> proc) \<Rightarrow> nat \<Rightarrow> shell \<Rightarrow> bool" where
  "sched_at R M s \<longleftrightarrow> procs_at (set (ALL_PCB s)) R M s \<and> distinct (ALL_PCB s) \<and> distinct (LRU_CACHE s) \<and>
     set (LRU_CACHE s) = loaded_refs (set (ALL_PCB s)) R"

lemma sched_atD:
  assumes "sched_at R M s"
  shows "procs_at (set (ALL_PCB s)) R M s" "distinct (ALL_PCB s)" "distinct (LRU_CACHE s)"
    "set (LRU_CACHE s) = loaded_refs (set (ALL_PCB s)) R"
  using assms by (simp_all add: sched_at_def)

lemma procs_at_lists [simp]: "procs_at A R M (s\<lparr>LRU_CACHE := C\<rparr>) = procs_at A R M s" "procs_at A R M (s\<lparr>QUEUE := Q\<rparr>) = procs_at A R M s"
  "procs_at A R M (s\<lparr>ALL_PCB := X\<rparr>) = procs_at A R M s" "procs_at A R M (s\<lparr>PID_counter := n\<rparr>) = procs_at A R M s"
  by (simp_all add: procs_at_def proc_at_def)

lemma sched_at_QUEUE [simp]: "sched_at R M (s\<lparr>QUEUE := Q\<rparr>) = sched_at R M s"
  by (simp add: sched_at_def)

lemma user_of_lists [simp]: "user_of (s\<lparr>QUEUE := Q\<rparr>) = user_of s" "user_of (s\<lparr>LRU_CACHE := C\<rparr>) = user_of s"
  "user_of (s\<lparr>ALL_PCB := X\<rparr>) = user_of s" "user_of (s\<lparr>PID_counter := n\<rparr>) = user_of s"
  by (simp_all add: user_of_def)

lemma loaded_refs_update:
  assumes "r_table x = r_table (R p)" and "r_loaded x = r_loaded (R p)"
  shows "loaded_refs A (R(p := x)) = loaded_refs A R"
proof -
  have "loaded_of x = loaded_of (R p)" using assms by (simp add: loaded_of_def)
  then have "loaded_of ((R(p := x)) q) = loaded_of (R q)" for q by simp
  then show ?thesis by (simp add: loaded_refs_def)
qed

lemma loaded_refs_load:
  assumes "p \<in> A"
  shows "loaded_refs A (R(p := load_next M (R p))) = insert (r_table (R p) ! r_loaded (R p)) (loaded_refs A R)"
proof -
  have y: "loaded_of (load_next M (R p)) = insert (r_table (R p) ! r_loaded (R p)) (loaded_of (R p))"
    by (simp add: loaded_of_def lessThan_Suc)
  have "loaded_refs A Q = loaded_of (Q p) \<union> (\<Union>q \<in> A - {p}. loaded_of (Q q))" for Q
    using assms by (auto simp: loaded_refs_def)
  then show ?thesis using y by simp
qed

lemma next_page_not_loaded:
  assumes "procs_at A R M s" and "p \<in> A" and "r_loaded (R p) < page_count (r_size (R p))"
  shows "r_table (R p) ! r_loaded (R p) \<notin> loaded_refs A R"
proof
  note O = proc_okD [OF proc_atD(1) [OF procs_atD(5) [OF assms(1)]]]
  assume "r_table (R p) ! r_loaded (R p) \<in> loaded_refs A R"
  then obtain q i where q: "q \<in> A" "i < r_loaded (R q)" "r_table (R q) ! i = r_table (R p) ! r_loaded (R p)"
    by (auto simp: loaded_refs_def loaded_of_def)
  have "i < length (r_table (R q))" "r_loaded (R p) < length (r_table (R p))"
    using O(4,5) [OF q(1)] O(4) [OF assms(2)] q(2) assms(3) by simp_all
  with separateD [OF procs_atD(7) [OF assms(1)] q(1) assms(2)] q(2,3) show False by auto
qed

section \<open>Executing a line\<close>

lemma remove_page_eq:
  "\<forall>r \<in> set rs. PAGE_equal q r s = Some (q = r) \<Longrightarrow> q \<in> set rs \<Longrightarrow> remove_page q rs s = Some (q, remove1 q rs)"
  by (induction rs) auto

text \<open>Loaded pages are told apart by their frames.\<close>

lemma PAGE_equal_procs:
  assumes S: "procs_at A R M s" and "q \<in> loaded_refs A R" and "r \<in> loaded_refs A R"
  shows "PAGE_equal q r s = Some (q = r)"
proof -
  note I = procs_atD [OF S]
  from assms(2,3) obtain a i b j where ab: "a \<in> A" "i < r_loaded (R a)" "q = r_table (R a) ! i"
    "b \<in> A" "j < r_loaded (R b)" "r = r_table (R b) ! j" by (auto simp: loaded_refs_def loaded_of_def)
  have "i < page_count (r_size (R a))" "j < page_count (r_size (R b))"
    using proc_okD(5) [OF proc_atD(1) [OF I(5) [OF ab(1)]]] proc_okD(5) [OF proc_atD(1) [OF I(5) [OF ab(4)]]] ab by simp_all
  then have "pages s q = Some (page_of (R a) i)" "pages s r = Some (page_of (R b) j)"
    using proc_atD(3) [OF I(5) [OF ab(1)]] proc_atD(3) [OF I(5) [OF ab(4)]] ab by simp_all
  moreover have "r_frames (R a) ! i = r_frames (R b) ! j \<longleftrightarrow> q = r"
  proof
    assume "r_frames (R a) ! i = r_frames (R b) ! j"
    with separateD [OF I(6) ab(1,4)] ab show "q = r" by auto
  next
    assume "q = r"
    moreover have "i < length (r_table (R a))" "j < length (r_table (R b))"
      using proc_okD(4,5) [OF proc_atD(1) [OF I(5) [OF ab(1)]]] proc_okD(4,5) [OF proc_atD(1) [OF I(5) [OF ab(4)]]] ab by simp_all
    ultimately have "a = b \<and> i = j" using separateD [OF I(7) ab(1,4)] ab by auto
    then show "r_frames (R a) ! i = r_frames (R b) ! j" by simp
  qed
  ultimately show ?thesis using ab by (simp add: PAGE_equal_def page_of_def loaded_page_def)
qed

definition step_done :: "proc \<Rightarrow> proc" where
  "step_done x = x\<lparr>r_done := Suc (r_done x)\<rparr>"

lemma step_done_simps [simp]:
  "r_lines (step_done x) = r_lines x" "r_pid (step_done x) = r_pid x" "r_table (step_done x) = r_table x"
  "r_frames (step_done x) = r_frames x" "r_done (step_done x) = Suc (r_done x)"
  by (simp_all add: step_done_def)

text \<open>What a line may change does not matter to the processes.\<close>

lemma procs_at_step:
  assumes S: "procs_at A R M s" and p: "p \<in> A" and k: "r_done (R p) < r_size (R p)" "r_done (R p) < 3 * r_loaded (R p)"
    and t: "length (memory t) = 120" "\<forall>c < 30. memory t ! c = memory s ! c" "pages t = pages s"
      "pcbs t = (pcbs s)(p \<mapsto> pcb_of (step_done (R p)))"
  shows "procs_at A (R(p := step_done (R p))) M t"
proof -
  let ?y = "step_done (R p)"
  note I = procs_atD [OF S]
  have "\<forall>a < 3 * M. memory t ! a = memory s ! a" using t(2) I(8) by simp
  then have cells: "proc_at (R q) q M (t\<lparr>pcbs := pcbs s\<rparr>)" if "q \<in> A" for q
    by (intro proc_at_cong [OF I(5) [OF that]]) (use t in simp_all)
  have "proc_at ((R(p := ?y)) q) q M t" if q: "q \<in> A" for q
  proof (cases "q = p")
    case False
    then show ?thesis using cells [OF q] t(4) by (simp add: proc_at_def)
  next
    case True
    have "proc_ok ?y" using proc_okD [OF proc_atD(1) [OF I(5) [OF p]]] k by (simp add: proc_ok_def)
    moreover have "page_of ?y = page_of (R p)" by (simp add: page_of_def fun_eq_iff)
    moreover have "cells_hold ?y M = cells_hold (R p) M" by (simp add: cells_hold_def fun_eq_iff)
    ultimately show ?thesis using True cells [OF p] t(4) by (simp add: proc_at_def)
  qed
  moreover have "pages_left ((R(p := ?y)) q) = pages_left (R q)" for q by (simp add: pages_left_def)
  moreover have "r_frames ((R(p := ?y)) q) = r_frames (R q)" for q by simp
  moreover have "separate A (\<lambda>q. r_frames ((R(p := ?y)) q))" by (rule separate_update_frames [THEN iffD2, OF _ I(6)]) simp
  moreover have "separate A (\<lambda>q. r_table ((R(p := ?y)) q))" by (rule separate_update_table [THEN iffD2, OF _ I(7)]) simp
  ultimately show ?thesis using I(1-4,9) t(1,2) unfolding procs_at_def by simp
qed

lemma pcb_of_simps [simp]:
  "pcb_pid (pcb_of x) = r_pid x" "pcb_size (pcb_of x) = int (r_size x) - int (r_done x)"
  "program_counter (pcb_of x) = counters (r_size x) (r_done x)" "page_table (pcb_of x) = r_table x"
  by (simp_all add: pcb_of_def)

text \<open>The next line of a process, when its page is loaded.\<close>

lemma next_line_location:
  assumes S: "procs_at A R M s" and p: "p \<in> A" and k: "r_done (R p) = k" "k < r_size (R p)" "k < 3 * r_loaded (R p)"
  shows "run_line P p s = run_proc P p (k div 3) (k mod 3) s" and "k div 3 < page_count (r_size (R p))"
    and "pages s (r_table (R p) ! (k div 3)) = Some (page_of (R p) (k div 3))"
    and "valid_bit (page_of (R p) (k div 3)) ! (k mod 3)"
    and "mem_get_value_at (frame_index (page_of (R p) (k div 3)) ! (k mod 3)) (memory s) = Some (raw_lines (r_lines (R p)) ! k)"
proof -
  let ?x = "R p" and ?i = "k div 3" and ?j = "k mod 3"
  note I = procs_atD [OF S] and X = proc_atD [OF procs_atD(5) [OF S p]] and C = find_counter [OF k(2)]
  note O = proc_okD [OF X(1)]
  have ij: "?i < r_loaded ?x" "?j < 3" "3 * ?i + ?j = k" using k(3) by (simp_all add: less_mult_imp_div_less mult.commute)
  show "run_line P p s = run_proc P p ?i ?j s" using X(2) O(4) C(1,3) k(1) by (simp add: run_line_def)
  show "?i < page_count (r_size ?x)" by (rule C(2))
  show "pages s (r_table ?x ! ?i) = Some (page_of ?x ?i)" using X(3) [OF C(2)] .
  show "valid_bit (page_of ?x ?i) ! ?j" using ij k(2) by (simp add: page_of_def loaded_page_def loaded_bits_def)
  have "frame_index (page_of ?x ?i) ! ?j = 3 * (r_frames ?x ! ?i) + ?j"
    using nth_triple [OF ij(2)] ij(1) by (simp add: page_of_def loaded_page_def)
  moreover have f: "r_frames ?x ! ?i < M"
    "cell_value (memory s ! (3 * (r_frames ?x ! ?i) + ?j)) = raw_lines (r_lines ?x) ! k"
    using X(4) ij k(2) unfolding cells_hold_def by force+
  moreover have "3 * (r_frames ?x ! ?i) + ?j < 120" using f(1) I(8) ij(2) by linarith
  ultimately show "mem_get_value_at (frame_index (page_of ?x ?i) ! ?j) (memory s) = Some (raw_lines (r_lines ?x) ! k)"
    using I(2) by (simp add: mem_get_value_at_def)
qed

text \<open>A line on a page that is loaded is executed.\<close>

lemma run_line_executes:
  assumes S: "sched_at R M s" and p: "p \<in> set (ALL_PCB s)" and k: "r_done (R p) = k" "k < r_size (R p)" "k < 3 * r_loaded (R p)"
    and P: "plain_on L F P" "raw_lines (r_lines (R p)) ! k \<in> set L"
  shows "case F (raw_lines (r_lines (R p)) ! k) (user_of s) of
      None \<Rightarrow> run_line P p s = Undefined
    | Some (r, u) \<Rightarrow> \<exists>s'. run_line P p s = Returns (0, s') \<and> sched_at (R(p := step_done (R p))) M s' \<and>
        user_of s' = u \<and> QUEUE s' = QUEUE s \<and> ALL_PCB s' = ALL_PCB s"
proof -
  let ?x = "R p" and ?l = "raw_lines (r_lines (R p)) ! k" and ?i = "k div 3" and ?j = "k mod 3"
  let ?q = "r_table ?x ! ?i"
  note D = sched_atD [OF S]
  note I = procs_atD [OF D(1)] and X = proc_atD [OF procs_atD(5) [OF D(1) p]] and N = next_line_location [OF D(1) p k]
  note O = proc_okD [OF X(1)]
  have Pk: "P ?l s = (case F ?l (user_of s) of None \<Rightarrow> Undefined | Some (r, u) \<Rightarrow> Returns (r, put_user u s))"
    using P I(2) by (simp add: plain_on_def mem_ok_def)
  show ?thesis
  proof (cases "F ?l (user_of s)")
    case None
    then have "cpu_run P p ?i ?j s = Undefined"
      using X(2) O(4) N(2-5) Pk by (simp add: cpu_run_def)
    then show ?thesis using None N(1) by (simp add: run_proc_def)
  next
    case (Some ru)
    obtain r u where ru: "ru = (r, u)" by (cases ru)
    have ok: "r \<noteq> 1" "length (user_vars u) = 90"
      using P Some ru I(2) by (auto simp: plain_on_def user_of_def)
    note pu = put_user_facts [OF I(2) ok(2)]
    let ?t = "put_user u s"
    let ?t1 = "?t\<lparr>pcbs := (pcbs s)(p \<mapsto> pcb_of (step_done ?x))\<rparr>"
    have same: "pcbs ?t = pcbs s" "pages ?t = pages s" "LRU_CACHE ?t = LRU_CACHE s" "QUEUE ?t = QUEUE s" "ALL_PCB ?t = ALL_PCB s"
      by (simp_all add: put_user_def)
    have "(pcb_of ?x)\<lparr>program_counter := (counters (r_size ?x) k)[?i := Suc ?j], pcb_size := int (r_size ?x) - int k - 1\<rparr> = pcb_of (step_done ?x)"
      using counters_Suc [OF k(2)] by (simp add: pcb_of_def k(1))
    then have cpu: "cpu_run P p ?i ?j s = Returns (r, ?t1)"
      using X(2) O(4) N(2-5) find_counter(3) [OF k(2)] Pk Some ru same k(1) by (simp add: cpu_run_def)
    have i: "?i < r_loaded ?x" using k(3) by (simp add: less_mult_imp_div_less mult.commute)
    then have q: "?q \<in> set (LRU_CACHE s)" using D(4) p by (auto simp: loaded_refs_def loaded_of_def)
    have "PAGE_equal ?q r' ?t1 = Some (?q = r')" if "r' \<in> set (LRU_CACHE s)" for r'
      using PAGE_equal_procs [OF D(1), of ?q r'] that q D(4) same(2) by (simp add: PAGE_equal_def)
    then have rem: "remove_page ?q (LRU_CACHE s) ?t1 = Some (?q, remove1 ?q (LRU_CACHE s))"
      using q by (intro remove_page_eq) simp_all
    let ?s' = "?t1\<lparr>LRU_CACHE := ?q # remove1 ?q (LRU_CACHE s)\<rparr>"
    have "run_proc P p ?i ?j s = Returns (0, ?s')"
      using cpu ok(1) rem same(3) by (simp add: run_proc_def)
    moreover have "procs_at (set (ALL_PCB s)) (R(p := step_done ?x)) M ?s'"
      by (rule procs_at_step [OF D(1) p]) (use k pu same in simp_all)
    then have "sched_at (R(p := step_done ?x)) M ?s'"
      using D(2-4) q same loaded_refs_update [of "step_done ?x" R p] by (simp add: sched_at_def insert_absorb)
    moreover have "user_of ?s' = u" using pu(1) by (simp add: user_of_def)
    ultimately show ?thesis using Some ru N(1) same by auto
  qed
qed

text \<open>The first line of a page that is not loaded faults: the page is loaded, nothing else changes.\<close>

lemma run_line_faults:
  assumes S: "sched_at R M s" and p: "p \<in> set (ALL_PCB s)" and k: "r_done (R p) < r_size (R p)" "r_done (R p) = 3 * r_loaded (R p)"
  shows "\<exists>s'. run_line P p s = Returns (1, s') \<and> sched_at (R(p := load_next M (R p))) (Suc M) s' \<and> user_of s' = user_of s \<and>
    QUEUE s' = QUEUE s @ [p] \<and> ALL_PCB s' = ALL_PCB s"
proof -
  let ?x = "R p" and ?m = "r_loaded (R p)"
  note D = sched_atD [OF S]
  note X = proc_atD [OF procs_atD(5) [OF D(1) p]] and C = find_counter [OF k(1)]
  note O = proc_okD [OF X(1)]
  have m: "r_done ?x div 3 = ?m" "r_done ?x mod 3 = 0" using k(2) by simp_all
  have mN: "?m < page_count (r_size ?x)" using C(2) m by simp
  have line: "run_line P p s = run_proc P p ?m 0 s" using X(2) O(4) C(1,3) m by (simp add: run_line_def)
  have cpu: "cpu_run P p ?m 0 s = Returns (1, s)"
    using X(2) X(3) [OF mN] O(4) mN by (simp add: cpu_run_def page_of_def PAGE_init_def)
  from load_PAGE_procs [OF D(1) p refl mN] obtain t where t: "load_PAGE p ?m s = Some (0, t)" "user_of t = user_of s"
    "QUEUE t = QUEUE s" "LRU_CACHE t = LRU_CACHE s" "ALL_PCB t = ALL_PCB s"
    "procs_at (set (ALL_PCB s)) (R(p := load_next M ?x)) (Suc M) t" by blast
  from proc_atD(2) [OF procs_atD(5) [OF t(6) p]] have "pcbs t p = Some (pcb_of (load_next M ?x))" by simp
  with cpu t(1,3,4) have "run_proc P p ?m 0 s = Returns (1, t\<lparr>LRU_CACHE := r_table ?x ! ?m # LRU_CACHE s, QUEUE := QUEUE s @ [p]\<rparr>)"
    by (simp add: run_proc_def page_fault_def)
  moreover have "sched_at (R(p := load_next M ?x)) (Suc M) (t\<lparr>LRU_CACHE := r_table ?x ! ?m # LRU_CACHE s, QUEUE := QUEUE s @ [p]\<rparr>)"
    using D(2-4) t(5,6) next_page_not_loaded [OF D(1) p mN] loaded_refs_load [OF p] by (simp add: sched_at_def)
  ultimately show ?thesis using line t(2,5) by auto
qed

section \<open>The end of the processes\<close>

lemma free_pages_frames:
  assumes "distinct qs" and "length fr = length qs" and "length (memory s) = 120"
    and "\<forall>j < length qs. fr ! j \<le> 8 \<and> (\<exists>pid n i. pages s (qs ! j) = Some (loaded_page pid n (fr ! j) i))"
  shows "\<exists>mem pg. free_pages qs s = Some (s\<lparr>memory := mem, pages := pg\<rparr>) \<and> length mem = 120 \<and>
    drop 30 mem = drop 30 (memory s) \<and> (\<forall>r. r \<notin> set qs \<longrightarrow> pg r = pages s r) \<and>
    (\<forall>c < 30. cell_var (memory s ! c) = ''none'' \<or> c div 3 \<in> set fr \<longrightarrow> cell_var (mem ! c) = ''none'')"
  using assms
proof (induction qs arbitrary: fr s)
  case Nil
  then show ?case by (auto intro!: exI [of _ "memory s"] exI [of _ "pages s"])
next
  case (Cons q qs)
  then obtain f fs where fr: "fr = f # fs" by (cases fr) auto
  have f: "f \<le> 8" using Cons.prems(4) fr by (metis length_Cons nth_Cons_0 zero_less_Suc)
  obtain pid n i where q: "pages s q = Some (loaded_page pid n f i)"
    using Cons.prems(4) fr by (metis length_Cons nth_Cons_0 zero_less_Suc)
  let ?mem = "clear_range (3 * f) (3 * f + 5) (memory s)"
  let ?s = "s\<lparr>memory := ?mem, pages := (pages s)(q := None)\<rparr>"
  have "ofold clear_frame (frame_index (loaded_page pid n f i)) (memory s) = Some ?mem"
    using clear_page [of "3 * f" "memory s"] f Cons.prems(3) by (simp add: loaded_page_def)
  then have step: "free_pages (q # qs) s = free_pages qs ?s" using q by simp
  have "fs ! j \<le> 8 \<and> (\<exists>pid n i. pages ?s (qs ! j) = Some (loaded_page pid n (fs ! j) i))" if j: "j < length qs" for j
  proof -
    have "qs ! j \<noteq> q" using Cons.prems(1) j by auto
    then show ?thesis using Cons.prems(4) [rule_format, of "Suc j"] j fr by simp
  qed
  moreover have "distinct qs" "length fs = length qs" "length (memory ?s) = 120" using Cons.prems(1-3) fr by simp_all
  ultimately obtain mem pg where ih: "free_pages qs ?s = Some (?s\<lparr>memory := mem, pages := pg\<rparr>)" "length mem = 120"
    "drop 30 mem = drop 30 ?mem" "\<forall>r. r \<notin> set qs \<longrightarrow> pg r = pages ?s r"
    "\<forall>c < 30. cell_var (?mem ! c) = ''none'' \<or> c div 3 \<in> set fs \<longrightarrow> cell_var (mem ! c) = ''none''"
    using Cons.IH [of fs ?s] by auto
  have "drop 30 ?mem = drop 30 (memory s)"
    using Cons.prems(3) f by (intro nth_equalityI) (simp_all add: nth_clear_range)
  moreover have "cell_var (?mem ! c) = ''none''" if "c < 30" "cell_var (memory s ! c) = ''none'' \<or> c div 3 = f" for c
    using that Cons.prems(3) by (auto simp: nth_clear_range free_cell_def)
  ultimately have "\<forall>c < 30. cell_var (memory s ! c) = ''none'' \<or> c div 3 \<in> set fr \<longrightarrow> cell_var (mem ! c) = ''none''"
    "drop 30 mem = drop 30 (memory s)" using ih(3,5) fr by auto
  moreover have "\<forall>r. r \<notin> set (q # qs) \<longrightarrow> pg r = pages s r" using ih(4) by auto
  ultimately show ?case using step ih(1,2) by (intro exI [of _ mem] exI [of _ pg]) simp
qed

text \<open>All pages of a process are loaded, in frames that can be cleared.\<close>

definition all_loaded :: "proc \<Rightarrow> nat \<Rightarrow> shell \<Rightarrow> bool" where
  "all_loaded x p s \<longleftrightarrow> pcbs s p = Some (pcb_of x) \<and> length (r_table x) = r_loaded x \<and> distinct (r_table x) \<and>
     (\<forall>i < r_loaded x. r_frames x ! i \<le> 8 \<and> pages s (r_table x ! i) = Some (page_of x i))"

lemma free_PCB_loaded:
  assumes "all_loaded x p s" and "length (memory s) = 120"
  shows "\<exists>mem pg. free_PCB p s = Some (s\<lparr>memory := mem, pages := pg, pcbs := (pcbs s)(p := None)\<rparr>) \<and> length mem = 120 \<and>
    drop 30 mem = drop 30 (memory s) \<and> (\<forall>r. r \<notin> set (r_table x) \<longrightarrow> pg r = pages s r) \<and>
    (\<forall>c < 30. cell_var (memory s ! c) = ''none'' \<or> c div 3 \<in> set (r_frames x) \<longrightarrow> cell_var (mem ! c) = ''none'')"
proof -
  have "\<forall>j < length (r_table x). r_frames x ! j \<le> 8 \<and>
      (\<exists>pid n i. pages s (r_table x ! j) = Some (loaded_page pid n (r_frames x ! j) i))"
    using assms(1) by (auto simp: all_loaded_def page_of_def)
  then obtain mem pg where "free_pages (r_table x) s = Some (s\<lparr>memory := mem, pages := pg\<rparr>)" "length mem = 120"
    "drop 30 mem = drop 30 (memory s)" "\<forall>r. r \<notin> set (r_table x) \<longrightarrow> pg r = pages s r"
    "\<forall>c < 30. cell_var (memory s ! c) = ''none'' \<or> c div 3 \<in> set (r_frames x) \<longrightarrow> cell_var (mem ! c) = ''none''"
    using free_pages_frames [of "r_table x" "r_frames x" s] assms by (auto simp: all_loaded_def)
  then show ?thesis using assms(1) by (intro exI [of _ mem] exI [of _ pg]) (simp add: free_PCB_def all_loaded_def)
qed

lemma free_all:
  "distinct ps \<Longrightarrow> separate (set ps) (\<lambda>p. r_table (R p)) \<Longrightarrow> \<forall>p \<in> set ps. all_loaded (R p) p s \<Longrightarrow> length (memory s) = 120 \<Longrightarrow>
    \<exists>s'. ofold free_PCB ps s = Some s' \<and> user_of s' = user_of s \<and> length (memory s') = 120 \<and>
      (\<forall>c < 30. cell_var (memory s ! c) = ''none'' \<or> (\<exists>p \<in> set ps. c div 3 \<in> set (r_frames (R p))) \<longrightarrow>
        cell_var (memory s' ! c) = ''none'')"
proof (induction ps arbitrary: s)
  case (Cons p ps)
  have "all_loaded (R p) p s" using Cons.prems(3) by simp
  from free_PCB_loaded [OF this Cons.prems(4)] obtain mem pg where f:
    "free_PCB p s = Some (s\<lparr>memory := mem, pages := pg, pcbs := (pcbs s)(p := None)\<rparr>)" "length mem = 120"
    "drop 30 mem = drop 30 (memory s)" "\<forall>r. r \<notin> set (r_table (R p)) \<longrightarrow> pg r = pages s r"
    "\<forall>c < 30. cell_var (memory s ! c) = ''none'' \<or> c div 3 \<in> set (r_frames (R p)) \<longrightarrow> cell_var (mem ! c) = ''none''" by blast
  let ?s = "s\<lparr>memory := mem, pages := pg, pcbs := (pcbs s)(p := None)\<rparr>"
  have "all_loaded (R q) q ?s" if q: "q \<in> set ps" for q
  proof -
    have L: "all_loaded (R q) q s" and qp: "q \<noteq> p" using Cons.prems(1,3) q by auto
    have "pg (r_table (R q) ! i) = pages s (r_table (R q) ! i)" if i: "i < r_loaded (R q)" for i
    proof -
      have "i < length (r_table (R q))" using L i by (simp add: all_loaded_def)
      then have "r_table (R q) ! i \<notin> set (r_table (R p))"
        using separateD [OF Cons.prems(2), of q p i] q qp by (force simp: in_set_conv_nth [of _ "r_table (R p)"])
      then show ?thesis using f(4) by blast
    qed
    then show ?thesis using L qp by (simp add: all_loaded_def)
  qed
  moreover have "separate (set ps) (\<lambda>p. r_table (R p))" using Cons.prems(2) by (simp add: separate_def)
  moreover have "distinct ps" "length (memory ?s) = 120" using Cons.prems(1) f(2) by simp_all
  ultimately obtain s' where "ofold free_PCB ps ?s = Some s'" "user_of s' = user_of ?s" "length (memory s') = 120"
    "\<forall>c < 30. cell_var (mem ! c) = ''none'' \<or> (\<exists>p \<in> set ps. c div 3 \<in> set (r_frames (R p))) \<longrightarrow> cell_var (memory s' ! c) = ''none''"
    using Cons.IH [of ?s] by auto
  moreover have "user_of ?s = user_of s" using f(3) by (simp add: user_of_def)
  ultimately show ?case using f(1,5) by auto
qed simp

lemma rr_finish_all:
  assumes S: "sched_at R M s" and all_done: "\<forall>p \<in> set (ALL_PCB s). r_done (R p) = r_size (R p)"
  shows "\<exists>s'. rr_finish s = Some (0, s') \<and> user_of s' = user_of s \<and> kernel_idle s'"
proof -
  note D = sched_atD [OF S]
  note I = procs_atD [OF D(1)]
  have loaded: "all_loaded (R p) p s" if p: "p \<in> set (ALL_PCB s)" for p
  proof -
    note X = proc_atD [OF I(5) [OF p]]
    note O = proc_okD [OF X(1)]
    have m: "r_loaded (R p) = page_count (r_size (R p))"
    proof (rule ccontr)
      assume "r_loaded (R p) \<noteq> page_count (r_size (R p))"
      then have "3 * r_loaded (R p) < r_size (R p)" using O(5) by (simp add: page_count_bounds(3))
      then show False using O(7) all_done p by simp
    qed
    have "r_frames (R p) ! i \<le> 8" if "i < r_loaded (R p)" for i
    proof -
      have "r_frames (R p) ! i < M" using X(4) that by (simp add: cells_hold_def)
      then show ?thesis using I(8) by simp
    qed
    moreover have "distinct (r_table (R p))"
      using separateD [OF I(7) p p] by (auto simp: distinct_conv_nth)
    ultimately show ?thesis using X(2,3) O(4) m by (simp add: all_loaded_def)
  qed
  from free_all [OF D(2) I(7)] loaded I(2) obtain s' where s': "ofold free_PCB (ALL_PCB s) s = Some s'"
    "user_of s' = user_of s" "length (memory s') = 120"
    "\<forall>c < 30. cell_var (memory s ! c) = ''none'' \<or> (\<exists>p \<in> set (ALL_PCB s). c div 3 \<in> set (r_frames (R p))) \<longrightarrow>
        cell_var (memory s' ! c) = ''none''" by blast
  have "cell_var (memory s' ! c) = ''none''" if c: "c < 30" for c
  proof (cases "3 * M \<le> c")
    case True
    then show ?thesis using I(3) [OF c] s'(4) c by blast
  next
    case False
    then have "c div 3 < M" by (simp add: less_mult_imp_div_less mult.commute)
    then show ?thesis using I(9) s'(4) c by blast
  qed
  then have "kernel_idle (s'\<lparr>QUEUE := [], LRU_CACHE := [], ALL_PCB := []\<rparr>)"
    using s'(3) by (simp add: kernel_idle_def mem_ok_def)
  then show ?thesis using s'(1,2) by (simp add: rr_finish_def)
qed

end
