(* ===== verification/Round_Robin.thy ===== *)
theory Round_Robin
  imports Script_Processes "HOL-Library.Multiset"
begin

text \<open>
  The round robin scheduler: it interleaves the lines of the processes as a simple queue of scripts
  does, ends, and leaves the frames free. From the creation of the processes to their end.
\<close>

declare upt_rec_numeral [simp del]

section \<open>The order of execution\<close>

text \<open>
  What the scheduler does, without memory, pages and counters. A process is the number of lines that
  it can execute before its next page fault, and the lines that are left. A turn executes two lines,
  or up to the page fault, which loads three more lines, or up to the end. The process goes to the
  back of the queue unless it has executed its last line as the only line of its turn.
\<close>

fun turn_of :: "nat \<times> 'a list \<Rightarrow> 'a list \<times> (nat \<times> 'a list) list" where
  "turn_of (a, []) = ([], [])"
| "turn_of (0, x # xs) = ([], [(3, x # xs)])"
| "turn_of (Suc a, [x]) = ([x], [])"
| "turn_of (Suc 0, x # y # ys) = ([x], [(3, y # ys)])"
| "turn_of (Suc (Suc a), x # y # ys) = ([x, y], [(a, ys)])"

fun turns_left :: "nat \<times> 'a list \<Rightarrow> nat" where
  "turns_left (a, l) = 2 * length l + (if a = 0 \<and> l \<noteq> [] then 1 else 0) + 1"

lemma turn_of_decreases: "sum_list (map turns_left (snd (turn_of e))) < turns_left e"
  by (cases e rule: turn_of.cases) auto

function rr_order :: "(nat \<times> 'a list) list \<Rightarrow> 'a list" where
  "rr_order [] = []"
| "rr_order (e # q) = fst (turn_of e) @ rr_order (q @ snd (turn_of e))"
  by pat_completeness auto
termination
  by (relation "measure (\<lambda>q. sum_list (map turns_left q))") (simp_all add: turn_of_decreases)

text \<open>Nothing is lost or added, and one process alone is executed in the order of its lines.\<close>

lemma mset_turn_of: "mset (fst (turn_of e)) + mset (concat (map snd (snd (turn_of e)))) = mset (snd e)"
  by (cases e rule: turn_of.cases) auto

lemma mset_rr_order: "mset (rr_order q) = mset (concat (map snd q))"
proof (induction q rule: rr_order.induct)
  case (2 e q)
  then show ?case using mset_turn_of [of e] by (simp add: union_ac)
qed simp

lemma rr_order_single: "rr_order [e] = snd e"
proof (induction "[e]" arbitrary: e rule: rr_order.induct)
  case (2 e)
  then show ?case by (cases e rule: turn_of.cases) simp_all
qed

lemma rr_order_nil: "\<forall>e \<in> set q. snd e = [] \<Longrightarrow> rr_order q = []"
proof (induction q)
  case (Cons e q)
  then show ?case by (cases e) simp
qed simp

section \<open>A turn\<close>

definition view :: "proc \<Rightarrow> nat \<times> string list" where
  "view x = (3 * r_loaded x - r_done x, drop (r_done x) (raw_lines (r_lines x)))"

lemma view_line:
  assumes "r_done x < r_size x"
  shows "view x = (3 * r_loaded x - r_done x, raw_lines (r_lines x) ! r_done x # drop (Suc (r_done x)) (raw_lines (r_lines x)))"
  using assms by (simp add: view_def Cons_nth_drop_Suc)

text \<open>What a turn achieves: lines executed, and the state afterwards.\<close>

definition turn_done :: "(nat \<Rightarrow> proc) \<Rightarrow> nat \<Rightarrow> shell \<Rightarrow> user \<Rightarrow> (nat \<times> string list) list \<Rightarrow> shell \<Rightarrow> bool" where
  "turn_done R p s u later s' \<longleftrightarrow> (\<exists>x M. sched_at (R(p := x)) M s' \<and> user_of s' = u \<and> ALL_PCB s' = ALL_PCB s \<and>
     r_lines x = r_lines (R p) \<and>
     (if later = [] then QUEUE s' = QUEUE s \<and> r_done x = r_size x else QUEUE s' = QUEUE s @ [p] \<and> later = [view x]))"

lemma rr_turn_spec:
  assumes S: "sched_at R M s" and p: "p \<in> set (ALL_PCB s)" and P: "plain_on L F P" "set (raw_lines (r_lines (R p))) \<subseteq> set L"
  shows "case run_lines F (fst (turn_of (view (R p)))) (user_of s) of
      None \<Rightarrow> rr_turn P p s = Undefined
    | Some u \<Rightarrow> \<exists>s'. rr_turn P p s = Returns s' \<and> turn_done R p s u (snd (turn_of (view (R p)))) s'"
proof -
  let ?x = "R p" and ?L = "raw_lines (r_lines (R p))"
  note X = proc_atD [OF procs_atD(5) [OF sched_atD(1) [OF S] p]]
  note O = proc_okD [OF X(1)]
  have size: "pcbs s p = Some (pcb_of ?x)" "1 < pcb_size (pcb_of ?x) \<longleftrightarrow> Suc (r_done ?x) < r_size ?x"
    "pcb_size (pcb_of ?x) = 1 \<longleftrightarrow> Suc (r_done ?x) = r_size ?x" using X(2) by auto
  show ?thesis
  proof (cases "r_done ?x < r_size ?x")
    case False
    then have n: "r_done ?x = r_size ?x" using O(6) by simp
    then have "rr_turn P p s = Returns s" using size by (simp add: rr_turn_def)
    moreover have "turn_of (view ?x) = ([], [])" using n by (simp add: view_def)
    moreover have "turn_done R p s (user_of s) [] s"
      using S n unfolding turn_done_def by (intro exI [of _ ?x] exI [of _ M]) simp
    ultimately show ?thesis by simp
  next
    case k: True
    note V = view_line [OF k]
    show ?thesis
    proof (cases "r_done ?x < 3 * r_loaded ?x")
      case False
      then have km: "r_done ?x = 3 * r_loaded ?x" using O(7) by simp
      from run_line_faults [OF S p k km] obtain t where t: "run_line P p s = Returns (1, t)"
        "sched_at (R(p := load_next M ?x)) (Suc M) t" "user_of t = user_of s" "QUEUE t = QUEUE s @ [p]" "ALL_PCB t = ALL_PCB s"
        by blast
      have "rr_turn P p s = Returns t" using t(1) size k by (auto simp: rr_turn_def)
      moreover have v: "view (load_next M ?x) = (3, snd (view ?x))" using km by (simp add: view_def)
      then have "turn_of (view ?x) = ([], [view (load_next M ?x)])" unfolding v using V km by simp
      moreover have "turn_done R p s (user_of s) [view (load_next M ?x)] t"
        using t(2-5) unfolding turn_done_def by (intro exI [of _ "load_next M ?x"] exI [of _ "Suc M"]) simp
      ultimately show ?thesis by simp
    next
      case True
      have inL: "?L ! r_done ?x \<in> set L" using P(2) k by auto
      note ex = run_line_executes [OF S p refl k True P(1) inL]
      obtain a where a: "3 * r_loaded ?x - r_done ?x = Suc a" using True by (metis Suc_diff_Suc)
      let ?y = "step_done ?x"
      show ?thesis
      proof (cases "F (?L ! r_done ?x) (user_of s)")
        case None
        then have "rr_turn P p s = Undefined" using ex size k by (auto simp: rr_turn_def)
        moreover have "run_lines F (fst (turn_of (view ?x))) (user_of s) = None"
          unfolding V a by (cases a; cases "drop (Suc (r_done ?x)) ?L") (simp_all add: None)
        ultimately show ?thesis by simp
      next
        case (Some ru)
        obtain r u where ru: "ru = (r, u)" by (cases ru)
        from ex Some ru obtain t where t: "run_line P p s = Returns (0, t)" "sched_at (R(p := ?y)) M t"
          "user_of t = u" "QUEUE t = QUEUE s" "ALL_PCB t = ALL_PCB s" by auto
        show ?thesis
        proof (cases "Suc (r_done ?x) < r_size ?x")
          case False
          then have n: "Suc (r_done ?x) = r_size ?x" using k by simp
          then have "turn_of (view ?x) = ([?L ! r_done ?x], [])" unfolding V a by simp
          moreover have "rr_turn P p s = Returns t" using t(1) size n by (simp add: rr_turn_def)
          moreover have "turn_done R p s u [] t"
            using t n unfolding turn_done_def by (intro exI [of _ ?y] exI [of _ M]) simp
          ultimately show ?thesis using Some ru by simp
        next
          case k2: True
          let ?R = "R(p := ?y)"
          have dy: "r_done (?R p) = Suc (r_done ?x)" "r_size (?R p) = r_size ?x" "r_loaded (?R p) = r_loaded ?x"
            "r_lines (?R p) = r_lines ?x" by simp_all
          have d: "drop (Suc (r_done ?x)) ?L = ?L ! Suc (r_done ?x) # drop (Suc (Suc (r_done ?x))) ?L"
            using k2 by (simp add: Cons_nth_drop_Suc)
          have pt: "p \<in> set (ALL_PCB t)" using p t(5) by simp
          show ?thesis
          proof (cases "Suc (r_done ?x) < 3 * r_loaded ?x")
            case False
            then have km: "r_done (?R p) = 3 * r_loaded (?R p)" and a0: "a = 0" using True a by simp_all
            have "r_done (?R p) < r_size (?R p)" using k2 by simp
            from run_line_faults [OF t(2) pt this km, unfolded fun_upd_upd fun_upd_same t(3-5)] obtain v where
              v: "run_line P p t = Returns (1, v)" "sched_at (R(p := load_next M ?y)) (Suc M) v" "user_of v = u"
                "QUEUE v = QUEUE s @ [p]" "ALL_PCB v = ALL_PCB s" by blast
            have "rr_turn P p s = Returns v" using t(1) v(1) size k2 by (simp add: rr_turn_def)
            moreover have "view (load_next M ?y) = (3, drop (Suc (r_done ?x)) ?L)" using km by (simp add: view_def)
            then have "turn_of (view ?x) = ([?L ! r_done ?x], [view (load_next M ?y)])" unfolding V a a0 d by simp
            moreover have "turn_done R p s u [view (load_next M ?y)] v"
              using v(2-5) unfolding turn_done_def by (intro exI [of _ "load_next M ?y"] exI [of _ "Suc M"]) simp
            ultimately show ?thesis using Some ru by simp
          next
            case m2: True
            obtain b where b: "a = Suc b" "3 * r_loaded ?x - Suc (Suc (r_done ?x)) = b" using m2 a by (cases a) auto
            have inL2: "raw_lines (r_lines (?R p)) ! Suc (r_done ?x) \<in> set L" using P(2) k2 by auto
            have turn: "turn_of (view ?x) = ([?L ! r_done ?x, ?L ! Suc (r_done ?x)], [(b, drop (Suc (Suc (r_done ?x))) ?L)])"
              unfolding V a b(1) d by simp
            have ex2: "case F (?L ! Suc (r_done ?x)) u of
                None \<Rightarrow> run_line P p t = Undefined
              | Some (r, w) \<Rightarrow> \<exists>s'. run_line P p t = Returns (0, s') \<and> sched_at (R(p := step_done ?y)) M s' \<and>
                  user_of s' = w \<and> QUEUE s' = QUEUE s \<and> ALL_PCB s' = ALL_PCB s"
              using run_line_executes [OF t(2) pt dy(1) _ _ P(1) inL2, unfolded fun_upd_upd fun_upd_same t(3-5)] k2 m2 by simp
            show ?thesis
            proof (cases "F (?L ! Suc (r_done ?x)) u")
              case None
              then have "rr_turn P p s = Undefined" using ex2 t(1) size k2 by (simp add: rr_turn_def)
              then show ?thesis using Some ru None by (simp add: turn)
            next
              case (Some rv)
              obtain r' w where rv: "rv = (r', w)" by (cases rv)
              from ex2 Some rv obtain v where v: "run_line P p t = Returns (0, v)"
                "sched_at (R(p := step_done ?y)) M v" "user_of v = w" "QUEUE v = QUEUE s" "ALL_PCB v = ALL_PCB s" by auto
              let ?v = "v\<lparr>QUEUE := QUEUE s @ [p]\<rparr>"
              have "rr_turn P p s = Returns ?v" using t(1) v(1,4) size k2 by (simp add: rr_turn_def)
              moreover have "view (step_done ?y) = (b, drop (Suc (Suc (r_done ?x))) ?L)" using b(2) by (simp add: view_def)
              then have "turn_done R p s w [(b, drop (Suc (Suc (r_done ?x))) ?L)] ?v"
                using v(2-5) unfolding turn_done_def by (intro exI [of _ "step_done ?y"] exI [of _ M]) simp
              ultimately show ?thesis using \<open>F (?L ! r_done ?x) (user_of s) = Some ru\<close> ru Some rv by (simp add: turn)
            qed
          qed
        qed
      qed
    qed
  qed
qed

section \<open>The scheduler\<close>

definition rr_result :: "(string \<Rightarrow> user \<Rightarrow> (int \<times> user) option) \<Rightarrow> string list \<Rightarrow> user \<Rightarrow> (int \<times> shell) outcome \<Rightarrow> bool" where
  "rr_result F L u r \<longleftrightarrow>
     (case run_lines F L u of
        None \<Rightarrow> r = Undefined
      | Some u' \<Rightarrow> \<exists>s'. r = Returns (0, s') \<and> user_of s' = u' \<and> kernel_idle s')"

lemma run_lines_append: "run_lines F (xs @ ys) u = do { u \<leftarrow> run_lines F xs u; run_lines F ys u }"
  by (induction xs arbitrary: u) (auto split: prod.split bind_splits)

text \<open>The queue: processes of the kernel, each at most once; the others are done.\<close>

definition queue_at :: "(nat \<Rightarrow> proc) \<Rightarrow> shell \<Rightarrow> bool" where
  "queue_at R s \<longleftrightarrow> distinct (QUEUE s) \<and> set (QUEUE s) \<subseteq> set (ALL_PCB s) \<and>
     (\<forall>p \<in> set (ALL_PCB s) - set (QUEUE s). r_done (R p) = r_size (R p))"

lemma counters_done: "\<forall>i \<in> set (counters n k). i = 3 \<Longrightarrow> k \<le> n \<Longrightarrow> k = n"
proof (rule ccontr)
  assume all: "\<forall>i \<in> set (counters n k). i = 3" and "k \<le> n" "k \<noteq> n"
  then have k: "k < n" by simp
  have "counters n k ! (k div 3) \<in> set (counters n k)" using find_counter(2) [OF k] by (intro nth_mem) (simp add: counters_def)
  then have "k mod 3 = 3" unfolding find_counter(3) [OF k] using all by blast
  moreover have "k mod 3 < 3" by simp
  ultimately show False by linarith
qed

lemma queue_done_procs:
  assumes "procs_at A R M s" and "set ps \<subseteq> A"
  shows "foldr (\<lambda>p r. do { d \<leftarrow> PCB_done p s; if d then r else Some False }) ps (Some True) =
    Some (\<forall>p \<in> set ps. \<forall>i \<in> set (counters (r_size (R p)) (r_done (R p))). i = 3)"
  using assms(2)
proof (induction ps)
  case (Cons p ps)
  then have "pcbs s p = Some (pcb_of (R p))" using proc_atD(2) [OF procs_atD(5) [OF assms(1)]] by simp
  with Cons show ?case by (simp add: PCB_done_def)
qed simp

lemma rr_loop_all:
  assumes P: "plain_on L F P"
  shows "sched_at R M s \<Longrightarrow> queue_at R s \<Longrightarrow> \<forall>p \<in> set (ALL_PCB s). set (raw_lines (r_lines (R p))) \<subseteq> set L \<Longrightarrow>
    sum_list (map (turns_left \<circ> view \<circ> R) (QUEUE s)) < fuel \<Longrightarrow>
    rr_result F (rr_order (map (view \<circ> R) (QUEUE s))) (user_of s) (run_proc_RR P fuel s)"
proof (induction fuel arbitrary: R M s)
  case (Suc f)
  note S = Suc.prems(1) and Q = Suc.prems(2) [unfolded queue_at_def]
  note D = sched_atD [OF S]
  let ?d = "\<forall>p \<in> set (QUEUE s). \<forall>i \<in> set (counters (r_size (R p)) (r_done (R p))). i = 3"
  have d: "queue_done s = Some ?d" unfolding queue_done_def by (rule queue_done_procs [OF D(1)]) (use Q in blast)
  show ?case
  proof (cases ?d)
    case True
    have fin: "r_done (R p) = r_size (R p)" if p: "p \<in> set (ALL_PCB s)" for p
    proof (cases "p \<in> set (QUEUE s)")
      case in_queue: True
      have "r_done (R p) \<le> r_size (R p)" using proc_okD(6) [OF proc_atD(1) [OF procs_atD(5) [OF D(1) p]]] .
      then show ?thesis using counters_done True in_queue by blast
    next
      case False
      then show ?thesis using Q p by blast
    qed
    then have "rr_order (map (view \<circ> R) (QUEUE s)) = []" using Q by (intro rr_order_nil) (auto simp: view_def)
    moreover from rr_finish_all [OF S] fin obtain s' where "rr_finish s = Some (0, s')" "user_of s' = user_of s" "kernel_idle s'"
      by blast
    ultimately show ?thesis using d True by (simp add: rr_result_def comp_def)
  next
    case False
    then obtain p ps where q: "QUEUE s = p # ps" by (cases "QUEUE s") auto
    let ?s = "s\<lparr>QUEUE := ps\<rparr>" and ?now = "fst (turn_of (view (R p)))" and ?later = "snd (turn_of (view (R p)))"
    have "queue_done s = Some False" unfolding d using False by blast
    then have run: "run_proc_RR P (Suc f) s = and_then (rr_turn P p ?s) (run_proc_RR P f)" using q by simp
    have pA: "p \<in> set (ALL_PCB ?s)" and new: "p \<notin> set ps" using Q q by auto
    have Rs: "sched_at R M ?s" using S by simp
    have order: "rr_order (map (view \<circ> R) (QUEUE s)) = ?now @ rr_order (map (view \<circ> R) ps @ ?later)" by (simp add: q)
    have "set (raw_lines (r_lines (R p))) \<subseteq> set L" using Suc.prems(3) pA by simp
    note T = rr_turn_spec [OF Rs pA P this]
    show ?thesis
    proof (cases "run_lines F ?now (user_of s)")
      case None
      then show ?thesis unfolding order using T run by (simp add: rr_result_def run_lines_append del: run_proc_RR.simps)
    next
      case (Some u)
      with T obtain t where t: "rr_turn P p ?s = Returns t" "turn_done R p ?s u ?later t" by auto
      then obtain x N where x: "sched_at (R(p := x)) N t" "user_of t = u" "ALL_PCB t = ALL_PCB s" "r_lines x = r_lines (R p)"
        "if ?later = [] then QUEUE t = ps \<and> r_done x = r_size x else QUEUE t = ps @ [p] \<and> ?later = [view x]"
        unfolding turn_done_def by auto
      let ?R = "R(p := x)"
      have ps: "map (view \<circ> ?R) ps = map (view \<circ> R) ps" "map (turns_left \<circ> view \<circ> ?R) ps = map (turns_left \<circ> view \<circ> R) ps"
        using new by auto
      have views: "map (view \<circ> ?R) (QUEUE t) = map (view \<circ> R) ps @ ?later" using x(5) ps(1) by (auto split: if_splits)
      have 1: "queue_at ?R t" using Q q x(3,5) new by (auto simp: queue_at_def split: if_splits)
      have 2: "\<forall>q \<in> set (ALL_PCB t). set (raw_lines (r_lines (?R q))) \<subseteq> set L" using Suc.prems(3) x(3,4) by simp
      have 3: "sum_list (map (turns_left \<circ> view \<circ> ?R) (QUEUE t)) < f"
      proof -
        have "sum_list (map (turns_left \<circ> view \<circ> ?R) (QUEUE t)) = sum_list (map turns_left (map (view \<circ> R) ps @ ?later))"
          unfolding views [symmetric] by (simp add: comp_assoc)
        also have "\<dots> < sum_list (map (turns_left \<circ> view \<circ> R) (QUEUE s))"
          using turn_of_decreases [of "view (R p)"] by (simp add: q comp_assoc)
        finally show ?thesis using Suc.prems(4) by linarith
      qed
      have "rr_result F (rr_order (map (view \<circ> R) ps @ ?later)) u (run_proc_RR P f t)"
        using Suc.IH [OF x(1) 1 2 3] unfolding views x(2) .
      moreover have "rr_result F (rr_order (map (view \<circ> R) (QUEUE s))) (user_of s) r = rr_result F (rr_order (map (view \<circ> R) ps @ ?later)) u r" for r
        unfolding order using Some by (simp add: rr_result_def run_lines_append)
      moreover have "run_proc_RR P (Suc f) s = run_proc_RR P f t" using run t(1) by (simp del: run_proc_RR.simps)
      ultimately show ?thesis by metis
    qed
  qed
qed simp

section \<open>Creating processes\<close>

definition new_process :: "string list \<Rightarrow> int \<Rightarrow> nat \<Rightarrow> proc" where
  "new_process ls pid p = \<lparr>r_lines = ls, r_pid = pid, r_table = [p + 1..<p + 1 + page_count (length ls)], r_frames = [], r_done = 0\<rparr>"

definition fresh_process :: "string list \<Rightarrow> int \<Rightarrow> shell \<Rightarrow> shell" where
  "fresh_process ls pid s =
     (let p = fresh_ref s; x = new_process ls pid p
      in s\<lparr>fresh_ref := p + 1 + page_count (length ls), pcbs := (pcbs s)(p \<mapsto> pcb_of x),
           pages := (\<lambda>q. if q \<in> set (r_table x) then Some (PAGE_init pid (q - (p + 1))) else pages s q)\<rparr>)"

text \<open>All references in use are older than the next one.\<close>

definition refs_below :: "nat set \<Rightarrow> (nat \<Rightarrow> proc) \<Rightarrow> nat \<Rightarrow> bool" where
  "refs_below A R b \<longleftrightarrow> (\<forall>p \<in> A. p < b \<and> (\<forall>q \<in> set (r_table (R p)). q < b))"

lemma PCB_init_fresh:
  assumes "open_text script s = Some (concat (raw_lines ls))" and "script_ok ls"
  shows "PCB_init pid script s =
    and_then (load_first (fresh_ref s) [0..<min 2 (page_count (length ls))] (fresh_process ls pid s))
      (\<lambda>s'. Returns (fresh_ref s, s'))"
proof -
  have "count_lines script s = int (length ls)"
    using assms count_newlines_raw [OF assms(2)] by (simp add: count_lines_def)
  moreover have "counters (length ls) 0 = replicate (page_count (length ls)) 0"
    by (simp add: counters_def map_replicate_const)
  ultimately show ?thesis
    using assms(1)
    by (simp add: PCB_init_def PAGE_table_size_eq fresh_process_def new_process_def pcb_of_def Let_def del: upt_Suc)
qed

lemma fresh_process_procs:
  assumes S: "procs_at A R M s" and B: "refs_below A R (fresh_ref s)" and ls: "script_ok ls"
    and pid: "length (decimal_int pid) < 10" "decimal_int pid \<noteq> ''none''"
    and room: "M + (\<Sum>p \<in> A. pages_left (R p)) + page_count (length ls) \<le> 9"
  shows "procs_at (insert (fresh_ref s) A) (R(fresh_ref s := new_process ls pid (fresh_ref s))) M (fresh_process ls pid s)"
proof -
  let ?p = "fresh_ref s" and ?s = "fresh_process ls pid s"
  let ?x = "new_process ls pid ?p" and ?R = "R(?p := new_process ls pid ?p)"
  note I = procs_atD [OF S]
  have pA: "?p \<notin> A" using B by (auto simp: refs_below_def)
  have x: "r_lines ?x = ls" "r_pid ?x = pid" "r_table ?x = [?p + 1..<?p + 1 + page_count (length ls)]" "r_frames ?x = []" "r_done ?x = 0"
    by (simp_all add: new_process_def)
  have s: "pcbs ?s = (pcbs s)(?p \<mapsto> pcb_of ?x)" "memory ?s = memory s"
    "pages ?s q = (if q \<in> set (r_table ?x) then Some (PAGE_init pid (q - (?p + 1))) else pages s q)" for q
    by (simp_all add: fresh_process_def Let_def)
  have old: "r_table (R q) ! i \<notin> set (r_table ?x)" if "q \<in> A" "i < length (r_table (R q))" for q i
  proof -
    have "r_table (R q) ! i \<in> set (r_table (R q))" using that(2) by (rule nth_mem)
    then have "r_table (R q) ! i < ?p" using B that(1) by (auto simp: refs_below_def)
    then show ?thesis by (simp add: x(3))
  qed
  have "proc_at (?R q) q M ?s" if q: "q \<in> insert ?p A" for q
  proof (cases "q = ?p")
    case True
    have "proc_at ?x ?p M ?s"
      using ls pid by (simp add: proc_at_def proc_ok_def s cells_hold_def x page_of_def nth_upt del: upt_Suc)
    then show ?thesis using True by simp
  next
    case False
    then have qA: "q \<in> A" using q by simp
    have len: "length (r_table (R q)) = page_count (r_size (R q))" using proc_okD(4) [OF proc_atD(1) [OF I(5) [OF qA]]] .
    have "proc_at (R q) q M ?s"
      by (rule proc_at_cong [OF I(5) [OF qA]]) (use False old [OF qA] len in \<open>simp_all add: s\<close>)
    then show ?thesis using False by simp
  qed
  moreover have "separate (insert ?p A) (\<lambda>q. r_frames (?R q))"
    using I(6) by (auto simp: separate_def x(4) split: if_splits)
  moreover have "separate (insert ?p A) (\<lambda>q. r_table (?R q))"
    unfolding separate_def
  proof (intro ballI allI impI)
    fix a b i j assume ab: "a \<in> insert ?p A" "b \<in> insert ?p A" "i < length (r_table (?R a))" "j < length (r_table (?R b))"
      "r_table (?R a) ! i = r_table (?R b) ! j"
    consider "a = ?p" "b = ?p" | "a = ?p" "b \<in> A" "b \<noteq> ?p" | "a \<in> A" "a \<noteq> ?p" "b = ?p" | "a \<in> A" "b \<in> A" "a \<noteq> ?p" "b \<noteq> ?p"
      using ab(1,2) by auto
    then show "a = b \<and> i = j"
    proof cases
      case 1
      then show ?thesis using ab(3-5) by (simp add: x(3) nth_upt del: upt_Suc)
    next
      case 2
      have "r_table ?x ! i \<in> set (r_table ?x)" using ab(3) 2(1) by (intro nth_mem) simp
      then show ?thesis using old [of b j] ab(4,5) 2 by simp
    next
      case 3
      have "r_table ?x ! j \<in> set (r_table ?x)" using ab(4) 3(3) by (intro nth_mem) simp
      then show ?thesis using old [of a i] ab(3,5) 3 by simp
    next
      case 4
      then show ?thesis using separateD [OF I(7), of a b i j] ab(3-5) by simp
    qed
  qed
  moreover have "(\<Sum>q \<in> insert ?p A. pages_left (?R q)) = page_count (length ls) + (\<Sum>q \<in> A. pages_left (R q))"
  proof -
    have "(\<Sum>q \<in> A. pages_left (?R q)) = (\<Sum>q \<in> A. pages_left (R q))" using pA by (intro sum.cong) auto
    then show ?thesis using I(1) pA by (simp add: pages_left_def x)
  qed
  moreover have "\<exists>q \<in> insert ?p A. f \<in> set (r_frames (?R q))" if "f < M" for f
  proof -
    from I(9) [OF that] obtain q where q: "q \<in> A" "f \<in> set (r_frames (R q))" by blast
    then show ?thesis using pA by (intro bexI [of _ q]) auto
  qed
  ultimately show ?thesis using I(1-3) room unfolding procs_at_def s(2) by simp
qed

text \<open>Loading the first pages.\<close>

lemma load_first_procs:
  "procs_at A R M s \<Longrightarrow> p \<in> A \<Longrightarrow> r_loaded (R p) = i \<Longrightarrow> i \<le> j \<Longrightarrow> j \<le> page_count (r_size (R p)) \<Longrightarrow>
   \<exists>s' x. load_first p [i..<j] s = Returns s' \<and> procs_at A (R(p := x)) (M + (j - i)) s' \<and> r_loaded x = j \<and>
     r_lines x = r_lines (R p) \<and> r_table x = r_table (R p) \<and> r_done x = r_done (R p) \<and> user_of s' = user_of s \<and>
     QUEUE s' = QUEUE s \<and> LRU_CACHE s' = LRU_CACHE s \<and> ALL_PCB s' = ALL_PCB s \<and> PID_counter s' = PID_counter s \<and>
     fresh_ref s' = fresh_ref s"
proof (induction "j - i" arbitrary: i R M s)
  case 0
  then have "i = j" by simp
  then show ?case using 0 by (intro exI [of _ s] exI [of _ "R p"]) simp
next
  case (Suc d)
  then have ij: "i < j" "[i..<j] = i # [Suc i..<j]" by (simp_all add: upt_conv_Cons)
  have "i < page_count (r_size (R p))" using ij(1) Suc.prems(5) by simp
  from load_PAGE_procs [OF Suc.prems(1,2,3) this] obtain t where t: "load_PAGE p i s = Some (0, t)"
    "procs_at A (R(p := load_next M (R p))) (Suc M) t" "user_of t = user_of s" "QUEUE t = QUEUE s" "LRU_CACHE t = LRU_CACHE s"
    "ALL_PCB t = ALL_PCB s" "PID_counter t = PID_counter s" "fresh_ref t = fresh_ref s" by blast
  let ?R = "R(p := load_next M (R p))"
  have "d = j - Suc i" "r_loaded (?R p) = Suc i" "Suc i \<le> j" "j \<le> page_count (r_size (?R p))" using Suc ij(1) by simp_all
  from Suc.hyps(1) [OF this(1) t(2) Suc.prems(2) this(2-4), unfolded fun_upd_upd fun_upd_same load_next_simps] obtain s' x where s': "load_first p [Suc i..<j] t = Returns s'"
    "procs_at A (R(p := x)) (Suc M + (j - Suc i)) s'" "r_loaded x = j" "r_lines x = r_lines (R p)" "r_table x = r_table (R p)"
    "r_done x = r_done (R p)" "user_of s' = user_of t" "QUEUE s' = QUEUE t" "LRU_CACHE s' = LRU_CACHE t" "ALL_PCB s' = ALL_PCB t"
    "PID_counter s' = PID_counter t" "fresh_ref s' = fresh_ref t" by blast
  have "Suc M + (j - Suc i) = M + (j - i)" using ij(1) by simp
  with s'(2) have "procs_at A (R(p := x)) (M + (j - i)) s'" by metis
  moreover have "load_first p [i..<j] s = Returns s'" using t(1) s'(1) ij(2) by simp
  ultimately show ?case using s' t(3-8) by (intro exI [of _ s'] exI [of _ x]) simp
qed

text \<open>
  The kernel with processes \<open>R p\<close> in its queue, all of them just created, room for \<open>b\<close> more pages and
  numbers for \<open>c\<close> more processes.
\<close>

definition ready_at :: "(nat \<Rightarrow> proc) \<Rightarrow> nat \<Rightarrow> nat \<Rightarrow> nat \<Rightarrow> shell \<Rightarrow> bool" where
  "ready_at R M b c s \<longleftrightarrow> sched_at R M s \<and> QUEUE s = ALL_PCB s \<and> refs_below (set (ALL_PCB s)) R (fresh_ref s) \<and>
     M + (\<Sum>p \<in> set (ALL_PCB s). pages_left (R p)) + b \<le> 9 \<and> 0 \<le> PID_counter s \<and> PID_counter s + int c \<le> 10 ^ 9"

lemma kernel_idle_ready:
  assumes "kernel_idle s" and "b \<le> 9" and "0 \<le> PID_counter s" and "PID_counter s + int c \<le> 10 ^ 9"
  shows "ready_at R 0 b c s"
  using assms by (simp add: ready_at_def sched_at_def procs_at_def kernel_idle_def mem_ok_def separate_def refs_below_def loaded_refs_def)

definition fresh_view :: "string list \<Rightarrow> nat \<times> string list" where
  "fresh_view ls = (3 * min 2 (page_count (length ls)), raw_lines ls)"

lemma new_proc_ready:
  assumes G: "ready_at R M b (Suc c) s" and ls: "script_ok ls" and room: "page_count (length ls) \<le> b"
    and opened: "open_text script s = Some (concat (raw_lines ls))"
  shows "\<exists>x N s'. new_proc script s = Returns (0, s') \<and> ready_at (R(fresh_ref s := x)) N (b - page_count (length ls)) c s' \<and>
    QUEUE s' = QUEUE s @ [fresh_ref s] \<and> view x = fresh_view ls \<and> r_lines x = ls \<and> user_of s' = user_of s \<and>
    fresh_ref s \<notin> set (QUEUE s)"
proof -
  note G = G [unfolded ready_at_def]
  have S: "sched_at R M s" and q: "QUEUE s = ALL_PCB s" and B: "refs_below (set (ALL_PCB s)) R (fresh_ref s)"
    and r: "M + (\<Sum>p \<in> set (ALL_PCB s). pages_left (R p)) + b \<le> 9" and pid0: "0 \<le> PID_counter s" "PID_counter s + int (Suc c) \<le> 10 ^ 9"
    using G by blast+
  note D = sched_atD [OF S]
  let ?A = "set (ALL_PCB s)" and ?pid = "PID_counter s" and ?p = "fresh_ref s" and ?n = "page_count (length ls)"
  let ?x = "new_process ls ?pid ?p" and ?s = "s\<lparr>PID_counter := ?pid + 1\<rparr>" and ?j = "min 2 ?n"
  let ?R = "R(?p := ?x)" and ?t = "fresh_process ls ?pid ?s"
  have pA: "?p \<notin> ?A" using B by (auto simp: refs_below_def)
  have n0: "0 < ?n" using ls page_count_bounds(1) [of "length ls"] by (cases ls) (auto simp: script_ok_def page_count_def)
  have pid: "?pid < 10 ^ 9" using pid0(2) by linarith
  have "procs_at ?A R M ?s" "refs_below ?A R (fresh_ref ?s)" "M + (\<Sum>p \<in> ?A. pages_left (R p)) + ?n \<le> 9"
    using D(1) B r room by simp_all
  from fresh_process_procs [OF this(1,2) ls decimal_int_pid [OF pid0(1) pid] this(3)]
  have T: "procs_at (insert ?p ?A) ?R M ?t" by simp
  have x: "r_lines ?x = ls" "r_table ?x = [?p + 1..<?p + 1 + ?n]" "r_frames ?x = []" "r_done ?x = 0"
    by (simp_all add: new_process_def)
  have "?p \<in> insert ?p ?A" "r_loaded (?R ?p) = 0" "0 \<le> ?j" "?j \<le> page_count (r_size (?R ?p))" by (simp_all add: x)
  from load_first_procs [OF T this, unfolded fun_upd_upd fun_upd_same x] obtain t y where t:
    "load_first ?p [0..<?j] ?t = Returns t" "procs_at (insert ?p ?A) (R(?p := y)) (M + (?j - 0)) t" "r_loaded y = ?j" "r_lines y = ls"
    "r_table y = [?p + 1..<?p + 1 + ?n]" "r_done y = 0" "user_of t = user_of ?t" "QUEUE t = QUEUE ?t" "LRU_CACHE t = LRU_CACHE ?t"
    "ALL_PCB t = ALL_PCB ?t" "PID_counter t = PID_counter ?t" "fresh_ref t = fresh_ref ?t" by blast
  have same: "user_of ?t = user_of s" "QUEUE ?t = QUEUE s" "LRU_CACHE ?t = LRU_CACHE s" "ALL_PCB ?t = ALL_PCB s"
    "PID_counter ?t = ?pid + 1" "fresh_ref ?t = ?p + 1 + ?n"
    by (simp_all add: fresh_process_def user_of_def Let_def)
  let ?s' = "t\<lparr>ALL_PCB := ALL_PCB s @ [?p], QUEUE := QUEUE s @ [?p], LRU_CACHE := rev (take 2 (r_table y)) @ LRU_CACHE s\<rparr>"
  have "pcbs t ?p = Some (pcb_of y)" using proc_atD(2) [OF procs_atD(5) [OF t(2)], of ?p] by simp
  moreover have "open_text script ?s = Some (concat (raw_lines ls))" using opened by (simp add: open_text_def)
  ultimately have new: "new_proc script s = Returns (0, ?s')"
    using PCB_init_fresh [of script ?s ls ?pid] ls t(1,8-10) same by (simp add: new_proc_def Let_def del: upt_Suc)
  have cache: "set (take 2 (r_table y)) = loaded_of y"
  proof -
    have len: "length (r_table y) = ?n" by (simp add: t(5) del: upt_Suc)
    have "take 2 (r_table y) = take ?j (r_table y)" using len by (simp add: min_def)
    moreover have "loaded_of y = set (take ?j (r_table y))"
      using nth_image [of ?j "r_table y"] len by (simp add: loaded_of_def t(3) lessThan_atLeast0)
    ultimately show ?thesis by simp
  qed
  have old: "loaded_refs ?A (R(?p := y)) = loaded_refs ?A R"
    unfolding loaded_refs_def using pA by (intro SUP_cong) auto
  have "set (take 2 (r_table y)) \<inter> set (LRU_CACHE s) = {}"
  proof -
    have "q < ?p" if "q \<in> loaded_refs ?A R" for q
    proof -
      from that obtain a i where a: "a \<in> ?A" "i < r_loaded (R a)" "q = r_table (R a) ! i" by (auto simp: loaded_refs_def loaded_of_def)
      note O = proc_okD(4,5) [OF proc_atD(1) [OF procs_atD(5) [OF D(1) a(1)]]]
      have "q \<in> set (r_table (R a))" using a(2,3) O by simp
      then show ?thesis using B a(1) by (auto simp: refs_below_def)
    qed
    moreover have "?p < q" if "q \<in> set (take 2 (r_table y))" for q using in_set_takeD [OF that] by (simp add: t(5) del: upt_Suc)
    ultimately show ?thesis using D(4) by fastforce
  qed
  then have "sched_at (R(?p := y)) (M + ?j) ?s'"
    using D(2-4) t(2) pA cache old by (simp add: sched_at_def t(5) loaded_refs_def del: upt_Suc)
  moreover have "refs_below (set (ALL_PCB ?s')) (R(?p := y)) (fresh_ref ?s')"
    using B pA t(12) same(6) unfolding refs_below_def by (auto simp: t(5) simp del: upt_Suc) (meson less_trans_Suc trans_less_add1 less_SucI)+
  moreover have "M + ?j + (\<Sum>p \<in> set (ALL_PCB ?s'). pages_left ((R(?p := y)) p)) + (b - ?n) \<le> 9"
  proof -
    have "(\<Sum>p \<in> ?A. pages_left ((R(?p := y)) p)) = (\<Sum>p \<in> ?A. pages_left (R p))" using pA by (intro sum.cong) auto
    moreover have "pages_left y = ?n - ?j" by (simp add: pages_left_def t(3,4))
    ultimately show ?thesis using r room pA by simp
  qed
  moreover have "PID_counter ?s' + int c \<le> 10 ^ 9" "0 \<le> PID_counter ?s'" using pid0 n0 room t(11) same(5) by simp_all
  ultimately have "ready_at (R(?p := y)) (M + ?j) (b - ?n) c ?s'" using q by (simp add: ready_at_def)
  moreover have "view y = fresh_view ls" by (simp add: view_def fresh_view_def t(3,4,6))
  moreover have "user_of ?s' = user_of s" using t(7) same(1) by simp
  ultimately show ?thesis using new t(4) pA q by (intro exI [of _ y] exI [of _ "M + ?j"] exI [of _ ?s']) simp
qed

lemma open_text_user: "user_of s' = user_of s \<Longrightarrow> open_text script s' = open_text script s"
  by (simp add: open_text_def user_of_def)

text \<open>The scripts are files of the host.\<close>

definition script_files :: "shell \<Rightarrow> string list \<Rightarrow> string list list \<Rightarrow> bool" where
  "script_files s = list_all2 (\<lambda>script ls. script_ok ls \<and> open_text script s = Some (concat (raw_lines ls)))"

definition all_pages :: "string list list \<Rightarrow> nat" where
  "all_pages lss = sum_list (map (\<lambda>ls. page_count (length ls)) lss)"

lemma new_procs_ready:
  "ready_at R M b (length scripts) s \<Longrightarrow> script_files s scripts lss \<Longrightarrow> all_pages lss \<le> b \<Longrightarrow>
   \<exists>R N s'. new_procs scripts s = Returns (0, s') \<and> ready_at R N (b - all_pages lss) 0 s' \<and>
     map (view \<circ> R) (QUEUE s') = vs @ map fresh_view lss \<and> map (r_lines \<circ> R) (QUEUE s') = rs @ lss \<and> user_of s' = user_of s"
  if "map (view \<circ> R) (QUEUE s) = vs" and "map (r_lines \<circ> R) (QUEUE s) = rs"
  using that
proof (induction scripts arbitrary: lss R M b s vs rs)
  case Nil
  then show ?case by (intro exI [of _ R] exI [of _ M] exI [of _ s]) (simp add: script_files_def all_pages_def)
next
  case (Cons script scripts)
  then obtain ls lss' where lss: "lss = ls # lss'" by (cases lss) (auto simp: script_files_def)
  have one: "script_ok ls" "open_text script s = Some (concat (raw_lines ls))" "script_files s scripts lss'"
    using Cons.prems(2) by (simp_all add: script_files_def lss)
  have b: "page_count (length ls) \<le> b" "all_pages lss' \<le> b - page_count (length ls)"
    "b - page_count (length ls) - all_pages lss' = b - all_pages lss" using Cons.prems(3) by (simp_all add: all_pages_def lss)
  have "ready_at R M b (Suc (length scripts)) s" using Cons.prems(1) by simp
  from new_proc_ready [OF this one(1) b(1) one(2)] obtain x N t where t: "new_proc script s = Returns (0, t)"
    "ready_at (R(fresh_ref s := x)) N (b - page_count (length ls)) (length scripts) t" "QUEUE t = QUEUE s @ [fresh_ref s]"
    "view x = fresh_view ls" "r_lines x = ls" "user_of t = user_of s" "fresh_ref s \<notin> set (QUEUE s)" by blast
  let ?R = "R(fresh_ref s := x)"
  have "script_files t scripts lss'" using one(3) open_text_user [OF t(6)] by (simp add: script_files_def)
  moreover have "map (view \<circ> ?R) (QUEUE t) = vs @ [fresh_view ls]" "map (r_lines \<circ> ?R) (QUEUE t) = rs @ [ls]"
    using t(3-5,7) Cons.prems(4,5) by auto
  ultimately obtain R' N' s' where "new_procs scripts t = Returns (0, s')" "ready_at R' N' (b - all_pages lss) 0 s'"
    "map (view \<circ> R') (QUEUE s') = (vs @ [fresh_view ls]) @ map fresh_view lss'" "map (r_lines \<circ> R') (QUEUE s') = (rs @ [ls]) @ lss'"
    "user_of s' = user_of t"
    using Cons.IH [OF t(2) _ b(2)] unfolding b(3) by blast
  then show ?case using t(1,6) by (intro exI [of _ R'] exI [of _ N'] exI [of _ s']) (simp add: lss comp_def)
qed

lemma turns_left_fresh: "script_ok ls \<Longrightarrow> turns_left (fresh_view ls) = 2 * length ls + 1"
  using page_count_bounds(1) [of "length ls"] by (cases ls) (auto simp: fresh_view_def script_ok_def page_count_def)

text \<open>Once the processes are created, they are executed in the order of the abstract scheduler.\<close>

lemma run_ready:
  assumes G: "ready_at R M b c s" and v: "map (view \<circ> R) (QUEUE s) = map fresh_view lss" and l: "map (r_lines \<circ> R) (QUEUE s) = lss"
    and ok: "\<forall>ls \<in> set lss. script_ok ls" and P: "plain_on (concat (map raw_lines lss)) F P"
    and rounds: "sum_list (map (\<lambda>ls. 2 * length ls + 1) lss) < fuel"
  shows "rr_result F (rr_order (map fresh_view lss)) (user_of s) (run_proc_RR P fuel s)"
proof -
  have S: "sched_at R M s" and q: "QUEUE s = ALL_PCB s" using G by (simp_all add: ready_at_def)
  have "queue_at R s" using sched_atD(2) [OF S] q by (simp add: queue_at_def)
  moreover have "\<forall>p \<in> set (ALL_PCB s). set (raw_lines (r_lines (R p))) \<subseteq> set (concat (map raw_lines lss))"
    using q by (fastforce simp: l [symmetric])
  moreover have "map (turns_left \<circ> view \<circ> R) (QUEUE s) = map turns_left (map (view \<circ> R) (QUEUE s))" by simp
  then have "map (turns_left \<circ> view \<circ> R) (QUEUE s) = map (\<lambda>ls. 2 * length ls + 1) lss"
    unfolding v using ok turns_left_fresh by simp
  then have "sum_list (map (turns_left \<circ> view \<circ> R) (QUEUE s)) < fuel" using rounds by metis
  ultimately have "rr_result F (rr_order (map (view \<circ> R) (QUEUE s))) (user_of s) (run_proc_RR P fuel s)"
    by (rule rr_loop_all [OF P S])
  then show ?thesis unfolding v .
qed

lemma run_script_result:
  assumes "kernel_idle s" and "script_ok ls" and "length ls \<le> 27" and "0 \<le> PID_counter s" and "PID_counter s < 10 ^ 9"
    and "open_text script s = Some (concat (raw_lines ls))"
    and "plain_on (raw_lines ls) F P" and "2 * length ls + 2 \<le> s_rounds E"
  shows "rr_result F (raw_lines ls) (user_of s) (run_script E P script s)"
proof -
  have b: "page_count (length ls) \<le> 9" using page_count_bounds(2) [OF assms(3)] .
  have "ready_at R 0 9 (Suc 0) s" for R using assms(1,4,5) by (intro kernel_idle_ready) auto
  from new_proc_ready [OF this assms(2) b assms(6), of undefined] obtain x N t where t: "new_proc script s = Returns (0, t)"
    "ready_at (undefined(fresh_ref s := x)) N (9 - page_count (length ls)) 0 t" "QUEUE t = QUEUE s @ [fresh_ref s]"
    "view x = fresh_view ls" "r_lines x = ls" "user_of t = user_of s" by blast
  have "QUEUE t = [fresh_ref s]" using t(3) assms(1) by (simp add: kernel_idle_def)
  then have "rr_result F (rr_order (map fresh_view [ls])) (user_of t) (run_proc_RR P (s_rounds E) t)"
    by (intro run_ready [OF t(2)]) (use t(4,5) assms(2,7,8) in simp_all)
  moreover have "rr_order (map fresh_view [ls]) = raw_lines ls"
    unfolding list.map rr_order_single by (simp add: fresh_view_def)
  ultimately show ?thesis using t(1,6) by (simp add: run_script_def)
qed

lemma exec_result:
  assumes "kernel_idle s" and "length scripts \<le> 3" and "script_files s scripts lss" and "all_pages lss \<le> 9"
    and "0 \<le> PID_counter s" and "PID_counter s + 3 \<le> 10 ^ 9"
    and "plain_on (concat (map raw_lines lss)) F P" and "sum_list (map (\<lambda>ls. 2 * length ls + 1) lss) < s_rounds E"
  shows "rr_result F (rr_order (map fresh_view lss)) (user_of s) (exec E P scripts ''RR'' s)"
proof -
  have "ready_at undefined 0 9 (length scripts) s" using assms(1,2,5,6) by (intro kernel_idle_ready) auto
  moreover have "map f (QUEUE s) = []" for f :: "nat \<Rightarrow> 'a" using assms(1) by (simp add: kernel_idle_def)
  ultimately obtain R N t where t: "new_procs scripts s = Returns (0, t)" "ready_at R N (9 - all_pages lss) 0 t"
    "map (view \<circ> R) (QUEUE t) = map fresh_view lss" "map (r_lines \<circ> R) (QUEUE t) = lss" "user_of t = user_of s"
    using new_procs_ready [of undefined s "[]" "[]" 0 9 scripts lss] assms(1,3,4) by (auto simp: kernel_idle_def)
  have "\<forall>ls \<in> set lss. script_ok ls" using assms(3) by (auto simp: script_files_def list_all2_conv_all_nth in_set_conv_nth)
  from run_ready [OF t(2-4) this assms(7,8)] show ?thesis using t(1,5) assms(2) by (simp add: exec_def)
qed

end
