(* ===== verification/Script_Run.thy ===== *)
theory Script_Run
  imports Round_Robin
begin

text \<open>
  What running scripts means: the commands \<open>run\<close> and \<open>exec\<close> execute the lines of one or several scripts
  and leave the kernel idle.
\<close>

declare upt_rec_numeral [simp del]

section \<open>Several scripts\<close>

text \<open>A new shell without processes, and a parser that prints every line.\<close>

definition new_shell :: "fs \<Rightarrow> host_files \<Rightarrow> shell" where
  "new_shell t h = \<lparr>memory = mem_init, pages = Map.empty, pcbs = Map.empty, fresh_ref = 0, QUEUE = [], LRU_CACHE = [],
     ALL_PCB = [], PID_counter = 1, new_name_count = 1, strtok_rest = [], host = h, file_system = t, outputs = []\<rparr>"

lemma new_shell_idle: "kernel_idle (new_shell t h)"
  by (simp add: kernel_idle_def new_shell_def mem_ok_def mem_init_def free_cell_def)

definition print_user :: "string \<Rightarrow> user \<Rightarrow> (int \<times> user) option" where
  "print_user l u = Some (0, u\<lparr>user_outputs := user_outputs u @ [Text (l @ [newline])]\<rparr>)"

lemma print_line_plain: "plain_on L print_user (\<lambda>l s. Returns (0, print_line l s))"
  by (simp add: plain_on_def print_user_def put_user_def user_of_def print_line_def print_out_def)

text \<open>
  C6: Up to three scripts, of at most nine pages together, run by \<^verbatim>\<open>exec\<close> under round robin: their lines
  are executed exactly in the order of a queue of scripts, in which a turn takes two lines, or one
  before a page fault, or none when the first one faults. So every line of every script is executed
  once, whatever the shared frames, page tables and counters do; the call returns 0 and leaves no
  process and only free frames behind. The lines may be any that are not scripts themselves, do not
  return 1 and change only what commands change; the last one of a script has no newline.
\<close>

theorem exec_interleaves_scripts:
  assumes "kernel_idle s" and "length scripts \<le> 3" and "script_files s scripts lss" and "all_pages lss \<le> 9"
    and "0 \<le> PID_counter s" and "PID_counter s + 3 \<le> 10 ^ 9"
    and "plain_on (concat (map raw_lines lss)) F P" and "sum_list (map (\<lambda>ls. 2 * length ls + 1) lss) < s_rounds E"
  shows "rr_result F (rr_order (map fresh_view lss)) (user_of s) (exec E P scripts ''RR'' s) \<and>
    mset (rr_order (map fresh_view lss)) = mset (concat (map raw_lines lss))"
proof -
  have "map snd (map fresh_view lss) = map raw_lines lss" by (simp add: fresh_view_def)
  then show ?thesis using exec_result [OF assms] mset_rr_order [of "map fresh_view lss"] by metis
qed

text \<open>A script of three lines and one of two.\<close>

theorem exec_interleaves_scripts_witness:
  "\<forall>E t. \<exists>s'. exec (E\<lparr>s_rounds := 13\<rparr>) (\<lambda>l s. Returns (0, print_line l s)) [''f'', ''g''] ''RR''
       (new_shell t [''f'' \<mapsto> bytes_of_string [CHR ''a'', newline, CHR ''b'', newline, CHR ''c''],
          ''g'' \<mapsto> bytes_of_string [CHR ''x'', newline, CHR ''y'']]) = Returns (0, s') \<and>
     outputs s' = map Text [[CHR ''a'', newline, newline], [CHR ''b'', newline, newline], [CHR ''x'', newline, newline],
       [CHR ''y'', newline], [CHR ''c'', newline]] \<and> kernel_idle s'"
proof (intro allI)
  fix E :: shell_env and t :: fs
  let ?s = "new_shell t [''f'' \<mapsto> bytes_of_string [CHR ''a'', newline, CHR ''b'', newline, CHR ''c''],
    ''g'' \<mapsto> bytes_of_string [CHR ''x'', newline, CHR ''y'']]" and ?E = "E\<lparr>s_rounds := 13\<rparr>"
  let ?lss = "[[''a'', ''b'', ''c''], [''x'', ''y'']]"
  have "script_files ?s [''f'', ''g''] ?lss"
    by (simp add: script_files_def open_text_def new_shell_def raw_lines_def string_of_bytes_of_string script_ok_def)
  moreover have "all_pages ?lss \<le> 9" by (simp add: all_pages_def page_count_def)
  moreover have "rr_order (map fresh_view ?lss) =
      [[CHR ''a'', newline], [CHR ''b'', newline], [CHR ''x'', newline], ''y'', ''c'']"
  proof -
    have "fresh_view [''a'', ''b'', ''c''] = (3, [[CHR ''a'', newline], [CHR ''b'', newline], ''c''])"
      "fresh_view [''x'', ''y''] = (3, [[CHR ''x'', newline], ''y''])"
      by (simp_all add: fresh_view_def page_count_def raw_lines_def)
    moreover have "turn_of (3, x # y # l) = ([x, y], [(Suc 0, l)])" for x y :: string and l
      by (simp add: numeral_3_eq_3)
    ultimately show ?thesis by simp
  qed
  ultimately have "rr_result print_user [[CHR ''a'', newline], [CHR ''b'', newline], [CHR ''x'', newline], ''y'', ''c'']
      (user_of ?s) (exec ?E (\<lambda>l s. Returns (0, print_line l s)) [''f'', ''g''] ''RR'' ?s)"
    using exec_interleaves_scripts [OF new_shell_idle _ _ _ _ _ print_line_plain, of "[''f'', ''g'']" t _ ?lss ?E]
    by (simp add: new_shell_def)
  then show "\<exists>s'. exec ?E (\<lambda>l s. Returns (0, print_line l s)) [''f'', ''g''] ''RR'' ?s = Returns (0, s') \<and>
      outputs s' = map Text [[CHR ''a'', newline, newline], [CHR ''b'', newline, newline], [CHR ''x'', newline, newline],
       [CHR ''y'', newline], [CHR ''c'', newline]] \<and> kernel_idle s'"
    by (auto simp: rr_result_def print_user_def user_of_def new_shell_def)
qed

section \<open>One script\<close>

text \<open>
  C5: A script runs to its end: the round robin scheduler, which executes two lines a turn and loads
  the pages of the script on page faults, executes the lines of a script of up to 27 lines one after
  the other, each exactly once and in order, and nothing else; it then returns 0 and leaves no
  process and only free frames behind. At most two rounds a line and two more are needed. The lines
  may be any that are not scripts themselves, do not return 1 and change only what commands change; the
  last one ends with the file, without a newline.
\<close>

theorem run_executes_script:
  assumes "kernel_idle s" and "script_ok ls" and "length ls \<le> 27" and "0 \<le> PID_counter s" and "PID_counter s < 10 ^ 9"
    and "open_text script s = Some (concat (raw_lines ls))"
    and "plain_on (raw_lines ls) F P" and "2 * length ls + 2 \<le> s_rounds E"
  shows "rr_result F (raw_lines ls) (user_of s) (run_script E P script s)"
  by (rule run_script_result [OF assms])

text \<open>A script of two lines.\<close>

theorem run_executes_script_witness:
  "\<forall>E t. \<exists>s'. run_script (E\<lparr>s_rounds := 6\<rparr>) (\<lambda>l s. Returns (0, print_line l s)) ''f''
       (new_shell t [''f'' \<mapsto> bytes_of_string [CHR ''a'', newline, CHR ''b'']]) = Returns (0, s') \<and>
     outputs s' = [Text [CHR ''a'', newline, newline], Text [CHR ''b'', newline]] \<and> kernel_idle s'"
proof (intro allI)
  fix E :: shell_env and t :: fs
  let ?s = "new_shell t [''f'' \<mapsto> bytes_of_string [CHR ''a'', newline, CHR ''b'']]" and ?E = "E\<lparr>s_rounds := 6\<rparr>"
  have "open_text ''f'' ?s = Some (concat (raw_lines [''a'', ''b'']))"
    by (simp add: open_text_def new_shell_def raw_lines_def string_of_bytes_of_string)
  from run_executes_script [OF new_shell_idle _ _ _ _ this print_line_plain, of ?E]
  have "rr_result print_user (raw_lines [''a'', ''b'']) (user_of ?s) (run_script ?E (\<lambda>l s. Returns (0, print_line l s)) ''f'' ?s)"
    by (simp add: script_ok_def new_shell_def)
  then show "\<exists>s'. run_script ?E (\<lambda>l s. Returns (0, print_line l s)) ''f'' ?s = Returns (0, s') \<and>
      outputs s' = [Text [CHR ''a'', newline, newline], Text [CHR ''b'', newline]] \<and> kernel_idle s'"
    by (auto simp: rr_result_def raw_lines_def print_user_def user_of_def new_shell_def)
qed

end
