(* ===== verification/Shell.thy ===== *)
theory Shell
  imports Interpreter Partition
begin

text \<open>
  The shell itself (\<^verbatim>\<open>src/a3/shell.c\<close>): lines are cut into commands with \<open>strtok\<close>, commands into
  words. A command may run a script, whose lines come back here; \<open>fuel\<close> bounds that nesting.
  \<open>strtok\<close> keeps its position in one place for the whole program, the field \<open>strtok_rest\<close>.
\<close>

section \<open>Commands and words\<close>

text \<open>The next token of a string, and what is left of it.\<close>

definition strtok_step :: "string \<Rightarrow> string option \<times> string" where
  "strtok_step rest =
     (let r = dropWhile (\<lambda>c. c = CHR '';'') rest
      in if r = [] then (None, [])
         else (Some (takeWhile (\<lambda>c. c \<noteq> CHR '';'') r), drop 1 (dropWhile (\<lambda>c. c \<noteq> CHR '';'') r)))"

function split_words :: "string \<Rightarrow> string list" where
  "split_words [] = []"
| "split_words (c # cs) =
     takeWhile (\<lambda>x. x \<noteq> CHR '' '') (c # cs) # split_words (drop 1 (dropWhile (\<lambda>x. x \<noteq> CHR '' '') (c # cs)))"
  by pat_completeness auto
termination
proof (relation "measure length")
  fix c :: char and cs :: string
  have "length (dropWhile (\<lambda>x. x \<noteq> CHR '' '') (c # cs)) \<le> length (c # cs)" by (rule length_dropWhile_le)
  then show "(drop 1 (dropWhile (\<lambda>x. x \<noteq> CHR '' '') (c # cs)), c # cs) \<in> measure length" by simp
qed simp

definition words_of :: "string \<Rightarrow> string list" where
  "words_of token = split_words (dropWhile (\<lambda>c. c = CHR '' '') token)"

section \<open>Executing a line\<close>

text \<open>The arrays hold a token of 999 characters and 100 words.\<close>

primrec token_loop :: "shell_env \<Rightarrow> parser \<Rightarrow> nat \<Rightarrow> string option \<Rightarrow> int \<Rightarrow> shell \<Rightarrow> (int \<times> shell) outcome" where
  "token_loop E P 0 token ret s = Unfinished"
| "token_loop E P (Suc k) token ret s =
     (case token of
        None \<Rightarrow> Returns (ret, s)
      | Some t \<Rightarrow>
          if 1000 \<le> length t \<or> 100 < length (words_of t) then Undefined
          else and_then (interpreter E P (words_of t) s)
            (\<lambda>(ret, s).
               let (token, rest) = strtok_step (strtok_rest s);
                   s = s\<lparr>strtok_rest := rest\<rparr>
               in if ret = - 1 then Returns (ret, s) else token_loop E P k token ret s))"

primrec parseInput :: "shell_env \<Rightarrow> nat \<Rightarrow> parser" where
  "parseInput E 0 ui s = Unfinished"
| "parseInput E (Suc fuel) ui s =
     (let (token, rest) = strtok_step ui
      in token_loop E (parseInput E fuel) (s_rounds E) token 0 (s\<lparr>strtok_rest := rest\<rparr>))"

section \<open>The main program\<close>

definition boot :: "shell_env \<Rightarrow> nat \<Rightarrow> string \<Rightarrow> bool \<Rightarrow> fs \<Rightarrow> host_files \<Rightarrow> shell option" where
  "boot E fuel disk_name format t h =
     do { let h = s_system E ''mkdir backing_store'' (s_system E ''rm -rf backing_store'' h);
          img \<leftarrow> h disk_name;
          st \<leftarrow> identify_ata_device fuel disk_name img;
          t \<leftarrow> filesys_init (e_fuel (s_fs E)) (hard_drive st) format (t\<lparr>bc := (bc t)\<lparr>image := img\<rparr>\<rparr>);
          Some \<lparr>memory = mem_init, pages = Map.empty, pcbs = Map.empty, fresh_ref = 0, QUEUE = [], LRU_CACHE = [],
            ALL_PCB = [], PID_counter = 1, new_name_count = 1, strtok_rest = [], host = h, file_system = t,
            outputs = [Text (''Shell v2.1'' @ [newline]),
              Text (''Frame Store Size = '' @ decimal FRAME_STORE_SIZE @ ''; Variable Store Size = '' @
                decimal VAR_STORE_SIZE @ [newline])]\<rparr> }"

text \<open>The lines typed so far; with no line left the shell waits.\<close>

primrec command_loop :: "shell_env \<Rightarrow> nat \<Rightarrow> string list \<Rightarrow> shell \<Rightarrow> shell outcome" where
  "command_loop E fuel [] s = Returns s"
| "command_loop E fuel (line # lines) s =
     and_then (parseInput E fuel (c_str line) s)
       (\<lambda>(code, s). if code = - 1 then Exits 99 else command_loop E fuel lines s)"

text \<open>The arguments are those after the name of the program.\<close>

definition shell_main :: "shell_env \<Rightarrow> nat \<Rightarrow> string list \<Rightarrow> string list \<Rightarrow> fs \<Rightarrow> host_files \<Rightarrow> shell outcome" where
  "shell_main E fuel args lines t h =
     (case args of
        [] \<Rightarrow> Exits 1
      | disk_name # options \<Rightarrow>
          and_then (defined (boot E fuel disk_name (options = [''-f'']) t h)) (\<lambda>s. command_loop E fuel lines s))"

end
