(* ===== verification/Script_Commands.thy ===== *)
theory Script_Commands
  imports Script_Run Shell
begin

text \<open>
  Lines of the shell language from the text to the effect: what \<open>parseInput\<close> does with the commands
  \<^verbatim>\<open>set\<close> and \<^verbatim>\<open>print\<close>, and scripts made of them.
\<close>

declare upt_rec_numeral [simp del]

section \<open>Cutting a line into words\<close>

lemma scan_absent:
  "c \<notin> set w \<Longrightarrow> takeWhile (\<lambda>x. x \<noteq> c) w = w"
  "c \<notin> set w \<Longrightarrow> dropWhile (\<lambda>x. x \<noteq> c) w = []"
  "c \<notin> set w \<Longrightarrow> takeWhile (\<lambda>x. x \<noteq> c) (w @ r) = w @ takeWhile (\<lambda>x. x \<noteq> c) r"
  "c \<notin> set w \<Longrightarrow> dropWhile (\<lambda>x. x \<noteq> c) (w @ r) = dropWhile (\<lambda>x. x \<noteq> c) r"
  by (induction w) auto

lemma split_words_word: "w \<noteq> [] \<Longrightarrow> CHR '' '' \<notin> set w \<Longrightarrow> split_words w = [w]"
  by (cases w) (auto simp: scan_absent)

lemma split_words_cons:
  assumes "w \<noteq> []" and "CHR '' '' \<notin> set w"
  shows "split_words (w @ CHR '' '' # r) = w # split_words r"
proof -
  obtain c cs where w: "w = c # cs" using assms(1) by (cases w) auto
  have "takeWhile (\<lambda>x. x \<noteq> CHR '' '') (w @ CHR '' '' # r) = w" "dropWhile (\<lambda>x. x \<noteq> CHR '' '') (w @ CHR '' '' # r) = CHR '' '' # r"
    using assms(2) by (simp_all add: scan_absent)
  then show ?thesis by (simp add: w)
qed

lemma words_of_line:
  "w \<noteq> [] \<Longrightarrow> CHR '' '' \<notin> set w \<Longrightarrow> words_of (w @ r) = split_words (w @ r)"
  by (cases w) (auto simp: words_of_def)

lemma strtok_step_line: "l \<noteq> [] \<Longrightarrow> CHR '';'' \<notin> set l \<Longrightarrow> strtok_step l = (Some l, [])"
  by (cases l) (auto simp: strtok_step_def Let_def scan_absent)

lemma alnum_chars:
  assumes "isAlphaNumStr v"
  shows "v \<noteq> []" "CHR '' '' \<notin> set v" "CHR '';'' \<notin> set v" "newline \<notin> set v" "CHR 0x0D \<notin> set v" "CHR 0x00 \<notin> set v"
  using assms by (auto simp: isAlphaNumStr_def isalnum_def is_digit_def)

lemma strip_plain:
  "newline \<notin> set v \<Longrightarrow> CHR 0x0D \<notin> set v \<Longrightarrow> strip v = v"
  "newline \<notin> set v \<Longrightarrow> CHR 0x0D \<notin> set v \<Longrightarrow> strip (v @ [newline]) = v"
  unfolding strip_def by (induction v) auto

section \<open>Two commands\<close>

datatype simple_command = Assign string string | Show string

primrec command_text :: "simple_command \<Rightarrow> string" where
  "command_text (Assign v x) = ''set '' @ v @ '' '' @ x"
| "command_text (Show v) = ''print '' @ v"

primrec command_ok :: "simple_command \<Rightarrow> bool" where
  "command_ok (Assign v x) \<longleftrightarrow> isAlphaNumStr v \<and> isAlphaNumStr x \<and> length v < 400 \<and> length x < 400"
| "command_ok (Show v) \<longleftrightarrow> isAlphaNumStr v \<and> length v < 400"

primrec do_command :: "simple_command \<Rightarrow> shell \<Rightarrow> shell" where
  "do_command (Assign v x) s = s\<lparr>memory := mem_set_value v x (memory s), strtok_rest := []\<rparr>"
| "do_command (Show v) s = (print_line (mem_get_value v CHR ''p'' (memory s)) s)\<lparr>strtok_rest := []\<rparr>"

lemma split_command:
  assumes "command_ok c" and "nl = [] \<or> nl = [newline]"
  shows "words_of (command_text c @ nl) =
    (case c of Assign v x \<Rightarrow> [''set'', v, x @ nl] | Show v \<Rightarrow> [''print'', v @ nl])"
proof (cases c)
  case (Assign v x)
  with assms have "command_text c @ nl = ''set'' @ CHR '' '' # (v @ CHR '' '' # (x @ nl))" by simp
  with assms Assign show ?thesis
    using alnum_chars(1,2) [of v] alnum_chars(1,2) [of x]
    by (simp only: words_of_line split_words_cons split_words_word) (auto simp: words_of_line split_words_cons split_words_word simp del: append.simps split_words.simps)
next
  case (Show v)
  with assms have "command_text c @ nl = ''print'' @ CHR '' '' # (v @ nl)" by simp
  with assms Show show ?thesis
    using alnum_chars(1,2) [of v]
    by (simp only: words_of_line split_words_cons split_words_word) (auto simp: words_of_line split_words_cons split_words_word simp del: append.simps split_words.simps)
qed

lemma command_chars:
  assumes "command_ok c"
  shows "CHR '';'' \<notin> set (command_text c)" "CHR 0x0D \<notin> set (command_text c)" "newline \<notin> set (command_text c)" "CHR 0x00 \<notin> set (command_text c)"
    "command_text c \<noteq> []"   "length (command_text c) < 900"
  using assms by (cases c; auto dest: alnum_chars)+

lemma interpreter_set: "map strip args = ''set'' # rest \<Longrightarrow> interpreter E P args s = cmd_set (''set'' # rest) s"
  by (simp add: interpreter_def)

lemma interpreter_print: "map strip args = ''print'' # rest \<Longrightarrow> interpreter E P args s = cmd_print (''print'' # rest) s"
  by (simp add: interpreter_def)

lemma cmd_set_word:
  assumes "isAlphaNumStr v" and "isAlphaNumStr x" and "length v < 400" and "length x < 400"
  shows "cmd_set [''set'', v, x] s = Returns (0, s\<lparr>memory := mem_set_value v x (memory s)\<rparr>)"
  using assms by (simp add: cmd_set_def set_var_def)

text \<open>A line with one such command, with its newline or without: the command and nothing else.\<close>

lemma interpreter_command:
  assumes "command_ok c" and "nl = [] \<or> nl = [newline]"
  shows "interpreter E P (words_of (command_text c @ nl)) (s\<lparr>strtok_rest := []\<rparr>) = Returns (0, do_command c s)"
proof (cases c)
  case (Assign v x)
  note v = alnum_chars [of v] strip_plain [of v] and x = alnum_chars [of x] strip_plain [of x]
  have "strip (x @ nl) = x" using assms(1,2) x Assign by auto
  moreover have "strip ''set'' = ''set''" by (simp add: strip_def)
  moreover have "strip v = v" using assms(1) v Assign by auto
  ultimately have "map strip (words_of (command_text c @ nl)) = [''set'', v, x]"
    using split_command [OF assms] Assign by (simp del: command_text.simps)
  from interpreter_set [OF this] cmd_set_word assms(1) Assign show ?thesis by simp
next
  case (Show v)
  note v = alnum_chars [of v] strip_plain [of v]
  have "strip (v @ nl) = v" using assms(1,2) v Show by auto
  moreover have "strip ''print'' = ''print''" by (simp add: strip_def)
  ultimately have "map strip (words_of (command_text c @ nl)) = [''print'', v]"
    using split_command [OF assms] Show by (simp del: command_text.simps)
  from interpreter_print [OF this] Show show ?thesis
    by (simp add: cmd_print_def print_var_def print_line_def print_out_def)
qed

lemma do_command_rest [simp]: "strtok_rest (do_command c s) = []"
  by (cases c) simp_all

lemma do_command_set_rest [simp]: "(do_command c s)\<lparr>strtok_rest := []\<rparr> = do_command c s"
  by (cases c) simp_all

lemma parseInput_command:
  assumes "command_ok c" and "nl = [] \<or> nl = [newline]" and "2 \<le> s_rounds E"
  shows "parseInput E (Suc fuel) (command_text c @ nl) s = Returns (0, do_command c s)"
proof -
  have k: "s_rounds E = Suc (Suc (s_rounds E - 2))" using assms(3) by arith
  let ?l = "command_text c @ nl"
  have "strtok_step ?l = (Some ?l, [])"
    using assms(2) command_chars [OF assms(1)] by (intro strtok_step_line) auto
  moreover have "\<not> 100 < length (words_of ?l)"
    unfolding split_command [OF assms(1,2)] by (simp split: simple_command.split)
  moreover have "\<not> 1000 \<le> length ?l" using assms(2) command_chars(6) [OF assms(1)] by auto
  moreover have "strtok_step [] = (None, [])" by (simp add: strtok_step_def)
  ultimately show ?thesis
    using interpreter_command [OF assms(1,2), of E "parseInput E fuel" s]
    by (subst parseInput.simps, subst k) (simp del: length_append)
qed

section \<open>Scripts of such commands\<close>

abbreviation var_memory :: "user \<Rightarrow> memory" where
  "var_memory u \<equiv> replicate 30 free_cell @ user_vars u"

primrec user_command :: "simple_command \<Rightarrow> user \<Rightarrow> user" where
  "user_command (Assign v x) u = u\<lparr>user_vars := drop 30 (mem_set_value v x (var_memory u)), user_rest := []\<rparr>"
| "user_command (Show v) u = u\<lparr>user_rest := [],
     user_outputs := user_outputs u @ [Text (mem_get_value v CHR ''p'' (var_memory u) @ [newline])]\<rparr>"

lemma find_var_pad:
  assumes "length m = 120"
  shows "find_var v (replicate 30 free_cell @ drop 30 m) = find_var v m"
  by (rule find_var_cong) (simp add: nth_append assms)

lemma mem_get_value_pad:
  assumes "length m = 120"
  shows "mem_get_value v c (replicate 30 free_cell @ drop 30 m) = mem_get_value v c m"
  unfolding mem_get_value_def find_var_pad [OF assms]
  by (auto simp: nth_append assms dest: find_varD split: option.split)

lemma mem_set_value_pad:
  assumes "length m = 120"
  shows "take 30 m @ drop 30 (mem_set_value v x (replicate 30 free_cell @ drop 30 m)) = mem_set_value v x m"
proof -
  have upd: "take 30 m @ drop 30 ((replicate 30 free_cell @ drop 30 m)[i := y]) = m[i := y]" if "30 \<le> i" for i y
    using that by (cases "i < 120"; intro nth_equalityI) (auto simp: nth_append nth_list_update assms)
  show ?thesis
    unfolding mem_set_value_def find_var_pad [OF assms]
    by (auto simp: upd nth_append assms dest!: find_varD(1) split: option.split)
qed

lemma do_command_user: "mem_ok (memory s) \<Longrightarrow> do_command c s = put_user (user_command c (user_of s)) s"
  by (cases c)
    (simp_all add: mem_ok_def put_user_def user_of_def mem_set_value_pad mem_get_value_pad print_line_def print_out_def)

lemma length_mem_set_value [simp]: "length (mem_set_value v x m) = length m"
  by (simp add: mem_set_value_def split: option.split)

lemma user_command_length: "length (user_vars (user_command c u)) = length (user_vars u)"
  by (cases c) simp_all

lemma command_text_inject:
  assumes "command_ok c" and "command_ok d" and "command_text c = command_text d"
  shows "c = d"
  using split_command [OF assms(1), of "[]"] split_command [OF assms(2), of "[]"] assms(3)
  by (simp split: simple_command.splits)

text \<open>The effect of a line that is one of the commands of a list.\<close>

definition line_effect :: "simple_command list \<Rightarrow> string \<Rightarrow> user \<Rightarrow> (int \<times> user) option" where
  "line_effect cs l u = map_option (\<lambda>c. (0, user_command c u)) (List.find (\<lambda>c. command_text c = strip l) cs)"

lemma line_effect_eq:
  assumes "\<forall>c \<in> set cs. command_ok c" and "c \<in> set cs" and "nl = [] \<or> nl = [newline]"
  shows "line_effect cs (command_text c @ nl) u = Some (0, user_command c u)"
proof -
  have "strip (command_text c @ nl) = command_text c"
    using assms command_chars(2,3) [of c] strip_plain [of "command_text c"] by auto
  moreover have "List.find (\<lambda>d. command_text d = command_text c) cs = Some c"
  proof (cases "List.find (\<lambda>d. command_text d = command_text c) cs")
    case None
    then show ?thesis using assms(2) by (auto simp: find_None_iff)
  next
    case (Some d)
    then have "d \<in> set cs" "command_text d = command_text c" by (auto simp: find_Some_iff)
    then show ?thesis using Some command_text_inject [of d c] assms(1,2) by auto
  qed
  ultimately show ?thesis by (simp add: line_effect_def)
qed

lemma raw_line_command:
  assumes "l \<in> set (raw_lines (map command_text cs))"
  obtains c nl where "c \<in> set cs" "nl = [] \<or> nl = [newline]" "l = command_text c @ nl"
proof -
  have "(\<exists>c \<in> set cs. l = command_text c @ [newline]) \<or> (\<exists>c \<in> set cs. l = command_text c)"
    using assms by (auto simp: raw_lines_def last_map split: if_splits dest!: in_set_butlastD intro: last_in_set)
  then show thesis using that by force
qed

lemma parseInput_plain_on:
  assumes "\<forall>c \<in> set cs. command_ok c" and "2 \<le> s_rounds E"
  shows "plain_on (raw_lines (map command_text cs)) (line_effect cs) (parseInput E (Suc fuel))"
  unfolding plain_on_def
proof (intro ballI conjI allI impI)
  fix l and s :: shell
  assume l: "l \<in> set (raw_lines (map command_text cs))" and ok: "mem_ok (memory s)"
  from l obtain c nl where c: "c \<in> set cs" "nl = [] \<or> nl = [newline]" "l = command_text c @ nl" by (rule raw_line_command)
  then show "parseInput E (Suc fuel) l s =
      (case line_effect cs l (user_of s) of None \<Rightarrow> Undefined | Some (r, u) \<Rightarrow> Returns (r, put_user u s))"
    using assms parseInput_command [of c nl E fuel s] line_effect_eq [OF assms(1) c(1,2)] do_command_user [OF ok, of c]
    by (simp del: parseInput.simps)
qed (auto simp: line_effect_def user_command_length)

lemma run_lines_commands:
  assumes "\<forall>c \<in> set cs. command_ok c"
  shows "set ds \<subseteq> set cs \<Longrightarrow> run_lines (line_effect cs) (raw_lines (map command_text ds)) u = Some (fold user_command ds u)"
proof (induction ds arbitrary: u)
  case (Cons d ds)
  then have d: "d \<in> set cs" by simp
  show ?case
  proof (cases "ds = []")
    case True
    then show ?thesis using line_effect_eq [OF assms d, of "[]"] by (simp add: raw_lines_def)
  next
    case False
    then have "raw_lines (map command_text (d # ds)) = (command_text d @ [newline]) # raw_lines (map command_text ds)"
      by (simp add: raw_lines_def)
    then show ?thesis using line_effect_eq [OF assms d, of "[newline]"] Cons by simp
  qed
qed (simp add: raw_lines_def)

text \<open>
  C9: The shell as a whole runs a script of \<^verbatim>\<open>set\<close> and \<^verbatim>\<open>print\<close> commands: text in a file of the host,
  cut into lines, pages, commands and words, has the effect of executing the commands in order on
  the variables, prints what they print and nothing else, and returns 0 with all frames free. The
  script has up to 27 commands and no newline at its end.
\<close>

theorem run_variable_script:
  assumes "kernel_idle s" and "0 \<le> PID_counter s" and "PID_counter s < 10 ^ 9"
    and "cs \<noteq> []" and "length cs \<le> 27" and "\<forall>c \<in> set cs. command_ok c"
    and "open_text script s = Some (concat (raw_lines (map command_text cs)))" and "2 * length cs + 2 \<le> s_rounds E"
  shows "\<exists>s'. run_script E (parseInput E (Suc fuel)) script s = Returns (0, s') \<and>
    user_of s' = fold user_command cs (user_of s) \<and> kernel_idle s'"
proof -
  let ?ls = "map command_text cs"
  have ok: "script_ok ?ls" using assms(4,6) by (fastforce simp: script_ok_def dest: command_chars)
  have len: "length ?ls \<le> 27" using assms(5) by simp
  have "2 \<le> s_rounds E" using assms(8) by simp
  then have "rr_result (line_effect cs) (raw_lines ?ls) (user_of s) (run_script E (parseInput E (Suc fuel)) script s)"
    by (intro run_script_result [OF assms(1) ok len assms(2,3,7)] parseInput_plain_on [OF assms(6)]) (use assms(8) in simp_all)
  then show ?thesis
    using run_lines_commands [OF assms(6) subset_refl] by (simp add: rr_result_def del: parseInput.simps)
qed

text \<open>A script that sets a variable and prints it.\<close>

theorem run_variable_script_witness:
  "\<forall>E t. \<exists>s'. run_script (E\<lparr>s_rounds := 6\<rparr>) (parseInput (E\<lparr>s_rounds := 6\<rparr>) (Suc 0)) ''f''
       (new_shell t [''f'' \<mapsto> bytes_of_string (''set x 5'' @ newline # ''print x'')]) = Returns (0, s') \<and>
     outputs s' = [Text [CHR ''5'', newline]] \<and> kernel_idle s'"
proof (intro allI)
  fix E :: shell_env and t :: fs
  let ?cs = "[Assign ''x'' ''5'', Show ''x'']" and ?E = "E\<lparr>s_rounds := 6\<rparr>"
  let ?s = "new_shell t [''f'' \<mapsto> bytes_of_string (''set x 5'' @ newline # ''print x'')]"
  have "open_text ''f'' ?s = Some (concat (raw_lines (map command_text ?cs)))"
    by (simp add: open_text_def new_shell_def raw_lines_def string_of_bytes_of_string)
  from run_variable_script [OF new_shell_idle _ _ _ _ _ this, of ?E 0] obtain s' where
    s': "run_script ?E (parseInput ?E (Suc 0)) ''f'' ?s = Returns (0, s')" "user_of s' = fold user_command ?cs (user_of ?s)" "kernel_idle s'"
    by (auto simp: new_shell_def isAlphaNumStr_def isalnum_def is_digit_def simp del: parseInput.simps)
  have "mem_get_value ''x'' CHR ''p'' (mem_set_value ''x'' ''5'' mem_init) = ''5''"
    using var_map_set_value [OF mem_init_ok, of "''x''" "''x''" "''5''"] mem_init_free by (simp add: mem_get_value_var_map)
  moreover have "var_memory (user_of ?s) = mem_init"
    by (simp add: user_of_def new_shell_def mem_init_def flip: replicate_add)
  moreover have "replicate 30 free_cell @ drop 30 (mem_set_value ''x'' ''5'' mem_init) = mem_set_value ''x'' ''5'' mem_init"
    using mem_set_value_pad [of mem_init "''x''" "''5''"] by (simp add: mem_init_def flip: replicate_add)
  ultimately have "user_outputs (user_of s') = [Text [CHR ''5'', newline]]"
    using s'(2) by (simp add: user_of_def new_shell_def)
  then show "\<exists>s'. run_script ?E (parseInput ?E (Suc 0)) ''f'' ?s = Returns (0, s') \<and>
      outputs s' = [Text [CHR ''5'', newline]] \<and> kernel_idle s'"
    using s'(1,3) by (auto simp: user_of_def simp del: parseInput.simps)
qed

end
