(* ===== verification/Page_Faults.thy ===== *)
theory Page_Faults
  imports Script_Run
begin

text \<open>
  Page faults when no frame is free: which page leaves the memory, what comes in its place, and what
  happens to a process whose source file has no lines left for the page it asks for.
\<close>

declare upt_rec_numeral [simp del]

section \<open>Replacing a page\<close>

definition frames_full :: "memory \<Rightarrow> bool" where
  "frames_full m \<longleftrightarrow> mem_ok m \<and> (\<forall>c < 30. cell_var (m ! c) \<noteq> ''none'')"

definition page_at :: "nat \<Rightarrow> page \<Rightarrow> bool" where
  "page_at b pg \<longleftrightarrow> b + 3 \<le> 30 \<and> frame_index pg = [b, b + 1, b + 2] \<and> length (valid_bit pg) = 3"

text \<open>A page after it has been evicted, and what is printed about it.\<close>

definition evicted :: "page \<Rightarrow> page" where
  "evicted pg = pg\<lparr>frame_index := [0, 0, 0], valid_bit := [False, False, False]\<rparr>"

definition eviction_report :: "nat \<Rightarrow> memory \<Rightarrow> shell_output list" where
  "eviction_report b m = [Text (''Page fault! Victim page contents:'' @ [newline])] @
     map (\<lambda>j. Text (cell_value (m ! (b + j)))) [0..<3] @ [Text (''End of victim page contents.'' @ [newline])]"

text \<open>The page \<open>v\<close> belongs to the process \<open>c\<close>, which the search for its number finds.\<close>

definition owner :: "nat \<Rightarrow> nat \<Rightarrow> page \<Rightarrow> shell \<Rightarrow> bool" where
  "owner c v pg s \<longleftrightarrow> find_pcb (page_pid pg) (ALL_PCB s) s = Some c \<and>
     (\<exists>y. pcbs s c = Some y \<and> page_index pg < length (page_table y) \<and> page_table y ! page_index pg = v)"

lemma upt_3: "[0..<3] = [0, 1, 2 :: nat]"
  by (simp add: upt_rec)

lemma clear_3: "b + 3 \<le> length m \<Longrightarrow> m[b := free_cell, b + 1 := free_cell, b + 2 := free_cell] = clear_range b (b + 3) m"
  by (intro nth_equalityI) (auto simp: nth_list_update nth_clear_range)

lemma PAGE_evict_eq:
  assumes "mem_ok (memory s)" and "pages s v = Some pg" and "page_at b pg" and "owner c v pg s"
  shows "PAGE_evict c (page_index pg) s = Some (s\<lparr>memory := clear_range b (b + 3) (memory s),
    pages := (pages s)(v \<mapsto> evicted pg), outputs := outputs s @ eviction_report b (memory s)\<rparr>)"
proof -
  note P = assms(3) [unfolded page_at_def]
  obtain d0 d1 d2 where "valid_bit pg = [d0, d1, d2]" using P by (auto simp: numeral_3_eq_3 length_Suc_conv)
  moreover from assms(4) obtain y where "pcbs s c = Some y" "page_index pg < length (page_table y)" "page_table y ! page_index pg = v"
    by (auto simp: owner_def)
  moreover have "length (memory s) = 120" using assms(1) by (simp add: mem_ok_def)
  ultimately show ?thesis using assms(2) P clear_3 [of b "memory s"]
    by (simp add: PAGE_evict_def upt_3 print_line_def print_out_def mem_get_value_at_def mem_free_at_def evicted_def eviction_report_def)
qed

text \<open>The frame of the victim is then the only free one.\<close>

lemma frame_alloc_cleared:
  assumes "frames_full m" and "b + 3 \<le> 30"
  shows "frame_alloc ps m = None"
    and "frame_alloc ps (clear_range b (b + 3) m) = Some (b, mark_frame ps b (clear_range b (b + 3) m))"
proof -
  let ?m = "clear_range b (b + 3) m"
  have len: "length m = 120" using assms(1) by (simp add: frames_full_def mem_ok_def)
  have "\<not> frame_free m j" for j using assms(1) by (auto simp: frames_full_def frame_free_def intro!: exI [of _ 0])
  then show "frame_alloc ps m = None" by (simp add: frame_alloc_eq find_None_iff)
  have cell: "cell_var (?m ! a) = ''none'' \<longleftrightarrow> b \<le> a \<and> a < b + 3" if "a < 30" for a
    using assms(1) that len by (auto simp: nth_clear_range frames_full_def free_cell_def)
  have "frame_free ?m b" using assms(2) cell by (simp add: frame_free_def)
  moreover have "\<not> frame_free ?m j" if "j < b" for j
    using cell [of j] that assms(2) by (auto simp: frame_free_def intro!: exI [of _ 0])
  moreover have "b < 30" using assms(2) by simp
  ultimately have "List.find (frame_free ?m) [0..<30] = Some b" by (auto simp: find_upt_Some_iff)
  then show "frame_alloc ps ?m = Some (b, mark_frame ps b ?m)" by (simp add: frame_alloc_eq)
qed

text \<open>A page gets the next lines of the source file, whichever page it is.\<close>

lemma load_PAGE_lines:
  assumes "script_ok ls" and "pcbs s p = Some x" and "i < length (page_table x)" and "pages s (page_table x ! i) = Some pg"
    and "0 \<le> pcb_pid x" and "pcb_pid x < 10 ^ 9" and "source_file x = concat (drop k (raw_lines ls))"
    and "frame_alloc (decimal_int (pcb_pid x)) (memory s) = Some (b, m)" and "b + 3 \<le> length m"
  shows "load_PAGE p i s = Some (0, s\<lparr>memory := loaded_memory (raw_lines ls) (decimal_int (pcb_pid x)) b k 3 m,
    pages := (pages s)(page_table x ! i \<mapsto> pg\<lparr>frame_index := [b, b + 1, b + 2], valid_bit := loaded_bits (length ls) k 3\<rparr>),
    pcbs := (pcbs s)(p \<mapsto> x\<lparr>source_file := concat (drop (k + 3) (raw_lines ls))\<rparr>)\<rparr>)"
proof -
  let ?L = "raw_lines ls" and ?ps = "decimal_int (pcb_pid x)" and ?q = "page_table x ! i"
  let ?pg = "pg\<lparr>frame_index := [b, b + 1, b + 2], valid_bit := [False, False, False]\<rparr>" and ?s0 = "s\<lparr>memory := m\<rparr>"
  have "loaded ?L ?ps p ?q b k ?pg x 0 ?s0 = s\<lparr>memory := m, pages := (pages s)(?q \<mapsto> ?pg)\<rparr>"
  proof -
    have "loaded_memory ?L ?ps b k 0 m = m" unfolding loaded_memory_def by (intro nth_equalityI) auto
    moreover have "loaded_bits (length ?L) k 0 = [False, False, False]" by (simp add: loaded_bits_def upt_3)
    moreover have "x\<lparr>source_file := concat (drop k ?L)\<rparr> = x" using assms(7) by simp
    then have "(pcbs s)(p \<mapsto> x\<lparr>source_file := concat (drop k ?L)\<rparr>) = pcbs s" using assms(2) by (simp only: fun_upd_idem)
    ultimately show ?thesis by (simp add: loaded_def)
  qed
  moreover have "load_lines p ?q ?ps [0..<3] (loaded ?L ?ps p ?q b k ?pg x 0 ?s0) = Some (loaded ?L ?ps p ?q b k ?pg x 3 ?s0)"
    by (rule load_lines_eq [OF assms(1) refl]) (use assms(9) in simp_all)
  ultimately show ?thesis using assms(2-4,8) decimal_int_pid(1) [OF assms(5,6)]
    by (simp add: load_PAGE_def Let_def) (simp add: loaded_def)
qed

text \<open>The memory after the replacement.\<close>

lemma replaced_memory:
  fixes L :: "string list" and k :: nat
  assumes "frames_full m" and "b + 3 \<le> 30" and "ps \<noteq> ''none''"
  defines "m' \<equiv> loaded_memory L ps b k 3 (mark_frame ps b (clear_range b (b + 3) m))"
  shows "frames_full m'" and "j < 3 \<Longrightarrow> k + j < length L \<Longrightarrow> m' ! (b + j) = \<lparr>cell_var = ps, cell_value = L ! (k + j)\<rparr>"
    and "a < 120 \<Longrightarrow> a < b \<or> b + 3 \<le> a \<Longrightarrow> m' ! a = m ! a"
proof -
  have len: "length m = 120" using assms(1) by (simp add: frames_full_def mem_ok_def)
  note mk = mark_frame_nth [of "clear_range b (b + 3) m" b ps, unfolded length_clear_range, OF len assms(2)]
  have cell: "m' ! a = (if b \<le> a \<and> a < b + 3
      then (if k + (a - b) < length L then \<lparr>cell_var = ps, cell_value = L ! (k + (a - b))\<rparr> else free_cell\<lparr>cell_var := ps\<rparr>)
      else m ! a)" if "a < 120" for a
    using that mk len unfolding m'_def by (simp add: loaded_memory_def nth_clear_range)
  show "frames_full m'" using cell assms(1,3) mk(1) unfolding frames_full_def mem_ok_def by (simp add: m'_def)
  show "j < 3 \<Longrightarrow> k + j < length L \<Longrightarrow> m' ! (b + j) = \<lparr>cell_var = ps, cell_value = L ! (k + j)\<rparr>"
    using cell [of "b + j"] assms(2) by simp
  show "a < 120 \<Longrightarrow> a < b \<or> b + 3 \<le> a \<Longrightarrow> m' ! a = m ! a" using cell by auto
qed

text \<open>
  C7: A page fault with all frames in use replaces the page that was used least recently, whichever process
  it belongs to: the last page of the LRU list leaves the list and its lines are printed, and only its
  frame and its entry change for the other processes. The faulting page gets this frame and the next
  three lines of the source file of its process, becomes the most recently used page, and the process goes to the
  end of the ready queue without having executed a line.
\<close>

theorem page_fault_replaces_lru:
  assumes "frames_full (memory s)" and "LRU_CACHE s = us @ [v]"
    and "pages s v = Some victim" and "page_at b victim" and "owner c v victim s"
    and "script_ok ls" and "pcbs s p = Some x" and "0 \<le> pcb_pid x" and "pcb_pid x < 10 ^ 9"
    and "source_file x = concat (drop k (raw_lines ls))" and "i < length (page_table x)" and "page_table x ! i = q" and "q \<noteq> v"
    and "pages s q = Some pg" and "j < 3" and "\<not> valid_bit pg ! j"
  shows "\<exists>s'. run_proc P p i j s = Returns (1, s') \<and> LRU_CACHE s' = q # us \<and> QUEUE s' = QUEUE s @ [p] \<and>
    pages s' = (pages s)(v \<mapsto> evicted victim, q \<mapsto> pg\<lparr>frame_index := [b, b + 1, b + 2], valid_bit := loaded_bits (length ls) k 3\<rparr>) \<and>
    pcbs s' = (pcbs s)(p \<mapsto> x\<lparr>source_file := concat (drop (k + 3) (raw_lines ls))\<rparr>) \<and>
    (\<forall>j < 3. k + j < length ls \<longrightarrow>
       memory s' ! (b + j) = \<lparr>cell_var = decimal_int (pcb_pid x), cell_value = raw_lines ls ! (k + j)\<rparr>) \<and>
    (\<forall>a < 120. a < b \<or> b + 3 \<le> a \<longrightarrow> memory s' ! a = memory s ! a) \<and> frames_full (memory s') \<and>
    outputs s' = outputs s @ eviction_report b (memory s)"
proof -
  let ?ps = "decimal_int (pcb_pid x)" and ?t = "s\<lparr>LRU_CACHE := us\<rparr>"
  have pid: "length ?ps < 10" "?ps \<noteq> ''none''" using decimal_int_pid [OF assms(8,9)] .
  have b: "b + 3 \<le> 30" using assms(4) by (simp add: page_at_def)
  have ok: "mem_ok (memory s)" using assms(1) by (simp add: frames_full_def)
  note A = frame_alloc_cleared [OF assms(1) b]
  have "cpu_run P p i j s = Returns (1, s)" using assms(7,11,12,14-16) by (simp add: cpu_run_def)
  moreover have full: "load_PAGE p i s = Some (1, s)" using assms(7,11,12,14) pid(1) A(1) by (simp add: load_PAGE_def Let_def)
  moreover have "owner c v victim ?t \<and> find_pcb (page_pid victim) (ALL_PCB s) ?t = Some c"
  proof -
    have "find_pcb n ps (s\<lparr>LRU_CACHE := C\<rparr>) = find_pcb n ps s" for n ps C by (induction ps) (simp_all cong: if_cong)
    then show ?thesis using assms(5) by (simp add: owner_def)
  qed
  moreover from this PAGE_evict_eq [of ?t v victim b c] ok assms(3,4) obtain t where
    t: "PAGE_evict c (page_index victim) ?t = Some t" "t = ?t\<lparr>memory := clear_range b (b + 3) (memory s),
      pages := (pages s)(v \<mapsto> evicted victim), outputs := outputs s @ eviction_report b (memory s)\<rparr>" by simp
  moreover have "load_PAGE p i t = Some (0, t\<lparr>memory := loaded_memory (raw_lines ls) ?ps b k 3 (mark_frame ?ps b (clear_range b (b + 3) (memory s))),
    pages := (pages t)(q \<mapsto> pg\<lparr>frame_index := [b, b + 1, b + 2], valid_bit := loaded_bits (length ls) k 3\<rparr>),
    pcbs := (pcbs t)(p \<mapsto> x\<lparr>source_file := concat (drop (k + 3) (raw_lines ls))\<rparr>)\<rparr>)"
    using load_PAGE_lines [OF assms(6), of t p x i pg k b "mark_frame ?ps b (clear_range b (b + 3) (memory s))"]
      A(2) [of ?ps] mark_frame_nth(1) [of "clear_range b (b + 3) (memory s)" b ?ps] b ok assms(7-14)
    by (simp add: t(2) mem_ok_def)
  ultimately have "run_proc P p i j s = Returns (1, t\<lparr>memory := loaded_memory (raw_lines ls) ?ps b k 3 (mark_frame ?ps b (clear_range b (b + 3) (memory s))),
    pages := (pages t)(q \<mapsto> pg\<lparr>frame_index := [b, b + 1, b + 2], valid_bit := loaded_bits (length ls) k 3\<rparr>),
    pcbs := (pcbs t)(p \<mapsto> x\<lparr>source_file := concat (drop (k + 3) (raw_lines ls))\<rparr>), LRU_CACHE := q # us, QUEUE := QUEUE s @ [p]\<rparr>)"
    using assms(2,3,12) by (simp add: run_proc_def page_fault_def t(2))
  then show ?thesis using replaced_memory [OF assms(1) b pid(2), where L = "raw_lines ls" and k = k] by (simp add: t(2))
qed

text \<open>A process with two pages; the first one is in the first frame, and other lines fill the others.\<close>

definition full_shell :: "fs \<Rightarrow> host_files \<Rightarrow> shell" where
  "full_shell t h = (new_shell t h)\<lparr>
     memory := replicate 30 \<lparr>cell_var = ''1'', cell_value = ''y''\<rparr> @ replicate 90 free_cell,
     pages := [1 \<mapsto> \<lparr>frame_index = [0, 1, 2], valid_bit = [True, True, True], page_index = 0, page_pid = 1\<rparr>, 2 \<mapsto> PAGE_init 1 1],
     pcbs := [0 \<mapsto> \<lparr>pcb_pid = 1, pcb_size = 1, program_counter = [3, 0], page_table = [1, 2], source_file = ''x''\<rparr>],
     LRU_CACHE := [1], ALL_PCB := [0]\<rparr>"

theorem page_fault_replaces_lru_witness:
  "\<forall>P t h. \<exists>s'. run_proc P 0 1 0 (full_shell t h) = Returns (1, s') \<and> LRU_CACHE s' = [2] \<and> QUEUE s' = [0] \<and>
     memory s' ! 0 = \<lparr>cell_var = ''1'', cell_value = ''x''\<rparr> \<and> frames_full (memory s')"
proof (intro allI)
  fix P :: parser and t :: fs and h :: host_files
  let ?s = "full_shell t h" and ?x = "\<lparr>pcb_pid = 1, pcb_size = 1, program_counter = [3, 0], page_table = [1, 2], source_file = ''x''\<rparr>"
  let ?v = "\<lparr>frame_index = [0, 1, 2], valid_bit = [True, True, True], page_index = 0, page_pid = 1\<rparr>"
  have "frames_full (memory ?s)" by (auto simp: full_shell_def frames_full_def mem_ok_def nth_append)
  moreover have "page_at 0 ?v" by (simp add: page_at_def)
  moreover have "owner 0 1 ?v ?s" by (simp add: owner_def full_shell_def new_shell_def)
  moreover have "decimal_int 1 = ''1''" by (simp add: decimal_int_def decimal.simps char_of_def bit_0)
  ultimately show "\<exists>s'. run_proc P 0 1 0 ?s = Returns (1, s') \<and> LRU_CACHE s' = [2] \<and> QUEUE s' = [0] \<and>
     memory s' ! 0 = \<lparr>cell_var = ''1'', cell_value = ''x''\<rparr> \<and> frames_full (memory s')"
    using page_fault_replaces_lru [of ?s "[]" 1 ?v 0 0 "[''x'']" 0 ?x 0 1 2 "PAGE_init 1 1" 0 P]
    by (auto simp: full_shell_def new_shell_def script_ok_def raw_lines_def PAGE_init_def)
qed

section \<open>A process without lines\<close>

text \<open>A page of a process that may be chosen as a victim.\<close>

definition held :: "shell \<Rightarrow> pcb \<Rightarrow> nat \<Rightarrow> bool" where
  "held s x v \<longleftrightarrow> (\<exists>pg. pages s v = Some pg \<and> length (frame_index pg) = 3 \<and> (\<forall>a \<in> set (frame_index pg). a < 120) \<and>
     page_pid pg = pcb_pid x \<and> page_index pg < length (page_table x) \<and> page_table x ! page_index pg = v)"

text \<open>
  The only process asks for cell \<open>j\<close> of its page \<open>i\<close>, where no line is, and its source file has been read
  to the end.
\<close>

definition asks_for :: "nat \<Rightarrow> nat \<Rightarrow> pcb \<Rightarrow> bool" where
  "asks_for i j x \<longleftrightarrow> 0 < pcb_size x \<and> source_file x = [] \<and> 0 \<le> pcb_pid x \<and> pcb_pid x < 10 ^ 9 \<and> j < 3 \<and>
     length (program_counter x) = length (page_table x) \<and>
     List.find (\<lambda>i. program_counter x ! i \<noteq> 3) [0..<length (page_table x)] = Some i \<and> program_counter x ! i = j"

definition exhausted :: "nat \<Rightarrow> nat \<Rightarrow> nat \<Rightarrow> pcb \<Rightarrow> shell \<Rightarrow> bool" where
  "exhausted p i j x s \<longleftrightarrow> mem_ok (memory s) \<and> ALL_PCB s = [p] \<and> pcbs s p = Some x \<and> asks_for i j x \<and>
     (\<forall>v \<in> insert (page_table x ! i) (set (LRU_CACHE s)). held s x v) \<and>
     (\<forall>pg. pages s (page_table x ! i) = Some pg \<longrightarrow> \<not> valid_bit pg ! j)"

lemma held_lists [simp]: "held (s\<lparr>LRU_CACHE := C\<rparr>) x v = held s x v" "held (s\<lparr>QUEUE := C\<rparr>) x v = held s x v"
  by (simp_all add: held_def)

lemma exhausted_QUEUE [simp]: "exhausted p i j x (s\<lparr>QUEUE := Q\<rparr>) = exhausted p i j x s"
  by (simp add: exhausted_def held_def)

lemma exhausted_print [simp]: "held (print_line w s) x v = held s x v" "exhausted p i j x (print_line w s) = exhausted p i j x s"
  "QUEUE (print_line w s) = QUEUE s" "LRU_CACHE (print_line w s) = LRU_CACHE s"
  by (simp_all add: exhausted_def held_def print_line_def print_out_def)

lemma exhaustedD:
  assumes "exhausted p i j x s"
  shows "mem_ok (memory s)" "ALL_PCB s = [p]" "pcbs s p = Some x" "v \<in> set (LRU_CACHE s) \<Longrightarrow> held s x v"
    "held s x (page_table x ! i)" "pages s (page_table x ! i) = Some pg \<Longrightarrow> \<not> valid_bit pg ! j" "asks_for i j x"
    "i < length (page_table x)"
  using assms unfolding exhausted_def asks_for_def by (auto simp: find_Some_iff)

text \<open>Loading such a page only marks a frame, if there is one.\<close>

lemma load_nothing:
  assumes E: "exhausted p i j x s" and L: "set C \<subseteq> insert (page_table x ! i) (set (LRU_CACHE s))"
  shows "\<exists>r s'. load_PAGE p i s = Some (r, s') \<and> (r = 1 \<longrightarrow> s' = s) \<and> r \<in> {0, 1} \<and> QUEUE s' = QUEUE s \<and> LRU_CACHE s' = LRU_CACHE s \<and>
    exhausted p i j x (s'\<lparr>LRU_CACHE := C\<rparr>)"
proof -
  note D = exhaustedD [OF E]
  let ?q = "page_table x ! i" and ?ps = "decimal_int (pcb_pid x)"
  have A: "source_file x = []" "length ?ps < 10" "j < 3" using D(7) decimal_int_pid(1) by (auto simp: asks_for_def)
  from D(5) obtain pg where pg: "pages s ?q = Some pg" by (auto simp: held_def)
  show ?thesis
  proof (cases "frame_alloc ?ps (memory s)")
    case None
    then have "load_PAGE p i s = Some (1, s)" using D(3,8) pg A(2) by (simp add: load_PAGE_def Let_def)
    moreover have "exhausted p i j x (s\<lparr>LRU_CACHE := C\<rparr>)" using E L by (auto simp: exhausted_def held_def)
    ultimately show ?thesis by auto
  next
    case (Some y)
    then obtain b where b: "y = (b, mark_frame ?ps b (memory s))" "b + 3 \<le> 30"
      by (auto simp: frame_alloc_eq find_Some_iff frame_free_def)
    let ?pg = "pg\<lparr>frame_index := [b, b + 1, b + 2], valid_bit := [False, False, False]\<rparr>"
    let ?t = "s\<lparr>memory := mark_frame ?ps b (memory s), pages := (pages s)(?q \<mapsto> ?pg)\<rparr>"
    have "load_PAGE p i s = Some (0, ?t)" using D(3,8) pg A Some b(1) by (simp add: load_PAGE_def Let_def upt_3)
    moreover have "exhausted p i j x (?t\<lparr>LRU_CACHE := C\<rparr>)"
    proof -
      have "held ?t x v" if "held s x v" for v using that pg b(2) by (auto simp: held_def)
      then have "\<forall>v \<in> insert ?q (set C). held ?t x v" using D(4,5) L by blast
      moreover have "\<not> [False, False, False] ! j" using A(3) by (auto simp: less_Suc_eq numeral_3_eq_3)
      moreover have "mem_ok (memory ?t)" using D(1) b(2) mark_frame_nth(1) [of "memory s" b ?ps] by (simp add: mem_ok_def)
      ultimately show ?thesis using D(2,3,7) by (simp add: exhausted_def)
    qed
    ultimately show ?thesis by auto
  qed
qed

text \<open>Evicting any page of the process keeps it waiting.\<close>

lemma evict_lines_exhausted:
  "exhausted p i j x s \<Longrightarrow> held s x v \<Longrightarrow> set js \<subseteq> {..<3} \<Longrightarrow>
   \<exists>s'. evict_lines v js s = Some s' \<and> exhausted p i j x s' \<and> QUEUE s' = QUEUE s \<and> LRU_CACHE s' = LRU_CACHE s"
proof (induction js arbitrary: s)
  case (Cons k ks)
  note D = exhaustedD [OF Cons.prems(1)]
  from Cons.prems(2) obtain pg where pg: "pages s v = Some pg" "length (frame_index pg) = 3" "\<forall>a \<in> set (frame_index pg). a < 120"
    "page_pid pg = pcb_pid x" "page_index pg < length (page_table x)" "page_table x ! page_index pg = v" by (auto simp: held_def)
  let ?a = "frame_index pg ! k" and ?pg = "pg\<lparr>frame_index := (frame_index pg)[k := 0], valid_bit := (valid_bit pg)[k := False]\<rparr>"
  have len: "length (memory s) = 120" using D(1) by (simp add: mem_ok_def)
  have a: "?a < 120" using pg(2,3) Cons.prems(3) by simp
  let ?t = "print_out (Text (cell_value (memory s ! ?a))) (s\<lparr>memory := (memory s)[?a := free_cell], pages := (pages s)(v \<mapsto> ?pg)\<rparr>)"
  have h: "held ?t x w" if "held s x w" for w
  proof (cases "w = v")
    case True
    have "\<forall>a \<in> set ((frame_index pg)[k := 0]). a < 120" using pg(3) set_update_subset_insert [of "frame_index pg" k 0] by auto
    then show ?thesis using True pg by (simp add: held_def print_out_def)
  next
    case False
    then show ?thesis using that by (simp add: held_def print_out_def)
  qed
  have "\<not> (valid_bit pg)[k := False] ! j" if "\<not> valid_bit pg ! j"
    using that by (cases "k = j"; cases "k < length (valid_bit pg)") (simp_all add: list_update_beyond)
  then have "\<forall>g. pages ?t (page_table x ! i) = Some g \<longrightarrow> \<not> valid_bit g ! j" using D(6) pg(1) by (auto simp: print_out_def)
  moreover have "mem_ok (memory ?t)" using len by (simp add: mem_ok_def print_out_def)
  moreover have "\<forall>w \<in> insert (page_table x ! i) (set (LRU_CACHE s)). held ?t x w" using h D(4,5) by blast
  ultimately have "exhausted p i j x ?t" using D(2,3,7) by (simp add: exhausted_def print_out_def)
  from Cons.IH [OF this h [OF Cons.prems(2)]] Cons.prems(3) obtain s' where
    "evict_lines v ks ?t = Some s'" "exhausted p i j x s'" "QUEUE s' = QUEUE s" "LRU_CACHE s' = LRU_CACHE s"
    by (auto simp: print_out_def)
  then show ?case using pg(1) a len by (simp add: mem_get_value_at_def mem_free_at_def)
qed simp

lemma page_fault_exhausted:
  assumes E: "exhausted p i j x s" and L: "LRU_CACHE s \<noteq> []"
  shows "\<exists>s'. page_fault p i s = Returns s' \<and> QUEUE s' = QUEUE s \<and> exhausted p i j x (s'\<lparr>LRU_CACHE := page_table x ! i # LRU_CACHE s'\<rparr>)"
proof -
  note D = exhaustedD [OF E]
  from load_nothing [OF E, of "page_table x ! i # LRU_CACHE s"] obtain r t where
    t: "load_PAGE p i s = Some (r, t)" "r = 1 \<longrightarrow> t = s" "r \<in> {0, 1}" "QUEUE t = QUEUE s" "LRU_CACHE t = LRU_CACHE s"
    "exhausted p i j x (t\<lparr>LRU_CACHE := page_table x ! i # LRU_CACHE s\<rparr>)" by auto
  show ?thesis
  proof (cases "r = 1")
    case False
    then show ?thesis using t by (auto simp: page_fault_def)
  next
    case True
    let ?v = "List.last (LRU_CACHE s)" and ?us = "butlast (LRU_CACHE s)"
    let ?s = "s\<lparr>LRU_CACHE := ?us\<rparr>"
    have h: "held s x ?v" using D(4) L by simp
    then obtain pg where pg: "pages s ?v = Some pg" "page_pid pg = pcb_pid x" "page_index pg < length (page_table x)"
      "page_table x ! page_index pg = ?v" by (auto simp: held_def)
    have "set ?us \<subseteq> set (LRU_CACHE s)" by (auto dest: in_set_butlastD)
    then have "exhausted p i j x ?s" using E by (auto simp: exhausted_def)
    then have "exhausted p i j x (print_line w ?s)" for w by simp
    moreover have "held (print_line w ?s) x ?v" for w using h by simp
    moreover have "set [0..<3] \<subseteq> {..<3 :: nat}" by auto
    ultimately obtain u where
      u: "evict_lines ?v [0..<3] (print_line ''Page fault! Victim page contents:'' ?s) = Some u" "exhausted p i j x u"
        "QUEUE u = QUEUE s" "LRU_CACHE u = ?us"
      using evict_lines_exhausted [of p i j x "print_line ''Page fault! Victim page contents:'' ?s" ?v "[0..<3]"] by auto
    let ?u = "print_line ''End of victim page contents.'' u"
    have "exhausted p i j x ?u" "LRU_CACHE ?u = ?us" "QUEUE ?u = QUEUE s" using u(2-4) by simp_all
    with load_nothing [OF this(1), of "page_table x ! i # ?us"] obtain r' w where
      w: "load_PAGE p i ?u = Some (r', w)" "QUEUE w = QUEUE s" "LRU_CACHE w = ?us"
        "exhausted p i j x (w\<lparr>LRU_CACHE := page_table x ! i # ?us\<rparr>)" by auto
    have "find_pcb (page_pid pg) (ALL_PCB s) ?s = Some p" using D(2,3) pg(2) by simp
    moreover have "PAGE_evict p (page_index pg) ?s = Some ?u" using D(3) pg(3,4) u(1) by (simp add: PAGE_evict_def)
    ultimately show ?thesis using True t(1,2) L pg(1) w by (simp add: page_fault_def)
  qed
qed

lemma run_line_exhausted:
  assumes E: "exhausted p i j x s" and L: "LRU_CACHE s \<noteq> []"
  shows "\<exists>s'. run_line P p s = Returns (1, s') \<and> QUEUE s' = QUEUE s @ [p] \<and> exhausted p i j x s' \<and> LRU_CACHE s' \<noteq> []"
proof -
  note D = exhaustedD [OF E]
  have line: "run_line P p s = run_proc P p i j s" using D(3,7) by (simp add: run_line_def asks_for_def)
  from D(5) obtain pg where "pages s (page_table x ! i) = Some pg" by (auto simp: held_def)
  then have cpu: "cpu_run P p i j s = Returns (1, s)" using D(3,7,8) D(6) by (auto simp: cpu_run_def asks_for_def)
  from page_fault_exhausted [OF E L] obtain t where
    t: "page_fault p i s = Returns t" "QUEUE t = QUEUE s" "exhausted p i j x (t\<lparr>LRU_CACHE := page_table x ! i # LRU_CACHE t\<rparr>)" by blast
  from exhaustedD(3) [OF t(3)] have "pcbs t p = Some x" by simp
  then have "run_proc P p i j s = Returns (1, t\<lparr>LRU_CACHE := page_table x ! i # LRU_CACHE t, QUEUE := QUEUE t @ [p]\<rparr>)"
    using cpu t(1) by (simp add: run_proc_def)
  with line t(2,3) show ?thesis by simp
qed

text \<open>
  C8: A process that asks for a line its source file does not have faults for ever under round robin: every turn loads
  nothing, evicts a page when the frames are used up, and puts the process back into the ready queue, so the
  scheduler does not return within any number of rounds. A script whose last line ends with a newline gets
  there, because its size counts one line more than there is; the witness runs such a script.
\<close>

theorem exhausted_process_faults_forever:
  assumes "exhausted p i j x s" and "LRU_CACHE s \<noteq> []" and "QUEUE s = [p]"
  shows "run_proc_RR P rounds s = Unfinished"
  using assms
proof (induction rounds arbitrary: s)
  case (Suc n)
  note D = exhaustedD [OF Suc.prems(1)]
  have A: "0 < pcb_size x" "program_counter x ! i \<noteq> 3" "i < length (program_counter x)" using D(7,8) by (auto simp: asks_for_def)
  then have "queue_done s = Some False" using Suc.prems(3) D(3) nth_mem [OF A(3)] by (auto simp: queue_done_def PCB_done_def)
  moreover from run_line_exhausted [of p i j x "s\<lparr>QUEUE := []\<rparr>" P] Suc.prems(1,2) obtain t where
    t: "run_line P p (s\<lparr>QUEUE := []\<rparr>) = Returns (1, t)" "QUEUE t = [p]" "exhausted p i j x t" "LRU_CACHE t \<noteq> []" by auto
  then have "rr_turn P p (s\<lparr>QUEUE := []\<rparr>) = Returns t" using D(3) A(1) by (simp add: rr_turn_def)
  ultimately show ?case using Suc.IH [OF t(3,4,2)] Suc.prems(3) by simp
qed simp

text \<open>A script of one line that ends with a newline: the process after its first page has been loaded.\<close>

lemma new_proc_newline:
  fixes t :: fs
  defines "s \<equiv> new_shell t [''f'' \<mapsto> bytes_of_string [CHR ''a'', newline]]"
  shows "\<exists>m. new_proc ''f'' s = Returns (0, s\<lparr>memory := m, fresh_ref := 2, PID_counter := 2, ALL_PCB := [0], QUEUE := [0], LRU_CACHE := [1],
      pcbs := [0 \<mapsto> \<lparr>pcb_pid = 1, pcb_size = 2, program_counter = [0], page_table = [1], source_file = []\<rparr>],
      pages := [1 \<mapsto> \<lparr>frame_index = [0, 1, 2], valid_bit = [True, False, False], page_index = 0, page_pid = 1\<rparr>]\<rparr>) \<and>
    mem_ok m \<and> mem_get_value_at 0 m = Some [CHR ''a'', newline]"
proof -
  let ?m = "mark_frame ''1'' 0 mem_init" and ?line = "[CHR ''a'', newline]"
  let ?x = "\<lparr>pcb_pid = 1, pcb_size = 2, program_counter = [0], page_table = [1], source_file = ?line\<rparr>"
  let ?n = "?m[0 := \<lparr>cell_var = ''1'', cell_value = ?line\<rparr>]" and ?t = "s\<lparr>PID_counter := 2\<rparr>"
  let ?u = "?t\<lparr>fresh_ref := 2, pcbs := [0 \<mapsto> ?x], pages := [1 \<mapsto> PAGE_init 1 0]\<rparr>"
  let ?w = "?u\<lparr>memory := ?n, pcbs := [0 \<mapsto> ?x\<lparr>source_file := []\<rparr>],
    pages := [1 \<mapsto> \<lparr>frame_index = [0, 1, 2], valid_bit = [True, False, False], page_index = 0, page_pid = 1\<rparr>]\<rparr>"
  have sel: "memory s = mem_init" "pcbs s = Map.empty" "pages s = Map.empty" "fresh_ref s = 0" "QUEUE s = []" "LRU_CACHE s = []"
    "ALL_PCB s = []" "PID_counter s = 1" by (simp_all add: s_def new_shell_def)
  have "mem_ok ?m" using mark_frame_nth(1) [of mem_init 0 "''1''"] mem_init_ok by (simp add: mem_ok_def)
  then have len: "length ?m = 120" "?m \<noteq> []" by (auto simp: mem_ok_def)
  have fr: "frame_alloc ''1'' mem_init = Some (0, ?m)"
    using frame_alloc_next [of mem_init 0 "''1''"] by (simp add: mem_init_def free_cell_def)
  have pid: "decimal_int 1 = ''1''" by (simp add: decimal_int_def decimal.simps char_of_def bit_0)
  have get: "fgets 998 ?line = (?line, [])" using fgets_line(1) [of "''a''" 998 "[]"] by simp
  have no: "(Suc 0 \<le> q \<and> q = 0) = False" for q by auto
  have "c_str ?line = ?line" by (simp add: c_str_def)
  then have "load_PAGE 0 0 ?u = Some (0, ?w)"
    using pid fr get len sel by (simp add: load_PAGE_def upt_3 PAGE_init_def mem_set_value_at_def Let_def numeral_2_eq_2)
  moreover have "open_text ''f'' ?t = Some ?line" by (simp add: s_def open_text_def new_shell_def string_of_bytes_of_string)
  moreover from this have "count_lines ''f'' ?t = 2" by (simp add: count_lines_def)
  moreover have "nat (PAGE_table_size 2) = 1" using PAGE_table_size_eq [of 2] by (simp add: page_count_def)
  moreover have "(\<lambda>q. if q = Suc 0 then Some (PAGE_init 1 0) else None) = [Suc 0 \<mapsto> PAGE_init 1 0]" by auto
  ultimately have "PCB_init 1 ''f'' ?t = Returns (0, ?w)" using sel by (simp add: PCB_init_def no numeral_2_eq_2 cong: if_cong)
  then have "new_proc ''f'' s = Returns (0, ?w\<lparr>ALL_PCB := [0], QUEUE := [0], LRU_CACHE := [1]\<rparr>)" using sel by (simp add: new_proc_def)
  then show ?thesis using len by (intro exI [of _ ?n]) (simp add: mem_ok_def mem_get_value_at_def)
qed

text \<open>Whatever the bound for the rounds of the scheduler is, running this script does not end within it.\<close>

theorem exhausted_process_faults_forever_witness:
  "\<forall>E t. run_script E (\<lambda>l s. Returns (0, print_line l s)) ''f'' (new_shell t [''f'' \<mapsto> bytes_of_string [CHR ''a'', newline]]) = Unfinished"
proof (intro allI)
  fix E :: shell_env and t :: fs
  let ?P = "\<lambda>l s. Returns (0 :: int, print_line l s)" and ?s = "new_shell t [''f'' \<mapsto> bytes_of_string [CHR ''a'', newline]]"
  let ?x = "\<lparr>pcb_pid = 1, pcb_size = 1, program_counter = [1], page_table = [1], source_file = []\<rparr>"
    and ?line = "[CHR ''a'', newline]"
  from new_proc_newline obtain m where m: "mem_ok m" "mem_get_value_at 0 m = Some ?line" and
    np: "new_proc ''f'' ?s = Returns (0, ?s\<lparr>memory := m, fresh_ref := 2, PID_counter := 2, ALL_PCB := [0], QUEUE := [0], LRU_CACHE := [1],
      pcbs := [0 \<mapsto> \<lparr>pcb_pid = 1, pcb_size = 2, program_counter = [0], page_table = [1], source_file = []\<rparr>],
      pages := [1 \<mapsto> \<lparr>frame_index = [0, 1, 2], valid_bit = [True, False, False], page_index = 0, page_pid = 1\<rparr>]\<rparr>)"
    (is "_ = Returns (0, ?u)") by blast
  let ?w = "print_line ?line (?u\<lparr>QUEUE := [], pcbs := [0 \<mapsto> ?x]\<rparr>)"
  have "run_proc_RR ?P rounds ?u = Unfinished" for rounds
  proof (cases rounds)
    case (Suc n)
    have "run_line ?P 0 (?u\<lparr>QUEUE := []\<rparr>) = Returns (0, ?w)"
      using m(2) by (simp add: run_line_def upt_rec run_proc_def cpu_run_def PAGE_equal_def print_line_def print_out_def)
    moreover have E: "exhausted 0 0 1 ?x ?w"
      using m(1) by (simp add: exhausted_def asks_for_def held_def print_line_def print_out_def upt_rec)
    from run_line_exhausted [OF this, of ?P] obtain v where
      v: "run_line ?P 0 ?w = Returns (1, v)" "QUEUE v = [0]" "exhausted 0 0 1 ?x v" "LRU_CACHE v \<noteq> []" by auto
    ultimately have "rr_turn ?P 0 (?u\<lparr>QUEUE := []\<rparr>) = Returns v" by (simp add: rr_turn_def)
    moreover have "queue_done ?u = Some False" by (simp add: queue_done_def PCB_done_def)
    ultimately show ?thesis using exhausted_process_faults_forever [OF v(3,4,2)] by (simp add: Suc)
  qed simp
  then show "run_script E ?P ''f'' ?s = Unfinished" using np by (simp add: run_script_def)
qed

end
