(* ===== verification/Shell_Safety.thy ===== *)
theory Shell_Safety
  imports Script_Commands Page_Faults
begin

text \<open>
  An invariant of the whole shell, whatever line it executes: the memory keeps its size, pages and
  processes keep their shape, and the valid lines of a page are cells of one frame of the frame store.
  The scheduler and the commands rely on the parser and the parser on them; the interface is a locale,
  and \<open>parseInput\<close> provides it. \<open>checked_parse\<close> tests the invariant before every line of every script, so
  that runs that exit, go wrong or never end are covered as far as they go.
\<close>

section \<open>The invariant\<close>

definition page_ok :: "page \<Rightarrow> bool" where
  "page_ok pg \<longleftrightarrow> length (frame_index pg) = 3 \<and> length (valid_bit pg) = 3 \<and>
     (\<exists>b. b + 3 \<le> FRAME_STORE_SIZE \<and> (\<forall>j < 3. valid_bit pg ! j \<longrightarrow> frame_index pg ! j = b + j))"

definition shell_ok :: "shell \<Rightarrow> bool" where
  "shell_ok s \<longleftrightarrow> length (memory s) = FRAME_STORE_SIZE + VAR_STORE_SIZE \<and>
     (\<forall>q pg. pages s q = Some pg \<longrightarrow> page_ok pg) \<and>
     (\<forall>p x. pcbs s p = Some x \<longrightarrow> length (program_counter x) = length (page_table x))"

definition safe :: "('a \<times> shell) outcome \<Rightarrow> bool" where
  "safe r \<longleftrightarrow> (\<forall>x s. r = Returns (x, s) \<longrightarrow> shell_ok s)"

definition safe_state :: "shell outcome \<Rightarrow> bool" where
  "safe_state r \<longleftrightarrow> (\<forall>s. r = Returns s \<longrightarrow> shell_ok s)"

named_theorems safe_rules \<open>how the invariant passes through a command\<close>

lemma safe_Returns [safe_rules]: "shell_ok s \<Longrightarrow> safe (Returns (x, s))" "shell_ok s \<Longrightarrow> safe_state (Returns s)"
  by (simp_all add: safe_def safe_state_def)

lemma safe_ends [safe_rules]:
  "safe (Exits c)" "safe Undefined" "safe Unfinished" "safe_state (Exits c)" "safe_state Undefined" "safe_state Unfinished"
  by (simp_all add: safe_def safe_state_def)

lemma safe_and_then:
  "safe r \<Longrightarrow> (\<And>x s. shell_ok s \<Longrightarrow> safe (f (x, s))) \<Longrightarrow> safe (and_then r f)"
  "safe r \<Longrightarrow> (\<And>x s. shell_ok s \<Longrightarrow> safe_state (g (x, s))) \<Longrightarrow> safe_state (and_then r g)"
  "safe_state r' \<Longrightarrow> (\<And>s. shell_ok s \<Longrightarrow> safe (h s)) \<Longrightarrow> safe (and_then r' h)"
  by (cases r; cases r'; auto simp: safe_def safe_state_def)+

lemma safe_and_then_defined:
  "(\<And>x. a = Some x \<Longrightarrow> safe (f x)) \<Longrightarrow> safe (and_then (defined a) f)"
  "(\<And>x. a = Some x \<Longrightarrow> safe_state (g x)) \<Longrightarrow> safe_state (and_then (defined a) g)"
  by (cases a; simp add: safe_def safe_state_def)+

lemma safe_defined:
  "(\<And>x s. a = Some (x, s) \<Longrightarrow> shell_ok s) \<Longrightarrow> safe (defined a)"
  "(\<And>s. b = Some s \<Longrightarrow> shell_ok s) \<Longrightarrow> safe_state (defined b)"
  by (simp_all add: safe_def safe_state_def)

lemma safe_if [safe_rules]:
  "(b \<Longrightarrow> safe x) \<Longrightarrow> (\<not> b \<Longrightarrow> safe y) \<Longrightarrow> safe (if b then x else y)"
  "(b \<Longrightarrow> safe_state x') \<Longrightarrow> (\<not> b \<Longrightarrow> safe_state y') \<Longrightarrow> safe_state (if b then x' else y')"
  by simp_all

lemma shell_ok_fields [simp]:
  "shell_ok (s\<lparr>file_system := t\<rparr>) = shell_ok s" "shell_ok (s\<lparr>host := h\<rparr>) = shell_ok s"
  "shell_ok (s\<lparr>outputs := out\<rparr>) = shell_ok s" "shell_ok (s\<lparr>strtok_rest := r\<rparr>) = shell_ok s"
  "shell_ok (s\<lparr>QUEUE := Q\<rparr>) = shell_ok s" "shell_ok (s\<lparr>LRU_CACHE := Q\<rparr>) = shell_ok s"
  "shell_ok (s\<lparr>ALL_PCB := Q\<rparr>) = shell_ok s" "shell_ok (s\<lparr>PID_counter := n\<rparr>) = shell_ok s"
  "shell_ok (s\<lparr>new_name_count := m\<rparr>) = shell_ok s" "shell_ok (s\<lparr>fresh_ref := k\<rparr>) = shell_ok s"
  by (simp_all add: shell_ok_def)

lemma shell_ok_outputs [simp]: "shell_ok (print_out x s) = shell_ok s" "shell_ok (print_line t s) = shell_ok s"
  "shell_ok (run_system E cmd s) = shell_ok s" "shell_ok (empty_store E s) = shell_ok s"
  by (simp_all add: print_out_def print_line_def run_system_def empty_store_def)

lemma shell_ok_memory: "shell_ok s \<Longrightarrow> length m = length (memory s) \<Longrightarrow> shell_ok (s\<lparr>memory := m\<rparr>)"
  by (simp add: shell_ok_def)

lemma shell_ok_page: "shell_ok s \<Longrightarrow> page_ok pg \<Longrightarrow> shell_ok (s\<lparr>pages := (pages s)(q \<mapsto> pg)\<rparr>)"
  by (simp add: shell_ok_def)

lemma shell_ok_pcb:
  "shell_ok s \<Longrightarrow> length (program_counter x) = length (page_table x) \<Longrightarrow> shell_ok (s\<lparr>pcbs := (pcbs s)(p \<mapsto> x)\<rparr>)"
  by (simp add: shell_ok_def)

lemma shell_ok_drop: "shell_ok s \<Longrightarrow> shell_ok (s\<lparr>pages := (pages s)(q := None)\<rparr>)"
  "shell_ok s \<Longrightarrow> shell_ok (s\<lparr>pcbs := (pcbs s)(p := None)\<rparr>)"
  by (simp_all add: shell_ok_def)

lemma shell_okD: "shell_ok s \<Longrightarrow> pages s q = Some pg \<Longrightarrow> page_ok pg"
  "shell_ok s \<Longrightarrow> pcbs s p = Some x \<Longrightarrow> length (program_counter x) = length (page_table x)"
  by (simp_all add: shell_ok_def)

section \<open>Memory operations\<close>

lemma length_ofold:
  assumes "\<And>x m m'. f x m = Some m' \<Longrightarrow> length m' = length m"
  shows "ofold f xs m = Some m' \<Longrightarrow> length m' = length m"
  by (induction xs arbitrary: m) (auto split: bind_splits dest: assms)

lemma length_mem_ops:
  "mem_free_at pos m = Some m' \<Longrightarrow> length m' = length m"
  "mem_set_value_at pos pid x m = Some m' \<Longrightarrow> length m' = length m"
  "length (mem_set_value v x m) = length m"
  by (auto simp: mem_free_at_def mem_set_value_at_def mem_set_value_def split: if_splits option.split)

lemma length_clear_frame: "clear_frame a m = Some m' \<Longrightarrow> length m' = length m"
  unfolding clear_frame_def by (rule length_ofold) (rule length_mem_ops)

lemma length_reset_var_zone: "reset_var_zone m = Some m' \<Longrightarrow> length m' = length m"
  unfolding reset_var_zone_def by (rule length_ofold) (rule length_mem_ops)

lemma frame_alloc_facts:
  assumes "frame_alloc pid m = Some (k, m')" and "length m = FRAME_STORE_SIZE + VAR_STORE_SIZE"
  shows "k + 3 \<le> FRAME_STORE_SIZE \<and> length m' = length m"
proof -
  have "length (foldl (\<lambda>m k. m[k := (m ! k)\<lparr>cell_var := pid\<rparr>]) m xs) = length m" for xs m
    by (induction xs arbitrary: m) simp_all
  moreover have "free_run m k = 3" using assms(1) by (auto simp: frame_alloc_def find_Some_iff split: option.splits)
  then have "k + 3 \<le> 30" by (simp add: free_run_3 frame_free_def)
  ultimately show ?thesis using assms(1) by (auto simp: frame_alloc_def split: option.splits)
qed

section \<open>Pages and processes\<close>

lemma load_lines_ok:
  "load_lines p q pid js s = Some s' \<Longrightarrow> shell_ok s \<Longrightarrow> set js \<subseteq> {..<3} \<Longrightarrow>
   (\<forall>pg. pages s q = Some pg \<longrightarrow> (\<exists>b. b + 3 \<le> FRAME_STORE_SIZE \<and> frame_index pg = [b, b + 1, b + 2])) \<Longrightarrow> shell_ok s'"
proof (induction js arbitrary: s)
  case (Cons j js)
  obtain x where x: "pcbs s p = Some x" using Cons.prems(1) by (auto split: bind_splits)
  show ?case
  proof (cases "source_file x = []")
    case True
    then show ?thesis using Cons.prems x by simp
  next
    case False
    obtain line rest where f: "fgets 998 (source_file x) = (line, rest)" by fastforce
    from Cons.prems(1) x False f obtain pg m where
      m: "pages s q = Some pg" "mem_set_value_at (frame_index pg ! j) pid (c_str line) (memory s) = Some m"
        "load_lines p q pid js (s\<lparr>memory := m, pages := (pages s)(q \<mapsto> pg\<lparr>valid_bit := (valid_bit pg)[j := True]\<rparr>),
           pcbs := (pcbs s)(p \<mapsto> x\<lparr>source_file := rest\<rparr>)\<rparr>) = Some s'"
      by (auto split: bind_splits)
    let ?s = "s\<lparr>memory := m, pages := (pages s)(q \<mapsto> pg\<lparr>valid_bit := (valid_bit pg)[j := True]\<rparr>),
           pcbs := (pcbs s)(p \<mapsto> x\<lparr>source_file := rest\<rparr>)\<rparr>"
    obtain b where b: "b + 3 \<le> FRAME_STORE_SIZE" "frame_index pg = [b, b + 1, b + 2]" using Cons.prems(4) m(1) by blast
    then have "\<forall>j < 3. frame_index pg ! j = b + j" by (auto simp: less_Suc_eq numeral_3_eq_3)
    then have "page_ok (pg\<lparr>valid_bit := (valid_bit pg)[j := True]\<rparr>)"
      using shell_okD(1) [OF Cons.prems(2) m(1)] b(1) by (auto simp: page_ok_def)
    then have "shell_ok ?s"
      using Cons.prems(2) shell_okD(2) [OF Cons.prems(2) x] length_mem_ops(2) [OF m(2)] by (simp add: shell_ok_def)
    then show ?thesis using Cons.IH [OF m(3)] Cons.prems(3,4) m(1) by simp
  qed
qed simp

lemma load_PAGE_ok: "load_PAGE p i s = Some (r, s') \<Longrightarrow> shell_ok s \<Longrightarrow> shell_ok s'"
  subgoal premises p
  proof -
    from p(1) obtain x pg where x: "pcbs s p = Some x" "pages s (page_table x ! i) = Some pg"
      by (auto simp: load_PAGE_def Let_def split: bind_splits if_splits)
    let ?q = "page_table x ! i" and ?pid = "decimal_int (pcb_pid x)"
    show ?thesis
    proof (cases "frame_alloc ?pid (memory s)")
      case None
      then show ?thesis using p x by (auto simp: load_PAGE_def Let_def split: if_splits)
    next
      case (Some km)
      obtain k m where km: "km = (k, m)" by (cases km)
      let ?pg = "pg\<lparr>frame_index := [k, k + 1, k + 2], valid_bit := [False, False, False]\<rparr>"
      let ?s = "s\<lparr>memory := m, pages := (pages s)(?q \<mapsto> ?pg)\<rparr>"
      have l: "load_lines p ?q ?pid [0..<3] ?s = Some s'"
        using p(1) x Some km by (auto simp: load_PAGE_def Let_def split: if_splits bind_splits)
      have k: "k + 3 \<le> 30" "length m = length (memory s)"
        using frame_alloc_facts [OF Some [unfolded km]] p(2) by (simp_all add: shell_ok_def)
      have "page_ok ?pg" by (auto simp: page_ok_def less_Suc_eq numeral_3_eq_3 intro!: exI [of _ 0])
      then have "shell_ok ?s" using p(2) k(2) by (simp add: shell_ok_def)
      then show ?thesis
        by (rule load_lines_ok [OF l]) (use k(1) in auto)
    qed
  qed
  done

lemma load_first_ok: "shell_ok s \<Longrightarrow> safe_state (load_first p is s)"
proof (induction "is" arbitrary: s)
  case (Cons i "is")
  have "safe (defined (load_PAGE p i s))" by (rule safe_defined) (rule load_PAGE_ok [OF _ Cons.prems])
  then show ?case unfolding load_first.simps
    by (rule safe_and_then) (simp add: Cons.IH safe_rules)
qed (simp add: safe_rules)

lemma PCB_init_ok:
  assumes ok: "shell_ok s"
  shows "safe (PCB_init pid script s)"
proof (cases "open_text script s")
  case None
  then show ?thesis by (simp add: PCB_init_def Let_def safe_rules)
next
  case (Some cs)
  let ?size = "count_lines script s"
  let ?n = "nat (PAGE_table_size ?size)" and ?p = "fresh_ref s"
  let ?x = "\<lparr>pcb_pid = pid, pcb_size = ?size, program_counter = replicate ?n 0, page_table = [?p + 1..<?p + 1 + ?n], source_file = cs\<rparr>"
  let ?s = "s\<lparr>fresh_ref := ?p + 1 + ?n, pcbs := (pcbs s)(?p \<mapsto> ?x),
     pages := (\<lambda>q. if q \<in> set [?p + 1..<?p + 1 + ?n] then Some (PAGE_init pid (q - (?p + 1))) else pages s q)\<rparr>"
  have "page_ok (PAGE_init pid i)" for i
    by (auto simp: page_ok_def PAGE_init_def less_Suc_eq numeral_3_eq_3 intro!: exI [of _ 0])
  then have "shell_ok ?s" using ok by (auto simp: shell_ok_def simp del: upt_Suc split: if_splits)
  from load_first_ok [OF this] show ?thesis
    by (auto simp: PCB_init_def Let_def Some simp del: upt_Suc intro!: safe_and_then(3) safe_rules)
qed

lemma free_pages_ok: "free_pages qs s = Some s' \<Longrightarrow> shell_ok s \<Longrightarrow> shell_ok s'"
proof (induction qs arbitrary: s)
  case (Cons q qs)
  from Cons.prems(1) obtain pg :: page and m where
    m: "ofold clear_frame (frame_index pg) (memory s) = Some m"
      "free_pages qs (s\<lparr>memory := m, pages := (pages s)(q := None)\<rparr>) = Some s'"
    by (auto split: bind_splits)
  have "length m = length (memory s)" by (rule length_ofold [OF length_clear_frame m(1)])
  then have "shell_ok (s\<lparr>memory := m, pages := (pages s)(q := None)\<rparr>)" using Cons.prems(2) by (simp add: shell_ok_def)
  from Cons.IH [OF m(2) this] show ?case .
qed simp

lemma free_PCB_ok: "free_PCB p s = Some s' \<Longrightarrow> shell_ok s \<Longrightarrow> shell_ok s'"
  by (auto simp: free_PCB_def shell_ok_drop dest!: free_pages_ok split: bind_splits)

lemma page_ok_evict:
  assumes "page_ok pg"
  shows "page_ok (pg\<lparr>frame_index := (frame_index pg)[j := 0], valid_bit := (valid_bit pg)[j := False]\<rparr>)"
proof -
  from assms obtain b where b: "b + 3 \<le> FRAME_STORE_SIZE" "\<forall>j < 3. valid_bit pg ! j \<longrightarrow> frame_index pg ! j = b + j"
    "length (frame_index pg) = 3" "length (valid_bit pg) = 3" by (auto simp: page_ok_def)
  moreover have "(frame_index pg)[j := 0] ! i = b + i" if "i < 3" "(valid_bit pg)[j := False] ! i" for i
    using b that by (cases "i = j") auto
  ultimately show ?thesis by (auto simp: page_ok_def)
qed

lemma evict_lines_ok: "evict_lines q js s = Some s' \<Longrightarrow> shell_ok s \<Longrightarrow> shell_ok s'"
proof (induction js arbitrary: s)
  case (Cons j js)
  from Cons.prems(1) obtain pg line m where
    m: "pages s q = Some pg" "mem_free_at (frame_index pg ! j) (memory s) = Some m"
      "evict_lines q js (print_out (Text line) (s\<lparr>memory := m, pages := (pages s)(q \<mapsto> pg\<lparr>frame_index := (frame_index pg)[j := 0],
                 valid_bit := (valid_bit pg)[j := False]\<rparr>)\<rparr>)) = Some s'"
    by (auto split: bind_splits)
  have "page_ok (pg\<lparr>frame_index := (frame_index pg)[j := 0], valid_bit := (valid_bit pg)[j := False]\<rparr>)"
    using page_ok_evict [OF shell_okD(1) [OF Cons.prems(2) m(1)]] .
  then have "shell_ok (s\<lparr>memory := m, pages := (pages s)(q \<mapsto> pg\<lparr>frame_index := (frame_index pg)[j := 0],
                 valid_bit := (valid_bit pg)[j := False]\<rparr>)\<rparr>)"
    using Cons.prems(2) length_mem_ops(1) [OF m(2)] by (simp add: shell_ok_def)
  then show ?case using Cons.IH [OF m(3)] by simp
qed simp

lemma PAGE_evict_ok: "PAGE_evict p i s = Some s' \<Longrightarrow> shell_ok s \<Longrightarrow> shell_ok s'"
  by (auto simp: PAGE_evict_def dest!: evict_lines_ok split: bind_splits if_splits)

section \<open>The scheduler and the commands over a parser\<close>

lemma page_fault_ok: "shell_ok s \<Longrightarrow> safe_state (page_fault p i s)"
  unfolding page_fault_def
proof (rule safe_and_then(2), rule safe_defined(1), erule load_PAGE_ok, assumption)
  fix r t assume t: "shell_ok t"
  show "safe_state (case (r, t) of (ret, s) \<Rightarrow>
      if ret \<noteq> 1 then Returns s
      else if LRU_CACHE s = [] then Exits 99
      else defined (do {
            let v = List.last (LRU_CACHE s);
            let s = s\<lparr>LRU_CACHE := butlast (LRU_CACHE s)\<rparr>;
            victim \<leftarrow> pages s v;
            c \<leftarrow> find_pcb (page_pid victim) (ALL_PCB s) s;
            s \<leftarrow> PAGE_evict c (page_index victim) s;
            (_, s) \<leftarrow> load_PAGE p i s;
            Some s }))"
    unfolding prod.case
  proof (intro safe_rules safe_defined)
    fix s
    assume "(do { let v = List.last (LRU_CACHE t);
            let s = t\<lparr>LRU_CACHE := butlast (LRU_CACHE t)\<rparr>;
            victim \<leftarrow> pages s v;
            c \<leftarrow> find_pcb (page_pid victim) (ALL_PCB s) s;
            s \<leftarrow> PAGE_evict c (page_index victim) s;
            (_, s) \<leftarrow> load_PAGE p i s;
            Some s }) = Some s"
    then show "shell_ok s"
      using t by (auto simp: Let_def split: bind_splits dest!: load_PAGE_ok PAGE_evict_ok)
  qed (use t in simp)
qed

lemma rr_finish_ok: "rr_finish s = Some (r, s') \<Longrightarrow> shell_ok s \<Longrightarrow> shell_ok s'"
proof -
  have "ofold free_PCB ps s = Some t \<Longrightarrow> shell_ok s \<Longrightarrow> shell_ok t" for ps t
    by (induction ps arbitrary: s) (auto split: bind_splits dest: free_PCB_ok)
  then show "rr_finish s = Some (r, s') \<Longrightarrow> shell_ok s \<Longrightarrow> shell_ok s'"
    by (auto simp: rr_finish_def split: bind_splits)
qed

lemma new_proc_ok: "shell_ok s \<Longrightarrow> safe (new_proc script s)"
  unfolding new_proc_def Let_def
  by (rule safe_and_then(1), rule PCB_init_ok) (auto intro!: safe_rules split: bind_splits)

locale safe_parser =
  fixes P :: parser
  assumes safe_line: "shell_ok s \<Longrightarrow> safe (P l s)"
begin

lemma cpu_run_ok: "shell_ok s \<Longrightarrow> safe (cpu_run P p i j s)"
  unfolding cpu_run_def
  by (intro safe_and_then_defined safe_rules safe_and_then(1) safe_line)
    (auto intro!: shell_ok_pcb safe_rules simp: shell_okD(2) split: bind_splits)

lemma run_proc_ok: "shell_ok s \<Longrightarrow> safe (run_proc P p i j s)"
  unfolding run_proc_def
  by (rule safe_and_then(1), erule cpu_run_ok, unfold prod.case)
    (intro safe_rules safe_and_then(3) page_fault_ok safe_defined; (assumption | auto split: bind_splits))

lemma run_proc_FIFO_ok: "shell_ok s \<Longrightarrow> safe (run_proc_FIFO P fuel current s)"
proof (induction fuel arbitrary: current s)
  case (Suc fuel)
  show ?case
  proof (cases current)
    case None
    then show ?thesis using Suc by (auto simp: safe_rules split: list.split)
  next
    case (Some p)
    have free: "safe_state (defined (free_PCB p s))" by (rule safe_defined(2)) (rule free_PCB_ok [OF _ Suc.prems])
    show ?thesis
      unfolding run_proc_FIFO.simps Some option.case
      by (intro safe_and_then_defined safe_rules safe_and_then(3) free Suc.IH; assumption?)
        (auto intro!: safe_and_then(1) run_proc_ok Suc)
  qed
qed (simp add: safe_rules)

lemma run_line_ok: "shell_ok s \<Longrightarrow> safe (run_line P p s)"
  unfolding run_line_def
  by (intro safe_and_then_defined) (auto intro!: safe_rules run_proc_ok split: option.split)

lemma rr_turn_ok: "shell_ok s \<Longrightarrow> safe_state (rr_turn P p s)"
  unfolding rr_turn_def
  by (intro safe_and_then_defined safe_rules) (auto intro!: safe_and_then safe_rules run_line_ok)

lemma run_proc_RR_ok: "shell_ok s \<Longrightarrow> safe (run_proc_RR P fuel s)"
proof (induction fuel arbitrary: s)
  case (Suc fuel)
  have "safe (defined (rr_finish s))" by (rule safe_defined(1)) (rule rr_finish_ok [OF _ Suc.prems])
  then show ?case
    unfolding run_proc_RR.simps
    by (intro safe_and_then_defined safe_rules)
      (auto intro!: safe_rules safe_and_then(3) rr_turn_ok Suc split: list.split)
qed (simp add: safe_rules)

lemma run_script_ok: "shell_ok s \<Longrightarrow> safe (run_script E P script s)"
  unfolding run_script_def by (rule safe_and_then(1), erule new_proc_ok) (auto intro!: safe_rules run_proc_RR_ok)

lemma new_procs_ok: "shell_ok s \<Longrightarrow> safe (new_procs xs s)"
  by (induction xs arbitrary: s) (auto intro!: safe_rules safe_and_then(1) new_proc_ok)

lemma exec_ok: "shell_ok s \<Longrightarrow> safe (exec E P xs policy s)"
  unfolding exec_def
  by (intro safe_rules safe_and_then(1) new_procs_ok) (auto intro!: safe_rules run_proc_RR_ok run_proc_FIFO_ok)

lemma copy_script_ok: "shell_ok s \<Longrightarrow> safe (copy_script E x s)"
  by (simp add: copy_script_def Let_def safe_rules)

lemma copy_scripts_ok: "shell_ok s \<Longrightarrow> safe (copy_scripts E xs s)"
  by (induction xs arbitrary: s) (auto intro!: safe_rules safe_and_then(1) copy_script_ok)

lemma handle_error_ok [safe_rules]: "shell_ok s \<Longrightarrow> safe (handle_error code s)" "shell_ok s \<Longrightarrow> safe (fail e s)"
  by (simp_all add: fail_def handle_error_def safe_rules)

lemma on_fs_ok: "shell_ok s \<Longrightarrow> safe (on_fs f s)"
  unfolding on_fs_def by (intro safe_and_then_defined) (auto intro!: safe_rules)

lemmas command_rules = safe_rules safe_and_then(1) on_fs_ok safe_and_then_defined

lemma shell_ok_copied [simp]:
  "shell_ok (case written of None \<Rightarrow> s | Some (n, d) \<Rightarrow> s\<lparr>host := (host s)(n \<mapsto> d)\<rparr>) = shell_ok s"
  by (simp split: option.split prod.split)

lemma file_commands_ok:
  assumes "shell_ok s"
  shows "safe (cmd_ls E args s)" "safe (cmd_cat E args s)" "safe (cmd_rm E args s)" "safe (cmd_create E args s)"
    "safe (cmd_write E args s)" "safe (cmd_find_file E args s)" "safe (cmd_read E args s)" "safe (cmd_copy_in E args s)"
    "safe (cmd_copy_out E args s)" "safe (cmd_size E args s)" "safe (cmd_seek E args s)" "safe (cmd_freespace args s)"
    "safe (cmd_fragmentation_degree E args s)" "safe (cmd_defragment E args s)" "safe (cmd_recover E args s)"
    "safe (cmd_quit E args s)"
  unfolding cmd_ls_def cmd_cat_def cmd_rm_def cmd_create_def cmd_write_def cmd_find_file_def cmd_read_def cmd_copy_in_def
    cmd_copy_out_def cmd_size_def cmd_seek_def cmd_freespace_def cmd_fragmentation_degree_def cmd_defragment_def
    cmd_recover_def cmd_quit_def quit_shell_def
  using assms by (auto simp: Let_def intro!: command_rules split: option.split)

lemma variable_commands_ok:
  assumes "shell_ok s"
  shows "safe (cmd_set args s)" "safe (cmd_print args s)" "safe (cmd_echo args s)" "safe (show_help s)"
proof -
  have "safe (set_var v x s)" for v x
    using assms by (simp add: set_var_def safe_rules shell_ok_memory length_mem_ops)
  then have set: "safe (and_then (join_args b as) (\<lambda>r. case r of None \<Rightarrow> fail e s | Some b \<Rightarrow> set_var v b s))" for b as e v
    using assms by (cases "join_args b as") (auto intro!: safe_rules split: option.split)
  show "safe (cmd_set args s)" using assms by (auto simp: cmd_set_def intro!: safe_rules set)
  show "safe (cmd_print args s)" "safe (cmd_echo args s)" "safe (show_help s)"
    using assms by (auto simp: cmd_print_def print_var_def cmd_echo_def echo_def show_help_def intro!: safe_rules)
qed

lemma run_commands_ok:
  assumes "shell_ok s"
  shows "safe (cmd_run E P args s)" "safe (cmd_exec E P args s)"
  unfolding cmd_run_def cmd_exec_def
  using assms by (auto intro!: safe_rules safe_and_then(1) copy_script_ok copy_scripts_ok run_script_ok exec_ok)

lemma interpreter_ok:
  assumes "shell_ok s"
  shows "safe (interpreter E P args s)"
proof (cases "map strip args")
  case Nil
  then show ?thesis using assms by (simp add: interpreter_def safe_rules)
next
  case (Cons name rest)
  have reset: "safe (and_then (defined (reset_var_zone (memory s))) (\<lambda>m. Returns (0, s\<lparr>memory := m\<rparr>)))"
    using assms by (intro safe_and_then_defined safe_rules shell_ok_memory length_reset_var_zone)
  note commands = file_commands_ok [OF assms] variable_commands_ok [OF assms] run_commands_ok [OF assms] reset
    handle_error_ok [OF assms]
  show ?thesis unfolding interpreter_def Cons list.case Let_def by (intro safe_if commands)
qed

lemma token_loop_ok: "shell_ok s \<Longrightarrow> safe (token_loop E P k token ret s)"
proof (induction k arbitrary: token ret s)
  case (Suc k)
  show ?case
  proof (cases token)
    case (Some t)
    have "safe (case (ret, t) of (ret, s) \<Rightarrow>
        let (token, rest) = strtok_step (strtok_rest s); s = s\<lparr>strtok_rest := rest\<rparr>
        in if ret = - 1 then Returns (ret, s) else token_loop E P k token ret s)" if "shell_ok t" for ret t
      using that Suc.IH by (auto simp: Let_def split: prod.split intro!: safe_rules)
    then show ?thesis
      unfolding token_loop.simps Some option.case
      by (intro safe_rules safe_and_then(1) interpreter_ok Suc.prems)
  qed (simp add: safe_rules Suc.prems)
qed (simp add: safe_rules)

end

section \<open>The parser keeps the invariant\<close>

lemma parseInput_ok: "shell_ok s \<Longrightarrow> safe (parseInput E fuel l s)"
proof (induction fuel arbitrary: l s)
  case (Suc fuel)
  have "safe_parser (parseInput E fuel)" by (rule safe_parser.intro) (rule Suc.IH)
  then show ?case
    using Suc.prems by (auto simp: Let_def split: prod.split intro!: safe_parser.token_loop_ok)
qed (simp add: safe_rules)

interpretation shell_parser: safe_parser "parseInput E fuel" for E fuel
  by unfold_locales (rule parseInput_ok)

section \<open>Every line\<close>

text \<open>The parser, with a test of the state before every line: the outcome is \<open>X\<close> when it fails.\<close>

primrec checked_parse :: "shell_env \<Rightarrow> (int \<times> shell) outcome \<Rightarrow> nat \<Rightarrow> parser" where
  "checked_parse E X 0 ui s = (if shell_ok s then Unfinished else X)"
| "checked_parse E X (Suc fuel) ui s =
     (if shell_ok s
      then let (token, rest) = strtok_step ui
           in token_loop E (checked_parse E X fuel) (s_rounds E) token 0 (s\<lparr>strtok_rest := rest\<rparr>)
      else X)"

lemma same_and_then:
  "safe r \<Longrightarrow> (\<And>x s. shell_ok s \<Longrightarrow> f (x, s) = f' (x, s)) \<Longrightarrow> and_then r f = and_then r f'"
  "safe_state r' \<Longrightarrow> (\<And>s. shell_ok s \<Longrightarrow> g s = g' s) \<Longrightarrow> and_then r' g = and_then r' g'"
  "(\<And>x. a = Some x \<Longrightarrow> h x = h' x) \<Longrightarrow> and_then (defined a) h = and_then (defined a) h'"
  by (cases r; cases r'; cases a; auto simp: safe_def safe_state_def)+

locale same_parser = safe_parser +
  fixes P' :: parser
  assumes same_line: "shell_ok s \<Longrightarrow> P' l s = P l s"
begin

lemma cpu_same: "shell_ok s \<Longrightarrow> cpu_run P' p i j s = cpu_run P p i j s"
  by (simp add: cpu_run_def same_line cong: if_cong)

lemma run_proc_same: "shell_ok s \<Longrightarrow> run_proc P' p i j s = run_proc P p i j s"
  by (simp add: run_proc_def cpu_same)

lemma run_line_same: "shell_ok s \<Longrightarrow> run_line P' p s = run_line P p s"
  by (simp add: run_line_def run_proc_same cong: option.case_cong)

lemma rr_turn_same: "shell_ok s \<Longrightarrow> rr_turn P' p s = rr_turn P p s"
  unfolding rr_turn_def
  by (intro same_and_then(3) if_cong refl) (auto simp: run_line_same intro!: same_and_then(1) run_line_ok)

lemma run_proc_RR_same: "shell_ok s \<Longrightarrow> run_proc_RR P' fuel s = run_proc_RR P fuel s"
proof (induction fuel arbitrary: s)
  case (Suc fuel)
  then show ?case unfolding run_proc_RR.simps
    by (intro same_and_then(3) if_cong refl list.case_cong)
      (auto simp: rr_turn_same intro!: same_and_then(2) rr_turn_ok)
qed simp

lemma run_proc_FIFO_same: "shell_ok s \<Longrightarrow> run_proc_FIFO P' fuel current s = run_proc_FIFO P fuel current s"
proof (induction fuel arbitrary: current s)
  case (Suc fuel)
  show ?case
  proof (cases current)
    case None
    then show ?thesis using Suc by (auto split: list.split)
  next
    case (Some p)
    have free: "safe_state (defined (free_PCB p s))" by (rule safe_defined(2)) (rule free_PCB_ok [OF _ Suc.prems])
    show ?thesis
      unfolding run_proc_FIFO.simps Some option.case
      by (intro same_and_then(3) if_cong refl same_and_then(2) [OF free] Suc.IH; assumption?)
        (auto simp: run_proc_same Suc intro!: same_and_then run_proc_ok)
  qed
qed simp

lemma run_script_same: "shell_ok s \<Longrightarrow> run_script E P' script s = run_script E P script s"
  unfolding run_script_def by (rule same_and_then(1), erule new_proc_ok) (simp add: run_proc_RR_same)

lemma exec_same: "shell_ok s \<Longrightarrow> exec E P' xs policy s = exec E P xs policy s"
  unfolding exec_def
  by (intro if_cong refl same_and_then(1) new_procs_ok; (assumption | simp add: run_proc_RR_same run_proc_FIFO_same))

lemma run_commands_same:
  assumes "shell_ok s"
  shows "cmd_run E P' args s = cmd_run E P args s" "cmd_exec E P' args s = cmd_exec E P args s"
  unfolding cmd_run_def cmd_exec_def
  by (intro if_cong refl same_and_then(1) copy_script_ok copy_scripts_ok assms; simp add: run_script_same exec_same)+

lemma interpreter_same: "shell_ok s \<Longrightarrow> interpreter E P' args s = interpreter E P args s"
  by (simp add: interpreter_def run_commands_same cong: list.case_cong if_cong)

lemma token_loop_same: "shell_ok s \<Longrightarrow> token_loop E P' k token ret s = token_loop E P k token ret s"
proof (induction k arbitrary: token ret s)
  case (Suc k)
  show ?case
  proof (cases token)
    case (Some t)
    show ?thesis
      unfolding token_loop.simps Some option.case interpreter_same [OF Suc.prems]
      using Suc by (intro if_cong refl same_and_then(1) interpreter_ok) (auto simp: Let_def split: prod.split)
  qed simp
qed simp

end

lemma checked_parse_same: "shell_ok s \<Longrightarrow> checked_parse E X fuel l s = parseInput E fuel l s"
proof (induction fuel arbitrary: l s)
  case (Suc fuel)
  have "same_parser (parseInput E fuel) (checked_parse E X fuel)"
    by (intro same_parser.intro same_parser_axioms.intro shell_parser.safe_parser_axioms) (rule Suc.IH)
  then show ?case
    using Suc.prems by (auto simp: Let_def split: prod.split intro!: same_parser.token_loop_same)
qed simp

interpretation checked: same_parser "parseInput E fuel" "checked_parse E X fuel" for E fuel X
  by unfold_locales (rule checked_parse_same)

text \<open>
  C10: Whatever line the shell executes, every line of every script that it runs for it, also in runs
  that exit, go wrong or never end, is executed in a well-formed state: a test before every line never
  fails. The memory has its 120 cells, every page three lines, every process a program counter for each
  of its pages, and the lines of a page that are marked as valid are the cells of one frame, in order;
  so the cell that a process reads for a valid line exists. A state in which the line returns is
  well-formed again.
\<close>

theorem shell_state_well_formed:
  assumes "shell_ok s"
  shows "(\<forall>X. checked_parse E X fuel l s = parseInput E fuel l s) \<and>
    (\<forall>ret s'. parseInput E fuel l s = Returns (ret, s') \<longrightarrow> shell_ok s') \<and>
    (\<forall>t q pg j. shell_ok t \<longrightarrow> pages t q = Some pg \<longrightarrow> j < 3 \<longrightarrow> valid_bit pg ! j \<longrightarrow>
       (\<exists>line. mem_get_value_at (frame_index pg ! j) (memory t) = Some line))"
proof (intro conjI allI impI)
  show "checked_parse E X fuel l s = parseInput E fuel l s" for X by (rule checked.same_line [OF assms])
  show "shell_ok s'" if "parseInput E fuel l s = Returns (ret, s')" for ret s'
    using shell_parser.safe_line [OF assms, of E fuel l] that by (simp add: safe_def)
  fix t q pg j assume t: "shell_ok t" "pages t q = Some pg" "j < 3" "valid_bit pg ! j"
  obtain b where "b + 3 \<le> FRAME_STORE_SIZE" "\<forall>j < 3. valid_bit pg ! j \<longrightarrow> frame_index pg ! j = b + j"
    using shell_okD(1) [OF t(1,2)] by (auto simp: page_ok_def)
  then have "frame_index pg ! j < length (memory t)" using t by (simp add: shell_ok_def)
  then show "\<exists>line. mem_get_value_at (frame_index pg ! j) (memory t) = Some line" by (simp add: mem_get_value_at_def)
qed

text \<open>A shell in which one page of a process is loaded; scripts that are run in it get other frames.\<close>

definition paged_shell :: "fs \<Rightarrow> host_files \<Rightarrow> shell" where
  "paged_shell t h = (full_shell t h)\<lparr>memory := replicate 3 \<lparr>cell_var = ''1'', cell_value = ''y''\<rparr> @ replicate 117 free_cell\<rparr>"

lemma paged_shell_ok: "shell_ok (paged_shell t h)"
  by (auto simp: shell_ok_def paged_shell_def full_shell_def page_ok_def PAGE_init_def less_Suc_eq numeral_3_eq_3 intro!: exI [of _ 0])

theorem shell_state_well_formed_witness:
  "\<forall>E fuel t h. checked_parse E (Exits 1) fuel ''run f'' (paged_shell t h) = parseInput E fuel ''run f'' (paged_shell t h) \<and>
     mem_get_value_at 2 (memory (paged_shell t h)) \<noteq> None"
proof (intro allI)
  fix E fuel t h
  note W = shell_state_well_formed [OF paged_shell_ok [of t h], of E fuel "''run f''"]
  let ?pg = "\<lparr>frame_index = [0, 1, 2], valid_bit = [True, True, True], page_index = 0, page_pid = 1\<rparr>"
  have "pages (paged_shell t h) 1 = Some ?pg" "2 < (3 :: nat)" "valid_bit ?pg ! 2" by (simp_all add: paged_shell_def full_shell_def)
  from W [THEN conjunct2, THEN conjunct2, rule_format, OF paged_shell_ok [of t h] this]
  have "mem_get_value_at 2 (memory (paged_shell t h)) \<noteq> None" by auto
  then show "checked_parse E (Exits 1) fuel ''run f'' (paged_shell t h) = parseInput E fuel ''run f'' (paged_shell t h) \<and>
     mem_get_value_at 2 (memory (paged_shell t h)) \<noteq> None" using W [THEN conjunct1] by blast
qed

end
