(* ===== verification/Ready_Queue.thy ===== *)
theory Ready_Queue
  imports Outcome "HOL-Library.Multiset"
begin

text \<open>
  The ready queue of the second assignment (\<^verbatim>\<open>src/a2/ready_queue.c\<close>, \<^verbatim>\<open>src/a2/pcb.c\<close>): a singly linked
  list of nodes in a heap, each with the process it owns. Functions that walk the list are partial
  functions; on a list that ends they are defined.
\<close>

section \<open>Processes and nodes\<close>

text \<open>An open file is its text and what has not been read of it.\<close>

record task =
  task_table :: "int list"
  priority :: bool
  task_pid :: int
  PC :: nat
  current_command :: nat
  number_of_commands :: nat
  job_length_score :: int
  task_file :: "string \<times> string"

record queue_node =
  q_task :: task
  q_next :: "nat option"

record ready_queue =
  q_head :: "nat option"
  q_nodes :: "nat \<Rightarrow> queue_node option"

definition makePCB :: "string \<Rightarrow> nat \<Rightarrow> int \<Rightarrow> task" where
  "makePCB file_text num_commands pid =
     \<lparr>task_table = replicate 100 (- 1), priority = False, task_pid = pid, PC = 0, current_command = 0,
      number_of_commands = num_commands, job_length_score = int num_commands, task_file = (file_text, file_text)\<rparr>"

definition setFrame :: "int \<Rightarrow> int \<Rightarrow> task \<Rightarrow> task" where
  "setFrame frame_index frame t =
     (if frame_index < 0 \<or> 100 \<le> frame_index then t else t\<lparr>task_table := (task_table t)[nat frame_index := frame]\<rparr>)"

definition set_q_next :: "nat \<Rightarrow> nat option \<Rightarrow> ready_queue \<Rightarrow> ready_queue option" where
  "set_q_next p x q = map_option (\<lambda>n. q\<lparr>q_nodes := (q_nodes q)(p \<mapsto> n\<lparr>q_next := x\<rparr>)\<rparr>) (q_nodes q p)"

definition free_node :: "nat \<Rightarrow> ready_queue \<Rightarrow> ready_queue" where
  "free_node p q = q\<lparr>q_nodes := (q_nodes q)(p := None)\<rparr>"

section \<open>Adding and removing\<close>

text \<open>\<open>head\<close> is not reset.\<close>

partial_function (option) destroy_loop :: "nat \<Rightarrow> ready_queue \<Rightarrow> ready_queue option" where
  "destroy_loop cur q =
     do { n \<leftarrow> q_nodes q cur;
          case q_next n of None \<Rightarrow> Some (free_node cur q) | Some tmp \<Rightarrow> destroy_loop tmp (free_node cur q) }"

definition ready_queue_destroy :: "ready_queue \<Rightarrow> ready_queue option" where
  "ready_queue_destroy q = (case q_head q of None \<Rightarrow> Some q | Some h \<Rightarrow> destroy_loop h q)"

partial_function (option) last_node :: "nat \<Rightarrow> ready_queue \<Rightarrow> nat option" where
  "last_node cur q =
     do { n \<leftarrow> q_nodes q cur; case q_next n of None \<Rightarrow> Some cur | Some r \<Rightarrow> last_node r q }"

definition ready_queue_add_to_tail :: "nat \<Rightarrow> ready_queue \<Rightarrow> ready_queue option" where
  "ready_queue_add_to_tail node q =
     (case q_head q of
        None \<Rightarrow> set_q_next node None (q\<lparr>q_head := Some node\<rparr>)
      | Some h \<Rightarrow> do { l \<leftarrow> last_node h q; q \<leftarrow> set_q_next l (Some node) q; set_q_next node None q })"

definition ready_queue_add_to_head :: "nat \<Rightarrow> ready_queue \<Rightarrow> ready_queue option" where
  "ready_queue_add_to_head node q =
     (case q_head q of
        None \<Rightarrow> set_q_next node None (q\<lparr>q_head := Some node\<rparr>)
      | Some h \<Rightarrow> map_option (\<lambda>q. q\<lparr>q_head := Some node\<rparr>) (set_q_next node (Some h) q))"

definition is_ready_empty :: "ready_queue \<Rightarrow> bool" where
  "is_ready_empty q \<longleftrightarrow> q_head q = None"

definition ready_queue_pop_head :: "ready_queue \<Rightarrow> (nat option \<times> ready_queue) option" where
  "ready_queue_pop_head q =
     (case q_head q of
        None \<Rightarrow> Some (None, q)
      | Some h \<Rightarrow> do { n \<leftarrow> q_nodes q h; Some (Some h, q\<lparr>q_head := q_next n\<rparr>) })"

section \<open>Scores\<close>

partial_function (option) decrement_loop :: "nat option \<Rightarrow> ready_queue \<Rightarrow> ready_queue option" where
  "decrement_loop cur q =
     (case cur of
        None \<Rightarrow> Some q
      | Some c \<Rightarrow> do {
          n \<leftarrow> q_nodes q c;
          let t = q_task n;
          let t = (if 0 < job_length_score t then t\<lparr>job_length_score := job_length_score t - 1\<rparr> else t);
          decrement_loop (q_next n) (q\<lparr>q_nodes := (q_nodes q)(c \<mapsto> n\<lparr>q_task := t\<rparr>)\<rparr>) })"

definition ready_queue_decrement_job_length_score :: "ready_queue \<Rightarrow> ready_queue option" where
  "ready_queue_decrement_job_length_score q = decrement_loop (q_head q) q"

definition MAX_INT :: int where
  "MAX_INT = 2147483646"

partial_function (option) shortest_loop :: "int \<Rightarrow> nat option \<Rightarrow> ready_queue \<Rightarrow> int option" where
  "shortest_loop shortest cur q =
     (case cur of
        None \<Rightarrow> Some shortest
      | Some c \<Rightarrow> do { n \<leftarrow> q_nodes q c; shortest_loop (min (job_length_score (q_task n)) shortest) (q_next n) q })"

definition ready_queue_get_shortest_job_score :: "ready_queue \<Rightarrow> int option" where
  "ready_queue_get_shortest_job_score q = shortest_loop MAX_INT (q_head q) q"

text \<open>The node before the first one behind the head with the score, or the last node.\<close>

partial_function (option) promote_loop :: "int \<Rightarrow> nat \<Rightarrow> ready_queue \<Rightarrow> nat option" where
  "promote_loop score cur q =
     do { n \<leftarrow> q_nodes q cur;
          case q_next n of
            None \<Rightarrow> Some cur
          | Some r \<Rightarrow> do { m \<leftarrow> q_nodes q r; if job_length_score (q_task m) = score then Some cur else promote_loop score r q } }"

definition ready_queue_promote :: "int \<Rightarrow> ready_queue \<Rightarrow> ready_queue option" where
  "ready_queue_promote score q =
     do { h \<leftarrow> q_head q;
          n \<leftarrow> q_nodes q h;
          if job_length_score (q_task n) = score then Some q
          else do {
            cur \<leftarrow> promote_loop score h q;
            n \<leftarrow> q_nodes q cur;
            case q_next n of
              None \<Rightarrow> Some q
            | Some r \<Rightarrow> do {
                m \<leftarrow> q_nodes q r;
                if job_length_score (q_task m) \<noteq> score then Some q
                else do { q \<leftarrow> set_q_next cur (q_next m) q;
                          q \<leftarrow> set_q_next r (q_head q) q;
                          Some (q\<lparr>q_head := Some r\<rparr>) } } } }"

section \<open>Sorting\<close>

partial_function (option) previous_node :: "nat option \<Rightarrow> nat \<Rightarrow> ready_queue \<Rightarrow> nat option option" where
  "previous_node cur toSwap q =
     (case cur of
        None \<Rightarrow> Some None
      | Some c \<Rightarrow> do { n \<leftarrow> q_nodes q c; if q_next n = Some toSwap then Some (Some c) else previous_node (q_next n) toSwap q })"

text \<open>\<open>cur\<close> starts at what was the head before the first exchange.\<close>

definition ready_queue_swap_with_next :: "nat \<Rightarrow> ready_queue \<Rightarrow> ready_queue option" where
  "ready_queue_swap_with_next toSwap q =
     do { let old_head = q_head q;
          q \<leftarrow> (if old_head = Some toSwap then do {
                    n \<leftarrow> q_nodes q toSwap;
                    next' \<leftarrow> q_next n;
                    m \<leftarrow> q_nodes q next';
                    q \<leftarrow> set_q_next toSwap (q_next m) q;
                    q \<leftarrow> set_q_next next' (Some toSwap) q;
                    Some (q\<lparr>q_head := Some next'\<rparr>) }
                else Some q);
          prev \<leftarrow> previous_node old_head toSwap q;
          case prev of
            None \<Rightarrow> Some q
          | Some cur \<Rightarrow> do {
              n \<leftarrow> q_nodes q toSwap;
              next' \<leftarrow> q_next n;
              m \<leftarrow> q_nodes q next';
              q \<leftarrow> set_q_next cur (Some next') q;
              q \<leftarrow> set_q_next next' (Some toSwap) q;
              set_q_next toSwap (q_next m) q } }"

definition runs_later :: "task \<Rightarrow> task \<Rightarrow> bool" where
  "runs_later t u \<longleftrightarrow>
     (if priority t \<and> priority u then job_length_score t > job_length_score u
      else if priority t \<and> \<not> priority u then False
      else if \<not> priority t \<and> priority u then True
      else job_length_score t > job_length_score u)"

definition swap_needed :: "nat \<Rightarrow> ready_queue \<Rightarrow> bool option" where
  "swap_needed cur q =
     do { n \<leftarrow> q_nodes q cur;
          case q_next n of
            None \<Rightarrow> Some False
          | Some r \<Rightarrow> do { m \<leftarrow> q_nodes q r; Some (runs_later (q_task n) (q_task m)) } }"

partial_function (option) bubble_loop :: "nat \<Rightarrow> bool \<Rightarrow> ready_queue \<Rightarrow> (nat \<times> bool \<times> ready_queue) option" where
  "bubble_loop cur unswapped q =
     do { n \<leftarrow> q_nodes q cur;
          case q_next n of
            None \<Rightarrow> Some (cur, unswapped, q)
          | Some r \<Rightarrow> do {
              s \<leftarrow> swap_needed cur q;
              if s then do { q \<leftarrow> ready_queue_swap_with_next cur q; bubble_loop cur False q }
              else bubble_loop r unswapped q } }"

text \<open>\<open>cur\<close> is not set back to the head between the passes.\<close>

partial_function (option) sort_loop :: "nat \<Rightarrow> ready_queue \<Rightarrow> ready_queue option" where
  "sort_loop cur q =
     do { (cur, unswapped, q) \<leftarrow> bubble_loop cur True q; if unswapped then Some q else sort_loop cur q }"

definition sort_ready_queue :: "ready_queue \<Rightarrow> ready_queue option" where
  "sort_ready_queue q = (case q_head q of None \<Rightarrow> Some q | Some h \<Rightarrow> sort_loop h q)"

definition ready_queue_pop_shortest_job :: "ready_queue \<Rightarrow> (nat option \<times> ready_queue) option" where
  "ready_queue_pop_shortest_job q = do { q \<leftarrow> sort_ready_queue q; ready_queue_pop_head q }"

section \<open>The queue as a list\<close>

primrec segment :: "(nat \<Rightarrow> queue_node option) \<Rightarrow> nat option \<Rightarrow> nat list \<Rightarrow> nat option \<Rightarrow> bool" where
  "segment h p [] r \<longleftrightarrow> p = r"
| "segment h p (a # xs) r \<longleftrightarrow> p = Some a \<and> (\<exists>n. h a = Some n \<and> segment h (q_next n) xs r)"

definition queue_is :: "ready_queue \<Rightarrow> nat list \<Rightarrow> bool" where
  "queue_is q xs \<longleftrightarrow> segment (q_nodes q) (q_head q) xs None \<and> distinct xs"

definition same_tasks :: "ready_queue \<Rightarrow> ready_queue \<Rightarrow> bool" where
  "same_tasks q q' \<longleftrightarrow> (\<forall>a. map_option q_task (q_nodes q' a) = map_option q_task (q_nodes q a))"

lemma segment_append: "segment h p (xs @ ys) r \<longleftrightarrow> (\<exists>m. segment h p xs m \<and> segment h m ys r)"
  by (induction xs arbitrary: p) auto

lemma segment_cong: "(\<And>a. a \<in> set xs \<Longrightarrow> h' a = h a) \<Longrightarrow> segment h' p xs r = segment h p xs r"
  by (induction xs arbitrary: p) auto

lemma segment_upd [simp]: "a \<notin> set xs \<Longrightarrow> segment (h(a := y)) p xs r = segment h p xs r"
  by (rule segment_cong) auto

lemma set_q_next_eq: "q_nodes q p = Some n \<Longrightarrow> set_q_next p x q = Some (q\<lparr>q_nodes := (q_nodes q)(p \<mapsto> n\<lparr>q_next := x\<rparr>)\<rparr>)"
  by (simp add: set_q_next_def)

lemma last_node_segment:
  "segment (q_nodes q) (Some a) (xs @ [b]) None \<Longrightarrow> last_node a q = Some b"
proof (induction xs arbitrary: a)
  case Nil
  then show ?case by (subst last_node.simps) auto
next
  case (Cons x xs)
  then obtain n where n: "x = a" "q_nodes q a = Some n" "segment (q_nodes q) (q_next n) (xs @ [b]) None" by auto
  then obtain r where r: "q_next n = Some r" by (cases xs) auto
  with n Cons.IH [of r] show ?case by (subst last_node.simps) simp
qed

text \<open>Nodes come out in the order in which they were added at the tail.\<close>

lemma add_to_tail_queue:
  assumes "queue_is q xs" and "node \<notin> set xs" and "q_nodes q node = Some n"
  shows "\<exists>q'. ready_queue_add_to_tail node q = Some q' \<and> queue_is q' (xs @ [node]) \<and> same_tasks q q'"
proof (cases xs rule: rev_cases)
  case Nil
  then show ?thesis using assms by (simp add: ready_queue_add_to_tail_def queue_is_def set_q_next_eq same_tasks_def)
next
  case (snoc ys b)
  from assms(1) snoc obtain m where m: "segment (q_nodes q) (q_head q) ys (Some b)" "q_nodes q b = Some m"
    "b \<notin> set ys" "distinct ys" by (auto simp: queue_is_def segment_append)
  obtain a where a: "q_head q = Some a" using m(1) by (cases ys) auto
  have "last_node a q = Some b" using assms(1) snoc a last_node_segment [of q a ys b] by (simp add: queue_is_def)
  moreover have "node \<noteq> b" "node \<notin> set ys" using assms(2) snoc by auto
  ultimately show ?thesis
    using m assms(3) a snoc
    by (simp add: ready_queue_add_to_tail_def set_q_next_eq queue_is_def segment_append same_tasks_def)
qed

lemma pop_head_queue:
  assumes "queue_is q (a # xs)"
  shows "\<exists>q'. ready_queue_pop_head q = Some (Some a, q') \<and> queue_is q' xs \<and> same_tasks q q'"
  using assms by (auto simp: queue_is_def ready_queue_pop_head_def same_tasks_def)

lemma pop_head_empty: "queue_is q [] \<Longrightarrow> ready_queue_pop_head q = Some (None, q)"
  by (simp add: queue_is_def ready_queue_pop_head_def)

section \<open>What sorting does\<close>

definition task_at :: "ready_queue \<Rightarrow> nat \<Rightarrow> task" where
  "task_at q a = q_task (the (q_nodes q a))"

fun bubble_pass :: "('a \<Rightarrow> 'a \<Rightarrow> bool) \<Rightarrow> 'a list \<Rightarrow> 'a list" where
  "bubble_pass after [] = []"
| "bubble_pass after [x] = [x]"
| "bubble_pass after (x # y # zs) = (if after x y then y # bubble_pass after (x # zs) else x # bubble_pass after (y # zs))"

lemma previous_node_none:
  "segment (q_nodes q) p xs None \<Longrightarrow> \<forall>a \<in> set xs. \<forall>n. q_nodes q a = Some n \<longrightarrow> q_next n \<noteq> Some t \<Longrightarrow>
   previous_node p t q = Some None"
proof (induction xs arbitrary: p)
  case Nil
  then show ?case by (subst previous_node.simps) simp
next
  case (Cons a xs)
  then show ?case by (subst previous_node.simps) auto
qed

lemma previous_node_found:
  "segment (q_nodes q) p (xs @ [c]) (Some t) \<Longrightarrow> t \<notin> set xs \<Longrightarrow> t \<noteq> c \<Longrightarrow> previous_node p t q = Some (Some c)"
proof (induction xs arbitrary: p)
  case Nil
  then show ?case by (subst previous_node.simps) auto
next
  case (Cons a xs)
  then obtain n where n: "p = Some a" "q_nodes q a = Some n" "segment (q_nodes q) (q_next n) (xs @ [c]) (Some t)" by auto
  have "q_next n \<noteq> Some t" using n(3) Cons.prems(2,3) by (cases xs) auto
  with n Cons show ?case by (subst previous_node.simps) auto
qed

lemma swap_with_next_queue:
  assumes "queue_is q (ps @ a # b # ys)"
  shows "\<exists>q'. ready_queue_swap_with_next a q = Some q' \<and> queue_is q' (ps @ b # a # ys) \<and> same_tasks q q'"
proof (cases ps rule: rev_cases)
  case Nil
  from assms Nil obtain n m where n: "q_head q = Some a" "q_nodes q a = Some n" "q_next n = Some b" "q_nodes q b = Some m"
    "segment (q_nodes q) (q_next m) ys None" "distinct (a # b # ys)" by (auto simp: queue_is_def)
  let ?h = "(q_nodes q)(a \<mapsto> n\<lparr>q_next := q_next m\<rparr>, b \<mapsto> m\<lparr>q_next := Some a\<rparr>)"
  let ?q = "q\<lparr>q_nodes := ?h, q_head := Some b\<rparr>"
  have ys: "segment ?h (q_next m) ys None" using n(5,6) by simp
  have s: "segment ?h (Some b) (b # a # ys) None" using ys n(6) by auto
  have "previous_node (Some a) a ?q = Some None"
  proof (rule previous_node_none)
    show "segment (q_nodes ?q) (Some a) (a # ys) None" using ys n(6) by auto
    have "\<forall>c \<in> set ys. \<forall>k. q_nodes q c = Some k \<longrightarrow> q_next k \<noteq> Some a"
    proof (intro ballI allI impI notI)
      fix c k assume c: "c \<in> set ys" "q_nodes q c = Some k" "q_next k = Some a"
      from c(1) obtain us vs where "ys = us @ c # vs" by (auto simp: in_set_conv_decomp)
      with n(5,6) c show False by (cases vs) (auto simp: segment_append)
    qed
    moreover have "q_next m \<noteq> Some a" using n(5,6) by (cases ys) auto
    ultimately show "\<forall>c \<in> set (a # ys). \<forall>k. q_nodes ?q c = Some k \<longrightarrow> q_next k \<noteq> Some a" using n(6) by auto
  qed
  then have "ready_queue_swap_with_next a q = Some ?q"
    using n(1-4,6) by (simp add: ready_queue_swap_with_next_def set_q_next_eq Let_def)
  with s n Nil show ?thesis by (auto simp: queue_is_def same_tasks_def)
next
  case (snoc us c)
  from assms snoc obtain k n m where n: "segment (q_nodes q) (q_head q) us (Some c)" "q_nodes q c = Some k" "q_next k = Some a"
    "q_nodes q a = Some n" "q_next n = Some b" "q_nodes q b = Some m" "segment (q_nodes q) (q_next m) ys None"
    "distinct (us @ c # a # b # ys)" by (auto simp: queue_is_def segment_append)
  have "q_head q \<noteq> Some a" using n(1,8) by (cases us) auto
  moreover have "previous_node (q_head q) a q = Some (Some c)"
    using n by (intro previous_node_found [of q _ us]) (auto simp: segment_append)
  ultimately have "ready_queue_swap_with_next a q =
      Some (q\<lparr>q_nodes := (q_nodes q)(c \<mapsto> k\<lparr>q_next := Some b\<rparr>, b \<mapsto> m\<lparr>q_next := Some a\<rparr>, a \<mapsto> n\<lparr>q_next := q_next m\<rparr>)\<rparr>)"
    using n by (simp add: ready_queue_swap_with_next_def set_q_next_eq Let_def)
  with n snoc show ?thesis by (auto simp: queue_is_def segment_append same_tasks_def)
qed

lemma same_tasks_at: "same_tasks q q' \<Longrightarrow> task_at q' a = task_at q a"
  unfolding same_tasks_def task_at_def by (drule spec [of _ a]) (cases "q_nodes q a"; cases "q_nodes q' a"; simp)

lemma same_tasks_trans: "same_tasks q q' \<Longrightarrow> same_tasks q' q'' \<Longrightarrow> same_tasks q q''"
  by (simp add: same_tasks_def)

abbreviation later_in :: "ready_queue \<Rightarrow> nat \<Rightarrow> nat \<Rightarrow> bool" where
  "later_in q a b \<equiv> runs_later (task_at q a) (task_at q b)"

lemma bubble_loop_queue:
  "queue_is q (ps @ a # ys) \<Longrightarrow>
   \<exists>u' q'. bubble_loop a u q = Some (List.last (bubble_pass (later_in q) (a # ys)), u', q') \<and>
     queue_is q' (ps @ bubble_pass (later_in q) (a # ys)) \<and> same_tasks q q'"
proof (induction ys arbitrary: ps a q u)
  case Nil
  then show ?case by (subst bubble_loop.simps) (auto simp: queue_is_def segment_append same_tasks_def)
next
  case (Cons b ys)
  from Cons.prems obtain n m where n: "q_nodes q a = Some n" "q_next n = Some b" "q_nodes q b = Some m"
    by (auto simp: queue_is_def segment_append)
  then have needed: "swap_needed a q = Some (later_in q a b)" by (simp add: swap_needed_def task_at_def)
  show ?case
  proof (cases "later_in q a b")
    case True
    from swap_with_next_queue [OF Cons.prems] obtain q1 where
      q1: "ready_queue_swap_with_next a q = Some q1" "queue_is q1 ((ps @ [b]) @ a # ys)" "same_tasks q q1" by auto
    note later = same_tasks_at [OF q1(3)]
    from Cons.IH [OF q1(2), of False] obtain u' q' where
      q': "bubble_loop a False q1 = Some (List.last (bubble_pass (later_in q) (a # ys)), u', q')"
        "queue_is q' ((ps @ [b]) @ bubble_pass (later_in q) (a # ys))" "same_tasks q1 q'" unfolding later by auto
    have "bubble_pass (later_in q) (a # ys) \<noteq> []" by (cases ys) auto
    with q' q1 needed True n same_tasks_trans [OF q1(3) q'(3)] show ?thesis
      by (subst bubble_loop.simps) simp
  next
    case False
    from Cons.IH [of q "ps @ [a]" b u] Cons.prems obtain u' q' where
      q': "bubble_loop b u q = Some (List.last (bubble_pass (later_in q) (b # ys)), u', q')"
        "queue_is q' (ps @ a # bubble_pass (later_in q) (b # ys))" "same_tasks q q'" by auto
    have "bubble_pass (later_in q) (b # ys) \<noteq> []" by (cases ys) auto
    with q' needed False n show ?thesis by (subst bubble_loop.simps) simp
  qed
qed

lemma mset_bubble_pass [simp]: "mset (bubble_pass after xs) = mset xs"
  by (induction after xs rule: bubble_pass.induct) auto

lemma set_bubble_pass [simp]: "set (bubble_pass after xs) = set xs"
  by (metis mset_bubble_pass set_mset_mset)

lemma bubble_pass_Nil [simp]: "bubble_pass after xs = [] \<longleftrightarrow> xs = []"
  by (metis mset_bubble_pass mset_zero_iff)

lemma bubble_pass_last:
  assumes "\<forall>x y. after x y \<longrightarrow> \<not> after y x" and "\<forall>x y z. \<not> after x y \<longrightarrow> \<not> after y z \<longrightarrow> \<not> after x z"
    and "x \<in> set xs"
  shows "\<not> after x (List.last (bubble_pass after xs))"
  using assms
proof (induction after xs arbitrary: x rule: bubble_pass.induct)
  case (3 after a b zs)
  show ?case
  proof (cases "after a b")
    case True
    have ih: "\<not> after y (List.last (bubble_pass after (a # zs)))" if "y \<in> set (a # zs)" for y
      using 3(1) [OF True 3(3,4) that] by blast
    have "\<not> after b (List.last (bubble_pass after (a # zs)))" using 3(3,4) True ih [of a] by (meson list.set_intros(1))
    with True ih 3(5) show ?thesis by auto
  next
    case False
    have ih: "\<not> after y (List.last (bubble_pass after (b # zs)))" if "y \<in> set (b # zs)" for y
      using 3(2) [OF False 3(3,4) that] by blast
    have "\<not> after a (List.last (bubble_pass after (b # zs)))" using 3(4) False ih [of b] by (meson list.set_intros(1))
    with False ih 3(5) show ?thesis by auto
  qed
next
  case (1 after)
  from 1(3) show ?case by simp
next
  case (2 after v)
  have "\<not> after v v" using 2(1) [rule_format, of v v] by blast
  moreover have "x = v" using 2(3) by (simp only: list.set insert_iff empty_iff simp_thms)
  ultimately show ?case by (simp only: bubble_pass.simps last.simps simp_thms if_True)
qed

lemma runs_later_order:
  "runs_later t u \<longleftrightarrow> (\<not> priority t \<and> priority u) \<or> (priority t = priority u \<and> job_length_score u < job_length_score t)"
  by (auto simp: runs_later_def)

text \<open>
  C37: \<open>sort_ready_queue\<close> ends on every queue, whatever its length, and changes nothing but the
  order; but it is a single pass of bubble sort, because the second pass starts at the end of the
  queue: it brings a job that is to run last to the end, and need not sort the others.
\<close>

theorem sort_ready_queue_one_pass:
  assumes "queue_is q xs"
  shows "\<exists>q'. sort_ready_queue q = Some q' \<and> queue_is q' (bubble_pass (later_in q) xs) \<and> same_tasks q q' \<and>
    mset (bubble_pass (later_in q) xs) = mset xs \<and>
    (\<forall>a \<in> set xs. \<not> later_in q a (List.last (bubble_pass (later_in q) xs)))"
proof -
  let ?ys = "bubble_pass (later_in q) xs"
  have last: "\<forall>a \<in> set xs. \<not> later_in q a (List.last ?ys)"
    by (intro ballI bubble_pass_last) (simp_all add: runs_later_order, auto)
  show ?thesis
  proof (cases xs)
    case Nil
    then show ?thesis using assms by (simp add: sort_ready_queue_def queue_is_def same_tasks_def)
  next
    case (Cons a as)
    let ?l = "List.last ?ys"
    from bubble_loop_queue [of q "[]" a as True] assms Cons obtain u' q' where
      q': "bubble_loop a True q = Some (?l, u', q')" "queue_is q' ?ys" "same_tasks q q'" by auto
    have "?ys \<noteq> []" using Cons by simp
    then have "queue_is q' (butlast ?ys @ [?l])" using q'(2) by simp
    from bubble_loop_queue [OF this, of True] have again: "\<exists>u q''. bubble_loop ?l True q' = Some (?l, u, q'')" by auto
    have stop: "bubble_loop ?l True q' = Some (?l, True, q')"
      using \<open>queue_is q' (butlast ?ys @ [?l])\<close> by (subst bubble_loop.simps) (auto simp: queue_is_def segment_append)
    have "sort_loop ?l q' = Some q'" by (subst sort_loop.simps) (simp add: stop)
    moreover have "q_head q = Some a" using assms Cons by (simp add: queue_is_def)
    ultimately have "sort_ready_queue q = Some q'"
      by (simp add: sort_ready_queue_def) (subst sort_loop.simps, simp add: q'(1))
    with q' last show ?thesis by auto
  qed
qed

text \<open>Three jobs of lengths 3, 2 and 1: the shortest does not come first.\<close>

definition three_jobs :: ready_queue where
  "three_jobs = \<lparr>q_head = Some 1, q_nodes =
     [1 \<mapsto> \<lparr>q_task = makePCB [] 3 1, q_next = Some 2\<rparr>, 2 \<mapsto> \<lparr>q_task = makePCB [] 2 2, q_next = Some 3\<rparr>,
      3 \<mapsto> \<lparr>q_task = makePCB [] 1 3, q_next = None\<rparr>]\<rparr>"

lemma three_jobs_queue: "queue_is three_jobs [1, 2, 3]"
  by (simp add: queue_is_def three_jobs_def)

lemma three_jobs_pass: "bubble_pass (later_in three_jobs) [1, 2, 3] = [2, 3, 1]"
  by (simp add: three_jobs_def task_at_def runs_later_def makePCB_def)

theorem sort_ready_queue_one_pass_witness:
  "\<exists>q'. sort_ready_queue three_jobs = Some q' \<and> queue_is q' [2, 3, 1] \<and> later_in three_jobs 2 3"
  using sort_ready_queue_one_pass [OF three_jobs_queue]
  by (auto simp: three_jobs_pass three_jobs_def task_at_def runs_later_def makePCB_def)

end
