(* ===== verification/Frame_Store.thy ===== *)
theory Frame_Store
  imports Ready_Queue
begin

text \<open>
  The memory of the shell of the second assignment (\<^verbatim>\<open>src/a2/shellmemory.c\<close>): variables, and a store of
  frames of three lines whose least recently used one is replaced. A null pointer is \<open>None\<close>.
\<close>

section \<open>The store\<close>

abbreviation SHELL_FRAMES :: nat where "SHELL_FRAMES \<equiv> 23"
abbreviation SHELL_VARS :: nat where "SHELL_VARS \<equiv> 100"
abbreviation LINES_PER_FRAME :: nat where "LINES_PER_FRAME \<equiv> 3"

record var_cell =
  v_name :: "string option"
  v_text :: "string option"

record frame_struct =
  f_lines :: "string option list"
  f_pid :: int
  f_lru :: int
  f_empty :: bool

record frame_store =
  shellvars :: "var_cell list"
  shellframes :: "frame_struct list"
  num_lru :: int
  shellmemory :: "var_cell list"

definition null_cell :: var_cell where
  "null_cell = \<lparr>v_name = None, v_text = None\<rparr>"

definition none_cell :: var_cell where
  "none_cell = \<lparr>v_name = Some ''none'', v_text = Some ''none''\<rparr>"

definition init_store :: "frame_store \<Rightarrow> frame_store" where
  "init_store st = st\<lparr>shellvars := replicate SHELL_VARS null_cell,
     shellframes := replicate SHELL_FRAMES \<lparr>f_lines = replicate LINES_PER_FRAME None, f_pid = - 1, f_lru = - 1, f_empty = True\<rparr>\<rparr>"

section \<open>Variables\<close>

definition resetmem :: "frame_store \<Rightarrow> frame_store" where
  "resetmem st = st\<lparr>shellvars := map (\<lambda>c. \<lparr>v_name = map_option (\<lambda>_. ''none'') (v_name c),
     v_text = map_option (\<lambda>_. ''none'') (v_text c)\<rparr>) (shellvars st)\<rparr>"

definition set_variable :: "string \<Rightarrow> string \<Rightarrow> frame_store \<Rightarrow> frame_store" where
  "set_variable var_in value_in st =
     (case List.find (\<lambda>i. v_name (shellvars st ! i) = Some var_in) [0..<length (shellvars st)] of
        Some i \<Rightarrow> st\<lparr>shellvars := (shellvars st)[i := (shellvars st ! i)\<lparr>v_text := Some value_in\<rparr>]\<rparr>
      | None \<Rightarrow>
          (case List.find (\<lambda>i. v_name (shellvars st ! i) = None) [0..<length (shellvars st)] of
             Some i \<Rightarrow> st\<lparr>shellvars := (shellvars st)[i := \<lparr>v_name = Some var_in, v_text = Some value_in\<rparr>]\<rparr>
           | None \<Rightarrow> st))"

text \<open>The search compares with null pointers, too; that is undefined.\<close>

primrec get_variable :: "string \<Rightarrow> var_cell list \<Rightarrow> string option option" where
  "get_variable v [] = Some None"
| "get_variable v (c # cs) =
     do { n \<leftarrow> v_name c; if n = v then map_option Some (v_text c) else get_variable v cs }"

section \<open>Frames\<close>

definition findEmptyFrame :: "frame_store \<Rightarrow> int" where
  "findEmptyFrame st =
     (case List.find (\<lambda>i. f_empty (shellframes st ! i)) [0..<length (shellframes st)] of None \<Rightarrow> - 1 | Some i \<Rightarrow> int i)"

text \<open>
  A line of at most 999 characters, and the rest of the file; a character 255 counts as the end of
  the file. The result says whether there was a line.
\<close>

definition readNextCommand :: "string \<Rightarrow> (bool \<times> string \<times> string) option" where
  "readNextCommand s =
     (let line = takeWhile (\<lambda>c. c \<noteq> newline \<and> c \<noteq> CHR 0xFF) s; rest = drop (length line) s
      in if 1000 \<le> length line then None
         else Some (line \<noteq> [] \<or> take 1 rest = [newline], line, drop 1 rest))"

text \<open>
  The result points to a local array of the function, which does not live any more when the caller
  copies it. What the caller finds for a text left in that array is a parameter: \<open>None\<close> when reading it
  is undefined, as the C standard has it, and the text itself when nothing has overwritten it yet.
\<close>

type_synonym dead_array = "string \<Rightarrow> string option"

definition removeWhitespace :: "dead_array \<Rightarrow> string \<Rightarrow> string option" where
  "removeWhitespace D input = D (dropWhile (\<lambda>c. c = CHR '' '' \<or> c = CHR 0x09 \<or> c = newline) (c_str input))"

text \<open>The frame with the lowest time of last use; with none, an uninitialised variable.\<close>

primrec victim_loop :: "frame_store \<Rightarrow> nat list \<Rightarrow> nat option \<times> int \<Rightarrow> nat option \<times> int" where
  "victim_loop st [] acc = acc"
| "victim_loop st (i # is) acc =
     victim_loop st is
       (if f_lru (shellframes st ! i) \<noteq> - 1 \<and> f_lru (shellframes st ! i) < snd acc
        then (Some i, f_lru (shellframes st ! i)) else acc)"

definition victim_frame :: "frame_store \<Rightarrow> nat option" where
  "victim_frame st = fst (victim_loop st [0..<length (shellframes st)] (None, 2147483647))"

text \<open>A line that the file no longer has stays as it was.\<close>

primrec fill_frame :: "dead_array \<Rightarrow> nat list \<Rightarrow> string \<Rightarrow> string option list \<Rightarrow> (string \<times> string option list) option" where
  "fill_frame D [] file ls = Some (file, ls)"
| "fill_frame D (i # is) file ls =
     do { (ok, command, file) \<leftarrow> readNextCommand file;
          ls \<leftarrow> (if ok then map_option (\<lambda>line. ls[i := Some line]) (removeWhitespace D command) else Some ls);
          fill_frame D is file ls }"

text \<open>The frame, the rest of the file, what is printed, and the store.\<close>

definition loadFrame :: "dead_array \<Rightarrow> string \<Rightarrow> int \<Rightarrow> frame_store \<Rightarrow> (nat \<times> string \<times> string list \<times> frame_store) option" where
  "loadFrame D fp pid st =
     do { let e = findEmptyFrame st;
          i \<leftarrow> (if e = - 1 then victim_frame st else Some (nat e));
          let fr = shellframes st ! i;
          let printed = (if e = - 1 then ''Page fault! Victim page contents:'' #
                List.map_filter id (f_lines fr) @ [''End of victim page contents.''] else []);
          (fp, ls) \<leftarrow> fill_frame D [0..<LINES_PER_FRAME] fp (f_lines fr);
          if num_lru st = 2 ^ 31 - 1 then None
          else Some (i, fp, printed, st\<lparr>shellframes := (shellframes st)[i :=
                 \<lparr>f_lines = ls, f_pid = pid, f_lru = num_lru st, f_empty = False\<rparr>], num_lru := num_lru st + 1\<rparr>) }"

text \<open>The frame is accessed before its index is tested.\<close>

definition getLineFromFrameStore :: "int \<Rightarrow> int \<Rightarrow> int \<Rightarrow> frame_store \<Rightarrow> (string option \<times> frame_store) option" where
  "getLineFromFrameStore pid frameIndex lineIndex st =
     (if frameIndex < 0 \<or> int (length (shellframes st)) \<le> frameIndex then None
      else let i = nat frameIndex; fr = shellframes st ! i
           in if f_pid fr \<noteq> pid \<or> lineIndex < 0 \<or> int LINES_PER_FRAME \<le> lineIndex then Some (None, st)
              else if num_lru st = 2 ^ 31 - 1 then None
              else Some (f_lines fr ! nat lineIndex,
                st\<lparr>shellframes := (shellframes st)[i := fr\<lparr>f_lru := num_lru st\<rparr>], num_lru := num_lru st + 1\<rparr>))"

section \<open>The memory of the previous version\<close>

text \<open>These functions work on an array that no other function uses any more.\<close>

text \<open>The first cell from \<open>i\<close> on whose key is, or is not, \<^verbatim>\<open>none\<close>.\<close>

primrec scan_memory :: "bool \<Rightarrow> var_cell list \<Rightarrow> nat \<Rightarrow> nat option" where
  "scan_memory free [] i = Some i"
| "scan_memory free (c # cs) i =
     do { n \<leftarrow> v_name c; if (n = ''none'') = free then Some i else scan_memory free cs (i + 1) }"

partial_function (option) find_start :: "var_cell list \<Rightarrow> nat \<Rightarrow> nat option \<Rightarrow> (nat \<times> nat option) option" where
  "find_start m i pStart =
     do { candidate \<leftarrow> scan_memory True (drop i m) i;
          let pStart = (if candidate < length m then Some candidate else pStart);
          i \<leftarrow> scan_memory False (drop candidate m) candidate;
          if i < length m then find_start m i pStart else Some (candidate, pStart) }"

primrec store_lines :: "string \<Rightarrow> nat list \<Rightarrow> string \<times> bool \<Rightarrow> var_cell list \<Rightarrow> bool \<times> int option \<times> var_cell list" where
  "store_lines filename [] f m = (snd f, None, m)"
| "store_lines filename (j # js) f m =
     (if snd f then (True, Some (int j - 1), m)
      else let (l, r, e) = read_line (SHELL_VARS + SHELL_FRAMES - 1) (fst f)
           in store_lines filename js (r, e)
                (if l = [] then m else m[j := \<lparr>v_name = Some filename, v_text = Some (c_str l)\<rparr>]))"

text \<open>The error code, the first and the last line, where they are set, and the store.\<close>

definition load_file :: "string \<Rightarrow> string \<Rightarrow> frame_store \<Rightarrow> (int \<times> nat option \<times> int option \<times> frame_store) option" where
  "load_file fp filename st =
     do { (i, pStart) \<leftarrow> find_start (shellmemory st) 101 None;
          if pStart = None then Some (21, None, None, st)
          else let (e, pEnd, m) = store_lines filename [i..<SHELL_VARS + SHELL_FRAMES] (fp, False) (shellmemory st)
               in if e then Some (0, pStart, pEnd, st\<lparr>shellmemory := m\<rparr>)
                  else Some (21, pStart, pEnd, st\<lparr>shellmemory := m[1 := none_cell]\<rparr>) }"

definition mem_get_value_at_line :: "int \<Rightarrow> frame_store \<Rightarrow> string option option" where
  "mem_get_value_at_line index st =
     (if index < 0 \<or> int (SHELL_VARS + SHELL_FRAMES) < index then Some None
      else if index = int (SHELL_VARS + SHELL_FRAMES) then None
      else Some (v_text (shellmemory st ! nat index)))"

definition mem_free_lines_between :: "nat \<Rightarrow> nat \<Rightarrow> frame_store \<Rightarrow> frame_store" where
  "mem_free_lines_between start end' st =
     st\<lparr>shellmemory := foldl (\<lambda>m i. m[i := none_cell]) (shellmemory st) [start..<min (end' + 1) (SHELL_VARS + SHELL_FRAMES)]\<rparr>"

section \<open>Least recently used\<close>

definition frames_ok :: "frame_store \<Rightarrow> bool" where
  "frames_ok st \<longleftrightarrow> length (shellframes st) = SHELL_FRAMES \<and>
     (\<forall>fr \<in> set (shellframes st). length (f_lines fr) = LINES_PER_FRAME \<and>
        (if f_empty fr then f_lru fr = - 1 else 0 \<le> f_lru fr \<and> f_lru fr < num_lru st)) \<and>
     0 \<le> num_lru st \<and> num_lru st < 2 ^ 31"

lemma frames_okD:
  assumes "frames_ok st" and "j < 23"
  shows "length (f_lines (shellframes st ! j)) = 3" "f_lru (shellframes st ! j) < num_lru st"
    "\<not> f_empty (shellframes st ! j) \<Longrightarrow> 0 \<le> f_lru (shellframes st ! j)" "shellframes st ! j \<in> set (shellframes st)"
    "num_lru st < 2147483648"
proof -
  have "shellframes st ! j \<in> set (shellframes st)" using assms by (simp add: frames_ok_def)
  then show "length (f_lines (shellframes st ! j)) = 3" "f_lru (shellframes st ! j) < num_lru st"
    "\<not> f_empty (shellframes st ! j) \<Longrightarrow> 0 \<le> f_lru (shellframes st ! j)" "shellframes st ! j \<in> set (shellframes st)"
    using assms(1) by (auto simp: frames_ok_def split: if_splits)
  show "num_lru st < 2147483648" using assms(1) by (simp add: frames_ok_def)
qed

lemma victim_loop_spec:
  assumes "\<forall>j \<in> set js. f_lru (shellframes st ! j) \<noteq> - 1"
  shows "snd (victim_loop st js acc) \<le> snd acc \<and> (\<forall>j \<in> set js. snd (victim_loop st js acc) \<le> f_lru (shellframes st ! j)) \<and>
    (victim_loop st js acc = acc \<or> (\<exists>i \<in> set js. victim_loop st js acc = (Some i, f_lru (shellframes st ! i))))"
  using assms
proof (induction js arbitrary: acc)
  case (Cons j js)
  let ?l = "f_lru (shellframes st ! j)"
  let ?acc = "if ?l < snd acc then (Some j, ?l) else acc"
  have "victim_loop st (j # js) acc = victim_loop st js ?acc" using Cons.prems by simp
  moreover have "snd ?acc \<le> snd acc" "snd ?acc \<le> ?l" by auto
  ultimately show ?case using Cons.IH [of ?acc] Cons.prems by (auto split: if_splits)
qed simp

lemma victim_frame_spec:
  assumes "frames_ok st" and "\<forall>fr \<in> set (shellframes st). \<not> f_empty fr"
  shows "\<exists>i < SHELL_FRAMES. victim_frame st = Some i \<and>
    (\<forall>j < SHELL_FRAMES. f_lru (shellframes st ! i) \<le> f_lru (shellframes st ! j))"
proof -
  have l: "length (shellframes st) = 23" using assms(1) by (simp add: frames_ok_def)
  have lru: "0 \<le> f_lru (shellframes st ! j) \<and> f_lru (shellframes st ! j) < 2147483647" if "j < 23" for j
    using frames_okD(2-5) [OF assms(1) that] assms(2) by auto
  let ?r = "victim_loop st [0..<23] (None, 2147483647)"
  have v: "\<forall>j < 23. snd ?r \<le> f_lru (shellframes st ! j)"
    "?r = (None, 2147483647) \<or> (\<exists>i < 23. ?r = (Some i, f_lru (shellframes st ! i)))"
    using victim_loop_spec [of "[0..<23]" st "(None, 2147483647)"] lru by force+
  have "?r \<noteq> (None, 2147483647)" using v(1) lru [of 0] by force
  with v(2) obtain i where i: "i < 23" "?r = (Some i, f_lru (shellframes st ! i))" by blast
  with v(1) show ?thesis by (auto simp: victim_frame_def l)
qed

lemma length_fill_frame: "fill_frame D js fp ls = Some (fp', ls') \<Longrightarrow> length ls' = length ls"
  by (induction js arbitrary: fp ls) (force split: bind_splits if_splits)+

lemma findEmptyFrame_spec:
  "findEmptyFrame st = - 1 \<and> (\<forall>fr \<in> set (shellframes st). \<not> f_empty fr) \<or>
   (\<exists>i < length (shellframes st). findEmptyFrame st = int i \<and> f_empty (shellframes st ! i) \<and>
      (\<forall>j < i. \<not> f_empty (shellframes st ! j)))"
proof (cases "List.find (\<lambda>i. f_empty (shellframes st ! i)) [0..<length (shellframes st)]")
  case None
  then have "findEmptyFrame st = - 1" by (simp add: findEmptyFrame_def)
  moreover have "\<forall>fr \<in> set (shellframes st). \<not> f_empty fr"
    using None by (auto simp: find_upt_None_iff in_set_conv_nth)
  ultimately show ?thesis by blast
next
  case (Some i)
  then have "findEmptyFrame st = int i" by (simp add: findEmptyFrame_def)
  moreover have "i < length (shellframes st)" "f_empty (shellframes st ! i)" "\<forall>j < i. \<not> f_empty (shellframes st ! j)"
    using Some by (auto simp: find_upt_Some_iff)
  ultimately show ?thesis by blast
qed

text \<open>
  C36: A page goes into the first empty frame; when there is none, into one that has not been used
  for the longest time, whose contents are printed. The page then is the one used last, the other
  frames keep their contents, and the times of last use stay consistent.
\<close>

theorem loadFrame_least_recently_used:
  assumes "frames_ok st" and "loadFrame D fp pid st = Some (i, fp', out, st')"
  shows "frames_ok st' \<and> i < SHELL_FRAMES \<and> f_pid (shellframes st' ! i) = pid \<and>
    (if \<exists>fr \<in> set (shellframes st). f_empty fr
     then f_empty (shellframes st ! i) \<and> (\<forall>j < i. \<not> f_empty (shellframes st ! j)) \<and> out = []
     else \<forall>j < SHELL_FRAMES. f_lru (shellframes st ! i) \<le> f_lru (shellframes st ! j)) \<and>
    (\<forall>j < SHELL_FRAMES. j \<noteq> i \<longrightarrow> shellframes st' ! j = shellframes st ! j \<and>
       f_lru (shellframes st' ! j) < f_lru (shellframes st' ! i))"
proof -
  let ?F = "shellframes st"
  have l: "length ?F = 23" using assms(1) by (simp add: frames_ok_def)
  obtain k where k: "(if findEmptyFrame st = - 1 then victim_frame st else Some (nat (findEmptyFrame st))) = Some k"
    using assms(2) by (auto simp: loadFrame_def Let_def split: bind_splits)
  from assms(2) k obtain ls where ls: "fill_frame D [0..<3] fp (f_lines (?F ! k)) = Some (fp', ls)" "i = k" "num_lru st \<noteq> 2 ^ 31 - 1"
    "out = (if findEmptyFrame st = - 1 then ''Page fault! Victim page contents:'' #
                List.map_filter id (f_lines (?F ! k)) @ [''End of victim page contents.''] else [])"
    "st' = st\<lparr>shellframes := ?F[k := \<lparr>f_lines = ls, f_pid = pid, f_lru = num_lru st, f_empty = False\<rparr>], num_lru := num_lru st + 1\<rparr>"
    by (auto simp: loadFrame_def Let_def simp del: upt.simps split: bind_splits if_splits)
  have choice: "i < 23 \<and> (if \<exists>fr \<in> set ?F. f_empty fr
     then f_empty (?F ! i) \<and> (\<forall>j < i. \<not> f_empty (?F ! j)) \<and> out = [] else \<forall>j < 23. f_lru (?F ! i) \<le> f_lru (?F ! j))"
    using findEmptyFrame_spec [of st]
  proof (elim disjE conjE exE)
    assume "findEmptyFrame st = - 1" "\<forall>fr \<in> set ?F. \<not> f_empty fr"
    then show ?thesis using victim_frame_spec [OF assms(1)] k ls(2) by auto
  next
    fix e assume "e < length ?F" "findEmptyFrame st = int e" "f_empty (?F ! e)" "\<forall>j < e. \<not> f_empty (?F ! j)"
    then show ?thesis using k ls(2,4) l nth_mem [of e ?F] by auto
  qed
  have fr: "length (f_lines (?F ! j)) = 3" "f_lru (?F ! j) < num_lru st" if "j < 23" for j
    using frames_okD(1,2) [OF assms(1) that] by simp_all
  have "length ls = 3" using length_fill_frame [OF ls(1)] fr(1) choice ls(2) by simp
  then have "frames_ok st'"
    using assms(1) ls(3) by (auto simp: frames_ok_def ls(5) dest!: set_update_subset_insert [THEN subsetD]) 
  with choice show ?thesis using fr(2) l unfolding ls(2) by (simp add: ls(5) nth_list_update)
qed

definition empty_store2 :: frame_store where
  "empty_store2 = init_store \<lparr>shellvars = [], shellframes = [], num_lru = 0, shellmemory = []\<rparr>"

lemma empty_store2_ok: "frames_ok empty_store2"
  by (simp add: frames_ok_def empty_store2_def init_store_def)

text \<open>A store without empty frames, of which frame 0 has not been used for the longest time.\<close>

definition full_store2 :: frame_store where
  "full_store2 = \<lparr>shellvars = [], shellframes = map (\<lambda>i. \<lparr>f_lines = [Some ''a'', None, None], f_pid = 1, f_lru = int i,
     f_empty = False\<rparr>) [0..<SHELL_FRAMES], num_lru = 23, shellmemory = []\<rparr>"

lemma full_store2_facts:
  "frames_ok full_store2" "\<forall>fr \<in> set (shellframes full_store2). \<not> f_empty fr" "num_lru full_store2 = 23"
  "j < 23 \<Longrightarrow> shellframes full_store2 ! j = \<lparr>f_lines = [Some ''a'', None, None], f_pid = 1, f_lru = int j, f_empty = False\<rparr>"
  by (simp_all add: frames_ok_def full_store2_def)

lemma fill_frame_ls: "fill_frame Some [0..<3] ''ls'' [x, None, None] = Some ([], [Some ''ls'', None, None])"
proof -
  have "[0..<3] = [0, 1, 2 :: nat]" by (simp add: upt_conv_Cons numeral_3_eq_3)
  then show ?thesis by (simp add: readNextCommand_def removeWhitespace_def c_str_def)
qed

text \<open>A page in the first empty frame, and one in the frame that is replaced.\<close>

theorem loadFrame_least_recently_used_witness:
  "(\<exists>st'. loadFrame Some ''ls'' 1 empty_store2 = Some (0, [], [], st') \<and> frames_ok st' \<and> f_pid (shellframes st' ! 0) = 1) \<and>
   (\<exists>out st'. loadFrame Some ''ls'' 2 full_store2 = Some (0, [], out, st') \<and> f_pid (shellframes st' ! 0) = 2 \<and>
      shellframes st' ! 22 = shellframes full_store2 ! 22 \<and> length out = 3)"
proof
  have "[0..<23] = 0 # [1..<23]" by (simp add: upt_conv_Cons)
  then have "findEmptyFrame empty_store2 = 0"
    by (simp add: findEmptyFrame_def empty_store2_def init_store_def)
  moreover have "shellframes empty_store2 ! 0 = \<lparr>f_lines = [None, None, None], f_pid = - 1, f_lru = - 1, f_empty = True\<rparr>"
    "num_lru empty_store2 = 0" by (simp_all add: empty_store2_def init_store_def numeral_3_eq_3)
  ultimately obtain st' where st': "loadFrame Some ''ls'' 1 empty_store2 = Some (0, [], [], st')"
    using fill_frame_ls [of None] by (simp add: loadFrame_def del: fill_frame.simps upt_rec_numeral)
  from loadFrame_least_recently_used [OF empty_store2_ok this] st'
  show "\<exists>st'. loadFrame Some ''ls'' 1 empty_store2 = Some (0, [], [], st') \<and> frames_ok st' \<and> f_pid (shellframes st' ! 0) = 1"
    by auto
next
  note full = full_store2_facts(1-3)
  have lru: "f_lru (shellframes full_store2 ! j) = int j" if "j < 23" for j using full_store2_facts(4) [OF that] by simp
  obtain i where i: "i < 23" "victim_frame full_store2 = Some i" using victim_frame_spec [OF full(1,2)] by blast
  have e: "findEmptyFrame full_store2 = - 1" using findEmptyFrame_spec [of full_store2] full(2) nth_mem by fastforce
  have ls: "f_lines (shellframes full_store2 ! i) = [Some ''a'', None, None]" using full_store2_facts(4) [OF i(1)] by simp
  obtain out st' where st': "loadFrame Some ''ls'' 2 full_store2 = Some (i, [], out, st')" "length out = 3"
    using fill_frame_ls [of "Some ''a''"] full(3) i(2)
    by (simp add: loadFrame_def e ls List.map_filter_simps del: fill_frame.simps upt_rec_numeral)
  note T = loadFrame_least_recently_used [OF full(1) st'(1)]
  have "f_lru (shellframes full_store2 ! i) \<le> f_lru (shellframes full_store2 ! 0)" using T full(2) by auto
  then have "i = 0" using lru [OF i(1)] lru [of 0] by simp
  with T st' show "\<exists>out st'. loadFrame Some ''ls'' 2 full_store2 = Some (0, [], out, st') \<and> f_pid (shellframes st' ! 0) = 2 \<and>
      shellframes st' ! 22 = shellframes full_store2 ! 22 \<and> length out = 3" by auto
qed

end
