(* ===== verification/Second_Shell.thy ===== *)
theory Second_Shell
  imports Frame_Store
begin

text \<open>
  The kernel, the interpreter and the parser of the second assignment (\<^verbatim>\<open>src/a2/kernel.c\<close>,
  \<^verbatim>\<open>src/a2/interpreter.c\<close>, \<^verbatim>\<open>src/a2/shell.c\<close>). The scheduler is a function of the parser, which calls it
  back; \<open>parse_line\<close> ties the knot. Fuel bounds the loops of the schedulers and of the parser, and
  the nesting of scripts.
\<close>

section \<open>State and environment\<close>

record shell2 =
  store :: frame_store
  queue :: ready_queue
  next_node :: nat
  pid_counter :: int
  in_background :: bool
  host2 :: "string \<Rightarrow> string option"
  printed :: "string list"

type_synonym parser2 = "string \<Rightarrow> shell2 \<Rightarrow> (int \<times> shell2) outcome"

text \<open>
  What the host does with \<open>system\<close> and \<open>chdir\<close> and their results, which names are directories, the
  bound for loops, what a function that ends without \<open>return\<close> is taken to return, and what is found in
  the local array that \<open>removeWhitespace\<close> leaves.
\<close>

record env2 =
  e_system :: "string \<Rightarrow> (string \<Rightarrow> string option) \<Rightarrow> int \<times> (string \<Rightarrow> string option)"
  e_chdir :: "string \<Rightarrow> (string \<Rightarrow> string option) \<Rightarrow> int \<times> (string \<Rightarrow> string option)"
  e_is_dir :: "string \<Rightarrow> (string \<Rightarrow> string option) \<Rightarrow> bool"
  e_rounds :: nat
  e_no_return :: int
  e_dead_array :: dead_array

definition say :: "string \<Rightarrow> shell2 \<Rightarrow> shell2" where
  "say t s = s\<lparr>printed := printed s @ [t]\<rparr>"

definition call_system :: "env2 \<Rightarrow> string \<Rightarrow> shell2 \<Rightarrow> int \<times> shell2" where
  "call_system E cmd s = (let (r, h) = e_system E cmd (host2 s) in (r, s\<lparr>host2 := h\<rparr>))"

definition node_task :: "nat \<Rightarrow> shell2 \<Rightarrow> task option" where
  "node_task p s = map_option q_task (q_nodes (queue s) p)"

definition put_task :: "nat \<Rightarrow> task \<Rightarrow> shell2 \<Rightarrow> shell2 option" where
  "put_task p t s =
     map_option (\<lambda>n. s\<lparr>queue := (queue s)\<lparr>q_nodes := (q_nodes (queue s))(p \<mapsto> n\<lparr>q_task := t\<rparr>)\<rparr>\<rparr>) (q_nodes (queue s) p)"

section \<open>Creating processes\<close>

definition generatePID :: "shell2 \<Rightarrow> int \<times> shell2" where
  "generatePID s = (pid_counter s, s\<lparr>pid_counter := pid_counter s + 1\<rparr>)"

function count_commands :: "string \<Rightarrow> nat option" where
  "count_commands s =
     (case readNextCommand s of
        None \<Rightarrow> None
      | Some (ok, line, rest) \<Rightarrow> if ok then map_option Suc (count_commands rest) else Some 0)"
  by pat_completeness auto
termination
proof (relation "measure length")
  fix s x ok y line rest
  assume "readNextCommand s = Some x" "(ok, y) = x" "(line, rest) = y" ok
  then have r: "rest = drop 1 (drop (length line) s)" and "line \<noteq> [] \<or> take 1 (drop (length line) s) = [newline]"
    by (auto simp: readNextCommand_def Let_def split: if_splits)
  then have "s \<noteq> []" by (auto simp: \<open>readNextCommand s = Some x\<close>)
    (use \<open>readNextCommand s = Some x\<close> \<open>(ok, y) = x\<close> \<open>(line, rest) = y\<close> in \<open>auto simp: readNextCommand_def Let_def split: if_splits\<close>)
  then show "(rest, s) \<in> measure length" by (simp add: r)
qed simp

declare count_commands.simps [simp del]

definition copy_script_to_backing_store :: "env2 \<Rightarrow> string \<Rightarrow> int \<Rightarrow> shell2 \<Rightarrow> (int \<times> shell2) outcome" where
  "copy_script_to_backing_store E filename i s =
     (let command = ''cp '' @ filename @ '' backing_store/'' @ filename @ ''.'' @ decimal_int i
      in if 1000 \<le> length command then Undefined else Returns (call_system E command s))"

text \<open>
  The first two pages. \<open>loadFrame\<close> never returns -1, so the error of \<^verbatim>\<open>process_initialize\<close> for that case
  has no branch here. The open file of a process is the text that the file had when it was opened.
\<close>

primrec load_pages :: "dead_array \<Rightarrow> int \<Rightarrow> nat list \<Rightarrow> task \<Rightarrow> shell2 \<Rightarrow> (task \<times> shell2) option" where
  "load_pages D pid [] t s = Some (t, s)"
| "load_pages D pid (i # is) t s =
     (if LINES_PER_FRAME * i < number_of_commands t then do {
        (frame, fp, out, st) \<leftarrow> loadFrame D (snd (task_file t)) pid (store s);
        load_pages D pid is
          (setFrame (int i) (int frame) (t\<lparr>task_file := (fst (task_file t), fp), current_command := 0\<rparr>))
          (s\<lparr>store := st, printed := printed s @ out\<rparr>) }
      else Some (t, s))"

definition process_initialize :: "env2 \<Rightarrow> string \<Rightarrow> int \<Rightarrow> shell2 \<Rightarrow> (int \<times> shell2) outcome" where
  "process_initialize E filename i s =
     (case host2 s filename of
        None \<Rightarrow> Returns (11, s)
      | Some script \<Rightarrow>
          and_then (defined (count_commands script)) (\<lambda>num_commands.
          and_then (copy_script_to_backing_store E filename i s) (\<lambda>(error_code, s).
          if error_code \<noteq> 0 then Returns (error_code, s)
          else let new_filename = ''backing_store/'' @ filename @ ''.'' @ decimal_int i
          in case host2 s new_filename of
               None \<Rightarrow> Returns (11, s)
             | Some copy \<Rightarrow>
                 let (pid, s) = generatePID s
                 in and_then (defined (load_pages (e_dead_array E) i [0, 1] (makePCB copy num_commands pid) s)) (\<lambda>(t, s).
                    let p = next_node s;
                        q = (queue s)\<lparr>q_nodes := (q_nodes (queue s))(p \<mapsto> \<lparr>q_task = t, q_next = None\<rparr>)\<rparr>
                    in and_then (defined (ready_queue_add_to_tail p q))
                         (\<lambda>q. Returns (0, s\<lparr>queue := q, next_node := p + 1\<rparr>))))))"

section \<open>Executing a process\<close>

definition terminate_process :: "nat \<Rightarrow> shell2 \<Rightarrow> shell2" where
  "terminate_process p s = s\<lparr>queue := free_node p (queue s)\<rparr>"

primrec skip_lines :: "nat \<Rightarrow> string \<Rightarrow> string option" where
  "skip_lines 0 fp = Some fp"
| "skip_lines (Suc n) fp = do { (ok, line, fp) \<leftarrow> readNextCommand fp; skip_lines n fp }"

text \<open>Rewinding the file, skipping the lines executed so far, and loading the next ones.\<close>

definition reload_page :: "dead_array \<Rightarrow> nat \<Rightarrow> nat \<Rightarrow> task \<Rightarrow> shell2 \<Rightarrow> shell2 option" where
  "reload_page D p pageIndex t s =
     do { fp \<leftarrow> skip_lines (current_command t) (fst (task_file t));
          (frame, fp, out, st) \<leftarrow> loadFrame D fp (task_pid t) (store s);
          put_task p (setFrame (int pageIndex) (int frame) (t\<lparr>task_file := (fst (task_file t), fp)\<rparr>))
            (s\<lparr>store := st, printed := printed s @ out\<rparr>) }"

text \<open>The line at the program counter; \<open>None\<close> for a page fault.\<close>

definition fetch_line :: "task \<Rightarrow> shell2 \<Rightarrow> (string option \<times> shell2) option" where
  "fetch_line t s =
     do { let pageIndex = PC t div LINES_PER_FRAME;
          if 100 \<le> pageIndex then None
          else do {
            let frameIndex = task_table t ! pageIndex;
            let lineIndex = int (PC t mod LINES_PER_FRAME);
            if frameIndex = - 1 then Some (None, s)
            else do {
              (line, st) \<leftarrow> getLineFromFrameStore (task_pid t) frameIndex lineIndex (store s);
              if line = None then Some (None, s\<lparr>store := st\<rparr>)
              else do { (line, st) \<leftarrow> getLineFromFrameStore (task_pid t) frameIndex lineIndex st;
                        Some (line, s\<lparr>store := st\<rparr>) } } } }"

text \<open>The loop over the lines of a turn; the result says whether the process is finished.\<close>

primrec execute_lines :: "dead_array \<Rightarrow> parser2 \<Rightarrow> nat \<Rightarrow> nat \<Rightarrow> int \<Rightarrow> shell2 \<Rightarrow> (bool \<times> shell2) outcome" where
  "execute_lines D P p 0 quanta s = Unfinished"
| "execute_lines D P p (Suc k) quanta s =
     (if quanta \<le> 0 then Returns (False, s)
      else and_then (defined (node_task p s)) (\<lambda>t.
           and_then (defined (fetch_line t s)) (\<lambda>(line, s).
           case line of
             None \<Rightarrow> and_then (defined (reload_page D p (PC t div LINES_PER_FRAME) t s)) (\<lambda>s. Returns (False, s))
           | Some l \<Rightarrow>
               and_then (defined (put_task p
                   (t\<lparr>PC := PC t + 1, current_command := current_command t + 1, priority := False\<rparr>)
                   (s\<lparr>in_background := True\<rparr>))) (\<lambda>s.
               and_then (P l s) (\<lambda>(_, s).
               let s = s\<lparr>in_background := False\<rparr>
               in and_then (defined (node_task p s)) (\<lambda>t.
                  if PC t = number_of_commands t then Returns (True, terminate_process p s)
                  else execute_lines D P p k (quanta - 1) s))))))"

definition execute_process :: "dead_array \<Rightarrow> parser2 \<Rightarrow> nat \<Rightarrow> nat \<Rightarrow> int \<Rightarrow> shell2 \<Rightarrow> (bool \<times> shell2) outcome" where
  "execute_process D P fuel p quanta s =
     and_then (defined (node_task p s)) (\<lambda>t.
       if PC t = number_of_commands t then Returns (True, (terminate_process p s)\<lparr>in_background := False\<rparr>)
       else execute_lines D P p fuel quanta s)"

section \<open>Schedulers\<close>

definition on_queue :: "(ready_queue \<Rightarrow> ready_queue option) \<Rightarrow> shell2 \<Rightarrow> shell2 option" where
  "on_queue f s = map_option (\<lambda>q. s\<lparr>queue := q\<rparr>) (f (queue s))"

definition take_from_queue :: "(ready_queue \<Rightarrow> (nat option \<times> ready_queue) option) \<Rightarrow> shell2 \<Rightarrow> (nat \<times> shell2) option" where
  "take_from_queue f s = do { (p, q) \<leftarrow> f (queue s); p \<leftarrow> p; Some (p, s\<lparr>queue := q\<rparr>) }"

text \<open>With an argument for the quantum, the first come first served policy is round robin.\<close>

primrec scheduler_RR :: "dead_array \<Rightarrow> parser2 \<Rightarrow> nat \<Rightarrow> int \<Rightarrow> nat \<Rightarrow> shell2 \<Rightarrow> shell2 outcome" where
  "scheduler_RR D P rounds quanta 0 s = Unfinished"
| "scheduler_RR D P rounds quanta (Suc k) s =
     (if is_ready_empty (queue s) then Returns s
      else and_then (defined (take_from_queue ready_queue_pop_head s)) (\<lambda>(p, s).
           and_then (execute_process D P rounds p quanta s) (\<lambda>(fin, s).
           and_then (if fin then Returns s else defined (on_queue (ready_queue_add_to_tail p) s))
             (\<lambda>s. scheduler_RR D P rounds quanta k s))))"

definition scheduler_FCFS :: "dead_array \<Rightarrow> parser2 \<Rightarrow> nat \<Rightarrow> nat \<Rightarrow> shell2 \<Rightarrow> shell2 outcome" where
  "scheduler_FCFS D P rounds = scheduler_RR D P rounds MAX_INT"

text \<open>A process that is not finished is not put back.\<close>

primrec scheduler_SJF :: "dead_array \<Rightarrow> parser2 \<Rightarrow> nat \<Rightarrow> nat \<Rightarrow> shell2 \<Rightarrow> shell2 outcome" where
  "scheduler_SJF D P rounds 0 s = Unfinished"
| "scheduler_SJF D P rounds (Suc k) s =
     (if is_ready_empty (queue s) then Returns s
      else and_then (defined (take_from_queue ready_queue_pop_shortest_job s)) (\<lambda>(p, s).
           and_then (execute_process D P rounds p MAX_INT s) (\<lambda>(fin, s). scheduler_SJF D P rounds k s)))"

primrec scheduler_AGING_alternative :: "dead_array \<Rightarrow> parser2 \<Rightarrow> nat \<Rightarrow> nat \<Rightarrow> shell2 \<Rightarrow> shell2 outcome" where
  "scheduler_AGING_alternative D P rounds 0 s = Unfinished"
| "scheduler_AGING_alternative D P rounds (Suc k) s =
     (if is_ready_empty (queue s) then Returns s
      else and_then (defined (take_from_queue ready_queue_pop_shortest_job s)) (\<lambda>(p, s).
           and_then (defined (on_queue ready_queue_decrement_job_length_score s)) (\<lambda>s.
           and_then (execute_process D P rounds p 1 s) (\<lambda>(fin, s).
           and_then (if fin then Returns s else defined (on_queue (ready_queue_add_to_head p) s))
             (\<lambda>s. scheduler_AGING_alternative D P rounds k s)))))"

text \<open>A job that is shorter than the one in hand is moved to the front and taken instead.\<close>

definition promote_shortest :: "nat \<Rightarrow> shell2 \<Rightarrow> (nat \<times> shell2) option" where
  "promote_shortest p s =
     do { shortest \<leftarrow> ready_queue_get_shortest_job_score (queue s);
          t \<leftarrow> node_task p s;
          if shortest < job_length_score t then do {
            s \<leftarrow> on_queue (ready_queue_promote shortest) s;
            s \<leftarrow> on_queue (ready_queue_add_to_tail p) s;
            take_from_queue ready_queue_pop_head s }
          else Some (p, s) }"

primrec aging_loop :: "dead_array \<Rightarrow> parser2 \<Rightarrow> nat \<Rightarrow> nat \<Rightarrow> shell2 \<Rightarrow> shell2 outcome" where
  "aging_loop D P rounds 0 s = Unfinished"
| "aging_loop D P rounds (Suc k) s =
     (if is_ready_empty (queue s) then Returns s
      else and_then (defined (do { (p, s) \<leftarrow> take_from_queue ready_queue_pop_head s;
                                   (p, s) \<leftarrow> promote_shortest p s;
                                   s \<leftarrow> on_queue ready_queue_decrement_job_length_score s;
                                   Some (p, s) })) (\<lambda>(p, s).
           and_then (execute_process D P rounds p 1 s) (\<lambda>(fin, s).
           and_then (if fin then Returns s else defined (on_queue (ready_queue_add_to_head p) s))
             (\<lambda>s. aging_loop D P rounds k s))))"

definition scheduler_AGING :: "dead_array \<Rightarrow> parser2 \<Rightarrow> nat \<Rightarrow> nat \<Rightarrow> shell2 \<Rightarrow> shell2 outcome" where
  "scheduler_AGING D P rounds k s = and_then (defined (on_queue sort_ready_queue s)) (aging_loop D P rounds k)"

definition schedule_by_policy :: "env2 \<Rightarrow> parser2 \<Rightarrow> string \<Rightarrow> shell2 \<Rightarrow> (int \<times> shell2) outcome" where
  "schedule_by_policy E P policy s =
     (if policy \<notin> {''FCFS'', ''SJF'', ''RR'', ''AGING'', ''RR30''} then Returns (5, s)
      else if in_background s then Returns (0, s)
      else let n = e_rounds E
           in and_then
                (if policy = ''FCFS'' then scheduler_FCFS (e_dead_array E) P n n s
                 else if policy = ''SJF'' then scheduler_SJF (e_dead_array E) P n n s
                 else if policy = ''RR'' then scheduler_RR (e_dead_array E) P n 2 n s
                 else if policy = ''AGING'' then scheduler_AGING (e_dead_array E) P n n s
                 else scheduler_RR (e_dead_array E) P n 30 n s)
                (\<lambda>s. Returns (0, s)))"

section \<open>Commands\<close>

datatype error2 =
    NO_ERROR | FILE_DOES_NOT_EXIST2 | FILE_ERROR | NO_MEM_SPACE2 | READY_QUEUE_FULL2 | SCHEDULING_ERROR2
  | TOO_MANY_TOKENS2 | TOO_FEW_TOKENS2 | NON_ALPHANUMERIC_TOKEN2 | BAD_COMMAND2 | ERROR_CD | ERROR_MKDIR | ERROR_LOADFRAME

primrec error2_code :: "error2 \<Rightarrow> int" where
  "error2_code NO_ERROR = 0"
| "error2_code FILE_DOES_NOT_EXIST2 = 1"
| "error2_code FILE_ERROR = 2"
| "error2_code NO_MEM_SPACE2 = 3"
| "error2_code READY_QUEUE_FULL2 = 4"
| "error2_code SCHEDULING_ERROR2 = 5"
| "error2_code TOO_MANY_TOKENS2 = 6"
| "error2_code TOO_FEW_TOKENS2 = 7"
| "error2_code NON_ALPHANUMERIC_TOKEN2 = 8"
| "error2_code BAD_COMMAND2 = 9"
| "error2_code ERROR_CD = 10"
| "error2_code ERROR_MKDIR = 11"
| "error2_code ERROR_LOADFRAME = 12"

definition error2_msgs :: "string list" where
  "error2_msgs =
     [''no error'', ''file does not exist'', ''file could not be loaded'', ''no space left in shell memory'',
      ''ready queue is full'', ''scheduling policy error'', ''too many tokens'', ''too few tokens'',
      ''non-alphanumeric token'', ''unknown name'', ''cd'', ''mkdir'', ''load frame error'']"

definition handle_error2 :: "int \<Rightarrow> shell2 \<Rightarrow> (int \<times> shell2) outcome" where
  "handle_error2 code s =
     (if 0 \<le> code \<and> code < int (length error2_msgs)
      then Returns (code, say (''Bad command: '' @ error2_msgs ! nat code @ [newline]) s) else Undefined)"

definition fail2 :: "error2 \<Rightarrow> shell2 \<Rightarrow> (int \<times> shell2) outcome" where
  "fail2 e = handle_error2 (error2_code e)"

text \<open>The assignment is spelt out in an array of 1000 bytes first.\<close>

definition set_a2 :: "string \<Rightarrow> string \<Rightarrow> shell2 \<Rightarrow> (int \<times> shell2) outcome" where
  "set_a2 v x s =
     (if 1000 \<le> length v + 1 + length x then Undefined
      else Returns (0, s\<lparr>store := set_variable v x (store s)\<rparr>))"

definition print_a2 :: "string \<Rightarrow> shell2 \<Rightarrow> (int \<times> shell2) outcome" where
  "print_a2 v s =
     and_then (defined (get_variable v (shellvars (store s))))
       (\<lambda>r. Returns (0, say ((case r of None \<Rightarrow> [newline] | Some x \<Rightarrow> x) @ [newline]) s))"

definition echo_a2 :: "string \<Rightarrow> shell2 \<Rightarrow> (int \<times> shell2) outcome" where
  "echo_a2 v s = (if take 1 v = ''$'' then print_a2 (drop 1 v) s else Returns (0, say (v @ [newline]) s))"

definition my_mkdir_a2 :: "env2 \<Rightarrow> string \<Rightarrow> shell2 \<Rightarrow> (int \<times> shell2) outcome" where
  "my_mkdir_a2 E dirname s =
     (if take 1 dirname = ''$'' then
        and_then (defined (get_variable (drop 1 dirname) (shellvars (store s))))
          (\<lambda>r. case r of
             None \<Rightarrow> fail2 ERROR_MKDIR s
           | Some x \<Rightarrow> if CHR '' '' \<in> set x then fail2 ERROR_MKDIR s else Returns (call_system E (''mkdir '' @ x) s))
      else Returns (call_system E (''mkdir '' @ dirname) s))"

definition my_touch_a2 :: "env2 \<Rightarrow> string \<Rightarrow> shell2 \<Rightarrow> (int \<times> shell2) outcome" where
  "my_touch_a2 E filename s = Returns (call_system E (''touch '' @ filename) s)"

definition my_ls_a2 :: "env2 \<Rightarrow> shell2 \<Rightarrow> (int \<times> shell2) outcome" where
  "my_ls_a2 E s = Returns (call_system E ''ls | sort'' s)"

definition my_cd_a2 :: "env2 \<Rightarrow> string \<Rightarrow> shell2 \<Rightarrow> (int \<times> shell2) outcome" where
  "my_cd_a2 E dirname s =
     (if e_is_dir E dirname (host2 s)
      then let (r, h) = e_chdir E dirname (host2 s) in Returns (r, s\<lparr>host2 := h\<rparr>)
      else fail2 ERROR_CD s)"

definition run_a2 :: "env2 \<Rightarrow> parser2 \<Rightarrow> string \<Rightarrow> shell2 \<Rightarrow> (int \<times> shell2) outcome" where
  "run_a2 E P script s =
     and_then (process_initialize E script 1 s) (\<lambda>(errCode, s).
       if errCode = 11 then handle_error2 errCode s
       else and_then (schedule_by_policy E P ''FCFS'' s) (\<lambda>(_, s). Returns (errCode, s)))"

primrec start_all :: "env2 \<Rightarrow> (int \<times> string) list \<Rightarrow> shell2 \<Rightarrow> (int \<times> shell2) outcome" where
  "start_all E [] s = Returns (0, s)"
| "start_all E (x # xs) s =
     and_then (process_initialize E (snd x) (fst x) s) (\<lambda>(e, s). if e \<noteq> 0 then Returns (e, s) else start_all E xs s)"

text \<open>Without an error, \<open>exec\<close> ends without a result.\<close>

definition exec_a2 :: "env2 \<Rightarrow> parser2 \<Rightarrow> string list \<Rightarrow> shell2 \<Rightarrow> (int \<times> shell2) outcome" where
  "exec_a2 E P scripts s =
     and_then (start_all E (zip [1, 2, 3] scripts) s) (\<lambda>(e, s).
       if e \<noteq> 0 then handle_error2 e s
       else and_then (schedule_by_policy E P ''RR'' s) (\<lambda>(e, s).
         if e \<noteq> 0 then handle_error2 e s else Returns (e_no_return E, s)))"

definition help_a2 :: "shell2 \<Rightarrow> (int \<times> shell2) outcome" where
  "help_a2 s = Returns (0, say ''help'' s)"

definition quit_a2 :: "shell2 \<Rightarrow> (int \<times> shell2) outcome" where
  "quit_a2 s = and_then (defined (ready_queue_destroy (queue s))) (\<lambda>_. Exits 0)"

section \<open>The interpreter\<close>

text \<open>
  The array of words is longer than the words of the command: behind them are words of earlier
  commands of the line, which a command without an argument gets; there is \<open>None\<close> behind all words.
\<close>

definition MAX_ARGS_SIZE :: nat where
  "MAX_ARGS_SIZE = 7"

definition strip_args :: "nat \<Rightarrow> string list \<Rightarrow> string list" where
  "strip_args n words = (if n < 1 \<or> MAX_ARGS_SIZE < n then words else map strip (take n words) @ drop n words)"

definition second_word :: "string list \<Rightarrow> string outcome" where
  "second_word words = (if length words < 2 then Undefined else Returns (words ! 1))"

definition interpreter_a2 :: "env2 \<Rightarrow> parser2 \<Rightarrow> string list \<Rightarrow> nat \<Rightarrow> shell2 \<Rightarrow> (int \<times> shell2) outcome" where
  "interpreter_a2 E P words n s =
     (if n < 1 then fail2 TOO_FEW_TOKENS2 s
      else if MAX_ARGS_SIZE < n then fail2 TOO_MANY_TOKENS2 s
      else let words = strip_args n words; name = words ! 0
      in if name = ''help'' then (if 1 < n then fail2 TOO_MANY_TOKENS2 s else help_a2 s)
         else if name = ''quit'' \<or> name = ''exit'' then (if 1 < n then fail2 TOO_MANY_TOKENS2 s else quit_a2 s)
         else if name = ''set'' then
           (if n < 3 then fail2 TOO_FEW_TOKENS2 s
            else set_a2 (words ! 1) (concat (map (\<lambda>i. words ! i @ (if i < n - 1 then '' '' else [])) [2..<n])) s)
         else if name = ''print'' then
           (if n < 2 then fail2 TOO_FEW_TOKENS2 s else if 2 < n then fail2 TOO_MANY_TOKENS2 s
            else print_a2 (words ! 1) s)
         else if name = ''run'' then
           (if n < 2 then fail2 TOO_FEW_TOKENS2 s else if 2 < n then fail2 TOO_MANY_TOKENS2 s
            else run_a2 E P (words ! 1) s)
         else if name = ''echo'' then
           (if 2 < n then fail2 TOO_MANY_TOKENS2 s else and_then (second_word words) (\<lambda>w. echo_a2 w s))
         else if name = ''my_ls'' then (if 1 < n then fail2 TOO_MANY_TOKENS2 s else my_ls_a2 E s)
         else if name = ''my_mkdir'' then
           (if 2 < n then fail2 TOO_MANY_TOKENS2 s else and_then (second_word words) (\<lambda>w. my_mkdir_a2 E w s))
         else if name = ''my_touch'' then
           (if 2 < n then fail2 TOO_MANY_TOKENS2 s else and_then (second_word words) (\<lambda>w. my_touch_a2 E w s))
         else if name = ''my_cd'' then
           (if 2 < n then fail2 TOO_MANY_TOKENS2 s else and_then (second_word words) (\<lambda>w. my_cd_a2 E w s))
         else if name = ''resetmem'' then
           (if 1 < n then fail2 TOO_MANY_TOKENS2 s else Returns (0, s\<lparr>store := resetmem (store s)\<rparr>))
         else if name = ''exec'' then
           (if n \<le> 1 then fail2 TOO_FEW_TOKENS2 s
            else if 5 < n then fail2 TOO_MANY_TOKENS2 s
            else if n = 5 then fail2 BAD_COMMAND2 s
            else exec_a2 E P (drop 1 (take n words)) s)
         else fail2 BAD_COMMAND2 s)"

section \<open>Parsing\<close>

text \<open>
  One round a word. A word has at most 199 characters; an empty word before a semicolon makes the
  loop stand still.
\<close>

primrec words_loop :: "env2 \<Rightarrow> parser2 \<Rightarrow> nat \<Rightarrow> string \<Rightarrow> nat \<Rightarrow> string list \<Rightarrow> shell2 \<Rightarrow> (int \<times> shell2) outcome" where
  "words_loop E P 0 ui w words s = Unfinished"
| "words_loop E P (Suc k) ui w words s =
     (let r = dropWhile (\<lambda>c. c = CHR '' '') ui;
          stop = (\<lambda>c. c = CHR '';'' \<or> c = newline \<or> c = CHR '' '');
          word = takeWhile (\<lambda>c. \<not> stop c) r; rest = dropWhile (\<lambda>c. \<not> stop c) r
      in if ui = [] \<or> take 1 ui = [newline] \<or> r = [] then interpreter_a2 E P words w s
         else if 200 \<le> length word then Undefined
         else if word = [] then words_loop E P k rest w words s
         else if 100 \<le> w then Undefined
         else let words = take w words @ [word] @ drop (w + 1) words
              in if take 1 rest = '';'' then
                   and_then (interpreter_a2 E P words (w + 1) s) (\<lambda>(ret, s).
                     if ret = - 1 then Returns (ret, s)
                     else words_loop E P k (dropWhile (\<lambda>c. c = CHR '' '') (drop 1 rest)) 0 (strip_args (w + 1) words) s)
                 else words_loop E P k (drop 1 rest) (w + 1) words s)"

primrec parse_line :: "env2 \<Rightarrow> nat \<Rightarrow> parser2" where
  "parse_line E 0 ui s = Unfinished"
| "parse_line E (Suc fuel) ui s =
     words_loop E (parse_line E fuel) (e_rounds E) (dropWhile (\<lambda>c. c = CHR '' '') (c_str ui)) 0 [] s"

section \<open>The main program\<close>

definition boot_a2 :: "env2 \<Rightarrow> (string \<Rightarrow> string option) \<Rightarrow> shell2" where
  "boot_a2 E h =
     (let h = snd (e_system E ''mkdir backing_store'' (snd (e_system E ''rm -rf backing_store'' h)))
      in \<lparr>store = init_store \<lparr>shellvars = [], shellframes = [], num_lru = 0,
            shellmemory = replicate (SHELL_VARS + SHELL_FRAMES) null_cell\<rparr>,
          queue = \<lparr>q_head = None, q_nodes = Map.empty\<rparr>, next_node = 0, pid_counter = 1, in_background = False,
          host2 = h, printed = [''Shell v2.0'', ''Frame Store Size = 69; Variable Store Size = 100'']\<rparr>)"

primrec input_loop :: "env2 \<Rightarrow> nat \<Rightarrow> string list \<Rightarrow> shell2 \<Rightarrow> shell2 outcome" where
  "input_loop E fuel [] s = Returns s"
| "input_loop E fuel (line # lines) s =
     (if c_str line = [] then input_loop E fuel lines s
      else and_then (parse_line E fuel line s) (\<lambda>(code, s). if code = - 1 then Exits 99 else input_loop E fuel lines s))"

definition main_a2 :: "env2 \<Rightarrow> nat \<Rightarrow> string list \<Rightarrow> (string \<Rightarrow> string option) \<Rightarrow> shell2 outcome" where
  "main_a2 E fuel lines h = input_loop E fuel lines (boot_a2 E h)"

end
