(* ===== verification/Second_Run.thy ===== *)
theory Second_Run
  imports Second_Shell
begin

text \<open>
  Running a script in the shell of the second assignment: through the backing store, the frames and
  the first come first served scheduler its lines are executed in order. The parser is a parameter
  here, of which it is only assumed that the lines change variables, the host and the output.
\<close>

declare upt_rec_numeral [simp del]

section \<open>Scripts\<close>

text \<open>The text of a script, every line with its newline.\<close>

definition text2 :: "string list \<Rightarrow> string" where
  "text2 ls = concat (map (\<lambda>l. l @ [newline]) ls)"

text \<open>The lines of a script survive in the array that \<open>removeWhitespace\<close> leaves.\<close>

definition intact :: "dead_array \<Rightarrow> string list \<Rightarrow> bool" where
  "intact D ls \<longleftrightarrow> (\<forall>l \<in> set ls. D l = Some l)"

definition line2_ok :: "string \<Rightarrow> bool" where
  "line2_ok l \<longleftrightarrow> l \<noteq> [] \<and> length l < 1000 \<and> newline \<notin> set l \<and> CHR 0xFF \<notin> set l \<and> CHR 0x00 \<notin> set l \<and>
     hd l \<noteq> CHR '' '' \<and> hd l \<noteq> CHR 0x09"

lemma text2_simps [simp]: "text2 [] = []" "text2 (l # ls) = l @ newline # text2 ls"
  by (simp_all add: text2_def)

lemma readNextCommand_line:
  assumes "line2_ok l"
  shows "readNextCommand (l @ newline # r) = Some (True, l, r)"
proof -
  have "takeWhile (\<lambda>c. c \<noteq> newline \<and> c \<noteq> CHR 0xFF) (l @ newline # r) = l"
    using assms by (subst takeWhile_append2) (auto simp: line2_ok_def)
  then show ?thesis using assms by (simp add: readNextCommand_def line2_ok_def)
qed

lemma readNextCommand_end: "readNextCommand [] = Some (False, [], [])"
  by (simp add: readNextCommand_def)

lemma removeWhitespace_line:
  assumes "line2_ok l"
  shows "removeWhitespace D l = D l"
proof -
  have "c_str l = l" unfolding c_str_def using assms by (intro takeWhile_eq_all_conv [THEN iffD2]) (auto simp: line2_ok_def)
  moreover have "hd l \<noteq> newline" using assms by (cases l) (auto simp: line2_ok_def)
  ultimately show ?thesis using assms by (cases l) (auto simp: removeWhitespace_def line2_ok_def)
qed

lemma count_commands_text2: "\<forall>l \<in> set ls. line2_ok l \<Longrightarrow> count_commands (text2 ls) = Some (length ls)"
proof (induction ls)
  case Nil
  then show ?case by (subst count_commands.simps) (simp add: readNextCommand_end)
next
  case (Cons l ls)
  then show ?case by (subst count_commands.simps) (simp add: readNextCommand_line)
qed

lemma skip_lines_text2: "\<forall>l \<in> set ls. line2_ok l \<Longrightarrow> k \<le> length ls \<Longrightarrow> skip_lines k (text2 ls) = Some (text2 (drop k ls))"
proof (induction k arbitrary: ls)
  case (Suc k)
  then obtain l ls' where "ls = l # ls'" by (cases ls) auto
  with Suc show ?case by (simp add: readNextCommand_line)
qed simp

lemma intact_drop: "intact D ls \<Longrightarrow> intact D (drop i ls)"
  by (auto simp: intact_def dest: in_set_dropD)

lemma fill_frame_text2:
  assumes "\<forall>l \<in> set ls. line2_ok l" and "length fr = 3" and D: "intact D ls"
  shows "\<exists>fr'. fill_frame D [0..<3] (text2 ls) fr = Some (text2 (drop 3 ls), fr') \<and> length fr' = 3 \<and>
    (\<forall>c < 3. c < length ls \<longrightarrow> fr' ! c = Some (ls ! c))"
proof -
  have step: "fill_frame D (i # is) (text2 xs) f =
      fill_frame D is (text2 (drop 1 xs)) (if xs = [] then f else f[i := Some (hd xs)])"
    if "\<forall>l \<in> set xs. line2_ok l" "intact D xs" for i "is" xs f
    using that by (cases xs) (simp_all add: readNextCommand_end readNextCommand_line removeWhitespace_line intact_def)
  have upt: "[0..<3] = [0, 1, 2 :: nat]" by (simp add: upt_rec)
  have ok: "\<forall>l \<in> set (drop i ls). line2_ok l" for i using assms(1) by (auto dest: in_set_dropD)
  have int: "intact D (drop i ls)" for i using intact_drop [OF D] .
  let ?f1 = "if ls = [] then fr else fr[0 := Some (hd ls)]"
  let ?f2 = "if drop 1 ls = [] then ?f1 else ?f1[1 := Some (hd (drop 1 ls))]"
  let ?f3 = "if drop 2 ls = [] then ?f2 else ?f2[2 := Some (hd (drop 2 ls))]"
  have "fill_frame D [0..<3] (text2 ls) fr = Some (text2 (drop 3 ls), ?f3)"
  proof -
    have "fill_frame D [0, 1, 2] (text2 ls) fr = fill_frame D [1, 2] (text2 (drop 1 ls)) ?f1"
      by (rule step [OF assms(1) D])
    also have "\<dots> = fill_frame D [2] (text2 (drop 1 (drop 1 ls))) ?f2" by (rule step [OF ok int])
    also have "drop 1 (drop 1 ls) = drop 2 ls" by (simp add: numeral_2_eq_2)
    also have "fill_frame D [2] (text2 (drop 2 ls)) ?f2 = fill_frame D [] (text2 (drop 1 (drop 2 ls))) ?f3" by (rule step [OF ok int])
    also have "\<dots> = Some (text2 (drop 1 (drop 2 ls)), ?f3)" by (simp only: fill_frame.simps)
    also have "drop 1 (drop 2 ls) = drop 3 ls" by (simp add: numeral_3_eq_3)
    finally show ?thesis unfolding upt .
  qed
  moreover have "length ?f3 = 3" using assms(2) by simp
  moreover have "?f3 ! c = Some (ls ! c)" if "c < 3" "c < length ls" for c
  proof -
    have "c = 0 \<or> c = 1 \<or> c = 2" using that(1) by auto
    then show ?thesis using that(2) assms(2) by (auto simp: hd_drop_conv_nth hd_conv_nth)
  qed
  ultimately show ?thesis by blast
qed

section \<open>Frames\<close>

text \<open>The first \<open>m\<close> frames hold the first \<open>m\<close> pages of the script, the others are empty.\<close>

definition frames_hold :: "string list \<Rightarrow> int \<Rightarrow> nat \<Rightarrow> frame_struct list \<Rightarrow> bool" where
  "frames_hold ls pid m F \<longleftrightarrow> length F = SHELL_FRAMES \<and> (\<forall>j < SHELL_FRAMES. length (f_lines (F ! j)) = 3) \<and>
     (\<forall>j < SHELL_FRAMES. f_empty (F ! j) = (m \<le> j)) \<and>
     (\<forall>j < m. f_pid (F ! j) = pid \<and> (\<forall>c < 3. 3 * j + c < length ls \<longrightarrow> f_lines (F ! j) ! c = Some (ls ! (3 * j + c))))"

lemma loadFrame_hold:
  assumes "frames_hold ls pid m (shellframes st)" and "m < SHELL_FRAMES" and "\<forall>l \<in> set ls. line2_ok l"
    and "num_lru st < 2 ^ 31 - 1" and D: "intact D ls"
  shows "\<exists>F. loadFrame D (text2 (drop (3 * m) ls)) pid st =
      Some (m, text2 (drop (3 * Suc m) ls), [], st\<lparr>shellframes := F, num_lru := num_lru st + 1\<rparr>) \<and>
    frames_hold ls pid (Suc m) F"
proof -
  let ?F = "shellframes st"
  have l: "length ?F = 23" "length (f_lines (?F ! m)) = 3" "f_empty (?F ! m)" "\<And>j. j < m \<Longrightarrow> \<not> f_empty (?F ! j)"
    using assms(1,2) by (auto simp: frames_hold_def)
  have "List.find (\<lambda>i. f_empty (?F ! i)) [0..<length ?F] = Some m"
    using l assms(2) by (auto simp: find_upt_Some_iff)
  then have e: "findEmptyFrame st = int m" by (simp add: findEmptyFrame_def)
  have "\<forall>l \<in> set (drop (3 * m) ls). line2_ok l" using assms(3) by (auto dest: in_set_dropD)
  from fill_frame_text2 [OF this l(2) intact_drop [OF D]] obtain fr where
    fr: "fill_frame D [0..<3] (text2 (drop (3 * m) ls)) (f_lines (?F ! m)) = Some (text2 (drop (3 * Suc m) ls), fr)" "length fr = 3"
      "\<And>c. c < 3 \<Longrightarrow> c < length ls - 3 * m \<Longrightarrow> fr ! c = Some (ls ! (3 * m + c))"
    by (auto simp: add.commute)
  let ?G = "?F[m := \<lparr>f_lines = fr, f_pid = pid, f_lru = num_lru st, f_empty = False\<rparr>]"
  have "loadFrame D (text2 (drop (3 * m) ls)) pid st =
      Some (m, text2 (drop (3 * Suc m) ls), [], st\<lparr>shellframes := ?G, num_lru := num_lru st + 1\<rparr>)"
    using assms(4) e fr(1) by (simp add: loadFrame_def del: fill_frame.simps)
  moreover have "frames_hold ls pid (Suc m) ?G"
    using assms(1,2) l(1) fr(2,3) by (auto simp: frames_hold_def nth_list_update less_Suc_eq)
  ultimately show ?thesis by blast
qed

lemma getLine_hold:
  assumes "frames_hold ls pid m (shellframes st)" and "k < length ls" and "k < 3 * m" and "m \<le> SHELL_FRAMES"
    and "num_lru st < 2 ^ 31 - 1"
  shows "\<exists>F. getLineFromFrameStore pid (int (k div 3)) (int (k mod 3)) st =
      Some (Some (ls ! k), st\<lparr>shellframes := F, num_lru := num_lru st + 1\<rparr>) \<and> frames_hold ls pid m F"
proof -
  have j: "k div 3 < m" using assms(3) by (simp add: less_mult_imp_div_less mult.commute)
  then have j23: "k div 3 < 23" using assms(4) by simp
  let ?F = "shellframes st"
  let ?G = "?F[k div 3 := (?F ! (k div 3))\<lparr>f_lru := num_lru st\<rparr>]"
  have "k mod 3 < 3" "3 * (k div 3) + k mod 3 = k" by simp_all
  then have "f_lines (?F ! (k div 3)) ! (k mod 3) = Some (ls ! k)" "f_pid (?F ! (k div 3)) = pid"
    using assms(1,2) j by (auto simp: frames_hold_def)
  moreover have "length ?F = 23" using assms(1) by (simp add: frames_hold_def)
  ultimately have "getLineFromFrameStore pid (int (k div 3)) (int (k mod 3)) st =
      Some (Some (ls ! k), st\<lparr>shellframes := ?G, num_lru := num_lru st + 1\<rparr>)"
    using assms(5) j23 \<open>k mod 3 < 3\<close> by (simp add: getLineFromFrameStore_def Let_def)
  moreover have "frames_hold ls pid m ?G" using assms(1) j23 by (auto simp: frames_hold_def nth_list_update)
  ultimately show ?thesis by blast
qed

section \<open>What commands change\<close>

record user2 =
  u_vars :: "var_cell list"
  u_host :: "string \<Rightarrow> string option"
  u_printed :: "string list"

definition user2_of :: "shell2 \<Rightarrow> user2" where
  "user2_of s = \<lparr>u_vars = shellvars (store s), u_host = host2 s, u_printed = printed s\<rparr>"

definition put_user2 :: "user2 \<Rightarrow> shell2 \<Rightarrow> shell2" where
  "put_user2 u s = s\<lparr>store := (store s)\<lparr>shellvars := u_vars u\<rparr>, host2 := u_host u, printed := u_printed u\<rparr>"

text \<open>A parser for which the given lines change variables, the host and the output only.\<close>

definition plain_on2 :: "string set \<Rightarrow> (string \<Rightarrow> user2 \<Rightarrow> (int \<times> user2) option) \<Rightarrow> parser2 \<Rightarrow> bool" where
  "plain_on2 L F P \<longleftrightarrow> (\<forall>l \<in> L. \<forall>s. P l s =
     (case F l (user2_of s) of None \<Rightarrow> Undefined | Some (r, u) \<Rightarrow> Returns (r, put_user2 u s)))"

primrec run_lines2 :: "(string \<Rightarrow> user2 \<Rightarrow> (int \<times> user2) option) \<Rightarrow> string list \<Rightarrow> user2 \<Rightarrow> user2 option" where
  "run_lines2 F [] u = Some u"
| "run_lines2 F (l # ls) u = do { (r, u) \<leftarrow> F l u; run_lines2 F ls u }"

lemma run_lines2_append: "run_lines2 F (xs @ ys) u = do { u \<leftarrow> run_lines2 F xs u; run_lines2 F ys u }"
  by (induction xs arbitrary: u) (auto split: prod.split bind_splits)

lemma put_user2_facts [simp]:
  "user2_of (put_user2 u s) = u" "shellframes (store (put_user2 u s)) = shellframes (store s)"
  "num_lru (store (put_user2 u s)) = num_lru (store s)" "queue (put_user2 u s) = queue s"
  by (simp_all add: user2_of_def put_user2_def)

section \<open>A process that is being executed\<close>

definition task_table_is :: "nat \<Rightarrow> int list \<Rightarrow> bool" where
  "task_table_is m tbl \<longleftrightarrow> length tbl = 100 \<and> (\<forall>i < 100. tbl ! i = (if i < m then int i else - 1))"

definition running :: "string list \<Rightarrow> int \<Rightarrow> nat \<Rightarrow> nat \<Rightarrow> nat \<Rightarrow> shell2 \<Rightarrow> bool" where
  "running ls pid p k m s \<longleftrightarrow> (\<forall>l \<in> set ls. line2_ok l) \<and> length ls \<le> 69 \<and> k \<le> length ls \<and> k \<le> 3 * m \<and> 3 * m < length ls + 3 \<and>
     frames_hold ls pid m (shellframes (store s)) \<and>
     num_lru (store s) + 3 * int (length ls - k) + (if k < 3 * m then 0 else 1) < 2 ^ 31 - 1 \<and>
     (\<exists>t. node_task p s = Some t \<and> PC t = k \<and> current_command t = k \<and> number_of_commands t = length ls \<and>
        task_pid t = pid \<and> fst (task_file t) = text2 ls \<and> task_table_is m (task_table t))"

lemma runningD:
  assumes "running ls pid p k m s"
  shows "\<forall>l \<in> set ls. line2_ok l" "length ls \<le> 69" "k \<le> length ls" "k \<le> 3 * m" "3 * m < length ls + 3"
    "frames_hold ls pid m (shellframes (store s))"
    "num_lru (store s) + 3 * int (length ls - k) + (if k < 3 * m then 0 else 1) < 2 ^ 31 - 1"
    "\<exists>t. node_task p s = Some t \<and> PC t = k \<and> current_command t = k \<and> number_of_commands t = length ls \<and>
        task_pid t = pid \<and> fst (task_file t) = text2 ls \<and> task_table_is m (task_table t)"
  using assms unfolding running_def by blast+

lemma put_task_eq:
  assumes "node_task p s = Some t0"
  shows "\<exists>s'. put_task p t s = Some s' \<and> node_task p s' = Some t \<and> store s' = store s \<and> q_head (queue s') = q_head (queue s) \<and>
    user2_of s' = user2_of s \<and> in_background s' = in_background s"
  using assms by (auto simp: put_task_def node_task_def user2_of_def)

text \<open>One line.\<close>

lemma fetch_line_running:
  assumes R: "running ls pid p k m s" and k: "k < length ls" "k < 3 * m"
    and t: "node_task p s = Some t" "PC t = k" "task_pid t = pid" "task_table_is m (task_table t)"
  shows "\<exists>F. fetch_line t s = Some (Some (ls ! k), s\<lparr>store := (store s)\<lparr>shellframes := F, num_lru := 2 + num_lru (store s)\<rparr>\<rparr>) \<and>
    frames_hold ls pid m F"
proof -
  note I = runningD [OF R]
  have m: "m \<le> 23" using I(2,5) by simp
  have j: "k div 3 < m" using k(2) by (simp add: less_mult_imp_div_less mult.commute)
  have lru: "num_lru (store s) + 1 < 2 ^ 31 - 1" using I(7) k by simp
  then have lru0: "num_lru (store s) < 2 ^ 31 - 1" by simp
  from getLine_hold [OF I(6) k m lru0] obtain F where F:
    "getLineFromFrameStore pid (int (k div 3)) (int (k mod 3)) (store s) =
      Some (Some (ls ! k), (store s)\<lparr>shellframes := F, num_lru := num_lru (store s) + 1\<rparr>)" "frames_hold ls pid m F" by blast
  let ?st = "(store s)\<lparr>shellframes := F, num_lru := num_lru (store s) + 1\<rparr>"
  have "frames_hold ls pid m (shellframes ?st)" "num_lru ?st < 2 ^ 31 - 1" using F(2) lru by simp_all
  from getLine_hold [OF this(1) k m this(2)] obtain G where G:
    "getLineFromFrameStore pid (int (k div 3)) (int (k mod 3)) ?st =
      Some (Some (ls ! k), (store s)\<lparr>shellframes := G, num_lru := 2 + num_lru (store s)\<rparr>)" "frames_hold ls pid m G" by auto
  have "task_table t ! (k div 3) = int (k div 3)" using t(4) j m by (simp add: task_table_is_def)
  then have "fetch_line t s = Some (Some (ls ! k), s\<lparr>store := (store s)\<lparr>shellframes := G, num_lru := 2 + num_lru (store s)\<rparr>\<rparr>)"
    using F(1) G(1) t(2,3) j m by (simp add: fetch_line_def Let_def)
  with G(2) show ?thesis by blast
qed

text \<open>A page fault.\<close>

lemma fault_running:
  assumes D: "intact D ls" and R: "running ls pid p k m s" and k: "k < length ls" "\<not> k < 3 * m"
    and t: "node_task p s = Some t" "PC t = k" "current_command t = k" "number_of_commands t = length ls" "task_pid t = pid"
      "fst (task_file t) = text2 ls" "task_table_is m (task_table t)"
  shows "\<exists>s'. fetch_line t s = Some (None, s) \<and> reload_page D p (k div 3) t s = Some s' \<and> running ls pid p k (Suc m) s' \<and>
    user2_of s' = user2_of s \<and> q_head (queue s') = q_head (queue s) \<and> in_background s' = in_background s"
proof -
  note I = runningD [OF R]
  have km: "k = 3 * m" using I(4) k(2) by simp
  then have div: "k div 3 = m" by simp
  have m: "m < 23" using I(2) k(1) km by simp
  have "task_table t ! m = - 1" using t(7) m by (simp add: task_table_is_def)
  then have fetch: "fetch_line t s = Some (None, s)" using t(2) m div by (simp add: fetch_line_def Let_def)
  have lru: "num_lru (store s) + 3 * int (length ls - k) + 1 < 2 ^ 31 - 1" using I(7) k by simp
  then have lru0: "num_lru (store s) < 2 ^ 31 - 1" by simp
  from loadFrame_hold [OF I(6) m I(1) lru0 D] obtain F where F:
    "loadFrame D (text2 (drop (3 * m) ls)) pid (store s) =
      Some (m, text2 (drop (3 * Suc m) ls), [], (store s)\<lparr>shellframes := F, num_lru := num_lru (store s) + 1\<rparr>)"
    "frames_hold ls pid (Suc m) F" by blast
  let ?s = "s\<lparr>store := (store s)\<lparr>shellframes := F, num_lru := num_lru (store s) + 1\<rparr>, printed := printed s\<rparr>"
  let ?t = "setFrame (int m) (int m) (t\<lparr>task_file := (fst (task_file t), text2 (drop (3 * Suc m) ls))\<rparr>)"
  have "node_task p ?s = Some t" using t(1) by (simp add: node_task_def)
  from put_task_eq [OF this, of ?t] obtain s' where s': "put_task p ?t ?s = Some s'" "node_task p s' = Some ?t"
    "store s' = store ?s" "q_head (queue s') = q_head (queue s)" "user2_of s' = user2_of s" "in_background s' = in_background s"
    by (auto simp: user2_of_def)
  have "reload_page D p (k div 3) t s = Some s'"
    using skip_lines_text2 [OF I(1,3)] t(3,5,6) F(1) s'(1) div km by (simp add: reload_page_def)
  moreover have tt: "?t = t\<lparr>task_file := (fst (task_file t), text2 (drop (3 * Suc m) ls)), task_table := (task_table t)[m := int m]\<rparr>"
    using m by (simp add: setFrame_def)
  have "task_table_is (Suc m) ((task_table t)[m := int m])"
    using t(7) m by (auto simp: task_table_is_def nth_list_update less_Suc_eq)
  then have "running ls pid p k (Suc m) s'"
    using I(1-3) km k(1) F(2) lru t s'(2,3) unfolding tt by (simp add: running_def)
  ultimately show ?thesis using fetch s' by blast
qed


lemma running_facts:
  assumes "running ls pid p k m s" and "store s' = store s" and "node_task p s' = node_task p s"
  shows "running ls pid p k m s'"
  using assms(1) unfolding running_def assms(2,3) .

text \<open>One line is executed.\<close>

lemma line_running:
  assumes P: "plain_on2 (set ls) F P" and R: "running ls pid p k m s" and k: "k < length ls" "k < 3 * m"
    and f: "F (ls ! k) (user2_of s) = Some (r, u)" and q: "0 < quanta"
  shows "\<exists>s' t. node_task p s' = Some t \<and> PC t = Suc k \<and> number_of_commands t = length ls \<and> running ls pid p (Suc k) m s' \<and>
    user2_of s' = u \<and> q_head (queue s') = q_head (queue s) \<and> \<not> in_background s' \<and>
    execute_lines D P p (Suc fuel) quanta s =
      (if Suc k = length ls then Returns (True, terminate_process p s') else execute_lines D P p fuel (quanta - 1) s')"
proof -
  note I = runningD [OF R]
  from I(8) obtain t where t: "node_task p s = Some t" "PC t = k" "current_command t = k" "number_of_commands t = length ls"
    "task_pid t = pid" "fst (task_file t) = text2 ls" "task_table_is m (task_table t)" by blast
  from fetch_line_running [OF R k t(1,2,5,7)] obtain G where G:
    "fetch_line t s = Some (Some (ls ! k), s\<lparr>store := (store s)\<lparr>shellframes := G, num_lru := 2 + num_lru (store s)\<rparr>\<rparr>)"
    "frames_hold ls pid m G" by blast
  let ?s = "s\<lparr>store := (store s)\<lparr>shellframes := G, num_lru := 2 + num_lru (store s)\<rparr>, in_background := True\<rparr>"
  let ?t = "t\<lparr>PC := PC t + 1, current_command := current_command t + 1, priority := False\<rparr>"
  have "node_task p ?s = Some t" using t(1) by (simp add: node_task_def)
  from put_task_eq [OF this, of ?t] obtain s1 where s1: "put_task p ?t ?s = Some s1" "node_task p s1 = Some ?t"
    "store s1 = store ?s" "q_head (queue s1) = q_head (queue s)" "user2_of s1 = user2_of s"
    by (auto simp: user2_of_def)
  let ?s2 = "(put_user2 u s1)\<lparr>in_background := False\<rparr>"
  have "P (ls ! k) s1 = Returns (r, put_user2 u s1)" using P f k(1) s1(5) by (simp add: plain_on2_def)
  moreover have n: "node_task p ?s2 = Some ?t" using s1(2) by (simp add: node_task_def)
  ultimately have "execute_lines D P p (Suc fuel) quanta s =
      (if Suc k = length ls then Returns (True, terminate_process p ?s2) else execute_lines D P p fuel (quanta - 1) ?s2)"
    using q t(1,2,4) G(1) s1(1) by (simp add: Let_def)
  moreover have "running ls pid p (Suc k) m ?s2"
    using I k G(2) t s1(3) n by (simp add: running_def)
  moreover have "user2_of ?s2 = u" by (simp add: user2_of_def put_user2_def)
  ultimately show ?thesis using n t(2,4) s1(4) by (intro exI [of _ ?s2] exI [of _ ?t]) simp
qed

text \<open>A turn: the lines up to the end of the last page that is loaded, then the end or a page fault.\<close>

lemma turn_running:
  assumes D: "intact D ls" and P: "plain_on2 (set ls) F P"
  shows "running ls pid p k m s \<Longrightarrow> k < length ls \<Longrightarrow> \<not> in_background s \<Longrightarrow> int (length ls - k) < quanta \<Longrightarrow>
    length ls - k < fuel \<Longrightarrow> run_lines2 F (take (3 * m - k) (drop k ls)) (user2_of s) = Some u \<Longrightarrow>
    \<exists>s'. execute_lines D P p fuel quanta s = Returns (length ls \<le> 3 * m, s') \<and> user2_of s' = u \<and>
      q_head (queue s') = q_head (queue s) \<and> \<not> in_background s' \<and>
      (if length ls \<le> 3 * m then node_task p s' = None else running ls pid p (3 * m) (Suc m) s')"
proof (induction "length ls - k" arbitrary: k s quanta fuel)
  case (Suc x)
  note R = Suc.prems(1)
  obtain f where f: "fuel = Suc f" using Suc.prems(5) by (cases fuel) auto
  have q: "0 < quanta" using Suc.prems(4) by simp
  show ?case
  proof (cases "k < 3 * m")
    case False
    note I = runningD [OF R]
    from I(8) obtain t where t: "node_task p s = Some t" "PC t = k" "current_command t = k" "number_of_commands t = length ls"
      "task_pid t = pid" "fst (task_file t) = text2 ls" "task_table_is m (task_table t)" by blast
    have km: "k = 3 * m" using I(4) False by simp
    from fault_running [OF D R Suc.prems(2) False t] obtain s' where
      "fetch_line t s = Some (None, s)" "reload_page D p (k div 3) t s = Some s'" "running ls pid p k (Suc m) s'"
      "user2_of s' = user2_of s" "q_head (queue s') = q_head (queue s)" "in_background s' = in_background s" by blast
    moreover have "user2_of s = u" using Suc.prems(6) km by simp
    ultimately show ?thesis using f q t(1,2) Suc.prems(2,3) km by (intro exI [of _ s']) simp
  next
    case True
    have split: "take (3 * m - k) (drop k ls) = ls ! k # take (3 * m - Suc k) (drop (Suc k) ls)"
      using True Suc.prems(2) by (simp add: Cons_nth_drop_Suc [symmetric] Suc_diff_Suc [symmetric])
    obtain r u1 where u1: "F (ls ! k) (user2_of s) = Some (r, u1)"
      "run_lines2 F (take (3 * m - Suc k) (drop (Suc k) ls)) u1 = Some u"
      using Suc.prems(6) unfolding split by (auto split: bind_splits)
    from line_running [OF P R Suc.prems(2) True u1(1) q, of D f] obtain s1 where s1:
      "running ls pid p (Suc k) m s1" "user2_of s1 = u1" "q_head (queue s1) = q_head (queue s)" "\<not> in_background s1"
      "execute_lines D P p fuel quanta s =
        (if Suc k = length ls then Returns (True, terminate_process p s1) else execute_lines D P p f (quanta - 1) s1)"
      unfolding f by blast
    show ?thesis
    proof (cases "Suc k = length ls")
      case True
      with s1(5) have "execute_lines D P p fuel quanta s = Returns (True, terminate_process p s1)" by simp
      moreover have "length ls \<le> 3 * m" using True \<open>k < 3 * m\<close> by simp
      moreover have "u1 = u" using u1(2) True by simp
      ultimately show ?thesis using s1
        by (intro exI [of _ "terminate_process p s1"]) (simp add: terminate_process_def free_node_def node_task_def user2_of_def)
    next
      case False
      with Suc.prems(2) have k': "Suc k < length ls" by simp
      have "x = length ls - Suc k" "int (length ls - Suc k) < quanta - 1" "length ls - Suc k < f"
        using Suc.hyps(2) Suc.prems(2,4,5) f by auto
      with Suc.hyps(1) [OF this(1) s1(1) k' s1(4) this(2,3)] u1(2) s1(2,3,5) False show ?thesis by simp
    qed
  qed
qed simp

section \<open>The scheduler\<close>

lemma take_head_only:
  assumes "queue_is (queue s) [p]"
  shows "\<exists>s'. take_from_queue ready_queue_pop_head s = Some (p, s') \<and> q_head (queue s') = None \<and> node_task p s' = node_task p s \<and>
    store s' = store s \<and> user2_of s' = user2_of s \<and> in_background s' = in_background s"
  using assms by (auto simp: queue_is_def take_from_queue_def ready_queue_pop_head_def node_task_def user2_of_def)

lemma put_back_only:
  assumes "q_head (queue s) = None" and "node_task p s = Some t"
  shows "\<exists>s'. on_queue (ready_queue_add_to_tail p) s = Some s' \<and> queue_is (queue s') [p] \<and> node_task p s' = node_task p s \<and>
    store s' = store s \<and> user2_of s' = user2_of s \<and> in_background s' = in_background s"
  using assms by (auto simp: queue_is_def on_queue_def ready_queue_add_to_tail_def node_task_def user2_of_def set_q_next_def)

lemma scheduler_running:
  assumes D: "intact D ls" and P: "plain_on2 (set ls) F P" and n: "int (length ls) < quanta" "length ls < rounds"
  shows "running ls pid p k m s \<Longrightarrow> k < length ls \<Longrightarrow> k < 3 * m \<Longrightarrow> \<not> in_background s \<Longrightarrow> queue_is (queue s) [p] \<Longrightarrow>
    length ls - k < fuel \<Longrightarrow> run_lines2 F (drop k ls) (user2_of s) = Some u \<Longrightarrow>
    \<exists>s'. scheduler_RR D P rounds quanta fuel s = Returns s' \<and> user2_of s' = u \<and> q_head (queue s') = None \<and>
      \<not> in_background s' \<and> node_task p s' = None"
proof (induction "length ls - k" arbitrary: k m s fuel rule: less_induct)
  case less
  note R = less.prems(1)
  obtain f where f: "fuel = Suc f" "0 < f" using less.prems(2,6) by (cases fuel) auto
  from take_head_only [OF less.prems(5)] obtain s0 where s0: "take_from_queue ready_queue_pop_head s = Some (p, s0)"
    "q_head (queue s0) = None" "node_task p s0 = node_task p s" "store s0 = store s" "user2_of s0 = user2_of s"
    "in_background s0 = in_background s" by blast
  have R0: "running ls pid p k m s0" using running_facts [OF R s0(4,3)] .
  have ne: "\<not> is_ready_empty (queue s)" using less.prems(5) by (auto simp: queue_is_def is_ready_empty_def)
  obtain t where t: "node_task p s0 = Some t" "PC t = k" "number_of_commands t = length ls" using runningD(8) [OF R0] by blast
  have exec: "execute_process D P rounds p quanta s0 = execute_lines D P p rounds quanta s0"
    using t less.prems(2) by (simp add: execute_process_def)
  obtain u1 where u1: "run_lines2 F (take (3 * m - k) (drop k ls)) (user2_of s0) = Some u1"
    "run_lines2 F (drop (3 * m - k) (drop k ls)) u1 = Some u"
    using less.prems(7) s0(5) run_lines2_append [of F "take (3 * m - k) (drop k ls)" "drop (3 * m - k) (drop k ls)" "user2_of s"]
    by (auto simp del: drop_drop split: bind_splits)
  have "int (length ls - k) < quanta" "length ls - k < rounds" "\<not> in_background s0" using n less.prems(4) s0(6) by auto
  from turn_running [OF D P R0 less.prems(2) this(3,1,2) u1(1)] obtain s1 where s1:
    "execute_lines D P p rounds quanta s0 = Returns (length ls \<le> 3 * m, s1)" "user2_of s1 = u1"
    "q_head (queue s1) = None" "\<not> in_background s1"
    "if length ls \<le> 3 * m then node_task p s1 = None else running ls pid p (3 * m) (Suc m) s1"
    unfolding s0(2) by blast
  show ?case
  proof (cases "length ls \<le> 3 * m")
    case True
    obtain f' where f': "f = Suc f'" using f(2) by (cases f) auto
    have "u1 = u" using u1(2) True less.prems(3) by simp
    then show ?thesis using True s0(1) s1 ne by (simp add: f f' exec is_ready_empty_def [of "queue s1"])
  next
    case False
    have R1: "running ls pid p (3 * m) (Suc m) s1" using s1(5) False by simp
    from runningD(8) [OF R1] obtain t1 where "node_task p s1 = Some t1" by blast
    from put_back_only [OF s1(3) this] obtain s2 where s2: "on_queue (ready_queue_add_to_tail p) s1 = Some s2"
      "queue_is (queue s2) [p]" "node_task p s2 = node_task p s1" "store s2 = store s1" "user2_of s2 = user2_of s1"
      "in_background s2 = in_background s1" by blast
    have "drop (3 * m - k) (drop k ls) = drop (3 * m) ls" using less.prems(3) by simp
    then have "run_lines2 F (drop (3 * m) ls) (user2_of s2) = Some u" using u1(2) s1(2) s2(5) by simp
    moreover have "length ls - 3 * m < length ls - k" "3 * m < length ls" "3 * m < 3 * Suc m" "length ls - 3 * m < f"
      "\<not> in_background s2" using False less.prems(2,3,6) f(1) s1(4) s2(6) by auto
    ultimately obtain s' where "scheduler_RR D P rounds quanta f s2 = Returns s' \<and> user2_of s' = u \<and> q_head (queue s') = None \<and>
      \<not> in_background s' \<and> node_task p s' = None"
      using less.hyps [OF _ running_facts [OF R1 s2(4,3)]] s2(2) by blast
    then show ?thesis using False s0(1) s1(1) s2(1) ne by (simp add: f exec)
  qed
qed

section \<open>Starting the process\<close>

definition fresh2 :: "shell2 \<Rightarrow> bool" where
  "fresh2 s \<longleftrightarrow> length (shellframes (store s)) = SHELL_FRAMES \<and>
     (\<forall>fr \<in> set (shellframes (store s)). f_empty fr \<and> length (f_lines fr) = 3) \<and>
     num_lru (store s) = 0 \<and> q_head (queue s) = None \<and> pid_counter s = 1 \<and> \<not> in_background s"

lemma fresh_frames: "fresh2 s \<Longrightarrow> frames_hold ls pid 0 (shellframes (store s))"
  by (simp add: fresh2_def frames_hold_def)

lemma load_page_step:
  assumes "frames_hold ls pid i (shellframes (store s))" and "num_lru (store s) = int i" and "i < 23" and "\<forall>l \<in> set ls. line2_ok l"
    and "number_of_commands t = length ls" and "task_table_is i (task_table t)" and "snd (task_file t) = text2 (drop (3 * i) ls)"
    and "3 * i < length ls" and D: "intact D ls"
  shows "\<exists>F t'. load_pages D pid (i # is) t s = load_pages D pid is t' (s\<lparr>store := (store s)\<lparr>shellframes := F, num_lru := int (Suc i)\<rparr>\<rparr>) \<and>
    frames_hold ls pid (Suc i) F \<and> task_table_is (Suc i) (task_table t') \<and> snd (task_file t') = text2 (drop (3 * Suc i) ls) \<and>
    t' = t\<lparr>current_command := 0, task_file := task_file t', task_table := task_table t'\<rparr> \<and> fst (task_file t') = fst (task_file t)"
proof -
  have "num_lru (store s) < 2 ^ 31 - 1" using assms(2,3) by simp
  from loadFrame_hold [OF assms(1,3,4) this D] obtain F where F:
    "loadFrame D (text2 (drop (3 * i) ls)) pid (store s) =
      Some (i, text2 (drop (3 * Suc i) ls), [], (store s)\<lparr>shellframes := F, num_lru := num_lru (store s) + 1\<rparr>)"
    "frames_hold ls pid (Suc i) F" by blast
  let ?t = "t\<lparr>task_file := (fst (task_file t), text2 (drop (3 * Suc i) ls)), current_command := 0, task_table := (task_table t)[i := int i]\<rparr>"
  have "load_pages D pid (i # is) t s = load_pages D pid is ?t (s\<lparr>store := (store s)\<lparr>shellframes := F, num_lru := int (Suc i)\<rparr>\<rparr>)"
    using F(1) assms(2,3,5,7,8) by (simp add: setFrame_def add.commute)
  moreover have "task_table_is (Suc i) (task_table ?t)"
    using assms(3,6) by (auto simp: task_table_is_def nth_list_update less_Suc_eq)
  ultimately show ?thesis using F(2) by (intro exI [of _ F] exI [of _ ?t]) simp
qed

text \<open>
  The host copies the script when it is asked to: the command succeeds, and the copy has the text of
  the script.
\<close>

definition copies_script :: "env2 \<Rightarrow> string \<Rightarrow> string list \<Rightarrow> (string \<Rightarrow> string option) \<Rightarrow> (string \<Rightarrow> string option) \<Rightarrow> bool" where
  "copies_script E name ls h h' \<longleftrightarrow> length name < 400 \<and> h name = Some (text2 ls) \<and>
     e_system E (''cp '' @ name @ '' backing_store/'' @ name @ ''.1'') h = (0, h') \<and>
     h' (''backing_store/'' @ name @ ''.1'') = Some (text2 ls)"

lemma load_pages_fresh:
  assumes "frames_hold ls pid 0 (shellframes (store s))" and "num_lru (store s) = 0" and "\<forall>l \<in> set ls. line2_ok l" and "ls \<noteq> []" and D: "intact D ls"
  shows "\<exists>F t m. load_pages D pid [0, 1] (makePCB (text2 ls) (length ls) pid') s =
      Some (t, s\<lparr>store := (store s)\<lparr>shellframes := F, num_lru := int m\<rparr>\<rparr>) \<and> 0 < m \<and> m \<le> 2 \<and> 3 * m < length ls + 3 \<and>
    frames_hold ls pid m F \<and> task_table_is m (task_table t) \<and> PC t = 0 \<and> current_command t = 0 \<and>
    number_of_commands t = length ls \<and> task_pid t = pid' \<and> fst (task_file t) = text2 ls"
proof -
  let ?t = "makePCB (text2 ls) (length ls) pid'"
  have "num_lru (store s) = int 0" "number_of_commands ?t = length ls" "task_table_is 0 (task_table ?t)"
    "snd (task_file ?t) = text2 (drop (3 * 0) ls)" "3 * 0 < length ls"
    using assms(2,4) by (simp_all add: makePCB_def task_table_is_def)
  from load_page_step [OF assms(1) this(1) _ assms(3) this(2-5) D, of "[1]"] obtain F t where F:
    "load_pages D pid [0, 1] ?t s = load_pages D pid [1] t (s\<lparr>store := (store s)\<lparr>shellframes := F, num_lru := int (Suc 0)\<rparr>\<rparr>)"
    "frames_hold ls pid (Suc 0) F" "task_table_is (Suc 0) (task_table t)" "snd (task_file t) = text2 (drop (3 * Suc 0) ls)"
    "t = ?t\<lparr>current_command := 0, task_file := task_file t, task_table := task_table t\<rparr>" "fst (task_file t) = fst (task_file ?t)"
    by auto
  have t: "PC t = 0" "current_command t = 0" "number_of_commands t = length ls" "task_pid t = pid'" "fst (task_file t) = text2 ls"
    using F(6) by (subst F(5); simp add: makePCB_def)+
  let ?s = "s\<lparr>store := (store s)\<lparr>shellframes := F, num_lru := int (Suc 0)\<rparr>\<rparr>"
  show ?thesis
  proof (cases "3 * 1 < length ls")
    case False
    then have "load_pages D pid [1] t ?s = Some (t, ?s)" using t(3) by simp
    with F(1-3) t show ?thesis using assms(4) by (intro exI [of _ F] exI [of _ t] exI [of _ 1]) simp
  next
    case True
    have "frames_hold ls pid 1 (shellframes (store ?s))" "num_lru (store ?s) = int 1" "(1::nat) < 23"
      "task_table_is 1 (task_table t)" "snd (task_file t) = text2 (drop (3 * 1) ls)" using F(2-4) by simp_all
    from load_page_step [OF this(1-3) assms(3) t(3) this(4,5) True D, of "[]"] obtain G t' where G:
      "load_pages D pid [1] t ?s = load_pages D pid [] t' (?s\<lparr>store := (store ?s)\<lparr>shellframes := G, num_lru := int (Suc 1)\<rparr>\<rparr>)"
      "frames_hold ls pid (Suc 1) G" "task_table_is (Suc 1) (task_table t')"
      "t' = t\<lparr>current_command := 0, task_file := task_file t', task_table := task_table t'\<rparr>" "fst (task_file t') = fst (task_file t)"
      by auto
    have "PC t' = 0" "current_command t' = 0" "number_of_commands t' = length ls" "task_pid t' = pid'" "fst (task_file t') = text2 ls"
      using G(5) t by (subst G(4); simp)+
    with F(1) G(1-3) True show ?thesis by (intro exI [of _ G] exI [of _ t'] exI [of _ 2]) (simp add: numeral_2_eq_2)
  qed
qed

lemma process_initialize_running:
  assumes s: "fresh2 s" and ls: "\<forall>l \<in> set ls. line2_ok l" "ls \<noteq> []" "length ls \<le> 69"
    and c: "copies_script E name ls (host2 s) h'" and D: "intact (e_dead_array E) ls"
  shows "\<exists>s' m. process_initialize E name 1 s = Returns (0, s') \<and> running ls 1 (next_node s) 0 m s' \<and> 0 < m \<and>
    queue_is (queue s') [next_node s] \<and> \<not> in_background s' \<and> user2_of s' = (user2_of s)\<lparr>u_host := h'\<rparr>"
proof -
  have one: "decimal_int 1 = ''1''" by code_simp
  let ?s = "s\<lparr>host2 := h', pid_counter := 2\<rparr>"
  have "frames_hold ls 1 0 (shellframes (store ?s))" "num_lru (store ?s) = 0" using s fresh_frames by (auto simp: fresh2_def)
  from load_pages_fresh [OF this ls(1,2) D, of 1] obtain F t m where F:
    "load_pages (e_dead_array E) 1 [0, 1] (makePCB (text2 ls) (length ls) 1) ?s =
      Some (t, ?s\<lparr>store := (store ?s)\<lparr>shellframes := F, num_lru := int m\<rparr>\<rparr>)" "0 < m" "m \<le> 2" "3 * m < length ls + 3"
    "frames_hold ls 1 m F" "task_table_is m (task_table t)" "PC t = 0" "current_command t = 0"
    "number_of_commands t = length ls" "task_pid t = 1" "fst (task_file t) = text2 ls" by blast
  let ?n = "\<lparr>q_task = t, q_next = None\<rparr>"
  let ?s' = "?s\<lparr>store := (store ?s)\<lparr>shellframes := F, num_lru := int m\<rparr>,
    queue := \<lparr>q_head = Some (next_node s), q_nodes = (q_nodes (queue s))(next_node s \<mapsto> ?n)\<rparr>, next_node := next_node s + 1\<rparr>"
  have "q_head (queue s) = None" "pid_counter s = 1" using s by (simp_all add: fresh2_def)
  then have "process_initialize E name 1 s = Returns (0, ?s')"
    using c F(1) count_commands_text2 [OF ls(1)]
    by (simp add: process_initialize_def copies_script_def copy_script_to_backing_store_def call_system_def one generatePID_def
        Let_def ready_queue_add_to_tail_def set_q_next_def)
  moreover have "running ls 1 (next_node s) 0 m ?s'"
    using ls F by (simp add: running_def node_task_def)
  moreover have "queue_is (queue ?s') [next_node s]" by (simp add: queue_is_def)
  moreover have "\<not> in_background ?s'" using s by (simp add: fresh2_def)
  moreover have "user2_of ?s' = (user2_of s)\<lparr>u_host := h'\<rparr>" by (simp add: user2_of_def)
  ultimately show ?thesis using F(2) by blast
qed

lemma run_a2_executes:
  assumes "fresh2 s" and "\<forall>l \<in> set ls. line2_ok l" "ls \<noteq> []" "length ls \<le> 69"
    and "copies_script E name ls (host2 s) h'" and "plain_on2 (set ls) F P"
    and "run_lines2 F ls ((user2_of s)\<lparr>u_host := h'\<rparr>) = Some u" and "length ls < e_rounds E" and D: "intact (e_dead_array E) ls"
  shows "\<exists>s'. run_a2 E P name s = Returns (0, s') \<and> user2_of s' = u \<and> q_head (queue s') = None \<and> \<not> in_background s'"
proof -
  from process_initialize_running [OF assms(1-5) D] obtain s1 m where s1:
    "process_initialize E name 1 s = Returns (0, s1)" "running ls 1 (next_node s) 0 m s1" "0 < m"
    "queue_is (queue s1) [next_node s]" "\<not> in_background s1" "user2_of s1 = (user2_of s)\<lparr>u_host := h'\<rparr>" by blast
  have q: "int (length ls) < MAX_INT" using assms(4) by (simp add: MAX_INT_def)
  have "0 < length ls" "0 < 3 * m" "length ls - 0 < e_rounds E" "run_lines2 F (drop 0 ls) (user2_of s1) = Some u"
    using assms(3,7,8) s1(3,6) by simp_all
  from scheduler_running [OF D assms(6) q assms(8) s1(2) this(1,2) s1(5,4) this(3,4)] obtain s2 where
    "scheduler_FCFS (e_dead_array E) P (e_rounds E) (e_rounds E) s1 = Returns s2" "user2_of s2 = u" "q_head (queue s2) = None" "\<not> in_background s2"
    unfolding scheduler_FCFS_def by blast
  then show ?thesis using s1(1,5) by (simp add: run_a2_def schedule_by_policy_def Let_def)
qed

text \<open>When reading the dead array for the first line is undefined, so is the run.\<close>

lemma run_a2_undefined:
  assumes s: "fresh2 s" and l: "\<forall>l \<in> set ls. line2_ok l" "ls \<noteq> []"
    and c: "copies_script E name ls (host2 s) h'" and D: "e_dead_array E (hd ls) = None"
  shows "run_a2 E P name s = Undefined"
proof -
  obtain l ls' where ls: "ls = l # ls'" using l(2) by (cases ls) auto
  have ok: "line2_ok l" using l(1) ls by simp
  have one: "decimal_int 1 = ''1''" by code_simp
  have F: "fill_frame (e_dead_array E) [0..<3] (text2 ls) fr = None" for fr
    using D by (simp add: ls upt_conv_Cons readNextCommand_line [OF ok] removeWhitespace_line [OF ok])
  have "loadFrame (e_dead_array E) (text2 ls) 1 st = None" for st
    by (simp add: loadFrame_def Let_def F del: fill_frame.simps)
  then have "load_pages (e_dead_array E) 1 [0, 1] (makePCB (text2 ls) (length ls) q) t = None" for q t
    using l(2) by (simp add: makePCB_def)
  then show ?thesis
    using c s count_commands_text2 [OF l(1)]
    by (simp add: run_a2_def process_initialize_def copies_script_def copy_script_to_backing_store_def call_system_def one
        generatePID_def Let_def fresh2_def del: load_pages.simps)
qed

end
