(* ===== verification/First_Shell.thy ===== *)
theory First_Shell
  imports Outcome
begin

text \<open>
  The shell of the first assignment (\<^verbatim>\<open>src/a1\<close>): variables in an array of 1000 cells, the commands, the
  parser and scripts, whose lines are parsed one after the other.
\<close>

section \<open>Variables\<close>

record cell1 =
  c_var :: string
  c_value :: string

definition mem_init_a1 :: "cell1 list" where
  "mem_init_a1 = replicate 1000 \<lparr>c_var = ''none'', c_value = ''none''\<rparr>"

definition find_cell :: "string \<Rightarrow> cell1 list \<Rightarrow> nat option" where
  "find_cell v m = List.find (\<lambda>i. c_var (m ! i) = v) [0..<length m]"

definition mem_set_value_a1 :: "string \<Rightarrow> string \<Rightarrow> cell1 list \<Rightarrow> cell1 list" where
  "mem_set_value_a1 var_in value_in m =
     (case find_cell var_in m of
        Some i \<Rightarrow> m[i := (m ! i)\<lparr>c_value := value_in\<rparr>]
      | None \<Rightarrow>
          (case find_cell ''none'' m of
             Some i \<Rightarrow> m[i := \<lparr>c_var = var_in, c_value = value_in\<rparr>]
           | None \<Rightarrow> m))"

definition no_such_variable :: string where
  "no_such_variable = ''Variable does not exist''"

definition mem_get_value_a1 :: "string \<Rightarrow> cell1 list \<Rightarrow> string" where
  "mem_get_value_a1 var_in m = (case find_cell var_in m of Some i \<Rightarrow> c_value (m ! i) | None \<Rightarrow> no_such_variable)"

text \<open>Comparing with the model reads as far as the variable is long.\<close>

definition match_a1 :: "string \<Rightarrow> string \<Rightarrow> bool option" where
  "match_a1 model var =
     (if length model + 1 < length var then None
      else Some (length (filter (\<lambda>i. (model @ [CHR 0x00]) ! i = var ! i) [0..<length var]) = length var))"

definition extract_a1 :: "string \<Rightarrow> string option" where
  "extract_a1 model =
     (let v = drop (Suc (length (takeWhile (\<lambda>c. c \<noteq> CHR ''='') model))) model
      in if length v < 1000 then Some v else None)"

section \<open>State and environment\<close>

type_synonym host1 = "string \<Rightarrow> string option"

record shell1 =
  mem1 :: "cell1 list"
  files1 :: host1
  shown :: "string list"

type_synonym parser1 = "string \<Rightarrow> shell1 \<Rightarrow> (int \<times> shell1) outcome"

text \<open>
  \<open>system\<close>, \<open>chdir\<close> and \<open>remove\<close> on the host, the names of directories, and the result of a function
  that ends without \<open>return\<close>.
\<close>

record env1 =
  h_system :: "string \<Rightarrow> host1 \<Rightarrow> int \<times> host1"
  h_chdir :: "string \<Rightarrow> host1 \<Rightarrow> int \<times> host1"
  h_remove :: "string \<Rightarrow> host1 \<Rightarrow> int \<times> host1"
  h_is_dir :: "string \<Rightarrow> host1 \<Rightarrow> bool"
  h_no_return :: int

definition show_text :: "string \<Rightarrow> shell1 \<Rightarrow> shell1" where
  "show_text t s = s\<lparr>shown := shown s @ [t @ [newline]]\<rparr>"

definition on_host :: "(host1 \<Rightarrow> int \<times> host1) \<Rightarrow> shell1 \<Rightarrow> int \<times> shell1" where
  "on_host f s = (let (r, h) = f (files1 s) in (r, s\<lparr>files1 := h\<rparr>))"

section \<open>Commands\<close>

definition badcommand :: "shell1 \<Rightarrow> (int \<times> shell1) outcome" where
  "badcommand s = Returns (1, show_text ''Unknown Command'' s)"

definition badcommandFileDoesNotExist :: "shell1 \<Rightarrow> (int \<times> shell1) outcome" where
  "badcommandFileDoesNotExist s = Returns (3, show_text ''Bad command: File not found'' s)"

definition help_a1 :: "shell1 \<Rightarrow> (int \<times> shell1) outcome" where
  "help_a1 s = Returns (0, show_text ''help'' s)"

definition quit_a1 :: "shell1 \<Rightarrow> (int \<times> shell1) outcome" where
  "quit_a1 s = Exits 0"

definition set_a1 :: "string \<Rightarrow> string \<Rightarrow> shell1 \<Rightarrow> (int \<times> shell1) outcome" where
  "set_a1 v x s = Returns (0, s\<lparr>mem1 := mem_set_value_a1 v x (mem1 s)\<rparr>)"

definition print_a1 :: "string \<Rightarrow> shell1 \<Rightarrow> (int \<times> shell1) outcome" where
  "print_a1 v s = Returns (0, show_text (mem_get_value_a1 v (mem1 s)) s)"

definition echo_a1 :: "string \<Rightarrow> shell1 \<Rightarrow> (int \<times> shell1) outcome" where
  "echo_a1 v s =
     (if take 1 v = ''$'' then
        let x = mem_get_value_a1 (drop 1 v) (mem1 s)
        in Returns (0, show_text (if x = no_such_variable then [] else x) s)
      else Returns (0, show_text v s))"

text \<open>A name, or with a dollar sign the value of a variable, which must not have a space.\<close>

definition resolve_name :: "string \<Rightarrow> shell1 \<Rightarrow> string option" where
  "resolve_name n s =
     (if take 1 n = ''$'' then
        let x = mem_get_value_a1 (drop 1 n) (mem1 s) in if CHR '' '' \<in> set x then None else Some x
      else Some n)"

definition my_mkdir_a1 :: "env1 \<Rightarrow> string \<Rightarrow> shell1 \<Rightarrow> (int \<times> shell1) outcome" where
  "my_mkdir_a1 E dirname s =
     (case resolve_name dirname s of
        None \<Rightarrow> Returns (- 1, show_text ''Bad command: my_mkdir'' s)
      | Some d \<Rightarrow> Returns (on_host (h_system E (''mkdir '' @ d)) s))"

definition my_cd_a1 :: "env1 \<Rightarrow> string \<Rightarrow> shell1 \<Rightarrow> (int \<times> shell1) outcome" where
  "my_cd_a1 E dirname s =
     (if h_is_dir E dirname (files1 s)
      then let (r, s) = on_host (h_chdir E dirname) s in Returns (if r = 0 then 0 else - 1, s)
      else Returns (2, show_text ''Bad command: my_cd'' s))"

definition my_ls_a1 :: "env1 \<Rightarrow> shell1 \<Rightarrow> (int \<times> shell1) outcome" where
  "my_ls_a1 E s = Returns (on_host (h_system E ''ls | sort'') s)"

text \<open>The command is made in an array of 106 bytes.\<close>

definition my_touch_a1 :: "env1 \<Rightarrow> string \<Rightarrow> shell1 \<Rightarrow> (int \<times> shell1) outcome" where
  "my_touch_a1 E filename s =
     (case resolve_name filename s of
        None \<Rightarrow> Returns (- 1, show_text ''Bad command: my_touch'' s)
      | Some f \<Rightarrow> if 106 \<le> length (''touch '' @ f) then Undefined
                  else Returns (on_host (h_system E (''touch '' @ f)) s))"

text \<open>A character 255 counts as the end of the file.\<close>

definition my_cat_a1 :: "string \<Rightarrow> shell1 \<Rightarrow> (int \<times> shell1) outcome" where
  "my_cat_a1 filename s =
     (case files1 s filename of
        None \<Rightarrow> Returns (0, show_text ''Bad command: my_cat'' s)
      | Some t \<Rightarrow> Returns (1, s\<lparr>shown := shown s @ [takeWhile (\<lambda>c. c \<noteq> CHR 0xFF) t]\<rparr>))"

definition my_delete_a1 :: "env1 \<Rightarrow> string \<Rightarrow> shell1 \<Rightarrow> (int \<times> shell1) outcome" where
  "my_delete_a1 E filename s =
     (case resolve_name filename s of
        None \<Rightarrow> Returns (- 1, show_text ''Bad command: my_delete'' s)
      | Some f \<Rightarrow> let (r, s) = on_host (h_remove E f) s
                  in if r \<noteq> 0 then Returns (0, show_text ''Bad command: my_delete'' s) else Returns (1, s))"

section \<open>Scripts\<close>

text \<open>
  The lines a script hands to the parser: after a newline at the end of the file there is one more,
  empty line.
\<close>

function script_lines :: "string \<Rightarrow> string list" where
  "script_lines fp =
     (let (l, r, e) = read_line 998 fp in if e then [l] else l # script_lines r)"
  by pat_completeness auto
termination
proof (relation "measure length")
  fix fp x l y r e
  assume "x = read_line 998 fp" "(l, y) = x" "(r, e) = y" "\<not> e"
  then have f: "fgets 998 fp = (l, r)" "\<not> (length l < 998 \<and> (l = [] \<or> List.last l \<noteq> newline))"
    by (auto simp: read_line_def split: prod.splits)
  have "l \<noteq> []" using f(2) by auto
  then show "(r, fp) \<in> measure length" using fgets_append [OF f(1)] by auto
qed simp

declare script_lines.simps [simp del]

primrec parse_all :: "parser1 \<Rightarrow> string list \<Rightarrow> int \<Rightarrow> shell1 \<Rightarrow> (int \<times> shell1) outcome" where
  "parse_all P [] errCode s = Returns (errCode, s)"
| "parse_all P (l # ls) errCode s = and_then (P l s) (\<lambda>(errCode, s). parse_all P ls errCode s)"

text \<open>The first read from an empty file leaves the line uninitialised.\<close>

definition run_a1 :: "parser1 \<Rightarrow> string \<Rightarrow> shell1 \<Rightarrow> (int \<times> shell1) outcome" where
  "run_a1 P script s =
     (case files1 s script of
        None \<Rightarrow> badcommandFileDoesNotExist s
      | Some fp \<Rightarrow> if fp = [] then Undefined else parse_all P (script_lines fp) 0 s)"

section \<open>The interpreter and the parser\<close>

text \<open>An argument that is not there is an uninitialised pointer.\<close>

definition interpreter_a1 :: "env1 \<Rightarrow> parser1 \<Rightarrow> string list \<Rightarrow> shell1 \<Rightarrow> (int \<times> shell1) outcome" where
  "interpreter_a1 E P command_args s =
     (let n = length command_args; args = map strip command_args; name = args ! 0 in
      if n < 1 \<or> 8 < n then badcommand s
      else if name = ''help'' then (if n \<noteq> 1 then badcommand s else help_a1 s)
      else if name = ''quit'' then (if n \<noteq> 1 then badcommand s else quit_a1 s)
      else if name = ''set'' then
        (if n < 3 \<or> 7 < n then Returns (h_no_return E, show_text ''Bad command: set'' s)
         else let x = args ! 2 @ concat (map (\<lambda>w. CHR '' '' # w) (drop 3 args))
              in if 1000 \<le> length x then Undefined else set_a1 (args ! 1) x s)
      else if name = ''print'' then (if n \<noteq> 2 then badcommand s else print_a1 (args ! 1) s)
      else if name = ''echo'' then (if n \<noteq> 2 then badcommand s else echo_a1 (args ! 1) s)
      else if name = ''my_mkdir'' then
        (if 2 < n then badcommand s else if n < 2 then Undefined else my_mkdir_a1 E (args ! 1) s)
      else if name = ''my_ls'' then (if n \<noteq> 1 then badcommand s else my_ls_a1 E s)
      else if name = ''my_cd'' then
        (if 2 < n then badcommand s else if n < 2 then Undefined else my_cd_a1 E (args ! 1) s)
      else if name = ''my_touch'' then (if n \<noteq> 2 then badcommand s else my_touch_a1 E (args ! 1) s)
      else if name = ''my_cat'' then (if n \<noteq> 2 then badcommand s else my_cat_a1 (args ! 1) s)
      else if name = ''my_delete'' then (if n \<noteq> 2 then badcommand s else my_delete_a1 E (args ! 1) s)
      else if name = ''run'' then (if n \<noteq> 2 then badcommand s else run_a1 P (args ! 1) s)
      else badcommand s)"

text \<open>A semicolon only separates words, and two separators in a row make an empty word.\<close>

definition separator1 :: "char \<Rightarrow> bool" where
  "separator1 c \<longleftrightarrow> c = CHR '';'' \<or> c = newline \<or> c = CHR '' ''"

function words_a1 :: "string \<Rightarrow> string list" where
  "words_a1 ui =
     (if ui = [] \<or> take 1 ui = [newline] then []
      else let rest = dropWhile (\<lambda>c. \<not> separator1 c) ui
           in takeWhile (\<lambda>c. \<not> separator1 c) ui # (if rest = [] then [] else words_a1 (drop 1 rest)))"
  by pat_completeness auto
termination
proof (relation "measure length")
  fix ui rest
  assume "rest = dropWhile (\<lambda>c. \<not> separator1 c) ui" "rest \<noteq> []"
  moreover from this have "length rest \<le> length ui" "0 < length rest"
    using length_dropWhile_le [of "\<lambda>c. \<not> separator1 c" ui] by simp_all
  ultimately show "(drop 1 rest, ui) \<in> measure length" by (simp del: length_greater_0_conv)
qed simp

declare words_a1.simps [simp del]

text \<open>A word has room for 199 characters, the line for 100 words.\<close>

primrec parse_a1 :: "env1 \<Rightarrow> nat \<Rightarrow> parser1" where
  "parse_a1 E 0 ui s = Unfinished"
| "parse_a1 E (Suc fuel) ui s =
     (let words = words_a1 (dropWhile (\<lambda>c. c = CHR '' '') (c_str ui))
      in if 100 < length words \<or> (\<exists>w \<in> set words. 200 \<le> length w) then Undefined
         else interpreter_a1 E (parse_a1 E fuel) words s)"

section \<open>The main program\<close>

primrec input_loop_a1 :: "env1 \<Rightarrow> nat \<Rightarrow> string list \<Rightarrow> shell1 \<Rightarrow> shell1 outcome" where
  "input_loop_a1 E fuel [] s = Returns s"
| "input_loop_a1 E fuel (line # lines) s =
     and_then (parse_a1 E fuel line s) (\<lambda>(code, s). if code = - 1 then Exits 99 else input_loop_a1 E fuel lines s)"

definition main_a1 :: "env1 \<Rightarrow> nat \<Rightarrow> string list \<Rightarrow> host1 \<Rightarrow> shell1 outcome" where
  "main_a1 E fuel lines h =
     input_loop_a1 E fuel lines \<lparr>mem1 = mem_init_a1, files1 = h, shown = [''Shell v1.0'', ''help'']\<rparr>"

section \<open>Lines and words\<close>

definition word1 :: "string \<Rightarrow> bool" where
  "word1 w \<longleftrightarrow> w \<noteq> [] \<and> length w < 200 \<and> (\<forall>c \<in> set w. \<not> separator1 c \<and> c \<noteq> CHR 0x0D \<and> c \<noteq> CHR 0x00)"

fun spaced :: "string list \<Rightarrow> string" where
  "spaced [] = []"
| "spaced [w] = w"
| "spaced (w # ws) = w @ CHR '' '' # spaced ws"

lemma word1D:
  assumes "word1 w"
  shows "w \<noteq> []" "length w < 200" "take 1 w \<noteq> [newline]" "strip w = w" "CHR 0x00 \<notin> set w" "hd w \<noteq> CHR '' ''"
    "takeWhile (\<lambda>c. \<not> separator1 c) (w @ r) = w @ takeWhile (\<lambda>c. \<not> separator1 c) r"
    "dropWhile (\<lambda>c. \<not> separator1 c) (w @ r) = dropWhile (\<lambda>c. \<not> separator1 c) r"
proof -
  have w: "w \<noteq> []" "length w < 200" "\<And>c. c \<in> set w \<Longrightarrow> \<not> separator1 c \<and> c \<noteq> CHR 0x0D \<and> c \<noteq> CHR 0x00"
    using assms by (auto simp: word1_def)
  show "w \<noteq> []" "length w < 200" by fact+
  show "CHR 0x00 \<notin> set w" using w(3) by blast
  show "take 1 w \<noteq> [newline]" "hd w \<noteq> CHR '' ''"
    using w(1) w(3) [of "hd w"] by (cases w; auto simp: separator1_def)+
  have "newline \<notin> set w" using w(3) [of newline] by (auto simp: separator1_def)
  then show "strip w = w" using w(3) unfolding strip_def by (intro takeWhile_eq_all_conv [THEN iffD2]) auto
  show "takeWhile (\<lambda>c. \<not> separator1 c) (w @ r) = w @ takeWhile (\<lambda>c. \<not> separator1 c) r"
    by (rule takeWhile_append2) (use w(3) in blast)
  show "dropWhile (\<lambda>c. \<not> separator1 c) (w @ r) = dropWhile (\<lambda>c. \<not> separator1 c) r"
    by (rule dropWhile_append2) (use w(3) in blast)
qed

lemma words_spaced:
  "\<forall>w \<in> set ws. word1 w \<Longrightarrow> ws \<noteq> [] \<Longrightarrow> nl = [] \<or> nl = [newline] \<Longrightarrow> words_a1 (spaced ws @ nl) = ws"
proof (induction ws rule: spaced.induct)
  case (2 w)
  then have w: "word1 w" by simp
  note W = word1D [OF w]
  have "take 1 (w @ nl) \<noteq> [newline]" using W(1,3) by (cases w) auto
  moreover have "separator1 newline" by (simp add: separator1_def)
  ultimately show ?case
    using W(1,7,8) 2(3) by (subst words_a1.simps) (auto simp: Let_def words_a1.simps [of "[]"])
next
  case (3 w v ws)
  then have w: "word1 w" by simp
  note W = word1D [OF w]
  let ?r = "spaced (v # ws) @ nl"
  have "take 1 (w @ CHR '' '' # ?r) \<noteq> [newline]" using W(1,3) by (cases w) auto
  moreover have "separator1 (CHR '' '')" by (simp add: separator1_def)
  moreover have "words_a1 ?r = v # ws" using 3 by simp
  ultimately show ?case using W(1) W(7,8) [of "CHR '' '' # ?r"] by (subst words_a1.simps) (simp add: Let_def)
qed simp

lemma spaced_facts:
  "\<forall>w \<in> set ws. word1 w \<Longrightarrow> ws \<noteq> [] \<Longrightarrow> spaced ws \<noteq> [] \<and> hd (spaced ws) \<noteq> CHR '' '' \<and> CHR 0x00 \<notin> set (spaced ws)"
proof (induction ws rule: spaced.induct)
  case (3 w v ws)
  then have "word1 w" by simp
  from word1D(1,5,6) [OF this] 3 show ?case by (cases w) auto
qed (auto dest: word1D)

text \<open>A line of words is cut into these words.\<close>

lemma parse_spaced:
  assumes "\<forall>w \<in> set ws. word1 w" and "ws \<noteq> []" and "length ws \<le> 100" and "nl = [] \<or> nl = [newline]"
  shows "parse_a1 E (Suc fuel) (spaced ws @ nl) s = interpreter_a1 E (parse_a1 E fuel) ws s"
proof -
  note F = spaced_facts [OF assms(1,2)]
  have "c_str (spaced ws @ nl) = spaced ws @ nl"
    unfolding c_str_def using F assms(4) by (intro takeWhile_eq_all_conv [THEN iffD2]) auto
  moreover have "dropWhile (\<lambda>c. c = CHR '' '') (spaced ws @ nl) = spaced ws @ nl"
    using F by (cases "spaced ws") auto
  moreover have "\<not> (\<exists>w \<in> set ws. 200 \<le> length w)" using assms(1) by (auto dest!: word1D(2) simp: not_le)
  ultimately show ?thesis using words_spaced [OF assms(1,2,4)] assms(3) by (simp add: Let_def)
qed

section \<open>Setting and printing a variable\<close>

definition has_room :: "string \<Rightarrow> cell1 list \<Rightarrow> bool" where
  "has_room v m \<longleftrightarrow> find_cell v m \<noteq> None \<or> find_cell ''none'' m \<noteq> None"

lemma find_cellD: "find_cell v m = Some i \<Longrightarrow> i < length m \<and> c_var (m ! i) = v \<and> (\<forall>j < i. c_var (m ! j) \<noteq> v)"
  by (auto simp: find_cell_def find_upt_Some_iff)

lemma find_cellI:
  "i < length m \<Longrightarrow> c_var (m ! i) = v \<Longrightarrow> \<forall>j < i. c_var (m ! j) \<noteq> v \<Longrightarrow> find_cell v m = Some i"
  by (auto simp: find_cell_def find_upt_Some_iff)

lemma find_cell_none: "find_cell v m = None \<longleftrightarrow> (\<forall>i < length m. c_var (m ! i) \<noteq> v)"
  by (auto simp: find_cell_def find_upt_None_iff)

lemma find_cell_other:
  assumes "i < length m" and "c_var (m ! i) \<noteq> w" and "c_var c \<noteq> w"
  shows "find_cell w (m[i := c]) = find_cell w m"
  unfolding find_cell_def length_list_update
  by (rule find_cong) (use assms in \<open>auto simp: nth_list_update\<close>)

lemma mem_set_get_a1:
  assumes "has_room v m" and "v \<noteq> ''none''" and "w \<noteq> ''none''"
  shows "mem_get_value_a1 w (mem_set_value_a1 v x m) = (if w = v then x else mem_get_value_a1 w m)"
proof (cases "find_cell v m")
  case (Some i)
  note i = find_cellD [OF Some]
  have "find_cell v (m[i := (m ! i)\<lparr>c_value := x\<rparr>]) = Some i" using i by (intro find_cellI) auto
  moreover have "find_cell w (m[i := (m ! i)\<lparr>c_value := x\<rparr>]) = find_cell w m" if "w \<noteq> v"
    using i that by (intro find_cell_other) auto
  moreover have "j \<noteq> i" if "find_cell w m = Some j" "w \<noteq> v" for j using find_cellD [OF that(1)] i that(2) by auto
  ultimately show ?thesis
    using Some i by (cases "find_cell w m") (auto simp: mem_get_value_a1_def mem_set_value_a1_def)
next
  case None
  with assms(1) obtain i where f: "find_cell ''none'' m = Some i" by (auto simp: has_room_def)
  note i = find_cellD [OF f]
  let ?c = "\<lparr>c_var = v, c_value = x\<rparr>"
  have "find_cell v (m[i := ?c]) = Some i" using i None by (intro find_cellI) (auto simp: find_cell_none)
  moreover have "find_cell w (m[i := ?c]) = find_cell w m" if "w \<noteq> v"
    using i that assms(3) by (intro find_cell_other) auto
  moreover have "j \<noteq> i" if "find_cell w m = Some j" for j using find_cellD [OF that] i assms(3) by auto
  ultimately show ?thesis
    using None f i by (cases "find_cell w m") (auto simp: mem_get_value_a1_def mem_set_value_a1_def)
qed

lemma spaced_join: "ws \<noteq> [] \<Longrightarrow> spaced ws = hd ws @ concat (map (\<lambda>w. CHR '' '' # w) (tl ws))"
  by (induction ws rule: spaced.induct) auto

lemma length_spaced: "\<forall>w \<in> set ws. word1 w \<Longrightarrow> length (spaced ws) \<le> 200 * length ws - 1"
proof (induction ws rule: spaced.induct)
  case (2 w)
  then show ?case using word1D(2) [of w] by simp
next
  case (3 w v ws)
  then have "length w < 200" using word1D(2) [of w] by simp
  with 3 show ?case by simp
qed simp

lemma strip_words: "\<forall>w \<in> set ws. word1 w \<Longrightarrow> map strip ws = ws"
  by (induction ws) (auto dest: word1D(4))

lemma word1_names: "word1 ''set''" "word1 ''print''"
  by (simp_all add: word1_def separator1_def)

lemma interpreter_set_a1:
  assumes "\<forall>w \<in> set (v # ws). word1 w" and "ws \<noteq> []" and "length ws \<le> 5"
  shows "interpreter_a1 E P (''set'' # v # ws) s = set_a1 v (spaced ws) s"
proof -
  obtain w us where ws: "ws = w # us" using assms(2) by (cases ws) auto
  have "map strip (''set'' # v # ws) = ''set'' # v # ws" using assms(1) word1_names by (intro strip_words) auto
  moreover have "length (spaced ws) < 1000" using length_spaced [of ws] assms by (simp add: ws)
  moreover have "w @ concat (map (\<lambda>w. CHR '' '' # w) us) = spaced ws" using spaced_join [of ws] ws by simp
  ultimately show ?thesis
    using assms(3) by (simp add: interpreter_a1_def Let_def ws numeral_2_eq_2 numeral_3_eq_3 del: list.map)
qed

lemma interpreter_print_a1: "word1 u \<Longrightarrow> interpreter_a1 E P [''print'', u] s = print_a1 u s"
  using strip_words [of "[''print'', u]"] word1_names(2) by (simp add: interpreter_a1_def Let_def del: list.map)

text \<open>
  C38: In the shell of the first assignment, after a line that sets a variable to up to five words,
  the line that prints the variable shows these words, separated by single spaces, and every other
  variable is shown as before, as long as there is a cell for the variable.
\<close>

theorem set_then_print_a1:
  assumes "\<forall>w \<in> set (v # ws). word1 w" and "ws \<noteq> []" and "length ws \<le> 5" and "word1 u"
    and "v \<noteq> ''none''" and "u \<noteq> ''none''" and "has_room v (mem1 s)"
  shows "\<exists>s'. parse_a1 E (Suc fuel) (spaced (''set'' # v # ws) @ [newline]) s = Returns (0, s') \<and>
    shown s' = shown s \<and> files1 s' = files1 s \<and>
    parse_a1 E (Suc fuel) (spaced [''print'', u] @ [newline]) s' =
      Returns (0, show_text (if u = v then spaced ws else mem_get_value_a1 u (mem1 s)) s')"
proof -
  have "parse_a1 E (Suc fuel) (spaced (''set'' # v # ws) @ [newline]) s = set_a1 v (spaced ws) s"
    using parse_spaced [of "''set'' # v # ws" "[newline]" E fuel s] interpreter_set_a1 [OF assms(1-3)] assms(1,3) word1_names
    by (simp del: parse_a1.simps spaced.simps)
  moreover have "parse_a1 E (Suc fuel) (spaced [''print'', u] @ [newline]) t = print_a1 u t" for t
    using parse_spaced [of "[''print'', u]" "[newline]" E fuel t] interpreter_print_a1 [OF assms(4)] assms(4) word1_names
    by (simp del: parse_a1.simps spaced.simps)
  ultimately show ?thesis
    using mem_set_get_a1 [OF assms(7,5,6)] by (simp add: set_a1_def print_a1_def del: parse_a1.simps spaced.simps)
qed

definition fresh_shell1 :: shell1 where
  "fresh_shell1 = \<lparr>mem1 = mem_init_a1, files1 = Map.empty, shown = []\<rparr>"

theorem set_then_print_a1_witness:
  "\<forall>E. \<exists>s'. parse_a1 E (Suc 0) (''print x'' @ [newline]) s' = Returns (0, show_text ''a b'' s') \<and> shown s' = []"
proof
  fix E
  have "find_cell ''none'' mem_init_a1 = Some 0" by (rule find_cellI) (simp_all add: mem_init_a1_def)
  then have "has_room ''x'' (mem1 fresh_shell1)" by (simp add: has_room_def fresh_shell1_def)
  moreover have "word1 ''x''" "word1 ''a''" "word1 ''b''" by (simp_all add: word1_def separator1_def)
  ultimately show "\<exists>s'. parse_a1 E (Suc 0) (''print x'' @ [newline]) s' = Returns (0, show_text ''a b'' s') \<and> shown s' = []"
    using set_then_print_a1 [of "''x''" "[''a'', ''b'']" "''x''" fresh_shell1 E 0]
    by (auto simp: fresh_shell1_def simp del: parse_a1.simps)
qed

end
