(* ===== verification/Second_Commands.thy ===== *)
theory Second_Commands
  imports Second_Run First_Shell
begin

text \<open>
  Scripts of \<^verbatim>\<open>set\<close>, \<^verbatim>\<open>print\<close> and \<^verbatim>\<open>echo\<close> commands in the shell of the second assignment: the parser
  cuts their lines into words, and running the script has the effect of the commands in order.
\<close>

declare upt_rec_numeral [simp del]

section \<open>The commands of a script\<close>

text \<open>A line of words is cut into these words.\<close>

lemma words_loop_spaced:
  assumes "nl = [] \<or> nl = [newline]"
  shows "\<forall>w \<in> set ws. word1 w \<Longrightarrow> length acc + length ws \<le> 100 \<Longrightarrow> length ws < k \<Longrightarrow>
    words_loop E P k (spaced ws @ nl) (length acc) acc s = interpreter_a2 E P (acc @ ws) (length (acc @ ws)) s"
proof (induction ws arbitrary: acc k rule: spaced.induct)
  case 1
  then obtain k' where "k = Suc k'" by (cases k) auto
  then show ?case using assms by auto
next
  case (2 w)
  then obtain k' where k: "k = Suc (Suc k')" by (cases k; cases "k - 1") auto
  have w: "word1 w" using 2 by simp
  note W = word1D [OF w]
  have sep: "separator1 = (\<lambda>c. c = CHR '';'' \<or> c = newline \<or> c = CHR '' '')" by (auto simp: separator1_def)
  have d: "dropWhile (\<lambda>c. c = CHR '' '') (w @ nl) = w @ nl" using W(1,6) by (cases w) auto
  have "take 1 (w @ nl) \<noteq> [newline]" using W(1,3) by (cases w) auto
  moreover have "takeWhile (\<lambda>c. \<not> separator1 c) (w @ nl) = w" "dropWhile (\<lambda>c. \<not> separator1 c) (w @ nl) = nl"
    unfolding W(7,8) using assms by (auto simp: separator1_def)
  moreover have "drop 1 nl = []" "take 1 nl \<noteq> '';''" using assms by auto
  ultimately have "words_loop E P k (w @ nl) (length acc) acc s = words_loop E P (Suc k') [] (Suc (length acc)) (acc @ [w]) s"
    using W(1,2) 2(2) d by (simp add: k Let_def sep del: words_loop.simps(1))
  then show ?case by simp
next
  case (3 w v ws)
  then obtain k' where k: "k = Suc k'" by (cases k) auto
  have w: "word1 w" using 3 by simp
  note W = word1D [OF w]
  let ?r = "spaced (v # ws) @ nl"
  have sep: "separator1 = (\<lambda>c. c = CHR '';'' \<or> c = newline \<or> c = CHR '' '')" by (auto simp: separator1_def)
  have d: "dropWhile (\<lambda>c. c = CHR '' '') (w @ CHR '' '' # ?r) = w @ CHR '' '' # ?r" using W(1,6) by (cases w) auto
  have "take 1 (w @ CHR '' '' # ?r) \<noteq> [newline]" using W(1,3) by (cases w) auto
  moreover have "takeWhile (\<lambda>c. \<not> separator1 c) (w @ CHR '' '' # ?r) = w"
    "dropWhile (\<lambda>c. \<not> separator1 c) (w @ CHR '' '' # ?r) = CHR '' '' # ?r"
    unfolding W(7,8) by (simp_all add: separator1_def)
  moreover have "words_loop E P k' ?r (length (acc @ [w])) (acc @ [w]) s =
      interpreter_a2 E P ((acc @ [w]) @ v # ws) (length ((acc @ [w]) @ v # ws)) s"
    using 3 by (intro 3(1)) (auto simp: k)
  ultimately show ?case using W(1,2) 3(3) d by (simp add: k Let_def sep)
qed

lemma parse_line_spaced:
  assumes "\<forall>w \<in> set ws. word1 w" and "ws \<noteq> []" and "length ws \<le> 100" and "length ws < e_rounds E" and "nl = [] \<or> nl = [newline]"
  shows "parse_line E (Suc fuel) (spaced ws @ nl) s = interpreter_a2 E (parse_line E fuel) ws (length ws) s"
proof -
  note F = spaced_facts [OF assms(1,2)]
  have "c_str (spaced ws @ nl) = spaced ws @ nl"
    unfolding c_str_def using F assms(5) by (intro takeWhile_eq_all_conv [THEN iffD2]) auto
  moreover have "dropWhile (\<lambda>c. c = CHR '' '') (spaced ws @ nl) = spaced ws @ nl"
    using F by (cases "spaced ws") auto
  ultimately show ?thesis using words_loop_spaced [OF assms(5,1), of "[]"] assms(3,4) by simp
qed

datatype command2 = Assign2 string string | Show2 string | Echo2 string

primrec command2_words :: "command2 \<Rightarrow> string list" where
  "command2_words (Assign2 v x) = [''set'', v, x]"
| "command2_words (Show2 v) = [''print'', v]"
| "command2_words (Echo2 w) = [''echo'', w]"

definition command2_text :: "command2 \<Rightarrow> string" where
  "command2_text c = spaced (command2_words c)"

definition word2 :: "string \<Rightarrow> bool" where
  "word2 w \<longleftrightarrow> word1 w \<and> CHR 0xFF \<notin> set w \<and> take 1 w \<noteq> ''$''"

definition command2_ok :: "command2 \<Rightarrow> bool" where
  "command2_ok c \<longleftrightarrow> (\<forall>w \<in> set (command2_words c). word2 w)"

primrec do_command2 :: "command2 \<Rightarrow> user2 \<Rightarrow> user2 option" where
  "do_command2 (Assign2 v x) u = Some (u\<lparr>u_vars := shellvars (set_variable v x
     \<lparr>shellvars = u_vars u, shellframes = [], num_lru = 0, shellmemory = []\<rparr>)\<rparr>)"
| "do_command2 (Show2 v) u =
     map_option (\<lambda>r. u\<lparr>u_printed := u_printed u @ [(case r of None \<Rightarrow> [newline] | Some x \<Rightarrow> x) @ [newline]]\<rparr>)
       (get_variable v (u_vars u))"
| "do_command2 (Echo2 w) u = Some (u\<lparr>u_printed := u_printed u @ [w @ [newline]]\<rparr>)"

primrec do_commands2 :: "command2 list \<Rightarrow> user2 \<Rightarrow> user2 option" where
  "do_commands2 [] u = Some u"
| "do_commands2 (c # cs) u = do { u \<leftarrow> do_command2 c u; do_commands2 cs u }"

lemma set_variable_vars:
  "st\<lparr>shellvars := shellvars (set_variable v x \<lparr>shellvars = shellvars st, shellframes = fr, num_lru = n, shellmemory = m\<rparr>)\<rparr> =
   set_variable v x st"
  by (simp add: set_variable_def split: option.split)

lemma command_line_text:
  assumes "command2_ok c"
  shows "line2_ok (command2_text c)"
proof -
  have w: "\<forall>w \<in> set (command2_words c). word1 w \<and> CHR 0xFF \<notin> set w" and ne: "command2_words c \<noteq> []"
    using assms by (auto simp: command2_ok_def word2_def; cases c; simp)+
  then have "spaced (command2_words c) \<noteq> [] \<and> hd (spaced (command2_words c)) \<noteq> CHR '' '' \<and> CHR 0x00 \<notin> set (spaced (command2_words c))"
    by (intro spaced_facts) auto
  moreover have "length (spaced (command2_words c)) \<le> 200 * length (command2_words c) - 1" using w by (intro length_spaced) simp
  moreover have "length (command2_words c) \<le> 3" by (cases c) simp_all
  moreover have "newline \<notin> set w" if "word1 w" for w using that by (auto simp: word1_def separator1_def)
  then have "newline \<notin> set (spaced (command2_words c)) \<and> CHR 0xFF \<notin> set (spaced (command2_words c))"
    using w by (cases c) auto
  moreover have "hd (spaced (command2_words c)) \<noteq> CHR 0x09" by (cases c) simp_all
  ultimately show ?thesis by (auto simp: line2_ok_def command2_text_def)
qed

lemma words_are_stripped:
  assumes "\<forall>w \<in> set ws. word1 w" and "length ws \<le> 7" and "ws \<noteq> []"
  shows "strip_args (length ws) ws = ws"
  using assms strip_words [OF assms(1)] by (simp add: strip_args_def MAX_ARGS_SIZE_def)

lemma parse_line_command:
  assumes "command2_ok c" and "3 < e_rounds E"
  shows "parse_line E (Suc fuel) (command2_text c) s =
    (case do_command2 c (user2_of s) of None \<Rightarrow> Undefined | Some u \<Rightarrow> Returns (0, put_user2 u s))"
proof -
  let ?ws = "command2_words c"
  have w: "\<forall>w \<in> set ?ws. word1 w \<and> take 1 w \<noteq> ''$''" using assms(1) by (auto simp: command2_ok_def word2_def)
  have l: "?ws \<noteq> []" "length ?ws \<le> 3" by (cases c; simp)+
  have "parse_line E (Suc fuel) (command2_text c) s = interpreter_a2 E (parse_line E fuel) ?ws (length ?ws) s"
    using parse_line_spaced [of ?ws E "[]" fuel s] w l assms(2) by (simp add: command2_text_def del: parse_line.simps)
  moreover have "strip_args (length ?ws) ?ws = ?ws" using w l by (intro words_are_stripped) auto
  moreover have "interpreter_a2 E P ?ws (length ?ws) s =
      (case do_command2 c (user2_of s) of None \<Rightarrow> Undefined | Some u \<Rightarrow> Returns (0, put_user2 u s))"
    if "strip_args (length ?ws) ?ws = ?ws" for P
  proof (cases c)
    case (Assign2 v x)
    then have "length v < 200" "length x < 200" using w word1D(2) by auto
    then have "\<not> 1000 \<le> length v + 1 + length x" by simp
    then show ?thesis using that Assign2
      by (simp add: interpreter_a2_def MAX_ARGS_SIZE_def Let_def set_a2_def put_user2_def user2_of_def set_variable_vars
          numeral_2_eq_2 numeral_3_eq_3 upt_rec)
  next
    case (Show2 v)
    then show ?thesis using that
      by (simp add: interpreter_a2_def MAX_ARGS_SIZE_def Let_def print_a2_def say_def put_user2_def user2_of_def split: option.split)
  next
    case (Echo2 v)
    then show ?thesis using that w
      by (simp add: interpreter_a2_def MAX_ARGS_SIZE_def Let_def second_word_def echo_a2_def say_def put_user2_def user2_of_def)
  qed
  ultimately show ?thesis by simp
qed

text \<open>The effect of the parser on a line, as a function of what it may change.\<close>

definition parsed_effect :: "parser2 \<Rightarrow> shell2 \<Rightarrow> string \<Rightarrow> user2 \<Rightarrow> (int \<times> user2) option" where
  "parsed_effect P s l u = (case P l (put_user2 u s) of Returns (r, s') \<Rightarrow> Some (r, user2_of s') | _ \<Rightarrow> None)"

lemma parsed_effect_command:
  assumes "command2_ok c" and "3 < e_rounds E"
  shows "parsed_effect (parse_line E (Suc fuel)) s (command2_text c) u = map_option (Pair 0) (do_command2 c u)"
  unfolding parsed_effect_def parse_line_command [OF assms] by (simp split: option.split)

lemma plain_on_commands:
  assumes "\<forall>c \<in> set cs. command2_ok c" and "3 < e_rounds E"
  shows "plain_on2 (set (map command2_text cs)) (parsed_effect (parse_line E (Suc fuel)) s0) (parse_line E (Suc fuel))"
  using assms parsed_effect_command [OF _ assms(2)] parse_line_command [OF _ assms(2)]
  by (auto simp: plain_on2_def simp del: parse_line.simps split: option.split)

lemma run_lines2_commands:
  assumes "\<forall>c \<in> set cs. command2_ok c" and "3 < e_rounds E"
  shows "run_lines2 (parsed_effect (parse_line E (Suc fuel)) s0) (map command2_text cs) u = do_commands2 cs u"
  using assms(1)
proof (induction cs arbitrary: u)
  case (Cons c cs)
  then show ?case using parsed_effect_command [OF _ assms(2)]
    by (cases "do_command2 c u") (simp_all del: parse_line.simps)
qed simp

section \<open>The whole run\<close>

text \<open>
  C11: In the shell of the second assignment, freshly started, what the line that runs a script of up to
  69 commands does depends on the array that \<open>removeWhitespace\<close> leaves behind dead. If reading it is
  undefined for the first command, the whole line is undefined. If it is intact for every command, the
  line executes all of them in their order, each with its effect on the variables and on what is printed,
  and the shell returns with an empty queue; pages that are not loaded at the start are brought in by
  page faults on the way.
\<close>

theorem run_a2_executes_script:
  assumes "fresh2 s" and "word1 name" and "\<forall>c \<in> set cs. command2_ok c" and "cs \<noteq> []" and "length cs \<le> 69"
    and "copies_script E name (map command2_text cs) (host2 s) h'"
    and "do_commands2 cs ((user2_of s)\<lparr>u_host := h'\<rparr>) = Some u" and "max 3 (length cs) < e_rounds E"
  shows "(e_dead_array E (command2_text (hd cs)) = None \<longrightarrow>
       parse_line E (Suc (Suc fuel)) (''run '' @ name @ [newline]) s = Undefined) \<and>
    (intact (e_dead_array E) (map command2_text cs) \<longrightarrow>
       (\<exists>s'. parse_line E (Suc (Suc fuel)) (''run '' @ name @ [newline]) s = Returns (0, s') \<and> user2_of s' = u \<and>
          q_head (queue s') = None))"
proof -
  have r: "3 < e_rounds E" "length (map command2_text cs) < e_rounds E" using assms(8) by simp_all
  have ls: "\<forall>l \<in> set (map command2_text cs). line2_ok l" using assms(3) command_line_text by auto
  have "word1 ''run''" by (simp add: word1_def separator1_def)
  with assms(2) have w: "\<forall>w \<in> set [''run'', name]. word1 w" by simp
  have "parse_line E (Suc (Suc fuel)) (''run '' @ name @ [newline]) s = interpreter_a2 E (parse_line E (Suc fuel)) [''run'', name] 2 s"
    using parse_line_spaced [OF w, of E "[newline]" "Suc fuel" s] r(1) by (simp add: numeral_2_eq_2 del: parse_line.simps)
  also have "\<dots> = run_a2 E (parse_line E (Suc fuel)) name s"
    using words_are_stripped [OF w] by (simp add: interpreter_a2_def MAX_ARGS_SIZE_def Let_def numeral_2_eq_2)
  finally have run: "parse_line E (Suc (Suc fuel)) (''run '' @ name @ [newline]) s = run_a2 E (parse_line E (Suc fuel)) name s" .
  have ne: "map command2_text cs \<noteq> []" "length (map command2_text cs) \<le> 69" using assms(4,5) by simp_all
  have "hd (map command2_text cs) = command2_text (hd cs)" using assms(4) by (rule list.map_sel)
  then show ?thesis unfolding run
    using run_a2_undefined [OF assms(1) ls ne(1) assms(6)]
      run_a2_executes [OF assms(1) ls ne assms(6) plain_on_commands [OF assms(3) r(1)] _ r(2), of fuel s u]
      run_lines2_commands [OF assms(3) r(1)] assms(7) by (auto simp del: parse_line.simps)
qed

text \<open>A host with one script of four commands.\<close>

definition script2 :: "command2 list" where
  "script2 = [Assign2 ''x'' ''one'', Show2 ''x'', Echo2 ''two'', Echo2 ''three'']"

definition host_before :: "string \<Rightarrow> string option" where
  "host_before = [''s'' \<mapsto> text2 (map command2_text script2)]"

definition copying_env :: env2 where
  "copying_env = \<lparr>e_system = (\<lambda>c h. (0, if take 3 c = ''cp '' then h(''backing_store/s.1'' \<mapsto> text2 (map command2_text script2)) else h)),
     e_chdir = (\<lambda>_ h. (- 1, h)), e_is_dir = (\<lambda>_ _. False), e_rounds = 5, e_no_return = 0, e_dead_array = Some\<rparr>"

theorem run_a2_executes_script_witness:
  "(\<exists>s'. parse_line copying_env 2 (''run s'' @ [newline]) (boot_a2 copying_env host_before) = Returns (0, s') \<and>
     drop 2 (printed s') = map (\<lambda>w. w @ [newline]) [''one'', ''two'', ''three''] \<and> q_head (queue s') = None) \<and>
   parse_line (copying_env\<lparr>e_dead_array := \<lambda>_. None\<rparr>) 2 (''run s'' @ [newline]) (boot_a2 copying_env host_before) = Undefined"
proof -
  let ?s = "boot_a2 copying_env host_before"
  let ?h = "host_before(''backing_store/s.1'' \<mapsto> text2 (map command2_text script2))"
  have vars: "replicate SHELL_VARS c = c # replicate 99 c" for c :: var_cell
    using replicate_Suc [of 99 c] by simp
  have start: "fresh2 ?s" "word1 ''s''" "\<forall>c \<in> set script2. command2_ok c" "script2 \<noteq> []" "length script2 \<le> 69"
    by (simp_all add: fresh2_def boot_a2_def Let_def init_store_def word1_def separator1_def
        script2_def command2_ok_def word2_def)
  have copies: "copies_script (copying_env\<lparr>e_dead_array := D\<rparr>) ''s'' (map command2_text script2) (host2 ?s) ?h" for D
    by (simp add: copies_script_def boot_a2_def Let_def copying_env_def host_before_def)
  have rounds: "max 3 (length script2) < e_rounds (copying_env\<lparr>e_dead_array := D\<rparr>)" for D
    by (simp add: script2_def copying_env_def)
  obtain u where u: "do_commands2 script2 ((user2_of ?s)\<lparr>u_host := ?h\<rparr>) = Some u"
      "drop 2 (u_printed u) = map (\<lambda>w. w @ [newline]) [''one'', ''two'', ''three'']"
    using vars by (simp add: script2_def user2_of_def boot_a2_def Let_def init_store_def set_variable_def null_cell_def upt_rec)
  note run = run_a2_executes_script [OF start copies u(1) rounds, of _ 0]
  have env: "copying_env\<lparr>e_dead_array := Some\<rparr> = copying_env" by (simp add: copying_env_def)
  have "intact Some (map command2_text script2)" by (simp add: intact_def)
  with run [of Some] obtain s' where
    "parse_line copying_env 2 (''run s'' @ [newline]) ?s = Returns (0, s')" "user2_of s' = u" "q_head (queue s') = None"
    unfolding env by (auto simp: numeral_2_eq_2 copying_env_def simp del: parse_line.simps)
  moreover have "parse_line (copying_env\<lparr>e_dead_array := \<lambda>_. None\<rparr>) 2 (''run s'' @ [newline]) ?s = Undefined"
    using run [of "\<lambda>_. None"] by (simp add: numeral_2_eq_2 del: parse_line.simps)
  ultimately show ?thesis using u(2) by (auto simp: user2_of_def)
qed

end
