(* ===== verification/Spec2Isabelle.thy ===== *)
theory Spec2Isabelle
  imports File_Commands Partition Llist Naming Restart Removal Linked_List Shell_Safety Second_Commands Page_Faults
begin

text \<open>
  \<^bold>\<open>A verified model of the teaching operating system of COMP 310.\<close>

  The program is a shell that simulates parts of an operating system. Its last and largest version,
  \<^verbatim>\<open>src/a3\<close>, runs scripts as processes: a script is copied into a backing store, its lines are loaded
  in pages of three into the frames of a common memory, a round robin or a first come first served
  scheduler executes them, and page faults evict the least recently used page. Its other half,
  \<^verbatim>\<open>src/a3/fs\<close>, is a file system on a disk image: block devices, a write-back cache, inodes with direct,
  indirect and doubly indirect blocks, a free map kept in a file of its own, directories, open
  files, and commands that list, read, write, copy, search, defragment and recover files. Two earlier
  versions of the shell, \<^verbatim>\<open>src/a1\<close> and \<^verbatim>\<open>src/a2\<close>, are separate programs.

  \<^bold>\<open>How the code is modelled.\<close> Every C function is a definition with the name of the function, over a
  state that is passed explicitly. An \<open>option\<close> result is \<open>None\<close> where the C code would have undefined
  behaviour (a null or dangling pointer, an access outside an array, an overflow of \<open>int\<close>); the one
  exception is the dead local array that \<open>removeWhitespace\<close> of \<^verbatim>\<open>src/a2\<close> returns and through which every
  script line goes: what the caller finds in it is a parameter (\<open>dead_array\<close>), \<open>None\<close> for undefined.
  Integers of a fixed width are words, or integers with the test that they stay in range written out. The
  shell, which can also exit or run for ever, returns an \<open>outcome\<close>: \<open>Returns\<close>, \<open>Exits\<close> with a code,
  \<open>Undefined\<close>, or \<open>Unfinished\<close> when the fuel is used up. Objects that are shared through pointers
  live in heaps (\<open>nat \<Rightarrow> 'a option\<close>). \<open>malloc\<close> is taken to succeed. \<open>ASSERT\<close> and \<open>PANIC\<close> of this code
  base only print, so they do not stop anything here either.

  \<^bold>\<open>The file system\<close>, from the disk upwards:
  \<^item> \<^theory_text>\<open>Block_Device\<close> (\<^verbatim>\<open>block.c\<close>, \<^verbatim>\<open>ide.c\<close>): reads and writes of sectors through any stack of drivers, over
    a disk image given as bytes; \<^theory_text>\<open>Partition\<close> (\<^verbatim>\<open>partition.c\<close>) scans the partition table and registers
    what it finds. What was written is read back, the byte offset wraps at 4 GiB, and an extended
    partition in the first half of the disk makes the scan recurse for ever.
  \<^item> \<^theory_text>\<open>Buffer_Cache\<close> (\<^verbatim>\<open>cache.c\<close>): the 64 slots and the clock. The locale of \<^theory_text>\<open>Sector_Store\<close> states
    what a store of sectors promises; the cache fulfils it whatever it evicts, and closing it brings
    the device up to date.
  \<^item> \<^theory_text>\<open>Bitmap\<close> (\<^verbatim>\<open>bitmap.c\<close>, \<^verbatim>\<open>round.h\<close>): 64-bit elements against the list of bits: first fit, disjoint
    allocations, loading and storing.
  \<^item> \<^theory_text>\<open>Inode_Layout\<close>, \<^theory_text>\<open>Inode_Content\<close>, \<^theory_text>\<open>Inode\<close>, \<^theory_text>\<open>Inode_Growth\<close> (\<^verbatim>\<open>inode.c\<close>): the inode on disk, the
    sectors of a file as an index and as a list, reading and writing by chunks, growth through
    \<open>inode_reserve\<close> with any allocator that fulfils the contract of the locale, and truncation. The code
    copies \<open>struct inode_disk\<close> as raw bytes; the layout of these 512 bytes, \<open>encode_inode\<close> and
    \<open>decode_inode\<close>, is the model's (fields in their order, little endian words).
  \<^item> \<^theory_text>\<open>Fs_State\<close>, \<^theory_text>\<open>File\<close>, \<^theory_text>\<open>Free_Map\<close> (\<^verbatim>\<open>file.c\<close>, \<^verbatim>\<open>free-map.c\<close>): the state, open files, the file table, and
    the free map, whose allocation writes the file it is stored in and so may call itself; its fuel
    bounds that nesting, and one level is proved to be enough. \<^theory_text>\<open>Storage\<close> proves what inodes and free
    map do together: growth fails only when sectors run out, which the contract of the allocator counts.
    \<^theory_text>\<open>Removal\<close>: closing a removed inode frees exactly the sectors of its index tree. \<^theory_text>\<open>Restart\<close>: the free
    map survives a shutdown and a start of the file system. \<^theory_text>\<open>Example\<close> is a small disk for the examples.
  \<^item> \<^theory_text>\<open>Directory\<close>, \<^theory_text>\<open>Filesys\<close> (\<^verbatim>\<open>directory.c\<close>, \<^verbatim>\<open>filesys.c\<close>): entries as bytes, paths, creation and removal;
    \<^theory_text>\<open>Naming\<close> shows that a directory is a finite map from names to sectors, and how paths split.
  \<^item> \<^theory_text>\<open>Fsutil\<close> (\<^verbatim>\<open>fsutil.c\<close>, \<^verbatim>\<open>fsutil2.c\<close>): the commands on files, with the files of the host as
    parameters and results. \<^theory_text>\<open>File_Commands\<close> shows that sequences of \<^verbatim>\<open>size\<close>, \<^verbatim>\<open>seek\<close>, \<^verbatim>\<open>read\<close>, \<^verbatim>\<open>write\<close>,
    \<^verbatim>\<open>cat\<close> and \<^verbatim>\<open>copy_out\<close> on open files act on a map from names to positions and contents.
  \<^item> \<^theory_text>\<open>Llist\<close> (\<^verbatim>\<open>list.c\<close>): the intrusive doubly linked lists on the heap of their links: sorting,
    reversal, ordered insertion, unique elements, extrema.

  \<^bold>\<open>The shell\<close>:
  \<^item> \<^theory_text>\<open>Outcome\<close>: results of the shell, and the functions of the C library it uses.
  \<^item> \<^theory_text>\<open>Linked_List\<close> (\<^verbatim>\<open>linked_list.c\<close>): the kernel's lists on explicit nodes; they are double-ended
    queues in the sense of the locale \<open>deque\<close>, and are sequences from here on.
  \<^item> \<^theory_text>\<open>Shell_Memory\<close> (\<^verbatim>\<open>shellmemory.c\<close>): 30 cells for frames, 90 for variables, as the Makefile sets them.
  \<^item> \<^theory_text>\<open>Process\<close>, \<^theory_text>\<open>Kernel\<close> (\<^verbatim>\<open>pcb.c\<close>, \<^verbatim>\<open>cpu.c\<close>, \<^verbatim>\<open>kernel.c\<close>): processes, pages, page faults and both schedulers.
    The parser is a parameter of the scheduler, because \<open>parseInput\<close> and the scheduler call each
    other; \<^theory_text>\<open>Shell\<close> (\<^verbatim>\<open>shell.c\<close>) ties the knot with fuel for the nesting of scripts, and
    \<^theory_text>\<open>Interpreter\<close> (\<^verbatim>\<open>interpreter.c\<close>) has every command. \<open>s_rounds\<close> of the environment bounds the rounds
    of a scheduler and the commands of a line.
  \<^item> \<^theory_text>\<open>Script_Lines\<close>, \<^theory_text>\<open>Script_Processes\<close>, \<^theory_text>\<open>Round_Robin\<close>, \<^theory_text>\<open>Script_Run\<close>: several scripts under round robin
    are executed in the order of an abstract queue of scripts (\<open>rr_order\<close>), one script alone in the
    order of its lines, whatever the frames, page tables, counters and page faults do. Two rounds a
    line, one a script and one more are enough, and the frames are free afterwards. The bounds, nine
    pages together and so 27 lines of one script, are those below which no page is evicted and freeing
    the last frame does not reach the variables. \<^theory_text>\<open>Script_Commands\<close>: from the text of a script of \<^verbatim>\<open>set\<close>
    and \<^verbatim>\<open>print\<close> commands to its effect, through the real parser.
  \<^item> \<^theory_text>\<open>Page_Faults\<close>: what a page fault does when all frames are in use, and that a process whose source
    file has no more lines, as after a last newline, faults for ever.
  \<^item> \<^theory_text>\<open>Shell_Safety\<close>: every line, of whatever script, is executed in a well-formed state, also in runs
    that do not return. The interface between scheduler, commands and parser is the locale
    \<open>safe_parser\<close>, which \<open>parseInput\<close> interprets; \<open>same_parser\<close> compares it with a parser that tests
    the state before every line.

  \<^bold>\<open>The earlier shells\<close>:
  \<^item> \<^theory_text>\<open>First_Shell\<close> (\<^verbatim>\<open>src/a1\<close>): variables, commands, parser and scripts of the first assignment. Setting a
    variable in one line and printing it in the next is proved through the parser.
  \<^item> \<^theory_text>\<open>Ready_Queue\<close>, \<^theory_text>\<open>Frame_Store\<close>, \<^theory_text>\<open>Second_Shell\<close> (\<^verbatim>\<open>src/a2\<close>): the ready queue on its nodes, the frame store
    with replacement of the least recently used frame, and kernel, commands and parser of the second
    assignment. The queue is proved to be a sequence, its sort to be one pass of bubble sort, and the
    replacement to take the frame that has not been used for the longest time. Functions of these
    shells that clash with those of \<^verbatim>\<open>src/a3\<close> have the suffix \<open>_a1\<close> or \<open>_a2\<close>. A function that ends
    without \<open>return\<close> yields a value of the environment.
  \<^item> \<^theory_text>\<open>Second_Run\<close>, \<^theory_text>\<open>Second_Commands\<close>: in the freshly started second shell, the line that runs a script of
    at most 69 commands (the lines of the 23 frames) executes them in order, with a bound for the
    loops above the number of lines, if the dead array of \<open>removeWhitespace\<close> is intact, and is undefined
    if reading it is; pages after the second come in by page faults.

  \<^theory_text>\<open>Prelude\<close> and \<^theory_text>\<open>Codec\<close> hold what the others share: the loop \<open>ofold\<close>, division as in C, little endian
  words, strings as bytes.

  \<^bold>\<open>Bounds.\<close> The free map is proved to end with fuel one; loops over sectors and directory entries end
  by a measure; the lists of \<^verbatim>\<open>list.c\<close> are partial functions, with proofs that they end on well-formed
  lists. The proof about scripts is for up to 27 lines: nine of the ten frames, because freeing a
  process clears two cells behind each of its frames, and for the tenth these are variables.

  \<^bold>\<open>Not modelled.\<close> What the code only prints (\<open>hex_dump\<close>, \<open>bitmap_dump\<close>, \<open>printShellMemory\<close>, texts of help
  and some messages); \<open>debug.c\<close>; the commands \<open>system\<close> hands to the host, which are a parameter; the
  pointers that a removed entry of the file table leaves behind; the client script and the disk
  images.
\<close>

end
